(* ===== verification/Prelude.thy ===== *)
theory Prelude
  imports Complex_Main "HOL-Library.Word" "HOL-Library.Char_ord" "HOL-Library.List_Lexorder"
begin

section \<open>Shared vocabulary of the DeskLink development\<close>

text \<open>
  What every component uses: names for Rust's types, the JSON values both crates exchange
  (the default build of \<open>serde_json\<close> keeps an object's keys sorted, so an object is an
  association list sorted by key), decimal and hexadecimal printing as \<open>format!\<close> does it,
  transition systems with their invariants, and generic facts on lists, options and maps.

  A Rust \<open>String\<close> is the list of its UTF-8 bytes, one \<^typ>\<open>char\<close> each: \<open>len()\<close> is
  \<^const>\<open>length\<close>, and \<open><\<close> on \<open>&str\<close> is the lexicographic order on \<^typ>\<open>string\<close>.
\<close>

named_theorems ops \<open>unfolding rules of the operations of a component\<close>
named_theorems wf_intros \<open>well-formedness is kept by the operations\<close>

subsection \<open>Types\<close>

type_synonym byte = "8 word"
type_synonym u64 = "64 word"

text \<open>\<open>Result<'a, 'e>\<close>: the error on the left.\<close>

type_synonym ('e, 'a) result = "'e + 'a"

text \<open>\<open>?\<close> on a \<open>Result\<close>, \<open>Result::map\<close> and \<open>Option::ok_or\<close>.\<close>

definition res_bind :: "('e, 'a) result \<Rightarrow> ('a \<Rightarrow> ('e, 'b) result) \<Rightarrow> ('e, 'b) result" where
  "res_bind r f = (case r of Inl e \<Rightarrow> Inl e | Inr x \<Rightarrow> f x)"

definition map_res :: "('a \<Rightarrow> 'b) \<Rightarrow> ('e, 'a) result \<Rightarrow> ('e, 'b) result" where
  "map_res f r = (case r of Inl e \<Rightarrow> Inl e | Inr x \<Rightarrow> Inr (f x))"

definition ok_or :: "'e \<Rightarrow> 'a option \<Rightarrow> ('e, 'a) result" where
  "ok_or e v = (case v of None \<Rightarrow> Inl e | Some x \<Rightarrow> Inr x)"

definition newline :: char where
  "newline = CHR 0x0A"

text \<open>\<open>i64\<close> and \<open>u64\<close> values read as integers.\<close>

definition is_i64 :: "int \<Rightarrow> bool" where
  "is_i64 i \<longleftrightarrow> - (2 ^ 63) \<le> i \<and> i < 2 ^ 63"

definition is_u64 :: "int \<Rightarrow> bool" where
  "is_u64 i \<longleftrightarrow> 0 \<le> i \<and> i < 2 ^ 64"

text \<open>\<open>i64::abs_diff\<close>, whose result is an unsigned number and never overflows.\<close>

definition abs_diff :: "int \<Rightarrow> int \<Rightarrow> nat" where
  "abs_diff a b = nat \<bar>a - b\<bar>"

subsection \<open>JSON values\<close>

text \<open>A number that is not an integer is kept as its text: no code modelled here reads one.\<close>

datatype json =
    JNull
  | JBool bool
  | JInt int
  | JFloat string
  | JStr string
  | JArr "json list"
  | JObj "(string \<times> json) list"

type_synonym jobject = "(string \<times> json) list"

text \<open>\<open>Map::insert\<close> and \<open>Map::get\<close> on the sorted association list.\<close>

fun obj_insert :: "string \<Rightarrow> 'v \<Rightarrow> (string \<times> 'v) list \<Rightarrow> (string \<times> 'v) list" where
  "obj_insert k v [] = [(k, v)]"
| "obj_insert k v ((k', v') # rest) =
     (if k < k' then (k, v) # (k', v') # rest
      else if k = k' then (k, v) # rest
      else (k', v') # obj_insert k v rest)"

definition obj_get :: "(string \<times> 'v) list \<Rightarrow> string \<Rightarrow> 'v option" where
  "obj_get obj k = map_of obj k"

text \<open>\<open>Value::as_bool\<close>, \<open>as_str\<close>, \<open>as_i64\<close>, \<open>as_u64\<close>, \<open>as_array\<close>, \<open>as_object\<close>.\<close>

fun as_bool :: "json \<Rightarrow> bool option" where
  "as_bool (JBool b) = Some b"
| "as_bool _ = None"

fun as_str :: "json \<Rightarrow> string option" where
  "as_str (JStr s) = Some s"
| "as_str _ = None"

fun as_i64 :: "json \<Rightarrow> int option" where
  "as_i64 (JInt i) = (if is_i64 i then Some i else None)"
| "as_i64 _ = None"

fun as_u64 :: "json \<Rightarrow> int option" where
  "as_u64 (JInt i) = (if is_u64 i then Some i else None)"
| "as_u64 _ = None"

fun as_array :: "json \<Rightarrow> json list option" where
  "as_array (JArr xs) = Some xs"
| "as_array _ = None"

fun as_object :: "json \<Rightarrow> jobject option" where
  "as_object (JObj m) = Some m"
| "as_object _ = None"

text \<open>\<open>Value::get\<close> with a string key: \<open>None\<close> on anything but an object.\<close>

fun json_get :: "json \<Rightarrow> string \<Rightarrow> json option" where
  "json_get (JObj m) k = obj_get m k"
| "json_get _ k = None"

subsection \<open>Printing numbers\<close>

definition digit_char :: "nat \<Rightarrow> char" where
  "digit_char d = (if d < 10 then char_of (48 + d) else char_of (87 + d))"

text \<open>\<open>format!("{n}")\<close> of an unsigned and of a signed integer.\<close>

fun show_nat :: "nat \<Rightarrow> string" where
  "show_nat n = (if n < 10 then [digit_char n] else show_nat (n div 10) @ [digit_char (n mod 10)])"

declare show_nat.simps [simp del]

definition show_int :: "int \<Rightarrow> string" where
  "show_int i = (if i < 0 then CHR ''-'' # show_nat (nat (- i)) else show_nat (nat i))"

text \<open>\<open>format!("{byte:02x}")\<close> of each byte.\<close>

definition hex_byte :: "byte \<Rightarrow> string" where
  "hex_byte b = [digit_char (unat b div 16), digit_char (unat b mod 16)]"

definition hex :: "byte list \<Rightarrow> string" where
  "hex bs = concat (map hex_byte bs)"

subsection \<open>Transition systems\<close>

text \<open>The states a system can reach from an initial state by its steps.\<close>

inductive reachable :: "('s \<Rightarrow> bool) \<Rightarrow> ('s \<Rightarrow> 's \<Rightarrow> bool) \<Rightarrow> 's \<Rightarrow> bool"
  for init :: "'s \<Rightarrow> bool" and step :: "'s \<Rightarrow> 's \<Rightarrow> bool" where
  reach_init: "init s \<Longrightarrow> reachable init step s"
| reach_step: "reachable init step s \<Longrightarrow> step s t \<Longrightarrow> reachable init step t"

lemma reachable_mono:
  "reachable init step s \<Longrightarrow> (\<And>s t. step s t \<Longrightarrow> step' s t) \<Longrightarrow> reachable init step' s"
  by (induction rule: reachable.induct) (auto intro: reachable.intros)

text \<open>A system and a predicate that its initial states satisfy and its steps keep.\<close>

locale invariant_system =
  fixes init :: "'s \<Rightarrow> bool"
    and step :: "'s \<Rightarrow> 's \<Rightarrow> bool"
    and inv :: "'s \<Rightarrow> bool"
  assumes inv_init: "init s \<Longrightarrow> inv s"
    and inv_step: "inv s \<Longrightarrow> step s t \<Longrightarrow> inv t"
begin

lemma reachable_inv:
  assumes "reachable init step s"
  shows "inv s"
  using assms by (induction rule: reachable.induct) (auto intro: inv_init inv_step)

lemma steps_inv:
  assumes "step\<^sup>*\<^sup>* s t" and "inv s"
  shows "inv t"
  using assms by (induction rule: rtranclp_induct) (auto intro: inv_step)

end

text \<open>An encoder with a decoder that undoes it: different values never share a text.\<close>

locale codec =
  fixes enc :: "'a \<Rightarrow> 't" and dec :: "'t \<Rightarrow> 'a option" and dom_ok :: "'a \<Rightarrow> bool"
  assumes dec_enc: "dom_ok x \<Longrightarrow> dec (enc x) = Some x"
begin

lemma enc_inj:
  assumes "dom_ok x" and "dom_ok y" and "enc x = enc y"
  shows "x = y"
proof -
  have "Some x = Some y"
    using dec_enc [OF assms(1)] dec_enc [OF assms(2)] by (simp only: assms(3))
  then show ?thesis by simp
qed

lemma dec_defined: "dom_ok x \<Longrightarrow> dec (enc x) \<noteq> None"
  by (simp add: dec_enc)

end

text \<open>
  An encoding that ends itself: what follows a value's text can be told from it, so a sequence of
  texts run together determines the values.
\<close>

locale self_delimiting =
  fixes enc :: "'a \<Rightarrow> 't list"
  assumes enc_split: "enc x @ r = enc y @ s \<Longrightarrow> x = y \<and> r = s"
    and enc_nonempty: "enc x \<noteq> []"
begin

lemma concat_enc_inj:
  assumes "concat (map enc xs) = concat (map enc ys)"
  shows "xs = ys"
  using assms
proof (induction xs arbitrary: ys)
  case Nil
  then show ?case by (cases ys) (auto simp: enc_nonempty)
next
  case (Cons x xs)
  then obtain y zs where ys: "ys = y # zs" by (cases ys) (auto simp: enc_nonempty)
  then have "enc x @ concat (map enc xs) = enc y @ concat (map enc zs)" using Cons.prems by simp
  from enc_split [OF this] show ?case using Cons.IH ys by blast
qed

end

subsection \<open>Lemmas on results\<close>

lemma res_simps [simp]:
  "res_bind (Inr x) f = f x" "res_bind (Inl e) f = Inl e" "map_res g (Inr x) = Inr (g x)"
  "map_res g (Inl e) = Inl e" "ok_or e (Some x) = Inr x" "ok_or e None = Inl e"
  by (simp_all add: res_bind_def map_res_def ok_or_def)

lemma res_Inr_iff:
  "res_bind r f = Inr y \<longleftrightarrow> (\<exists>x. r = Inr x \<and> f x = Inr y)"
  "map_res g r' = Inr y' \<longleftrightarrow> (\<exists>x. r' = Inr x \<and> y' = g x)"
  "ok_or e v = Inr z \<longleftrightarrow> v = Some z"
  by (auto simp: res_bind_def map_res_def ok_or_def split: sum.splits option.splits)

subsection \<open>Lemmas on objects\<close>

lemma obj_get_insert [simp]:
  "obj_get (obj_insert k v obj) k' = (if k' = k then Some v else obj_get obj k')"
  by (induction k v obj rule: obj_insert.induct) (auto simp: obj_get_def)

lemma obj_get_Nil [simp]: "obj_get [] k = None"
  by (simp add: obj_get_def)

definition obj_sorted :: "(string \<times> 'v) list \<Rightarrow> bool" where
  "obj_sorted obj = sorted_wrt (<) (map fst obj)"

lemma set_keys_obj_insert: "fst ` set (obj_insert k v obj) = insert k (fst ` set obj)"
  by (induction k v obj rule: obj_insert.induct) auto

lemma obj_sorted_insert [wf_intros]: "obj_sorted obj \<Longrightarrow> obj_sorted (obj_insert k v obj)"
proof (induction k v obj rule: obj_insert.induct)
  case (2 k v k' v' rest)
  have keys: "fst ` set (obj_insert k v rest) = insert k (fst ` set rest)"
    by (rule set_keys_obj_insert)
  show ?case
    using 2 keys by (force simp: obj_sorted_def)
qed (simp add: obj_sorted_def)

lemma length_obj_insert: "length (obj_insert k v m) \<le> Suc (length m)"
  by (induction k v m rule: obj_insert.induct) (auto simp: obj_insert.simps)

lemma length_obj_insert_known: "obj_sorted m \<Longrightarrow> obj_get m k \<noteq> None \<Longrightarrow> length (obj_insert k v m) = length m"
  by (induction k v m rule: obj_insert.induct)
    (auto simp: obj_insert.simps obj_get_def obj_sorted_def split: if_splits dest!: map_of_SomeD)

lemma obj_sorted_filter: "obj_sorted m \<Longrightarrow> obj_sorted (filter P m)"
  unfolding obj_sorted_def by (induction m) auto

lemma obj_get_filter_sorted:
  assumes "obj_sorted m"
  shows "obj_get (filter P m) k = (case obj_get m k of Some v \<Rightarrow> if P (k, v) then Some v else None | None \<Rightarrow> None)"
  using assms
proof (induction m)
  case (Cons kv m)
  obtain k' v' where kv: "kv = (k', v')" by (cases kv)
  have fresh: "map_of m k' = None" and rest: "obj_sorted m" using Cons.prems by (auto simp: obj_sorted_def kv map_of_eq_None_iff)
  have "map_of (filter P m) k' = None" using fresh by (auto simp: map_of_eq_None_iff)
  then show ?case using Cons.IH [OF rest] fresh by (auto simp: obj_get_def kv)
qed simp

declare obj_insert.simps [simp del]

subsection \<open>Lemmas on lists and printing\<close>

lemma split_at_first:
  assumes "xs @ c # ys = xs' @ c # ys'" and "c \<notin> set xs" and "c \<notin> set xs'"
  shows "xs = xs' \<and> ys = ys'"
  using assms
proof (induction xs arbitrary: xs')
  case Nil
  then show ?case by (cases xs') auto
next
  case (Cons x xs)
  then show ?case by (cases xs') auto
qed

definition digit_val :: "char \<Rightarrow> nat" where
  "digit_val c = (let n = of_char c in if n < 58 then n - 48 else n - 87)"

lemma digit_val_char: "d < 16 \<Longrightarrow> digit_val (digit_char d) = d"
  by (auto simp: digit_val_def digit_char_def Let_def)

lemma digit_char_inj:
  assumes "d < 16" and "e < 16" and "digit_char d = digit_char e"
  shows "d = e"
  using assms digit_val_char by metis

lemma set_show_nat: "set (show_nat n) \<subseteq> digit_char ` {..<10}"
  by (induction n rule: show_nat.induct) (subst show_nat.simps, auto)

lemma digit_char_code: "d < 10 \<Longrightarrow> of_char (digit_char d) = 48 + d"
  by (simp add: digit_char_def)

lemma show_nat_range:
  assumes "c \<in> set (show_nat n)"
  shows "48 \<le> (of_char c :: nat) \<and> (of_char c :: nat) < 58"
  using assms set_show_nat [of n] by (auto simp: digit_char_code)

definition read_nat :: "string \<Rightarrow> nat" where
  "read_nat s = foldl (\<lambda>n c. 10 * n + digit_val c) 0 s"

lemma read_show_nat: "read_nat (show_nat n) = n"
proof (induction n rule: show_nat.induct)
  case (1 n)
  then show ?case by (subst show_nat.simps) (simp add: read_nat_def digit_val_char)
qed

lemma show_nat_inj: "show_nat m = show_nat n \<Longrightarrow> m = n"
  using read_show_nat by metis

lemma show_nat_no_minus: "CHR ''-'' \<notin> set (show_nat n)"
  using show_nat_range [of "CHR ''-''" n] by auto

lemma show_int_inj:
  assumes "show_int i = show_int j"
  shows "i = j"
proof -
  have "show_nat n \<noteq> CHR ''-'' # s" for n s using show_nat_no_minus [of n] by auto
  then show ?thesis
    using assms show_nat_inj [of "nat i" "nat j"] show_nat_inj [of "nat (- i)" "nat (- j)"]
    by (auto simp: show_int_def split: if_splits) metis
qed

lemma show_int_no_newline: "newline \<notin> set (show_int i)"
  using show_nat_range [of newline] by (auto simp: show_int_def newline_def)

lemma digit_char_visible: "d < 16 \<Longrightarrow> digit_char d \<noteq> newline"
proof
  assume "d < 16" and "digit_char d = newline"
  then have "of_char (digit_char d) = (10 :: nat)" and "48 \<le> (of_char (digit_char d) :: nat)"
    by (simp add: newline_def) (use \<open>d < 16\<close> in \<open>auto simp: digit_char_def\<close>)
  then show False by simp
qed

lemma byte_high_nibble: "unat (b :: byte) div 16 < 16"
  using unsigned_less [of b, where 'a = nat] by simp

lemma hex_no_newline: "newline \<notin> set (hex bs)"
  using digit_char_visible [OF byte_high_nibble, symmetric] digit_char_visible [symmetric]
  by (auto simp: hex_def hex_byte_def)

lemma hex_byte_inj: "hex_byte a = hex_byte b \<Longrightarrow> a = b"
proof -
  assume eq: "hex_byte a = hex_byte b"
  have "unat a div 16 = unat b div 16" "unat a mod 16 = unat b mod 16"
    using eq digit_char_inj byte_high_nibble by (auto simp: hex_byte_def)
  then have "unat a = unat b" by (metis div_mult_mod_eq)
  then show "a = b" by (rule word_unat_eq_iff [THEN iffD2])
qed

lemma hex_inj: "hex as = hex bs \<Longrightarrow> as = bs"
proof (induction as arbitrary: bs)
  case Nil
  then show ?case by (cases bs) (auto simp: hex_def hex_byte_def)
next
  case (Cons a as)
  then obtain b bs' where bs: "bs = b # bs'" by (cases bs) (auto simp: hex_def hex_byte_def)
  then have "hex_byte a = hex_byte b" "hex as = hex bs'" using Cons.prems by (auto simp: hex_def hex_byte_def)
  then show ?case using Cons.IH hex_byte_inj by (simp add: bs)
qed

end
