(* ===== verification/Output_Ring.thy ===== *)
theory Output_Ring
  imports Prelude
begin

section \<open>The bounded output ring of a terminal session\<close>

text \<open>
  \<open>src/device_links/pty/ring.rs\<close>: the bytes a terminal produced, kept up to a capacity and
  addressed by absolute offsets. The ring is a list of chunks; a push extends the newest chunk
  or adds one and prunes from the front; \<open>since\<close> copies a bounded part out of the chunks.

  The locale \<open>output_log\<close> is what a terminal session relies on: a log of all the bytes ever
  pushed, of which a suffix is retained, and reads that return exactly a slice of that log. The
  ring is an instance of it, so a client that polls from its last offset sees each byte once.

  Offsets and sizes are \<^typ>\<open>nat\<close>: a session would have to produce \<open>2^64\<close> bytes before the
  source's \<open>u64\<close> head could wrap.
\<close>

definition CHUNK_TARGET :: nat where
  "CHUNK_TARGET = 4 * 1024"

definition RING_BYTES :: nat where
  "RING_BYTES = 256 * 1024"

record output_ring =
  ring_chunks :: "byte list list"
  ring_buffered :: nat
  ring_capacity :: nat
  ring_tail :: nat
  ring_head :: nat

definition ring_new :: "nat \<Rightarrow> output_ring" where
  "ring_new capacity =
     \<lparr>ring_chunks = [], ring_buffered = 0, ring_capacity = capacity, ring_tail = 0, ring_head = 0\<rparr>"

text \<open>The \<open>while self.buffered > self.capacity\<close> loop of \<open>push\<close>.\<close>

function ring_prune :: "output_ring \<Rightarrow> output_ring" where
  "ring_prune r =
     (if ring_buffered r > ring_capacity r then
        (case ring_chunks r of
           [] \<Rightarrow> r
         | front # rest \<Rightarrow>
             (let excess = ring_buffered r - ring_capacity r in
              if length front \<le> excess then
                ring_prune (r\<lparr>ring_chunks := rest,
                  ring_buffered := ring_buffered r - length front,
                  ring_tail := ring_tail r + length front\<rparr>)
              else
                ring_prune (r\<lparr>ring_chunks := drop excess front # rest,
                  ring_buffered := ring_buffered r - excess,
                  ring_tail := ring_tail r + excess\<rparr>)))
      else r)"
  by pat_completeness auto
termination
  by (relation "measures [\<lambda>r. length (ring_chunks r), \<lambda>r. ring_buffered r - ring_capacity r]") auto

declare ring_prune.simps [simp del]

text \<open>The bytes appended to the newest chunk, or a chunk of their own.\<close>

definition ring_append :: "byte list list \<Rightarrow> byte list \<Rightarrow> byte list list" where
  "ring_append chunks bytes =
     (if chunks \<noteq> [] \<and> length (last chunks) + length bytes \<le> CHUNK_TARGET
      then butlast chunks @ [last chunks @ bytes]
      else chunks @ [bytes])"

definition ring_push :: "output_ring \<Rightarrow> byte list \<Rightarrow> output_ring" where
  "ring_push r bytes =
     (if bytes = [] then r
      else ring_prune (r\<lparr>ring_head := ring_head r + length bytes,
             ring_chunks := ring_append (ring_chunks r) bytes,
             ring_buffered := ring_buffered r + length bytes\<rparr>))"

text \<open>The loop of \<open>since\<close> over the chunks, with its \<open>skip\<close> and \<open>out\<close>.\<close>

fun ring_collect :: "byte list list \<Rightarrow> nat \<Rightarrow> nat \<Rightarrow> byte list \<Rightarrow> byte list" where
  "ring_collect [] skip wanted out = out"
| "ring_collect (chunk # chunks) skip wanted out =
     (if length chunk \<le> skip then ring_collect chunks (skip - length chunk) wanted out
      else
        (let n = min (length chunk - skip) (wanted - length out);
             out' = out @ take n (drop skip chunk)
         in if length out' = wanted then out' else ring_collect chunks 0 wanted out'))"

definition ring_since :: "output_ring \<Rightarrow> nat \<Rightarrow> nat \<Rightarrow> byte list option" where
  "ring_since r offset limit =
     (if offset > ring_head r \<or> offset < ring_tail r then None
      else
        (let wanted = min (ring_head r - offset) limit in
         if wanted = 0 then Some []
         else Some (ring_collect (ring_chunks r) (offset - ring_tail r) wanted [])))"

text \<open>A session's life: the ring after a sequence of reads from the terminal.\<close>

definition ring_pushes :: "output_ring \<Rightarrow> byte list list \<Rightarrow> output_ring" where
  "ring_pushes r ws = foldl ring_push r ws"

subsection \<open>What a session relies on\<close>

text \<open>
  \<open>hist\<close> is every byte pushed so far and \<open>oldest\<close> the offset of the first one retained.
\<close>

locale output_log =
  fixes push :: "'r \<Rightarrow> byte list \<Rightarrow> 'r"
    and since :: "'r \<Rightarrow> nat \<Rightarrow> nat \<Rightarrow> byte list option"
    and ok :: "'r \<Rightarrow> byte list \<Rightarrow> bool"
    and oldest :: "'r \<Rightarrow> nat"
  assumes ok_push: "ok r hist \<Longrightarrow> ok (push r ws) (hist @ ws)"
    and since_slice: "ok r hist \<Longrightarrow>
      since r offset limit =
        (if oldest r \<le> offset \<and> offset \<le> length hist
         then Some (take limit (drop offset hist)) else None)"
begin

lemma ok_pushes: "ok r hist \<Longrightarrow> ok (foldl push r wss) (hist @ concat wss)"
proof (induction wss arbitrary: r hist)
  case (Cons ws wss)
  have "ok (foldl push (push r ws) wss) ((hist @ ws) @ concat wss)"
    by (rule Cons.IH [OF ok_push [OF Cons.prems]])
  then show ?case by simp
qed simp

text \<open>Two reads in a row, the second from where the first stopped, are one longer read.\<close>

lemma since_resume:
  assumes "ok r hist" and "since r offset n = Some xs"
  shows "\<exists>ys. since r (offset + length xs) m = Some ys \<and> since r offset (length xs + m) = Some (xs @ ys)"
proof -
  from assms have bounds: "oldest r \<le> offset" "offset \<le> length hist"
    and xs: "xs = take n (drop offset hist)"
    by (auto simp: since_slice split: if_splits)
  have len: "length xs \<le> length hist - offset"
    by (simp add: xs)
  have split: "take (length xs + m) (drop offset hist)
      = xs @ take m (drop (offset + length xs) hist)"
  proof -
    have "take (length xs) (drop offset hist) = xs"
      by (simp add: xs min_def)
    then show ?thesis
      using take_add [of "length xs" m "drop offset hist"] by (simp add: add.commute)
  qed
  show ?thesis
    using assms(1) bounds len split by (auto simp: since_slice)
qed

end

subsection \<open>The ring is such a log\<close>

text \<open>The ring represents a history: it holds the history from its tail on.\<close>

definition ring_ok :: "output_ring \<Rightarrow> byte list \<Rightarrow> bool" where
  "ring_ok r hist \<longleftrightarrow>
     ring_head r = length hist \<and>
     ring_buffered r = length (concat (ring_chunks r)) \<and>
     ring_tail r + ring_buffered r = ring_head r \<and>
     ring_tail r = length hist - ring_capacity r \<and>
     concat (ring_chunks r) = drop (ring_tail r) hist"

text \<open>The same without the bound, as it stands while a push is still pruning.\<close>

definition ring_mid :: "output_ring \<Rightarrow> byte list \<Rightarrow> bool" where
  "ring_mid r hist \<longleftrightarrow>
     ring_head r = length hist \<and>
     ring_buffered r = length (concat (ring_chunks r)) \<and>
     ring_tail r + ring_buffered r = ring_head r \<and>
     ring_tail r \<le> length hist - ring_capacity r \<and>
     concat (ring_chunks r) = drop (ring_tail r) hist"

lemma ring_prune_capacity [simp]: "ring_capacity (ring_prune r) = ring_capacity r"
proof (induction r rule: ring_prune.induct)
  case (1 r)
  then show ?case
    by (subst ring_prune.simps) (auto split: list.splits simp: Let_def)
qed

lemma ring_prune_ok: "ring_mid r hist \<Longrightarrow> ring_ok (ring_prune r) hist"
proof (induction r rule: ring_prune.induct)
  case (1 r)
  show ?case
  proof (cases "ring_buffered r > ring_capacity r")
    case False
    with "1.prems" show ?thesis
      by (subst ring_prune.simps) (auto simp: ring_mid_def ring_ok_def)
  next
    case True
    then obtain front rest where chunks: "ring_chunks r = front # rest"
      using "1.prems" by (cases "ring_chunks r") (auto simp: ring_mid_def)
    let ?excess = "ring_buffered r - ring_capacity r"
    have hist: "front @ concat rest = drop (ring_tail r) hist"
      using "1.prems" chunks by (simp add: ring_mid_def)
    have rest: "concat rest = drop (length front + ring_tail r) hist"
      by (metis append_eq_conv_conj drop_drop hist)
    have trimmed: "drop n front @ concat rest = drop (n + ring_tail r) hist"
      if "n < length front" for n
      using that by (simp add: drop_drop [symmetric] hist [symmetric] del: drop_drop)
    show ?thesis
    proof (cases "length front \<le> ?excess")
      case pop: True
      have "ring_mid (r\<lparr>ring_chunks := rest, ring_buffered := ring_buffered r - length front,
          ring_tail := ring_tail r + length front\<rparr>) hist"
        using "1.prems" chunks True pop by (auto simp: ring_mid_def add.commute intro: rest)
      from "1.IH"(1) [OF True chunks refl pop this] show ?thesis
        using True chunks pop by (subst ring_prune.simps) (simp add: Let_def)
    next
      case trim: False
      have "ring_mid (r\<lparr>ring_chunks := drop ?excess front # rest,
          ring_buffered := ring_buffered r - ?excess, ring_tail := ring_tail r + ?excess\<rparr>) hist"
        using "1.prems" chunks True trim trimmed [of ?excess]
        by (auto simp: ring_mid_def add.commute)
      from "1.IH"(2) [OF True chunks refl trim this] show ?thesis
        using True chunks trim by (subst ring_prune.simps) (simp add: Let_def)
    qed
  qed
qed

lemma concat_ring_append: "concat (ring_append chunks bytes) = concat chunks @ bytes"
proof (cases chunks rule: rev_cases)
  case (snoc ys y)
  then show ?thesis by (simp add: ring_append_def)
qed (simp add: ring_append_def)

lemma ring_push_capacity [simp]: "ring_capacity (ring_push r bytes) = ring_capacity r"
  by (simp add: ring_push_def)

lemma ring_push_ok: "ring_ok r hist \<Longrightarrow> ring_ok (ring_push r bytes) (hist @ bytes)"
  by (cases "bytes = []")
    (auto simp: ring_push_def ring_ok_def [of r] ring_mid_def concat_ring_append
      intro!: ring_prune_ok)

lemma ring_collect_slice:
  assumes "length out < wanted" and "wanted - length out \<le> length (concat chunks) - skip"
  shows "ring_collect chunks skip wanted out =
           out @ take (wanted - length out) (drop skip (concat chunks))"
  using assms
proof (induction chunks skip wanted out rule: ring_collect.induct)
  case (2 chunk chunks skip wanted out)
  show ?case
  proof (cases "length chunk \<le> skip")
    case True
    with 2 show ?thesis by simp
  next
    case False
    define n where "n = min (length chunk - skip) (wanted - length out)"
    define out' where "out' = out @ take n (drop skip chunk)"
    have len: "length out' = length out + n"
      by (simp add: out'_def n_def)
    show ?thesis
    proof (cases "length out' = wanted")
      case True
      with False 2(3) len show ?thesis
        by (auto simp: Let_def n_def [symmetric] out'_def n_def min_def split: if_splits)
    next
      case more: False
      then have n: "n = length chunk - skip" "wanted - length out' = wanted - length out - n"
        using len 2(3) by (auto simp: n_def min_def split: if_splits)
      have lt: "length out' < wanted"
        using more len 2(3) by (simp add: n_def min_def split: if_splits)
      have "ring_collect chunks 0 wanted out'
          = out' @ take (wanted - length out') (concat chunks)"
        using "2.IH"(2) [OF False n_def out'_def more lt] 2(4) False n len by simp
      moreover have "take (wanted - length out) (drop skip (concat (chunk # chunks)))
          = take n (drop skip chunk) @ take (wanted - length out') (concat chunks)"
        using False n len lt by (simp add: out'_def)
      ultimately show ?thesis
        using False more by (simp add: Let_def n_def [symmetric] out'_def [symmetric])
          (simp add: out'_def)
    qed
  qed
qed simp

lemma ring_since_slice:
  assumes "ring_ok r hist"
  shows "ring_since r offset limit =
     (if ring_tail r \<le> offset \<and> offset \<le> length hist
      then Some (take limit (drop offset hist)) else None)"
proof -
  have "ring_collect (ring_chunks r) (offset - ring_tail r) (min (ring_head r - offset) limit) []
      = take limit (drop offset hist)"
    if "ring_tail r \<le> offset" "offset \<le> length hist" "0 < min (ring_head r - offset) limit"
    using that assms by (subst ring_collect_slice) (auto simp: ring_ok_def min_def)
  then show ?thesis
    using assms by (auto simp: ring_since_def Let_def ring_ok_def min_def split: if_splits)
qed

interpretation ring: output_log ring_push ring_since ring_ok ring_tail
  by unfold_locales (rule ring_push_ok, assumption, rule ring_since_slice)

lemma ring_new_ok: "ring_ok (ring_new capacity) []"
  by (simp add: ring_ok_def ring_new_def)

lemma ring_pushes_ok: "ring_ok (ring_pushes (ring_new capacity) ws) (concat ws)"
  using ring.ok_pushes [OF ring_new_ok] by (simp add: ring_pushes_def)

lemma ring_pushes_capacity [simp]: "ring_capacity (ring_pushes r ws) = ring_capacity r"
  unfolding ring_pushes_def by (induction ws arbitrary: r) simp_all

lemma ring_tail_pushes: "ring_tail (ring_pushes (ring_new c) ws) = length (concat ws) - c"
  using ring_pushes_ok [of c ws] ring_pushes_capacity [of "ring_new c" ws]
  by (simp add: ring_ok_def ring_new_def)

subsection \<open>Properties\<close>

text \<open>
  C33. After any sequence of reads from the terminal, \<open>since\<close> answers every request exactly: an
  offset among the last \<open>capacity\<close> bytes (or the end) gives the next bytes of the output, up to
  the limit, and any other offset is refused.
\<close>

theorem ring_since_exact:
  "ring_since (ring_pushes (ring_new capacity) ws) offset limit =
     (if length (concat ws) - capacity \<le> offset \<and> offset \<le> length (concat ws)
      then Some (take limit (drop offset (concat ws))) else None)"
  by (simp add: ring.since_slice [OF ring_pushes_ok] ring_tail_pushes)

text \<open>
  A client that reads on from where its last read ended misses nothing and repeats nothing:
  the two reads put together are one read over both.
\<close>

lemma ring_reads_resume:
  assumes "ring_since (ring_pushes (ring_new capacity) ws) offset n = Some xs"
  shows "\<exists>ys. ring_since (ring_pushes (ring_new capacity) ws) (offset + length xs) m = Some ys
    \<and> ring_since (ring_pushes (ring_new capacity) ws) offset (length xs + m) = Some (xs @ ys)"
  by (rule ring.since_resume [OF ring_pushes_ok assms])

end
