(* ===== verification/Relay_Protocol.thy ===== *)
theory Relay_Protocol
  imports Prelude
begin

section \<open>Relay protocol v1\<close>

text \<open>
  \<open>relay/src/protocol.rs\<close>: the constants, the two message enums and their JSON shapes. The
  shapes are what the \<open>serde\<close> attributes of the source declare (the tag \<open>t\<close>, camel-case
  variant names, the renamed fields \<open>minV\<close> and \<open>iceServers\<close>, kebab-case error codes, an
  absent or \<open>null\<close> optional field read as \<open>None\<close>, unknown fields ignored). Each enum is
  serialised and deserialised by the two apps, and the two directions are inverse to each other.
\<close>

subsection \<open>Constants\<close>

definition PROTOCOL_VERSION :: "32 word" where "PROTOCOL_VERSION = 1"
definition MIN_PROTOCOL_VERSION :: "32 word" where "MIN_PROTOCOL_VERSION = 1"
definition AUTH_CONTEXT :: string where "AUTH_CONTEXT = ''desklink-relay-auth-v1''"
definition CLOSE_BAD_REQUEST :: nat where "CLOSE_BAD_REQUEST = 4400"
definition CLOSE_UNAUTHORIZED :: nat where "CLOSE_UNAUTHORIZED = 4401"
definition CLOSE_REPLACED :: nat where "CLOSE_REPLACED = 4409"
definition CLOSE_UPGRADE_REQUIRED :: nat where "CLOSE_UPGRADE_REQUIRED = 4426"
definition CLOSE_RATE_LIMITED :: nat where "CLOSE_RATE_LIMITED = 4429"
definition MAX_ALLOW :: nat where "MAX_ALLOW = 32"

text \<open>The exact text a client signs to answer a challenge.\<close>

definition auth_sign_input :: "string \<Rightarrow> string \<Rightarrow> string" where
  "auth_sign_input nonce public_host =
     AUTH_CONTEXT @ [newline] @ nonce @ [newline] @ public_host"

subsection \<open>Messages\<close>

record ice_server =
  ice_urls :: "string list"
  ice_username :: "string option"
  ice_credential :: "string option"

datatype error_code = Offline | NotAllowed | TurnDenied | TurnQuotaExceeded

datatype client_message =
    Auth (auth_v: "32 word") (auth_cert: string) (auth_sig: string)
  | Allow (allow_fps: "string list")
  | Send (send_to: string) (send_data: json)
  | Turn (turn_peer: string)

datatype server_message =
    Challenge "32 word" "32 word" string
  | Welcome string
  | Presence string bool
  | Msg string json
  | TurnCreds string "ice_server list" "64 word"
  | Error error_code string

subsection \<open>JSON shapes\<close>

fun error_code_name :: "error_code \<Rightarrow> string" where
  "error_code_name Offline = ''offline''"
| "error_code_name NotAllowed = ''not-allowed''"
| "error_code_name TurnDenied = ''turn-denied''"
| "error_code_name TurnQuotaExceeded = ''turn-quota''"

definition error_code_of_name :: "string \<Rightarrow> error_code option" where
  "error_code_of_name s =
     (if s = ''offline'' then Some Offline
      else if s = ''not-allowed'' then Some NotAllowed
      else if s = ''turn-denied'' then Some TurnDenied
      else if s = ''turn-quota'' then Some TurnQuotaExceeded
      else None)"

definition opt_str_field :: "string \<Rightarrow> string option \<Rightarrow> jobject" where
  "opt_str_field k v = (case v of None \<Rightarrow> [] | Some s \<Rightarrow> [(k, JStr s)])"

definition ice_server_to_json :: "ice_server \<Rightarrow> json" where
  "ice_server_to_json s =
     JObj ([(''urls'', JArr (map JStr (ice_urls s)))]
       @ opt_str_field ''username'' (ice_username s)
       @ opt_str_field ''credential'' (ice_credential s))"

definition client_message_to_json :: "client_message \<Rightarrow> json" where
  "client_message_to_json m =
     (case m of
        Auth v cert sig \<Rightarrow> JObj [(''t'', JStr ''auth''), (''v'', JInt (uint v)),
          (''cert'', JStr cert), (''sig'', JStr sig)]
      | Allow fps \<Rightarrow> JObj [(''t'', JStr ''allow''), (''fps'', JArr (map JStr fps))]
      | Send to data \<Rightarrow> JObj [(''t'', JStr ''send''), (''to'', JStr to), (''data'', data)]
      | Turn peer \<Rightarrow> JObj [(''t'', JStr ''turn''), (''peer'', JStr peer)])"

definition server_message_to_json :: "server_message \<Rightarrow> json" where
  "server_message_to_json m =
     (case m of
        Challenge v min_v nonce \<Rightarrow> JObj [(''t'', JStr ''challenge''), (''v'', JInt (uint v)),
          (''minV'', JInt (uint min_v)), (''nonce'', JStr nonce)]
      | Welcome fp \<Rightarrow> JObj [(''t'', JStr ''welcome''), (''fp'', JStr fp)]
      | Presence fp online \<Rightarrow>
          JObj [(''t'', JStr ''presence''), (''fp'', JStr fp), (''online'', JBool online)]
      | Msg from data \<Rightarrow> JObj [(''t'', JStr ''msg''), (''from'', JStr from), (''data'', data)]
      | TurnCreds peer servers ttl \<Rightarrow> JObj [(''t'', JStr ''turnCreds''), (''peer'', JStr peer),
          (''iceServers'', JArr (map ice_server_to_json servers)), (''ttl'', JInt (uint ttl))]
      | Error code to \<Rightarrow> JObj [(''t'', JStr ''error''), (''code'', JStr (error_code_name code)),
          (''to'', JStr to)])"

subsubsection \<open>Reading the fields\<close>

definition str_field :: "json \<Rightarrow> string \<Rightarrow> string option" where
  "str_field v k = Option.bind (json_get v k) as_str"

definition u32_field :: "json \<Rightarrow> string \<Rightarrow> 32 word option" where
  "u32_field v k =
     (case json_get v k of
        Some (JInt i) \<Rightarrow> if 0 \<le> i \<and> i < 2 ^ 32 then Some (word_of_int i) else None
      | _ \<Rightarrow> None)"

definition u64_field :: "json \<Rightarrow> string \<Rightarrow> 64 word option" where
  "u64_field v k =
     (case json_get v k of
        Some (JInt i) \<Rightarrow> if is_u64 i then Some (word_of_int i) else None
      | _ \<Rightarrow> None)"

text \<open>Every element of an array must parse.\<close>

fun all_some :: "('a \<Rightarrow> 'b option) \<Rightarrow> 'a list \<Rightarrow> 'b list option" where
  "all_some f [] = Some []"
| "all_some f (x # xs) =
     (case f x of None \<Rightarrow> None
      | Some y \<Rightarrow> (case all_some f xs of None \<Rightarrow> None | Some ys \<Rightarrow> Some (y # ys)))"

definition strs_field :: "json \<Rightarrow> string \<Rightarrow> string list option" where
  "strs_field v k = Option.bind (Option.bind (json_get v k) as_array) (all_some as_str)"

text \<open>An optional field: absent and \<open>null\<close> are \<open>None\<close>, anything but a text is an error.\<close>

definition opt_str :: "json \<Rightarrow> string \<Rightarrow> string option option" where
  "opt_str v k =
     (case json_get v k of
        None \<Rightarrow> Some None
      | Some JNull \<Rightarrow> Some None
      | Some (JStr s) \<Rightarrow> Some (Some s)
      | Some _ \<Rightarrow> None)"

definition ice_server_of_json :: "json \<Rightarrow> ice_server option" where
  "ice_server_of_json v =
     (case (strs_field v ''urls'', opt_str v ''username'', opt_str v ''credential'') of
        (Some us, Some u, Some c) \<Rightarrow>
          Some \<lparr>ice_urls = us, ice_username = u, ice_credential = c\<rparr>
      | _ \<Rightarrow> None)"

definition client_message_of_json :: "json \<Rightarrow> client_message option" where
  "client_message_of_json v =
     (case str_field v ''t'' of
        None \<Rightarrow> None
      | Some t \<Rightarrow>
          if t = ''auth'' then
            (case (u32_field v ''v'', str_field v ''cert'', str_field v ''sig'') of
               (Some n, Some cert, Some sig) \<Rightarrow> Some (Auth n cert sig) | _ \<Rightarrow> None)
          else if t = ''allow'' then map_option Allow (strs_field v ''fps'')
          else if t = ''send'' then
            (case (str_field v ''to'', json_get v ''data'') of
               (Some to, Some data) \<Rightarrow> Some (Send to data) | _ \<Rightarrow> None)
          else if t = ''turn'' then map_option Turn (str_field v ''peer'')
          else None)"

definition server_message_of_json :: "json \<Rightarrow> server_message option" where
  "server_message_of_json v =
     (case str_field v ''t'' of
        None \<Rightarrow> None
      | Some t \<Rightarrow>
          if t = ''challenge'' then
            (case (u32_field v ''v'', u32_field v ''minV'', str_field v ''nonce'') of
               (Some n, Some m, Some nonce) \<Rightarrow> Some (Challenge n m nonce) | _ \<Rightarrow> None)
          else if t = ''welcome'' then map_option Welcome (str_field v ''fp'')
          else if t = ''presence'' then
            (case (str_field v ''fp'', Option.bind (json_get v ''online'') as_bool) of
               (Some fp, Some b) \<Rightarrow> Some (Presence fp b) | _ \<Rightarrow> None)
          else if t = ''msg'' then
            (case (str_field v ''from'', json_get v ''data'') of
               (Some from, Some data) \<Rightarrow> Some (Msg from data) | _ \<Rightarrow> None)
          else if t = ''turnCreds'' then
            (case (str_field v ''peer'',
                   Option.bind (Option.bind (json_get v ''iceServers'') as_array)
                     (all_some ice_server_of_json),
                   u64_field v ''ttl'') of
               (Some peer, Some servers, Some ttl) \<Rightarrow> Some (TurnCreds peer servers ttl)
             | _ \<Rightarrow> None)
          else if t = ''error'' then
            (case (Option.bind (str_field v ''code'') error_code_of_name, str_field v ''to'') of
               (Some code, Some to) \<Rightarrow> Some (Error code to) | _ \<Rightarrow> None)
          else None)"

subsection \<open>Round trips\<close>

lemma all_some_map: "(\<And>x. f (g x) = Some x) \<Longrightarrow> all_some f (map g xs) = Some xs"
  by (induction xs) auto

lemma uint_u32 [simp]: "0 \<le> uint (v :: 32 word)" "uint (v :: 32 word) < 4294967296"
  using uint_bounded [of v] by simp_all

lemma is_u64_uint [simp]: "is_u64 (uint (v :: 64 word))"
  using uint_bounded [of v] by (simp add: is_u64_def)

lemma error_code_roundtrip: "error_code_of_name (error_code_name c) = Some c"
  by (cases c) (simp_all add: error_code_of_name_def)

lemmas wire_fields = str_field_def u32_field_def u64_field_def strs_field_def opt_str_def
  obj_get_def opt_str_field_def

lemma ice_server_roundtrip: "ice_server_of_json (ice_server_to_json s) = Some s"
  by (cases s)
    (auto simp: ice_server_of_json_def ice_server_to_json_def wire_fields all_some_map
      split: option.splits)

lemma client_roundtrip: "client_message_of_json (client_message_to_json m) = Some m"
  by (cases m)
    (simp_all add: client_message_of_json_def client_message_to_json_def wire_fields all_some_map)

lemma server_roundtrip: "server_message_of_json (server_message_to_json m) = Some m"
  by (cases m)
    (simp_all add: server_message_of_json_def server_message_to_json_def wire_fields all_some_map
      ice_server_roundtrip error_code_roundtrip)

interpretation client_wire: codec client_message_to_json client_message_of_json "\<lambda>_. True"
  by unfold_locales (rule client_roundtrip)

interpretation server_wire: codec server_message_to_json server_message_of_json "\<lambda>_. True"
  by unfold_locales (rule server_roundtrip)

text \<open>
  The signed text is unambiguous: the nonce is base64url and the host a DNS name, so neither
  holds a line break, and a signature is for one nonce and one host only.
\<close>

lemma auth_sign_input_inj:
  assumes "auth_sign_input n h = auth_sign_input n' h'"
    and "newline \<notin> set n" and "newline \<notin> set n'"
  shows "n = n' \<and> h = h'"
  using assms by (auto simp: auth_sign_input_def dest: split_at_first)

subsection \<open>Properties\<close>

text \<open>
  Every message of the relay protocol, of either side, is read back as it was written, and
  two messages with the same JSON are the same message.
\<close>

lemma relay_messages_roundtrip:
  "client_message_of_json (client_message_to_json m) = Some m
   \<and> server_message_of_json (server_message_to_json n) = Some n
   \<and> inj client_message_to_json \<and> inj server_message_to_json"
  by (auto simp: client_roundtrip server_roundtrip inj_def intro: client_wire.enc_inj server_wire.enc_inj)

text \<open>
  The text a client signs names one nonce and one relay: no signature made for a challenge
  answers another nonce or another host.
\<close>

lemma auth_sign_input_unambiguous:
  assumes "auth_sign_input n h = auth_sign_input n' h'"
    and "newline \<notin> set n" and "newline \<notin> set n'"
  shows "n = n' \<and> h = h'"
  by (rule auth_sign_input_inj [OF assms])

end
