(* ===== verification/Relay_Limits.thy ===== *)
theory Relay_Limits
  imports Prelude
begin

section \<open>Rate limits, connection caps and the TURN quota of the relay\<close>

text \<open>
  \<open>relay/src/limits.rs\<close> and the \<open>Limits\<close> of \<open>relay/src/config.rs\<close>. Token buckets over
  time, the two tiers an IPv6 client is counted under, the connection counts per network and
  over all, and the daily TURN quota with its refunds.

  An \<open>Instant\<close> is a number of nanoseconds from a fixed origin; \<open>f64\<close> is \<^typ>\<open>real\<close> (the
  theorems are about exact arithmetic, rounding is not modelled); the counters are \<^typ>\<open>nat\<close>,
  and every counter is bounded by a configured \<open>usize\<close> or \<open>u32\<close>, so none of them can wrap.
  The SHA-256 of \<open>openssl\<close> is the parameter \<open>digest\<close>, the salt it draws an argument.
\<close>

type_synonym instant = nat

definition secs_f64 :: "nat \<Rightarrow> real" where
  "secs_f64 nanos = real nanos / 10 ^ 9"

subsection \<open>Configured limits\<close>

record limits =
  msgs_per_sec :: real
  msgs_burst :: real
  bytes_per_sec :: real
  max_frame_bytes :: nat
  connections_per_ipv4 :: nat
  connections_per_ipv6_64 :: nat
  auths_per_min_ipv4 :: real
  auths_per_min_ipv6_64 :: real
  connections_per_ipv6_48 :: nat
  auths_per_min_ipv6_48 :: real
  global_connections :: nat
  unauthenticated_share :: real
  turn_per_pair_per_day :: nat
  turn_per_network_per_day :: nat
  turn_per_ipv6_48_per_day :: nat

definition limits_default :: limits where
  "limits_default =
     \<lparr>msgs_per_sec = 20, msgs_burst = 100, bytes_per_sec = 256 * 1024,
      max_frame_bytes = 512 * 1024, connections_per_ipv4 = 64, connections_per_ipv6_64 = 8,
      auths_per_min_ipv4 = 300, auths_per_min_ipv6_64 = 30, connections_per_ipv6_48 = 32,
      auths_per_min_ipv6_48 = 120, global_connections = 10000, unauthenticated_share = 1 / 2,
      turn_per_pair_per_day = 20, turn_per_network_per_day = 48,
      turn_per_ipv6_48_per_day = 192\<rparr>"

subsection \<open>Token buckets\<close>

record token_bucket =
  tb_rate :: real
  tb_capacity :: real
  tb_tokens :: real
  tb_last :: instant

definition bucket_new :: "real \<Rightarrow> real \<Rightarrow> instant \<Rightarrow> token_bucket" where
  "bucket_new rate_per_sec capacity now =
     \<lparr>tb_rate = rate_per_sec, tb_capacity = capacity, tb_tokens = capacity, tb_last = now\<rparr>"

definition refill :: "token_bucket \<Rightarrow> instant \<Rightarrow> token_bucket" where
  "refill b now =
     b\<lparr>tb_tokens := min (tb_tokens b + secs_f64 (now - tb_last b) * tb_rate b) (tb_capacity b),
       tb_last := max (tb_last b) now\<rparr>"

definition take_tokens :: "token_bucket \<Rightarrow> real \<Rightarrow> instant \<Rightarrow> bool \<times> token_bucket" where
  "take_tokens b cost now =
     (let b' = refill b now in
      if tb_tokens b' < cost then (False, b')
      else (True, b'\<lparr>tb_tokens := tb_tokens b' - cost\<rparr>))"

definition is_full :: "token_bucket \<Rightarrow> instant \<Rightarrow> bool \<times> token_bucket" where
  "is_full b now = (let b' = refill b now in (tb_capacity b' \<le> tb_tokens b', b'))"

subsection \<open>Network keys\<close>

datatype ip_addr = IpV4 "32 word" | IpV6 "128 word"

datatype net_key = V4 "32 word" | V6Prefix "64 word" | V6Wide "64 word"

text \<open>\<open>IpAddr::to_canonical\<close>: \<open>::ffff:a.b.c.d\<close> is the IPv4 address \<open>a.b.c.d\<close>.\<close>

fun to_canonical :: "ip_addr \<Rightarrow> ip_addr" where
  "to_canonical (IpV4 a) = IpV4 a"
| "to_canonical (IpV6 a) = (if drop_bit 32 a = 0xFFFF then IpV4 (ucast a) else IpV6 a)"

definition net_key_of :: "ip_addr \<Rightarrow> net_key" where
  "net_key_of ip =
     (case to_canonical ip of
        IpV4 v4 \<Rightarrow> V4 v4
      | IpV6 v6 \<Rightarrow> V6Prefix (ucast (drop_bit 64 v6)))"

fun tiers :: "net_key \<Rightarrow> net_key list" where
  "tiers (V6Prefix p) = [V6Prefix p, V6Wide (drop_bit 16 p)]"
| "tiers k = [k]"

text \<open>\<open>Display\<close>: dotted decimal, or the prefix in hexadecimal padded to its width.\<close>

fun show_hex :: "nat \<Rightarrow> string" where
  "show_hex n = (if n < 16 then [digit_char n] else show_hex (n div 16) @ [digit_char (n mod 16)])"

declare show_hex.simps [simp del]

definition hex_pad :: "nat \<Rightarrow> nat \<Rightarrow> string" where
  "hex_pad width n = (let s = show_hex n in replicate (width - length s) (CHR ''0'') @ s)"

definition show_ipv4 :: "32 word \<Rightarrow> string" where
  "show_ipv4 a =
     (let n = unat a in
      show_nat (n div 2 ^ 24) @ ''.'' @ show_nat (n div 2 ^ 16 mod 256) @ ''.'' @
      show_nat (n div 2 ^ 8 mod 256) @ ''.'' @ show_nat (n mod 256))"

fun show_net_key :: "net_key \<Rightarrow> string" where
  "show_net_key (V4 a) = show_ipv4 a"
| "show_net_key (V6Prefix p) = hex_pad 16 (unat p) @ ''::/64''"
| "show_net_key (V6Wide p) = hex_pad 12 (unat p) @ ''::/48''"

subsection \<open>Per-connection budget\<close>

record conn_limits =
  cl_msgs :: token_bucket
  cl_bytes :: token_bucket

definition conn_limits_new :: "limits \<Rightarrow> instant \<Rightarrow> conn_limits" where
  "conn_limits_new l now =
     \<lparr>cl_msgs = bucket_new (msgs_per_sec l) (msgs_burst l) now,
      cl_bytes = bucket_new (bytes_per_sec l)
        (max (bytes_per_sec l) (real (max_frame_bytes l))) now\<rparr>"

definition allow_frame :: "conn_limits \<Rightarrow> nat \<Rightarrow> instant \<Rightarrow> bool \<times> conn_limits" where
  "allow_frame c len now =
     (let (m, msgs) = take_tokens (cl_msgs c) 1 now;
          (b, bytes) = take_tokens (cl_bytes c) (real len) now
      in (m \<and> b, \<lparr>cl_msgs = msgs, cl_bytes = bytes\<rparr>))"

subsection \<open>Connection counts and authentication attempts\<close>

record net_limits =
  nl_limits :: limits
  nl_total :: nat
  nl_unauthenticated :: nat
  nl_connections :: "net_key \<rightharpoonup> nat"
  nl_auths :: "net_key \<rightharpoonup> token_bucket"

definition net_limits_new :: "limits \<Rightarrow> net_limits" where
  "net_limits_new l =
     \<lparr>nl_limits = l, nl_total = 0, nl_unauthenticated = 0, nl_connections = Map.empty,
      nl_auths = Map.empty\<rparr>"

text \<open>\<open>(cap as f64 * share) as usize\<close>: the cast truncates, and saturates at 0.\<close>

definition unauthenticated_cap :: "limits \<Rightarrow> nat" where
  "unauthenticated_cap l = nat \<lfloor>real (global_connections l) * unauthenticated_share l\<rfloor>"

definition open_global :: "net_limits \<Rightarrow> bool \<times> net_limits" where
  "open_global n =
     (if global_connections (nl_limits n) \<le> nl_total n
         \<or> unauthenticated_cap (nl_limits n) \<le> nl_unauthenticated n
      then (False, n)
      else (True, n\<lparr>nl_total := nl_total n + 1, nl_unauthenticated := nl_unauthenticated n + 1\<rparr>))"

definition net_authenticated :: "net_limits \<Rightarrow> net_limits" where
  "net_authenticated n = n\<lparr>nl_unauthenticated := nl_unauthenticated n - 1\<rparr>"

definition close_global :: "net_limits \<Rightarrow> bool \<Rightarrow> net_limits" where
  "close_global n authenticated =
     (let n' = n\<lparr>nl_total := nl_total n - 1\<rparr> in
      if authenticated then n'
      else n'\<lparr>nl_unauthenticated := nl_unauthenticated n - 1\<rparr>)"

fun connection_cap :: "limits \<Rightarrow> net_key \<Rightarrow> nat" where
  "connection_cap l (V4 _) = connections_per_ipv4 l"
| "connection_cap l (V6Prefix _) = connections_per_ipv6_64 l"
| "connection_cap l (V6Wide _) = connections_per_ipv6_48 l"

definition count_of :: "('k \<rightharpoonup> nat) \<Rightarrow> 'k \<Rightarrow> nat" where
  "count_of m k = (case m k of None \<Rightarrow> 0 | Some c \<Rightarrow> c)"

definition bump_count :: "'k \<Rightarrow> ('k \<rightharpoonup> nat) \<Rightarrow> ('k \<rightharpoonup> nat)" where
  "bump_count k m = m(k \<mapsto> count_of m k + 1)"

definition open_network :: "net_limits \<Rightarrow> net_key \<Rightarrow> bool \<times> net_limits" where
  "open_network n key =
     (if list_ex (\<lambda>tier. connection_cap (nl_limits n) tier \<le> count_of (nl_connections n) tier)
           (tiers key)
      then (False, n)
      else (True, n\<lparr>nl_connections := fold bump_count (tiers key) (nl_connections n)\<rparr>))"

definition drop_count :: "'k \<Rightarrow> ('k \<rightharpoonup> nat) \<Rightarrow> ('k \<rightharpoonup> nat)" where
  "drop_count k m =
     (case m k of
        None \<Rightarrow> m
      | Some c \<Rightarrow> if c - 1 = 0 then m(k := None) else m(k \<mapsto> c - 1))"

definition close_network :: "net_limits \<Rightarrow> net_key \<Rightarrow> net_limits" where
  "close_network n key =
     n\<lparr>nl_connections := fold drop_count (tiers key) (nl_connections n)\<rparr>"

fun auths_per_min :: "limits \<Rightarrow> net_key \<Rightarrow> real" where
  "auths_per_min l (V4 _) = auths_per_min_ipv4 l"
| "auths_per_min l (V6Prefix _) = auths_per_min_ipv6_64 l"
| "auths_per_min l (V6Wide _) = auths_per_min_ipv6_48 l"

definition auth_bucket :: "net_limits \<Rightarrow> net_key \<Rightarrow> instant \<Rightarrow> token_bucket" where
  "auth_bucket n tier now =
     (case nl_auths n tier of
        Some b \<Rightarrow> b
      | None \<Rightarrow> bucket_new (auths_per_min (nl_limits n) tier / 60)
          (auths_per_min (nl_limits n) tier) now)"

text \<open>One turn of the loop over the tiers: the bucket is made if missing, then charged.\<close>

definition charge_auth :: "instant \<Rightarrow> net_key \<Rightarrow> bool \<times> net_limits \<Rightarrow> bool \<times> net_limits" where
  "charge_auth now tier st =
     (let (allowed, n) = st;
          (ok, b) = take_tokens (auth_bucket n tier now) 1 now
      in (allowed \<and> ok, n\<lparr>nl_auths := (nl_auths n)(tier \<mapsto> b)\<rparr>))"

definition allow_auth :: "net_limits \<Rightarrow> net_key \<Rightarrow> instant \<Rightarrow> bool \<times> net_limits" where
  "allow_auth n key now = fold (charge_auth now) (tiers key) (True, n)"

definition prune :: "net_limits \<Rightarrow> instant \<Rightarrow> net_limits" where
  "prune n now =
     n\<lparr>nl_auths := (\<lambda>k. case nl_auths n k of
        None \<Rightarrow> None
      | Some b \<Rightarrow> (let (full, b') = is_full b now in if full then None else Some b'))\<rparr>"

subsection \<open>The TURN quota\<close>

definition SECONDS_PER_DAY :: nat where
  "SECONDS_PER_DAY = 86400"

datatype quota_refusal = PairQuota | NetworkQuota

record grant =
  g_day :: nat
  g_pair :: string
  g_networks :: "string list"

record turn_quota =
  tq_day :: nat
  tq_salt :: string
  tq_pairs :: "string \<rightharpoonup> nat"
  tq_networks :: "string \<rightharpoonup> nat"

definition turn_quota_default :: turn_quota where
  "turn_quota_default =
     \<lparr>tq_day = 0, tq_salt = [], tq_pairs = Map.empty, tq_networks = Map.empty\<rparr>"

text \<open>\<open>salt\<close> is the salt that is drawn if the day has changed.\<close>

definition roll :: "string \<Rightarrow> turn_quota \<Rightarrow> nat \<Rightarrow> turn_quota" where
  "roll salt q unix_secs =
     (let day = unix_secs div SECONDS_PER_DAY in
      if day = tq_day q \<and> tq_salt q \<noteq> [] then q
      else turn_quota_default\<lparr>tq_day := day, tq_salt := salt\<rparr>)"

text \<open>
  \<open>digest\<close> is the base64url of the first 16 bytes of the SHA-256, \<open>None\<close> where
  \<open>openssl\<close> fails; the source then uses the input itself as the key.
\<close>

definition hashed :: "(string \<Rightarrow> string option) \<Rightarrow> turn_quota \<Rightarrow> string \<Rightarrow> string" where
  "hashed digest q label =
     (let input = tq_salt q @ [newline] @ label in
      case digest input of Some d \<Rightarrow> d | None \<Rightarrow> input)"

definition pair_label :: "string \<Rightarrow> string \<Rightarrow> string" where
  "pair_label a b =
     (let (low, high) = (if a \<le> b then (a, b) else (b, a))
      in ''pair'' @ [newline] @ low @ [newline] @ high)"

fun turn_cap :: "limits \<Rightarrow> net_key \<Rightarrow> nat" where
  "turn_cap l (V6Wide _) = turn_per_ipv6_48_per_day l"
| "turn_cap l _ = turn_per_network_per_day l"

text \<open>The loop over the tiers: the first full one refuses, else their keys are collected.\<close>

fun network_keys ::
  "(string \<Rightarrow> string option) \<Rightarrow> limits \<Rightarrow> turn_quota \<Rightarrow> net_key list \<Rightarrow> string list option" where
  "network_keys digest l q [] = Some []"
| "network_keys digest l q (tier # ts) =
     (let key = hashed digest q (''net'' @ [newline] @ show_net_key tier) in
      if turn_cap l tier \<le> count_of (tq_networks q) key then None
      else map_option (\<lambda>keys. key # keys) (network_keys digest l q ts))"

definition try_grant ::
  "(string \<Rightarrow> string option) \<Rightarrow> string \<Rightarrow> limits \<Rightarrow> turn_quota \<Rightarrow> string \<Rightarrow> string \<Rightarrow> net_key \<Rightarrow> nat
     \<Rightarrow> (quota_refusal, grant) result \<times> turn_quota" where
  "try_grant digest salt l q a b network unix_secs =
     (let q = roll salt q unix_secs;
          pair = hashed digest q (pair_label a b)
      in if turn_per_pair_per_day l \<le> count_of (tq_pairs q) pair then (Inl PairQuota, q)
         else (case network_keys digest l q (tiers network) of
             None \<Rightarrow> (Inl NetworkQuota, q)
           | Some networks \<Rightarrow>
               (Inr \<lparr>g_day = tq_day q, g_pair = pair, g_networks = networks\<rparr>,
                q\<lparr>tq_pairs := bump_count pair (tq_pairs q),
                  tq_networks := fold bump_count networks (tq_networks q)\<rparr>)))"

text \<open>A count that is there is lowered, saturating; a missing one stays missing.\<close>

definition lower_count :: "'k \<Rightarrow> ('k \<rightharpoonup> nat) \<Rightarrow> ('k \<rightharpoonup> nat)" where
  "lower_count k m = (case m k of None \<Rightarrow> m | Some c \<Rightarrow> m(k \<mapsto> c - 1))"

definition refund :: "turn_quota \<Rightarrow> grant \<Rightarrow> turn_quota" where
  "refund q g =
     (if g_day g \<noteq> tq_day q then q
      else q\<lparr>tq_pairs := lower_count (g_pair g) (tq_pairs q),
             tq_networks := fold lower_count (g_networks g) (tq_networks q)\<rparr>)"

subsection \<open>Budgets over time\<close>

text \<open>
  A limiter as its users see it: each request is taken or refused at a time, and \<open>avail\<close> is
  what could still be taken then. A monotone clock and the law \<open>avail_take\<close> bound everything a
  sequence of requests is given, by the capacity and what the rate adds over the elapsed time.
\<close>

fun spend ::
  "('b \<Rightarrow> 'q \<Rightarrow> instant \<Rightarrow> bool \<times> 'b) \<Rightarrow> ('q \<Rightarrow> real) \<Rightarrow> 'b \<Rightarrow> ('q \<times> instant) list \<Rightarrow> real \<times> 'b" where
  "spend tk cost b [] = (0, b)"
| "spend tk cost b ((q, t) # reqs) =
     (let (ok, b') = tk b q t; (s, b'') = spend tk cost b' reqs
      in ((if ok then cost q else 0) + s, b''))"

definition end_time :: "instant \<Rightarrow> ('q \<times> instant) list \<Rightarrow> instant" where
  "end_time t0 reqs = last (t0 # map snd reqs)"

locale rate_budget =
  fixes tk :: "'b \<Rightarrow> 'q \<Rightarrow> instant \<Rightarrow> bool \<times> 'b"
    and cost :: "'q \<Rightarrow> real"
    and avail :: "'b \<Rightarrow> instant \<Rightarrow> real"
    and ok :: "'b \<Rightarrow> instant \<Rightarrow> bool"
    and req_ok :: "'q \<Rightarrow> bool"
    and rate cap :: real
  assumes ok_take: "ok b t0 \<Longrightarrow> t0 \<le> t \<Longrightarrow> req_ok q \<Longrightarrow> ok (snd (tk b q t)) t"
    and avail_take: "ok b t0 \<Longrightarrow> t0 \<le> t \<Longrightarrow> req_ok q \<Longrightarrow>
      avail (snd (tk b q t)) t + (if fst (tk b q t) then cost q else 0)
        \<le> avail b t0 + rate * secs_f64 (t - t0)"
    and avail_bounds: "ok b t0 \<Longrightarrow> 0 \<le> avail b t0 \<and> avail b t0 \<le> cap"
begin

lemma spend_avail:
  assumes "ok b t0" and "sorted (t0 # map snd reqs)" and "list_all (\<lambda>(q, _). req_ok q) reqs"
  shows "ok (snd (spend tk cost b reqs)) (end_time t0 reqs)
    \<and> avail (snd (spend tk cost b reqs)) (end_time t0 reqs) + fst (spend tk cost b reqs)
      \<le> avail b t0 + rate * secs_f64 (end_time t0 reqs - t0)"
  using assms
proof (induction reqs arbitrary: b t0)
  case Nil
  then show ?case by (simp add: end_time_def secs_f64_def)
next
  case (Cons qt reqs)
  obtain q t where qt: "qt = (q, t)" by (cases qt)
  obtain g b' where tk: "tk b q t = (g, b')" by (cases "tk b q t")
  obtain s b'' where sp: "spend tk cost b' reqs = (s, b'')" by (cases "spend tk cost b' reqs")
  have le: "t0 \<le> t" and srt: "sorted (t # map snd reqs)" and rq: "req_ok q"
    and rest: "list_all (\<lambda>(q, _). req_ok q) reqs"
    using Cons.prems qt by auto
  have ok': "ok b' t" and av: "avail b' t + (if g then cost q else 0) \<le> avail b t0 + rate * secs_f64 (t - t0)"
    using ok_take [OF Cons.prems(1) le rq] avail_take [OF Cons.prems(1) le rq] tk by simp_all
  have ih: "ok b'' (end_time t reqs)"
    "avail b'' (end_time t reqs) + s \<le> avail b' t + rate * secs_f64 (end_time t reqs - t)"
    using Cons.IH [OF ok' srt rest] sp by simp_all
  have et: "end_time t0 (qt # reqs) = end_time t reqs"
    by (simp add: end_time_def qt)
  have "t \<le> end_time t reqs"
    using srt by (cases reqs rule: rev_cases) (auto simp: end_time_def)
  then have "secs_f64 (end_time t reqs - t0) = secs_f64 (end_time t reqs - t) + secs_f64 (t - t0)"
    using le by (simp add: secs_f64_def add_divide_distrib [symmetric])
  then have split: "rate * secs_f64 (end_time t reqs - t0)
      = rate * secs_f64 (end_time t reqs - t) + rate * secs_f64 (t - t0)"
    by (simp only: distrib_left)
  have "avail b'' (end_time t reqs) + ((if g then cost q else 0) + s)
      \<le> avail b t0 + rate * secs_f64 (end_time t reqs - t0)"
    unfolding split using av ih(2) by linarith
  then show ?case
    using ih(1) unfolding et by (simp add: qt tk sp)
qed

text \<open>Everything given in a window: at most the capacity and what the rate adds meanwhile.\<close>

lemma spend_bound:
  assumes "ok b t0" and "sorted (t0 # map snd reqs)" and "list_all (\<lambda>(q, _). req_ok q) reqs"
  shows "fst (spend tk cost b reqs) \<le> cap + rate * secs_f64 (end_time t0 reqs - t0)"
  using spend_avail [OF assms] avail_bounds [OF assms(1)]
    avail_bounds [of "snd (spend tk cost b reqs)" "end_time t0 reqs"]
  by linarith

end


subsection \<open>Token buckets are budgets\<close>

definition bucket_ok :: "real \<Rightarrow> real \<Rightarrow> token_bucket \<Rightarrow> instant \<Rightarrow> bool" where
  "bucket_ok rate cap b t \<longleftrightarrow>
     tb_rate b = rate \<and> tb_capacity b = cap \<and> tb_last b \<le> t
     \<and> 0 \<le> rate \<and> 0 \<le> tb_tokens b \<and> tb_tokens b \<le> cap"

definition bucket_avail :: "token_bucket \<Rightarrow> instant \<Rightarrow> real" where
  "bucket_avail b t = tb_tokens (refill b t)"

lemma secs_nonneg [simp]: "0 \<le> secs_f64 n"
  by (simp add: secs_f64_def)

lemma secs_split:
  assumes "a \<le> b" and "b \<le> c"
  shows "secs_f64 (c - a) = secs_f64 (b - a) + secs_f64 (c - b)"
  using assms by (simp add: secs_f64_def add_divide_distrib [symmetric])

lemma refill_fields [simp]:
  "tb_rate (refill b t) = tb_rate b" "tb_capacity (refill b t) = tb_capacity b"
  "tb_last (refill b t) = max (tb_last b) t"
  by (simp_all add: refill_def)

lemma bucket_ok_refill [wf_intros]:
  assumes "bucket_ok rate cap b t0" and "t0 \<le> t"
  shows "bucket_ok rate cap (refill b t) t"
  using assms by (simp add: bucket_ok_def refill_def min_def)

lemma min_shift: "0 \<le> z \<Longrightarrow> min (x + (y + z)) cap \<le> min (x + y) cap + (z::real)"
  by (simp add: min_def)

lemma bucket_avail_le:
  assumes "bucket_ok rate cap b t0" and "t0 \<le> t"
  shows "tb_tokens (refill b t) \<le> bucket_avail b t0 + rate * secs_f64 (t - t0)"
proof -
  have ok: "tb_last b \<le> t0" "tb_rate b = rate" "tb_capacity b = cap" "0 \<le> rate"
    using assms by (auto simp: bucket_ok_def)
  have nn: "0 \<le> rate * secs_f64 (t - t0)" using ok by simp
  have "secs_f64 (t - tb_last b) * rate
      = secs_f64 (t0 - tb_last b) * rate + rate * secs_f64 (t - t0)"
    unfolding secs_split [OF ok(1) assms(2)] by (simp add: algebra_simps)
  then show ?thesis
    using ok min_shift [OF nn] by (simp add: bucket_avail_def refill_def add.assoc)
qed

lemma bucket_avail_now [simp]: "tb_last b = t \<Longrightarrow> tb_tokens b \<le> tb_capacity b \<Longrightarrow> bucket_avail b t = tb_tokens b"
  by (simp add: bucket_avail_def refill_def secs_f64_def)

lemma take_tokens_budget:
  assumes "bucket_ok rate cap b t0" and "t0 \<le> t" and "0 \<le> c"
  shows "bucket_ok rate cap (snd (take_tokens b c t)) t"
    and "bucket_avail (snd (take_tokens b c t)) t + (if fst (take_tokens b c t) then c else 0)
      \<le> bucket_avail b t0 + rate * secs_f64 (t - t0)"
proof -
  let ?b = "refill b t"
  have r: "bucket_ok rate cap ?b t" by (rule bucket_ok_refill [OF assms(1,2)])
  have last: "tb_last ?b = t" using r by (simp add: bucket_ok_def)
  show ok: "bucket_ok rate cap (snd (take_tokens b c t)) t"
    using r assms(3) by (simp add: take_tokens_def Let_def bucket_ok_def)
  have "tb_last (snd (take_tokens b c t)) = t"
    using last by (simp add: take_tokens_def Let_def)
  then have "bucket_avail (snd (take_tokens b c t)) t = tb_tokens (snd (take_tokens b c t))"
    using ok by (simp add: bucket_ok_def)
  then show "bucket_avail (snd (take_tokens b c t)) t + (if fst (take_tokens b c t) then c else 0)
      \<le> bucket_avail b t0 + rate * secs_f64 (t - t0)"
    using bucket_avail_le [OF assms(1,2)] by (simp add: take_tokens_def Let_def)
qed

lemma bucket_avail_bounds:
  assumes "bucket_ok rate cap b t"
  shows "0 \<le> bucket_avail b t \<and> bucket_avail b t \<le> cap"
  using bucket_ok_refill [OF assms order_refl] by (simp add: bucket_ok_def bucket_avail_def)

lemma bucket_new_ok: "0 \<le> rate \<Longrightarrow> 0 \<le> cap \<Longrightarrow> bucket_ok rate cap (bucket_new rate cap t) t"
  by (simp add: bucket_ok_def bucket_new_def)

subsection \<open>The frames of a connection\<close>

text \<open>Both buckets of a connection, each seen as the budget of the frames it lets through.\<close>

definition conn_ok :: "limits \<Rightarrow> conn_limits \<Rightarrow> instant \<Rightarrow> bool" where
  "conn_ok l c t \<longleftrightarrow>
     bucket_ok (msgs_per_sec l) (msgs_burst l) (cl_msgs c) t
     \<and> bucket_ok (bytes_per_sec l) (max (bytes_per_sec l) (real (max_frame_bytes l))) (cl_bytes c) t"

lemma allow_frame_fields:
  "fst (allow_frame c len t) =
     (fst (take_tokens (cl_msgs c) 1 t) \<and> fst (take_tokens (cl_bytes c) (real len) t))"
  "cl_msgs (snd (allow_frame c len t)) = snd (take_tokens (cl_msgs c) 1 t)"
  "cl_bytes (snd (allow_frame c len t)) = snd (take_tokens (cl_bytes c) (real len) t)"
  by (simp_all add: allow_frame_def Let_def split: prod.splits)

lemma conn_ok_allow_frame [wf_intros]:
  "conn_ok l c t0 \<Longrightarrow> t0 \<le> t \<Longrightarrow> conn_ok l (snd (allow_frame c len t)) t"
  by (auto simp: conn_ok_def allow_frame_fields intro: take_tokens_budget)

lemma conn_limits_new_ok:
  assumes "0 \<le> msgs_per_sec l" and "0 \<le> msgs_burst l" and "0 \<le> bytes_per_sec l"
  shows "conn_ok l (conn_limits_new l t) t"
  using assms by (simp add: conn_ok_def conn_limits_new_def bucket_new_ok max_def)

interpretation frame_count: rate_budget allow_frame "\<lambda>_. 1" "\<lambda>c. bucket_avail (cl_msgs c)"
  "conn_ok l" "\<lambda>_. True" "msgs_per_sec l" "msgs_burst l"
  for l :: limits
proof (unfold_locales, goal_cases)
  case (2 c t0 t len)
  then have "bucket_ok (msgs_per_sec l) (msgs_burst l) (cl_msgs c) t0" by (simp add: conn_ok_def)
  from take_tokens_budget(2) [OF this 2(2), of 1] show ?case
    by (auto simp: allow_frame_fields split: if_splits)
next
  case (3 c t)
  then show ?case unfolding conn_ok_def by (blast dest: bucket_avail_bounds)
qed (rule conn_ok_allow_frame)

interpretation frame_bytes: rate_budget allow_frame real "\<lambda>c. bucket_avail (cl_bytes c)"
  "conn_ok l" "\<lambda>_. True" "bytes_per_sec l" "max (bytes_per_sec l) (real (max_frame_bytes l))"
  for l :: limits
proof (unfold_locales, goal_cases)
  case (2 c t0 t len)
  then have "bucket_ok (bytes_per_sec l) (max (bytes_per_sec l) (real (max_frame_bytes l))) (cl_bytes c) t0"
    by (simp add: conn_ok_def)
  from take_tokens_budget(2) [OF this 2(2), of "real len"] show ?case
    by (auto simp: allow_frame_fields split: if_splits)
next
  case (3 c t)
  then show ?case unfolding conn_ok_def by (blast dest: bucket_avail_bounds)
qed (rule conn_ok_allow_frame)


subsection \<open>Authentication attempts of a network\<close>

text \<open>
  What a network, or a wider prefix, has left. A missing bucket is a full one, so making it on
  first use and pruning it once it is full change nothing that can be seen.
\<close>

definition auth_avail :: "net_key \<Rightarrow> net_limits \<Rightarrow> instant \<Rightarrow> real" where
  "auth_avail tier n t =
     (case nl_auths n tier of
        None \<Rightarrow> auths_per_min (nl_limits n) tier
      | Some b \<Rightarrow> bucket_avail b t)"

definition auths_ok :: "limits \<Rightarrow> net_limits \<Rightarrow> instant \<Rightarrow> bool" where
  "auths_ok l n t \<longleftrightarrow>
     nl_limits n = l \<and> (\<forall>tier. 0 \<le> auths_per_min l tier) \<and>
     (\<forall>tier b. nl_auths n tier = Some b \<longrightarrow>
        bucket_ok (auths_per_min l tier / 60) (auths_per_min l tier) b t)"

text \<open>An attempt of a network, or the pruning the server runs between attempts.\<close>

definition auth_event :: "net_limits \<Rightarrow> net_key option \<Rightarrow> instant \<Rightarrow> bool \<times> net_limits" where
  "auth_event n req now =
     (case req of Some key \<Rightarrow> allow_auth n key now | None \<Rightarrow> (False, prune n now))"

definition auth_cost :: "net_key \<Rightarrow> net_key option \<Rightarrow> real" where
  "auth_cost tier req =
     (case req of Some key \<Rightarrow> if tier \<in> set (tiers key) then 1 else 0 | None \<Rightarrow> 0)"

lemma auths_okD:
  "auths_ok l n t \<Longrightarrow> bucket_ok (auths_per_min l tier / 60) (auths_per_min l tier)
     (auth_bucket n tier now) (case nl_auths n tier of Some _ \<Rightarrow> t | None \<Rightarrow> now)"
  by (auto simp: auths_ok_def auth_bucket_def bucket_new_ok split: option.splits)

lemma bucket_ok_mono: "bucket_ok r c b t0 \<Longrightarrow> t0 \<le> t \<Longrightarrow> bucket_ok r c b t"
  by (simp add: bucket_ok_def)

lemma auths_ok_mono: "auths_ok l n t0 \<Longrightarrow> t0 \<le> t \<Longrightarrow> auths_ok l n t"
  unfolding auths_ok_def by (blast intro: bucket_ok_mono)

lemma auth_bucket_ok:
  assumes "auths_ok l n t0" and "t0 \<le> t"
  shows "bucket_ok (auths_per_min l tier / 60) (auths_per_min l tier) (auth_bucket n tier t) t"
  using auths_okD [OF auths_ok_mono [OF assms], of tier t] by (simp split: option.splits)

lemma auth_avail_bounds:
  assumes "auths_ok l n t"
  shows "0 \<le> auth_avail tier n t \<and> auth_avail tier n t \<le> auths_per_min l tier"
  using assms bucket_avail_bounds by (fastforce simp: auths_ok_def auth_avail_def split: option.splits)

text \<open>Waiting adds at most what the rate gives.\<close>

lemma auth_avail_wait:
  assumes ok: "auths_ok l n t0" and "t0 \<le> t"
  shows "auth_avail tier n t
      \<le> auth_avail tier n t0 + auths_per_min l tier / 60 * secs_f64 (t - t0)"
proof (cases "nl_auths n tier")
  case None
  have "0 \<le> auths_per_min l tier / 60 * secs_f64 (t - t0)"
    using ok by (simp add: auths_ok_def)
  then show ?thesis using None ok by (simp add: auth_avail_def auths_ok_def)
next
  case (Some b)
  then have "bucket_ok (auths_per_min l tier / 60) (auths_per_min l tier) b t0"
    using ok by (simp add: auths_ok_def)
  from bucket_avail_le [OF this assms(2)] show ?thesis
    using Some by (simp add: auth_avail_def bucket_avail_def)
qed

lemma bucket_avail_auth_bucket:
  "nl_limits n = l \<Longrightarrow> bucket_avail (auth_bucket n tier t) t = auth_avail tier n t"
  by (simp add: auth_bucket_def auth_avail_def bucket_avail_def bucket_new_def refill_def secs_f64_def
      split: option.splits)

lemma charge_auth_step:
  assumes "auths_ok l n t"
  shows "auths_ok l (snd (charge_auth t k (a, n))) t"
    and "auth_avail tier (snd (charge_auth t k (a, n))) t
       + (if tier = k \<and> fst (charge_auth t k (a, n)) then 1 else 0) \<le> auth_avail tier n t"
proof -
  obtain ok b where tk: "take_tokens (auth_bucket n k t) 1 t = (ok, b)"
    by (cases "take_tokens (auth_bucket n k t) 1 t")
  note bo = auth_bucket_ok [OF assms order_refl, of k]
  have b: "bucket_ok (auths_per_min l k / 60) (auths_per_min l k) b t"
    and av: "bucket_avail b t + (if ok then 1 else 0) \<le> bucket_avail (auth_bucket n k t) t"
    using take_tokens_budget [OF bo order_refl, of 1] tk by (simp_all add: secs_f64_def)
  show "auths_ok l (snd (charge_auth t k (a, n))) t"
    using assms b by (auto simp: charge_auth_def tk auths_ok_def)
  show "auth_avail tier (snd (charge_auth t k (a, n))) t
       + (if tier = k \<and> fst (charge_auth t k (a, n)) then 1 else 0) \<le> auth_avail tier n t"
    using av assms bucket_avail_auth_bucket [of n l k t]
    by (auto simp: charge_auth_def tk auth_avail_def auths_ok_def split: if_splits option.splits)
qed

lemma charge_auth_allowed: "fst (fold (charge_auth t) ks st) \<Longrightarrow> fst st"
proof (induction ks arbitrary: st)
  case (Cons k ks)
  then have "fst (charge_auth t k st)" by simp
  then show ?case by (simp add: charge_auth_def Let_def split: prod.splits)
qed simp

lemma allow_auth_fold:
  assumes "auths_ok l n t" and "distinct ks"
  shows "auths_ok l (snd (fold (charge_auth t) ks (a, n))) t
    \<and> auth_avail tier (snd (fold (charge_auth t) ks (a, n))) t
       + (if tier \<in> set ks \<and> fst (fold (charge_auth t) ks (a, n)) then 1 else 0)
      \<le> auth_avail tier n t"
  using assms
proof (induction ks arbitrary: a n)
  case (Cons k ks)
  obtain a' n' where c: "charge_auth t k (a, n) = (a', n')" by (cases "charge_auth t k (a, n)")
  note step = charge_auth_step [OF Cons.prems(1), where k = k and a = a, unfolded c]
  have ih: "auths_ok l (snd (fold (charge_auth t) ks (a', n'))) t"
    "auth_avail tier (snd (fold (charge_auth t) ks (a', n'))) t
       + (if tier \<in> set ks \<and> fst (fold (charge_auth t) ks (a', n')) then 1 else 0)
      \<le> auth_avail tier n' t"
    using Cons.IH [of n' a'] Cons.prems step by auto
  show ?case
    using ih step(2) [of tier] Cons.prems charge_auth_allowed [of t ks "(a', n')"] c
    by (cases "tier = k") (auto split: if_splits)
qed simp

lemma tiers_distinct [simp]: "distinct (tiers k)"
  by (cases k) auto

lemma prune_step:
  assumes "auths_ok l n t0" and "t0 \<le> t"
  shows "auths_ok l (prune n t) t" and "auth_avail tier (prune n t) t \<le> auth_avail tier n t"
proof -
  have keep: "bucket_ok (auths_per_min l k / 60) (auths_per_min l k) (refill b t) t"
    if "nl_auths n k = Some b" for k b
    using assms that by (auto simp: auths_ok_def intro: bucket_ok_refill)
  show "auths_ok l (prune n t) t"
    using assms keep
    by (auto simp: auths_ok_def prune_def is_full_def Let_def split: option.splits if_splits)
  show "auth_avail tier (prune n t) t \<le> auth_avail tier n t"
  proof (cases "nl_auths n tier")
    case (Some b)
    have "bucket_avail (refill b t) t = bucket_avail b t"
      using keep [OF Some] by (simp add: bucket_avail_def refill_def secs_f64_def bucket_ok_def)
    then show ?thesis
      using Some keep [OF Some] assms(1)
      by (auto simp: auth_avail_def prune_def is_full_def Let_def bucket_ok_def auths_ok_def
          bucket_avail_def)
  qed (simp add: auth_avail_def prune_def)
qed

interpretation auth_tier: rate_budget auth_event "auth_cost tier" "auth_avail tier" "auths_ok l"
  "\<lambda>_. True" "auths_per_min l tier / 60" "auths_per_min l tier"
  for l :: limits and tier :: net_key
proof (unfold_locales, goal_cases)
  case (1 n t0 t req)
  then show ?case
    using allow_auth_fold [OF auths_ok_mono [OF 1(1,2)] tiers_distinct] prune_step(1) [OF 1(1,2)]
    by (auto simp: auth_event_def allow_auth_def split: option.splits)
next
  case (2 n t0 t req)
  have "auth_avail tier (snd (auth_event n req t)) t
      + (if fst (auth_event n req t) then auth_cost tier req else 0) \<le> auth_avail tier n t"
  proof (cases req)
    case (Some key)
    then show ?thesis
      using allow_auth_fold [OF auths_ok_mono [OF 2(1,2)] tiers_distinct [of key], where tier = tier and a = True]
      by (simp add: auth_event_def allow_auth_def auth_cost_def split: if_splits)
  qed (simp add: auth_event_def auth_cost_def prune_step [OF 2(1,2)])
  with auth_avail_wait [OF 2(1,2)] show ?case by (rule order_trans [rotated])
next
  case (3 n t)
  then show ?case by (rule auth_avail_bounds)
qed


subsection \<open>The slots connections hold\<close>

text \<open>
  The counters beside the slots that are out: a \<open>GlobalSlot\<close> not yet authenticated, one that
  is, and the network key of every \<open>NetworkSlot\<close>. A slot gives its count back when it is
  dropped, so a step that closes one needs one to be open.
\<close>

record slots =
  sl_net :: net_limits
  sl_pending :: nat
  sl_authed :: nat
  sl_keys :: "net_key list"

definition slots_init :: "limits \<Rightarrow> slots \<Rightarrow> bool" where
  "slots_init l s \<longleftrightarrow> s = \<lparr>sl_net = net_limits_new l, sl_pending = 0, sl_authed = 0, sl_keys = []\<rparr>"

inductive slots_step :: "slots \<Rightarrow> slots \<Rightarrow> bool" where
  slot_open: "open_global (sl_net s) = (True, n) \<Longrightarrow>
    slots_step s (s\<lparr>sl_net := n, sl_pending := sl_pending s + 1\<rparr>)"
| slot_refused: "open_global (sl_net s) = (False, n) \<Longrightarrow> slots_step s (s\<lparr>sl_net := n\<rparr>)"
| slot_authenticated: "0 < sl_pending s \<Longrightarrow>
    slots_step s (s\<lparr>sl_net := net_authenticated (sl_net s),
      sl_pending := sl_pending s - 1, sl_authed := sl_authed s + 1\<rparr>)"
| slot_drop_pending: "0 < sl_pending s \<Longrightarrow>
    slots_step s (s\<lparr>sl_net := close_global (sl_net s) False, sl_pending := sl_pending s - 1\<rparr>)"
| slot_drop_authed: "0 < sl_authed s \<Longrightarrow>
    slots_step s (s\<lparr>sl_net := close_global (sl_net s) True, sl_authed := sl_authed s - 1\<rparr>)"
| net_open: "open_network (sl_net s) k = (True, n) \<Longrightarrow>
    slots_step s (s\<lparr>sl_net := n, sl_keys := k # sl_keys s\<rparr>)"
| net_refused: "open_network (sl_net s) k = (False, n) \<Longrightarrow> slots_step s (s\<lparr>sl_net := n\<rparr>)"
| net_drop: "k \<in> set (sl_keys s) \<Longrightarrow>
    slots_step s (s\<lparr>sl_net := close_network (sl_net s) k, sl_keys := remove1 k (sl_keys s)\<rparr>)"
| net_auth: "allow_auth (sl_net s) k now = (a, n) \<Longrightarrow> slots_step s (s\<lparr>sl_net := n\<rparr>)"
| net_prune: "slots_step s (s\<lparr>sl_net := prune (sl_net s) now\<rparr>)"

text \<open>The open connections counted under a tier.\<close>

definition tier_load :: "net_key \<Rightarrow> net_key list \<Rightarrow> nat" where
  "tier_load tier keys = length (filter (\<lambda>k. tier \<in> set (tiers k)) keys)"

definition slots_inv :: "limits \<Rightarrow> slots \<Rightarrow> bool" where
  "slots_inv l s \<longleftrightarrow>
     nl_limits (sl_net s) = l
     \<and> nl_total (sl_net s) = sl_pending s + sl_authed s
     \<and> nl_unauthenticated (sl_net s) = sl_pending s
     \<and> nl_total (sl_net s) \<le> global_connections l
     \<and> nl_unauthenticated (sl_net s) \<le> unauthenticated_cap l
     \<and> (\<forall>tier. count_of (nl_connections (sl_net s)) tier = tier_load tier (sl_keys s)
          \<and> tier_load tier (sl_keys s) \<le> connection_cap l tier
          \<and> nl_connections (sl_net s) tier \<noteq> Some 0)"

lemma count_of_bump [simp]:
  "count_of (bump_count k m) k' = count_of m k' + (if k' = k then 1 else 0)"
  by (simp add: count_of_def bump_count_def)

lemma count_of_drop [simp]:
  "count_of (drop_count k m) k' = count_of m k' - (if k' = k then 1 else 0)"
  by (auto simp: count_of_def drop_count_def split: option.splits)

lemma count_of_lower [simp]:
  "count_of (lower_count k m) k' = count_of m k' - (if k' = k then 1 else 0)"
  by (auto simp: count_of_def lower_count_def split: option.splits)

lemma fold_bump_tiers:
  "count_of (fold bump_count (tiers k) m) tier
     = count_of m tier + (if tier \<in> set (tiers k) then 1 else 0)"
  by (cases k) auto

lemma fold_drop_tiers:
  "count_of (fold drop_count (tiers k) m) tier
     = count_of m tier - (if tier \<in> set (tiers k) then 1 else 0)"
  by (cases k) auto

lemma drop_count_nonzero: "\<forall>k. m k \<noteq> Some 0 \<Longrightarrow> drop_count k' m k \<noteq> Some 0"
  by (auto simp: drop_count_def split: option.splits)

lemma bump_count_nonzero: "\<forall>k. m k \<noteq> Some 0 \<Longrightarrow> bump_count k' m k \<noteq> Some 0"
  by (auto simp: bump_count_def)

lemma fold_drop_nonzero: "\<forall>k. m k \<noteq> Some 0 \<Longrightarrow> fold drop_count ks m k \<noteq> Some 0"
  by (induction ks arbitrary: m) (simp_all add: drop_count_nonzero)

lemma fold_bump_nonzero: "\<forall>k. m k \<noteq> Some 0 \<Longrightarrow> fold bump_count ks m k \<noteq> Some 0"
  by (induction ks arbitrary: m) (simp_all add: bump_count_nonzero)

lemma tier_load_Cons [simp]:
  "tier_load tier (k # ks) = tier_load tier ks + (if tier \<in> set (tiers k) then 1 else 0)"
  by (simp add: tier_load_def)

lemma tier_load_remove1:
  "k \<in> set ks \<Longrightarrow>
     tier_load tier (remove1 k ks) = tier_load tier ks - (if tier \<in> set (tiers k) then 1 else 0)"
  by (simp add: tier_load_def filter_remove1 length_remove1)

lemma charge_auth_keeps:
  "nl_limits (snd (charge_auth t k st)) = nl_limits (snd st)
   \<and> nl_total (snd (charge_auth t k st)) = nl_total (snd st)
   \<and> nl_unauthenticated (snd (charge_auth t k st)) = nl_unauthenticated (snd st)
   \<and> nl_connections (snd (charge_auth t k st)) = nl_connections (snd st)"
  by (simp add: charge_auth_def Let_def split: prod.splits)

lemma allow_auth_keeps:
  assumes "allow_auth n k t = (a, n')"
  shows "nl_limits n' = nl_limits n \<and> nl_total n' = nl_total n
    \<and> nl_unauthenticated n' = nl_unauthenticated n \<and> nl_connections n' = nl_connections n"
proof -
  have "nl_limits (snd (fold (charge_auth t) ks st)) = nl_limits (snd st)
    \<and> nl_total (snd (fold (charge_auth t) ks st)) = nl_total (snd st)
    \<and> nl_unauthenticated (snd (fold (charge_auth t) ks st)) = nl_unauthenticated (snd st)
    \<and> nl_connections (snd (fold (charge_auth t) ks st)) = nl_connections (snd st)" for ks st
    by (induction ks arbitrary: st) (simp_all add: charge_auth_keeps)
  from this [of "tiers k" "(True, n)"] show ?thesis
    using assms by (simp add: allow_auth_def)
qed

lemma slots_inv_step:
  assumes "slots_inv l s" and "slots_step s s'"
  shows "slots_inv l s'"
  using assms(2,1)
proof cases
  case (net_open k n)
  have adm: "count_of (nl_connections (sl_net s)) tier < connection_cap (nl_limits (sl_net s)) tier"
    if "tier \<in> set (tiers k)" for tier
    using net_open(2) that by (fastforce simp: open_network_def list_ex_iff split: if_splits)
  have n: "n = sl_net s\<lparr>nl_connections := fold bump_count (tiers k) (nl_connections (sl_net s))\<rparr>"
    using net_open(2) by (simp add: open_network_def split: if_splits)
  show ?thesis
    using assms(1) adm
    by (simp add: slots_inv_def net_open(1) n fold_bump_tiers fold_bump_nonzero Suc_le_eq)
next
  case (net_drop k)
  then show ?thesis
    using assms(1)
    by (simp add: slots_inv_def close_network_def fold_drop_tiers fold_drop_nonzero
        tier_load_remove1 le_diff_conv trans_le_add1)
next
  case (net_auth k now a n)
  then show ?thesis
    using assms(1) allow_auth_keeps [OF net_auth(2)] by (simp add: slots_inv_def)
qed (auto simp: slots_inv_def open_global_def open_network_def net_authenticated_def
    close_global_def prune_def Let_def split: if_splits)

interpretation slot_sys: invariant_system "slots_init l" slots_step "slots_inv l" for l :: limits
proof (unfold_locales, goal_cases)
  case (1 s)
  then show ?case
    by (simp add: slots_init_def slots_inv_def net_limits_new_def count_of_def tier_load_def)
qed (rule slots_inv_step)


subsection \<open>The grants of a day\<close>

text \<open>
  The quota beside the readings of the clock, the newest first, and the grants that are out: who
  asked for whom, from which network. A run starts with whatever quota was saved. A refund
  consumes its grant, so it happens once. The clock is the wall clock the server reads and may
  give any time; a fresh salt is the base64 of 16 bytes and is never empty.
\<close>

type_synonym issued = "string \<times> string \<times> net_key \<times> grant"

record quota_sys =
  qs_quota :: turn_quota
  qs_times :: "nat list"
  qs_out :: "issued list"

definition quota_init :: "quota_sys \<Rightarrow> bool" where
  "quota_init s \<longleftrightarrow> qs_times s = [] \<and> qs_out s = []"

inductive quota_step :: "(string \<Rightarrow> string option) \<Rightarrow> limits \<Rightarrow> quota_sys \<Rightarrow> quota_sys \<Rightarrow> bool"
  for digest :: "string \<Rightarrow> string option" and l :: limits where
  quota_granted: "salt \<noteq> [] \<Longrightarrow>
    try_grant digest salt l (qs_quota s) a b net now = (Inr g, q) \<Longrightarrow>
    quota_step digest l s (s\<lparr>qs_quota := q, qs_times := now # qs_times s, qs_out := (a, b, net, g) # qs_out s\<rparr>)"
| quota_refused: "salt \<noteq> [] \<Longrightarrow>
    try_grant digest salt l (qs_quota s) a b net now = (Inl e, q) \<Longrightarrow>
    quota_step digest l s (s\<lparr>qs_quota := q, qs_times := now # qs_times s\<rparr>)"
| quota_refunded: "(a, b, net, g) \<in> set (qs_out s) \<Longrightarrow>
    quota_step digest l s
      (s\<lparr>qs_quota := refund (qs_quota s) g, qs_out := remove1 (a, b, net, g) (qs_out s)\<rparr>)"

definition today :: "nat \<Rightarrow> issued list \<Rightarrow> issued list" where
  "today day out = filter (\<lambda>(_, _, _, g). g_day g = day) out"

text \<open>The grants of a day between two devices, and those counted under a tier.\<close>

definition pair_load :: "nat \<Rightarrow> string \<Rightarrow> string \<Rightarrow> issued list \<Rightarrow> nat" where
  "pair_load day a b out = length (filter (\<lambda>(a', b', _, _). {a', b'} = {a, b}) (today day out))"

definition turn_load :: "nat \<Rightarrow> net_key \<Rightarrow> issued list \<Rightarrow> nat" where
  "turn_load day tier out = length (filter (\<lambda>(_, _, net, _). tier \<in> set (tiers net)) (today day out))"

definition net_hash :: "(string \<Rightarrow> string option) \<Rightarrow> turn_quota \<Rightarrow> net_key \<Rightarrow> string" where
  "net_hash digest q tier = hashed digest q (''net'' @ [newline] @ show_net_key tier)"

definition issued_ok :: "(string \<Rightarrow> string option) \<Rightarrow> turn_quota \<Rightarrow> issued \<Rightarrow> bool" where
  "issued_ok digest q i \<longleftrightarrow>
     (case i of (a, b, net, g) \<Rightarrow> g_day g \<le> tq_day q \<and> tq_salt q \<noteq> []
        \<and> (g_day g = tq_day q \<longrightarrow> g_pair g = hashed digest q (pair_label a b)
              \<and> g_networks g = map (net_hash digest q) (tiers net)))"

definition pair_uses :: "string \<Rightarrow> issued list \<Rightarrow> nat" where
  "pair_uses key out = length (filter (\<lambda>(_, _, _, g). g_pair g = key) out)"

definition net_uses :: "string \<Rightarrow> issued list \<Rightarrow> nat" where
  "net_uses key out = sum_list (map (\<lambda>(_, _, _, g). count_list (g_networks g) key) out)"

definition days_pass :: "nat list \<Rightarrow> bool" where
  "days_pass readings \<longleftrightarrow> sorted (rev (map (\<lambda>t. t div SECONDS_PER_DAY) readings))"

definition quota_inv :: "(string \<Rightarrow> string option) \<Rightarrow> limits \<Rightarrow> quota_sys \<Rightarrow> bool" where
  "quota_inv digest l s \<longleftrightarrow>
     (let q = qs_quota s; out = today (tq_day q) (qs_out s) in
        (qs_out s \<noteq> [] \<longrightarrow> qs_times s \<noteq> [] \<and> tq_day q \<le> hd (qs_times s) div SECONDS_PER_DAY)
      \<and> list_all (issued_ok digest q) (qs_out s)
      \<and> (\<forall>key. pair_uses key out \<le> count_of (tq_pairs q) key)
      \<and> (\<forall>key. net_uses key out \<le> count_of (tq_networks q) key)
      \<and> (\<forall>key. pair_uses key out \<le> turn_per_pair_per_day l)
      \<and> (\<forall>tier. turn_load (tq_day q) tier (qs_out s) \<le> turn_cap l tier))"

lemma pair_label_sym: "{a', b'} = {a, b} \<Longrightarrow> pair_label a' b' = pair_label a b"
  by (auto simp: doubleton_eq_iff pair_label_def)

lemma today_Cons [simp]:
  "today d ((a, b, net, g) # out) = (if g_day g = d then [(a, b, net, g)] else []) @ today d out"
  by (simp add: today_def)

lemma uses_simps [simp]:
  "pair_uses key [] = 0" "net_uses key [] = 0"
  "pair_uses key ((a, b, net, g) # out) = (if g_pair g = key then 1 else 0) + pair_uses key out"
  "net_uses key ((a, b, net, g) # out) = count_list (g_networks g) key + net_uses key out"
  by (simp_all add: pair_uses_def net_uses_def)

lemma turn_load_Cons [simp]:
  "turn_load d tier ((a, b, net, g) # out)
     = (if g_day g = d \<and> tier \<in> set (tiers net) then 1 else 0) + turn_load d tier out"
  by (simp add: turn_load_def)

lemma count_fold_bump: "count_of (fold bump_count ks m) k = count_of m k + count_list ks k"
  by (induction ks arbitrary: m) auto

lemma count_fold_lower: "count_of (fold lower_count ks m) k = count_of m k - count_list ks k"
  by (induction ks arbitrary: m) auto

lemma network_keys_Some:
  "network_keys digest l q ts = Some keys \<Longrightarrow>
     keys = map (net_hash digest q) ts
     \<and> (\<forall>tier \<in> set ts. count_of (tq_networks q) (net_hash digest q tier) < turn_cap l tier)"
  by (induction ts arbitrary: keys)
    (auto simp: net_hash_def Let_def linorder_not_le split: if_splits)

lemma hashed_cong: "tq_salt q' = tq_salt q \<Longrightarrow> hashed digest q' = hashed digest q"
  by (simp add: hashed_def fun_eq_iff)

lemma issued_ok_cong:
  assumes "tq_salt q' = tq_salt q" and "tq_day q' = tq_day q"
  shows "issued_ok digest q' = issued_ok digest q"
proof -
  have "net_hash digest q' = net_hash digest q"
    by (simp add: net_hash_def hashed_cong [OF assms(1)] fun_eq_iff)
  then show ?thesis by (intro ext) (simp add: issued_ok_def hashed_cong [OF assms(1)] assms)
qed

lemma issued_ok_counts [simp]:
  "issued_ok digest (q\<lparr>tq_pairs := p, tq_networks := n\<rparr>) = issued_ok digest q"
  by (rule issued_ok_cong) simp_all

text \<open>The grants of a tier are among the uses of its key, whatever else hashes to it.\<close>

lemma turn_load_uses:
  assumes "list_all (issued_ok digest q) out"
  shows "turn_load (tq_day q) tier out \<le> net_uses (net_hash digest q tier) (today (tq_day q) out)"
  using assms
proof (induction out)
  case Nil
  then show ?case by (simp add: turn_load_def today_def)
next
  case (Cons i out)
  obtain a b net g where i: "i = (a, b, net, g)" by (cases i)
  have "1 \<le> count_list (g_networks g) (net_hash digest q tier)"
    if "g_day g = tq_day q" "tier \<in> set (tiers net)"
  proof -
    have "net_hash digest q tier \<in> set (g_networks g)"
      using Cons.prems that by (simp add: i issued_ok_def)
    then show ?thesis by (simp add: Suc_le_eq count_list_0_iff flip: neq0_conv)
  qed
  then show ?case using Cons by (auto simp: i)
qed

lemma pair_load_uses:
  assumes "list_all (issued_ok digest q) out"
  shows "pair_load (tq_day q) a b out
    \<le> pair_uses (hashed digest q (pair_label a b)) (today (tq_day q) out)"
  using assms
proof (induction out)
  case Nil
  then show ?case by (simp add: pair_load_def today_def)
next
  case (Cons i out)
  obtain a' b' net g where i: "i = (a', b', net, g)" by (cases i)
  then show ?case
    using Cons pair_label_sym [of a' b' a b] by (auto simp: issued_ok_def pair_load_def)
qed

text \<open>A new day starts with nothing used.\<close>

lemma roll_today:
  assumes "quota_inv digest l s" and "days_pass (now # qs_times s)" and "salt \<noteq> []"
  shows "quota_inv digest l (s\<lparr>qs_quota := roll salt (qs_quota s) now, qs_times := now # qs_times s\<rparr>)
    \<and> tq_salt (roll salt (qs_quota s) now) \<noteq> []
    \<and> tq_day (roll salt (qs_quota s) now) = now div SECONDS_PER_DAY"
proof (cases "now div SECONDS_PER_DAY = tq_day (qs_quota s) \<and> tq_salt (qs_quota s) \<noteq> []")
  case True
  then have "roll salt (qs_quota s) now = qs_quota s" by (simp add: roll_def)
  then show ?thesis
    using True assms(1) by (auto simp: quota_inv_def Let_def)
next
  case False
  let ?d = "now div SECONDS_PER_DAY"
  have r: "roll salt (qs_quota s) now = turn_quota_default\<lparr>tq_day := ?d, tq_salt := salt\<rparr>"
    using False by (simp only: roll_def Let_def if_False)
  have le: "tq_day (qs_quota s) \<le> ?d" if out: "qs_out s \<noteq> []"
  proof -
    have "qs_times s \<noteq> []" "tq_day (qs_quota s) \<le> hd (qs_times s) div SECONDS_PER_DAY"
      using assms(1) out by (simp_all add: quota_inv_def Let_def)
    then show ?thesis using assms(2) by (cases "qs_times s") (auto simp: days_pass_def sorted_append)
  qed
  have old: "list_all (issued_ok digest (qs_quota s)) (qs_out s)"
    using assms(1) by (simp add: quota_inv_def Let_def)
  have none: "g_day g < ?d" if "(a, b, net, g) \<in> set (qs_out s)" for a b net g
  proof -
    have ok: "issued_ok digest (qs_quota s) (a, b, net, g)" using old that by (auto simp: list_all_iff)
    then have "tq_day (qs_quota s) \<noteq> ?d"
      using False by (auto simp: issued_ok_def)
    then show ?thesis using ok le that by (force simp: issued_ok_def)
  qed
  have td: "today ?d (qs_out s) = []"
    by (auto simp: today_def filter_empty_conv simp del: not_less dest!: none)
  have "issued_ok digest (turn_quota_default\<lparr>tq_day := ?d, tq_salt := salt\<rparr>) i"
    if "i \<in> set (qs_out s)" for i
  proof (cases i)
    case (fields a b net g)
    then show ?thesis using none [of a b net g] that assms(3) by (simp add: issued_ok_def)
  qed
  then have "list_all (issued_ok digest (turn_quota_default\<lparr>tq_day := ?d, tq_salt := salt\<rparr>)) (qs_out s)"
    by (simp add: list_all_iff)
  then show ?thesis
    using td assms(3)
    by (simp add: quota_inv_def Let_def r turn_quota_default_def count_of_def turn_load_def)
qed

lemma quota_inv_granted:
  assumes rinv: "quota_inv digest l (s\<lparr>qs_quota := r, qs_times := now # qs_times s\<rparr>)"
    and salt: "tq_salt r \<noteq> []" and day: "tq_day r = now div SECONDS_PER_DAY"
    and free: "count_of (tq_pairs r) (hashed digest r (pair_label a b)) < turn_per_pair_per_day l"
    and nets: "\<forall>tier \<in> set (tiers net).
      count_of (tq_networks r) (net_hash digest r tier) < turn_cap l tier"
    and g: "g = \<lparr>g_day = tq_day r, g_pair = hashed digest r (pair_label a b),
      g_networks = map (net_hash digest r) (tiers net)\<rparr>"
  shows "quota_inv digest l (s\<lparr>qs_quota := r\<lparr>tq_pairs := bump_count (g_pair g) (tq_pairs r),
      tq_networks := fold bump_count (g_networks g) (tq_networks r)\<rparr>,
    qs_times := now # qs_times s, qs_out := (a, b, net, g) # qs_out s\<rparr>)"
proof -
  note inv = rinv [unfolded quota_inv_def Let_def, simplified]
  have load: "turn_load (tq_day r) tier (qs_out s) < turn_cap l tier"
    if "tier \<in> set (tiers net)" for tier
  proof -
    have "turn_load (tq_day r) tier (qs_out s) \<le> net_uses (net_hash digest r tier) (today (tq_day r) (qs_out s))"
      using inv by (intro turn_load_uses) blast
    also have "\<dots> \<le> count_of (tq_networks r) (net_hash digest r tier)" using inv by blast
    finally show ?thesis using that nets by fastforce
  qed
  have new: "issued_ok digest r (a, b, net, g)"
    using salt by (simp add: issued_ok_def g)
  have "pair_uses (g_pair g) (today (tq_day r) (qs_out s)) \<le> count_of (tq_pairs r) (g_pair g)"
    using inv by blast
  then have pairs: "pair_uses (g_pair g) (today (tq_day r) (qs_out s)) < turn_per_pair_per_day l"
    using free by (simp add: g)
  have today: "g_day g = tq_day r" by (simp add: g)
  have tiers: "turn_load (tq_day r) tier ((a, b, net, g) # qs_out s) \<le> turn_cap l tier" for tier
    using inv load [of tier] by (auto simp: Suc_le_eq)
  show ?thesis
    unfolding quota_inv_def Let_def
    using inv new pairs day today tiers by (auto simp: count_fold_bump Suc_le_eq less_Suc_eq_le)
qed

lemma pair_uses_remove1:
  "(a, b, net, g) \<in> set xs \<Longrightarrow>
     pair_uses key (remove1 (a, b, net, g) xs) = pair_uses key xs - (if g_pair g = key then 1 else 0)"
  by (simp add: pair_uses_def filter_remove1 length_remove1)

lemma net_uses_remove1:
  "(a, b, net, g) \<in> set xs \<Longrightarrow>
     net_uses key (remove1 (a, b, net, g) xs) = net_uses key xs - count_list (g_networks g) key"
  using sum_list_map_remove1 [of "(a, b, net, g)" xs "\<lambda>(_, _, _, g). count_list (g_networks g) key"]
  by (simp add: net_uses_def)

lemma today_remove1: "today d (remove1 i out) = remove1 i (today d out)"
  by (simp add: today_def filter_remove1)

lemma turn_load_remove1: "turn_load d tier (remove1 i out) \<le> turn_load d tier out"
  by (simp add: turn_load_def today_remove1 filter_remove1 length_remove1)

lemma quota_inv_refunded:
  assumes inv: "quota_inv digest l s" and mem: "(a, b, net, g) \<in> set (qs_out s)"
  shows "quota_inv digest l
    (s\<lparr>qs_quota := refund (qs_quota s) g, qs_out := remove1 (a, b, net, g) (qs_out s)\<rparr>)"
proof -
  let ?q = "qs_quota s" and ?i = "(a, b, net, g)"
  have out: "list_all (issued_ok digest ?q) (remove1 ?i (qs_out s))"
    using inv by (auto simp: quota_inv_def Let_def list_all_iff dest: notin_set_remove1)
  have load: "turn_load (tq_day ?q) tier (remove1 ?i (qs_out s)) \<le> turn_cap l tier" for tier
    using inv by (intro order_trans [OF turn_load_remove1]) (simp add: quota_inv_def Let_def)
  have clock: "qs_times s \<noteq> [] \<and> tq_day ?q \<le> hd (qs_times s) div SECONDS_PER_DAY"
    using inv mem by (cases "qs_out s") (simp_all add: quota_inv_def Let_def)
  show ?thesis
  proof (cases "g_day g = tq_day ?q")
    case True
    then have "?i \<in> set (today (tq_day ?q) (qs_out s))" using mem by (simp add: today_def)
    note uses = pair_uses_remove1 [OF this] net_uses_remove1 [OF this]
    note sound = inv [unfolded quota_inv_def Let_def]
    have "pair_uses key (remove1 ?i (today (tq_day ?q) (qs_out s))) \<le> count_of (lower_count (g_pair g) (tq_pairs ?q)) key" for key
      using sound by (simp add: uses diff_le_mono)
    moreover have "net_uses key (remove1 ?i (today (tq_day ?q) (qs_out s))) \<le> count_of (fold lower_count (g_networks g) (tq_networks ?q)) key" for key
      using sound by (simp add: uses count_fold_lower diff_le_mono)
    moreover have "pair_uses key (remove1 ?i (today (tq_day ?q) (qs_out s))) \<le> turn_per_pair_per_day l" for key
      using sound by (simp add: uses le_diff_conv trans_le_add1)
    ultimately show ?thesis
      using out load True clock by (simp add: quota_inv_def Let_def today_remove1 refund_def)
  next
    case False
    then have "remove1 ?i (today (tq_day ?q) (qs_out s)) = today (tq_day ?q) (qs_out s)"
      by (auto simp: today_def intro: remove1_idem)
    then show ?thesis
      using inv out load False clock by (simp add: quota_inv_def Let_def today_remove1 refund_def)
  qed
qed

lemma days_passed: "days_pass (t # ts) \<Longrightarrow> days_pass ts"
  by (simp add: days_pass_def sorted_append)

lemma quota_inv_step:
  assumes safe: "days_pass (qs_times s) \<longrightarrow> quota_inv digest l s" and step: "quota_step digest l s s'"
    and days: "days_pass (qs_times s')"
  shows "quota_inv digest l s'"
proof -
  have inv: "quota_inv digest l s"
    using step safe days by cases (auto dest: days_passed)
  show ?thesis using step
  proof cases
    case (quota_refused salt a b net now e q)
    then have "q = roll salt (qs_quota s) now"
      by (auto simp: try_grant_def Let_def split: if_splits option.splits)
    then show ?thesis using roll_today [OF inv] quota_refused days by simp
  next
    case (quota_granted salt a b net now g q)
    define r where "r = roll salt (qs_quota s) now"
    have "quota_inv digest l (s\<lparr>qs_quota := r, qs_times := now # qs_times s\<rparr>)" "tq_salt r \<noteq> []" "tq_day r = now div SECONDS_PER_DAY"
      using roll_today [OF inv, of now salt] quota_granted days by (simp_all add: r_def)
    note rolled = quota_inv_granted [OF this _ _ refl, of a b net]
    show ?thesis
      using quota_granted(3) network_keys_Some [of digest l r "tiers net"] rolled
      by (auto simp: quota_granted(1) try_grant_def Let_def r_def [symmetric] not_le
          split: if_splits option.splits)
  next
    case (quota_refunded a b net g)
    then show ?thesis using quota_inv_refunded [OF inv] by simp
  qed
qed

interpretation quota_system: invariant_system quota_init "quota_step digest l"
    "\<lambda>s. days_pass (qs_times s) \<longrightarrow> quota_inv digest l s"
  for digest :: "string \<Rightarrow> string option" and l :: limits
proof (unfold_locales, goal_cases)
  case (1 s)
  then show ?case
    by (simp add: quota_init_def quota_inv_def today_def turn_load_def)
qed (use quota_inv_step in blast)

subsection \<open>Properties\<close>

text \<open>
  A connection's frames are rate limited: among the frames arriving up to a time, those
  let through number at most the burst and what the message rate adds since the connection
  started, and their bytes at most the byte capacity and what the byte rate adds.
\<close>

lemma frame_rate_bounded:
  assumes "0 \<le> msgs_per_sec l" and "0 \<le> msgs_burst l" and "0 \<le> bytes_per_sec l"
    and "sorted (t0 # map snd frames)"
  shows "fst (spend allow_frame (\<lambda>_. 1) (conn_limits_new l t0) frames)
      \<le> msgs_burst l + msgs_per_sec l * secs_f64 (end_time t0 frames - t0)
    \<and> fst (spend allow_frame real (conn_limits_new l t0) frames)
      \<le> max (bytes_per_sec l) (real (max_frame_bytes l))
        + bytes_per_sec l * secs_f64 (end_time t0 frames - t0)"
  using frame_count.spend_bound [OF conn_limits_new_ok [OF assms(1-3)] assms(4)]
    frame_bytes.spend_bound [OF conn_limits_new_ok [OF assms(1-3)] assms(4)]
  by (simp add: list_all_iff)

text \<open>
  Authentication attempts are rate limited per network and, for IPv6, per /48 whatever
  /64s inside it are used: the attempts let through count at most a minute's allowance and what
  the rate adds over the time, also when full buckets are pruned in between.
\<close>

lemma auth_rate_bounded:
  assumes "\<And>k. 0 \<le> auths_per_min l k" and "sorted (t0 # map snd events)"
  shows "fst (spend auth_event (auth_cost tier) (net_limits_new l) events)
    \<le> auths_per_min l tier + auths_per_min l tier / 60 * secs_f64 (end_time t0 events - t0)"
proof -
  have "auths_ok l (net_limits_new l) t0"
    using assms(1) by (simp add: auths_ok_def net_limits_new_def)
  from auth_tier.spend_bound [OF this assms(2)] show ?thesis by (simp add: list_all_iff)
qed

text \<open>
  In every reachable state the counters equal the slots that are out: the total and the
  unauthenticated connections stay within their caps, and for every address, /64 and /48 the
  number of open connections counted under it is exactly its counter and within its cap, so no
  slot is leaked and none is released twice.
\<close>

lemma slots_exact_and_capped:
  assumes "reachable (slots_init l) slots_step s"
  shows "nl_total (sl_net s) = sl_pending s + sl_authed s
    \<and> nl_unauthenticated (sl_net s) = sl_pending s
    \<and> nl_total (sl_net s) \<le> global_connections l
    \<and> sl_pending s \<le> unauthenticated_cap l
    \<and> count_of (nl_connections (sl_net s)) tier = tier_load tier (sl_keys s)
    \<and> tier_load tier (sl_keys s) \<le> connection_cap l tier"
  using slot_sys.reachable_inv [OF assms] by (simp add: slots_inv_def)

text \<open>
  The day of the quota is compared for equality only: a clock that goes back over midnight, or on and
  back, starts the count of a day again, however much of it was used.
\<close>

lemma another_day_grants:
  assumes "now div SECONDS_PER_DAY \<noteq> tq_day q" and "0 < turn_per_pair_per_day l" and "\<forall>tier \<in> set (tiers net). 0 < turn_cap l tier"
  shows "\<exists>g q'. try_grant digest salt l q a b net now = (Inr g, q')"
proof -
  let ?r = "roll salt q now"
  have "?r = turn_quota_default\<lparr>tq_day := now div SECONDS_PER_DAY, tq_salt := salt\<rparr>"
    using assms(1) by (simp add: roll_def)
  then have none: "count_of (tq_pairs ?r) k = 0" "count_of (tq_networks ?r) k = 0" for k
    by (simp_all add: turn_quota_default_def count_of_def)
  have "network_keys digest l ?r ts \<noteq> None" if "\<forall>tier \<in> set ts. 0 < turn_cap l tier" for ts
    using that by (induction ts) (simp_all add: none Let_def)
  then obtain keys where "network_keys digest l ?r (tiers net) = Some keys" using assms(3) by blast
  then show ?thesis using assms(2) by (simp add: try_grant_def Let_def none)
qed

text \<open>
  C29. The TURN quota holds as long as the days of the clock do not go back: on any day, whatever
  quota the relay was started with, whatever was granted and refunded since and however the hashes
  collide, the grants of this run of the relay that are out between two devices are at most the daily
  number for a pair, and those counted under an address, a /64 or a /48 at most its daily number.
  (Where a day does go back the counts begin again: \<open>another_day_grants\<close>.)
\<close>

theorem turn_quota_holds:
  assumes "reachable quota_init (quota_step digest l) s" and "days_pass (qs_times s)"
  shows "pair_load (tq_day (qs_quota s)) a b (qs_out s) \<le> turn_per_pair_per_day l
    \<and> turn_load (tq_day (qs_quota s)) tier (qs_out s) \<le> turn_cap l tier"
proof -
  have inv: "quota_inv digest l s" using quota_system.reachable_inv [OF assms(1)] assms(2) by blast
  then have "list_all (issued_ok digest (qs_quota s)) (qs_out s)"
    by (simp add: quota_inv_def Let_def)
  note pair_load_uses [OF this, of a b]
  also have "pair_uses (hashed digest (qs_quota s) (pair_label a b)) (today (tq_day (qs_quota s)) (qs_out s))
      \<le> turn_per_pair_per_day l"
    using inv by (simp add: quota_inv_def Let_def)
  finally show ?thesis using inv by (simp add: quota_inv_def Let_def)
qed

lemma demo_grant:
  "\<exists>g q. try_grant (\<lambda>x. Some x) ''s'' limits_default turn_quota_default ''A'' ''B'' (V4 9) 90000 = (Inr g, q)
     \<and> g_day g = 1 \<and> tq_day q = 1"
  by (simp add: try_grant_def roll_def turn_quota_default_def Let_def count_of_def limits_default_def
      SECONDS_PER_DAY_def)

theorem turn_quota_holds_witness:
  "\<exists>g q. try_grant (\<lambda>x. Some x) ''s'' limits_default turn_quota_default ''A'' ''B'' (V4 9) 90000 = (Inr g, q)
     \<and> pair_load 1 ''B'' ''A'' [(''A'', ''B'', V4 9, g)] = 1 \<and> pair_load 1 ''B'' ''A'' [(''A'', ''B'', V4 9, g)] \<le> 20"
proof -
  obtain g q where g:
    "try_grant (\<lambda>x. Some x) ''s'' limits_default turn_quota_default ''A'' ''B'' (V4 9) 90000 = (Inr g, q)"
    "g_day g = 1" "tq_day q = 1"
    using demo_grant by blast
  let ?start = "\<lparr>qs_quota = turn_quota_default, qs_times = [], qs_out = []\<rparr>"
  let ?s = "\<lparr>qs_quota = q, qs_times = [90000], qs_out = [(''A'', ''B'', V4 9, g)]\<rparr>"
  have "reachable quota_init (quota_step (\<lambda>x. Some x) limits_default) ?start"
    by (rule reach_init) (simp add: quota_init_def)
  moreover have "quota_step (\<lambda>x. Some x) limits_default ?start ?s"
    using quota_granted [of "''s''" "\<lambda>x. Some x" limits_default ?start "''A''" "''B''" "V4 9" 90000 g q] g
    by simp
  ultimately have "reachable quota_init (quota_step (\<lambda>x. Some x) limits_default) ?s" by (rule reach_step)
  from turn_quota_holds [OF this, of "''B''" "''A''"] show ?thesis
    using g by (auto simp: limits_default_def pair_load_def today_def days_pass_def)
qed

end
