(* ===== verification/Relay_Hub.thy ===== *)
theory Relay_Hub
  imports Relay_Protocol
begin

section \<open>The relay's hub\<close>

text \<open>
  \<open>relay/src/hub.rs\<close>: who is online, who allows whom, and where their frames go.

  The channels \<open>Outbox\<close>/\<open>Inbox\<close> live in a store \<open>h_chans\<close> addressed by number, since a
  connection and the hub share one: \<open>ch_queue\<close> is what waits in the \<open>mpsc\<close> channel,
  \<open>ch_queued\<close> the shared counter, \<open>ch_alive\<close> whether the receiver still exists. The hub is
  behind a mutex and each operation is one step; a receive is a step of its own.

  Parameters: \<open>ser\<close> is \<open>serde_json::to_string\<close> and \<open>de\<close> the receiver's reading of the text;
  \<open>iter\<close> is the order in which a \<open>HashSet\<close> is iterated, of which only that it lists the set
  once (\<open>iter_ok\<close>) is used.
\<close>

definition MAX_QUEUED_BYTES :: nat where "MAX_QUEUED_BYTES = 2 * 1024 * 1024"
definition CONTROL_HEADROOM :: nat where "CONTROL_HEADROOM = 256 * 1024"

type_synonym fp = string
type_synonym addr = nat
type_synonym ser = "server_message \<Rightarrow> string option"
type_synonym iter = "string set \<Rightarrow> string list"

datatype outbound = Frame string | Close nat string

record chan =
  ch_queue :: "outbound list"
  ch_queued :: nat
  ch_alive :: bool

record peer =
  p_conn :: nat
  p_outbox :: addr
  p_allow :: "fp set"

record hub =
  h_peers :: "fp \<rightharpoonup> peer"
  h_chans :: "addr \<Rightarrow> chan"
  h_next :: addr

definition new_chan :: chan where
  "new_chan = \<lparr>ch_queue = [], ch_queued = 0, ch_alive = True\<rparr>"

definition hub_default :: hub where
  "hub_default = \<lparr>h_peers = Map.empty, h_chans = (\<lambda>_. new_chan), h_next = 0\<rparr>"

subsection \<open>Outboxes\<close>

text \<open>\<open>outbox()\<close>: a fresh channel.\<close>

definition outbox :: "hub \<Rightarrow> addr \<times> hub" where
  "outbox h =
     (h_next h, h\<lparr>h_chans := (h_chans h)(h_next h := new_chan), h_next := h_next h + 1\<rparr>)"

text \<open>\<open>tx.send\<close>: fails, and delivers nothing, once the receiver is gone.\<close>

definition chan_send :: "chan \<Rightarrow> outbound \<Rightarrow> bool \<times> chan" where
  "chan_send c x = (if ch_alive c then (True, c\<lparr>ch_queue := ch_queue c @ [x]\<rparr>) else (False, c))"

definition chan_close :: "chan \<Rightarrow> nat \<Rightarrow> string \<Rightarrow> chan" where
  "chan_close c code reason = snd (chan_send c (Close code reason))"

definition chan_push :: "ser \<Rightarrow> chan \<Rightarrow> server_message \<Rightarrow> bool \<Rightarrow> bool \<times> chan" where
  "chan_push ser c message bounded =
     (case ser message of
        None \<Rightarrow> (False, c)
      | Some text_ \<Rightarrow>
          (let queued = ch_queued c + length text_ in
           if bounded \<and> MAX_QUEUED_BYTES < queued then (False, c)
           else if MAX_QUEUED_BYTES + CONTROL_HEADROOM < queued
           then (False, chan_close c CLOSE_RATE_LIMITED ''too far behind'')
           else chan_send (c\<lparr>ch_queued := queued\<rparr>) (Frame text_)))"

definition chan_try_recv :: "chan \<Rightarrow> outbound option \<times> chan" where
  "chan_try_recv c =
     (case ch_queue c of
        [] \<Rightarrow> (None, c)
      | x # xs \<Rightarrow>
          (Some x, c\<lparr>ch_queue := xs,
             ch_queued := (case x of Frame t \<Rightarrow> ch_queued c - length t | Close _ _ \<Rightarrow> ch_queued c)\<rparr>))"

definition push :: "ser \<Rightarrow> hub \<Rightarrow> addr \<Rightarrow> server_message \<Rightarrow> bool \<Rightarrow> bool \<times> hub" where
  "push ser h a message bounded =
     (let (ok, c) = chan_push ser (h_chans h a) message bounded
      in (ok, h\<lparr>h_chans := (h_chans h)(a := c)\<rparr>))"

definition close :: "hub \<Rightarrow> addr \<Rightarrow> nat \<Rightarrow> string \<Rightarrow> hub" where
  "close h a code reason = h\<lparr>h_chans := (h_chans h)(a := chan_close (h_chans h a) code reason)\<rparr>"

definition try_recv :: "hub \<Rightarrow> addr \<Rightarrow> outbound option \<times> hub" where
  "try_recv h a =
     (let (x, c) = chan_try_recv (h_chans h a) in (x, h\<lparr>h_chans := (h_chans h)(a := c)\<rparr>))"

text \<open>Dropping an \<open>Inbox\<close> drops what waits in it; later sends fail.\<close>

definition drop_inbox :: "hub \<Rightarrow> addr \<Rightarrow> hub" where
  "drop_inbox h a =
     h\<lparr>h_chans := (h_chans h)(a := (h_chans h a)\<lparr>ch_queue := [], ch_alive := False\<rparr>)\<rparr>"

subsection \<open>The hub\<close>

definition online :: "hub \<Rightarrow> nat" where
  "online h = card (dom (h_peers h))"

definition current :: "hub \<Rightarrow> fp \<Rightarrow> nat \<Rightarrow> peer option" where
  "current h fp conn =
     (case h_peers h fp of
        Some p \<Rightarrow> if p_conn p = conn then Some p else None
      | None \<Rightarrow> None)"

definition mutual :: "hub \<Rightarrow> fp \<Rightarrow> fp \<Rightarrow> bool" where
  "mutual h a b =
     (case (h_peers h a, h_peers h b) of
        (Some pa, Some pb) \<Rightarrow> a \<noteq> b \<and> b \<in> p_allow pa \<and> a \<in> p_allow pb
      | _ \<Rightarrow> False)"

definition mutual_peers :: "hub \<Rightarrow> fp \<Rightarrow> fp set" where
  "mutual_peers h fp =
     (case h_peers h fp of
        Some peer \<Rightarrow> Set.filter (mutual h fp) (p_allow peer)
      | None \<Rightarrow> {})"

definition presence :: "ser \<Rightarrow> fp \<Rightarrow> fp \<Rightarrow> bool \<Rightarrow> hub \<Rightarrow> hub" where
  "presence ser to about is_online h =
     (case h_peers h to of
        Some peer \<Rightarrow> snd (push ser h (p_outbox peer) (Presence about is_online) False)
      | None \<Rightarrow> h)"

definition remove :: "ser \<Rightarrow> iter \<Rightarrow> hub \<Rightarrow> fp \<Rightarrow> hub" where
  "remove ser iter h fp =
     (let h = fold (\<lambda>peer. presence ser peer fp False) (iter (mutual_peers h fp)) h
      in h\<lparr>h_peers := (h_peers h)(fp := None)\<rparr>)"

definition register :: "ser \<Rightarrow> iter \<Rightarrow> hub \<Rightarrow> fp \<Rightarrow> nat \<Rightarrow> addr \<Rightarrow> hub" where
  "register ser iter h fp conn a =
     (let h = (case h_peers h fp of
                 Some old \<Rightarrow>
                   remove ser iter
                     (close h (p_outbox old) CLOSE_REPLACED ''replaced by a newer connection'') fp
               | None \<Rightarrow> h)
      in h\<lparr>h_peers := (h_peers h)(fp \<mapsto> \<lparr>p_conn = conn, p_outbox = a, p_allow = {}\<rparr>)\<rparr>)"

definition unregister :: "ser \<Rightarrow> iter \<Rightarrow> hub \<Rightarrow> fp \<Rightarrow> nat \<Rightarrow> hub" where
  "unregister ser iter h fp conn =
     (if current h fp conn \<noteq> None then remove ser iter h fp else h)"

text \<open>The two announcements of a change of mutuality between \<open>fp\<close> and \<open>other\<close>.\<close>

definition announce :: "ser \<Rightarrow> fp \<Rightarrow> bool \<Rightarrow> fp \<Rightarrow> hub \<Rightarrow> hub" where
  "announce ser fp is_online other h =
     presence ser other fp is_online (presence ser fp other is_online h)"

definition set_allow :: "ser \<Rightarrow> iter \<Rightarrow> hub \<Rightarrow> fp \<Rightarrow> nat \<Rightarrow> fp list \<Rightarrow> hub" where
  "set_allow ser iter h fp conn fps =
     (if current h fp conn = None then h
      else
        let before = mutual_peers h fp;
            h = (case h_peers h fp of
                   Some peer \<Rightarrow>
                     h\<lparr>h_peers := (h_peers h)(fp \<mapsto> peer\<lparr>p_allow := set (filter (\<lambda>f. f \<noteq> fp) fps)\<rparr>)\<rparr>
                 | None \<Rightarrow> h);
            after = mutual_peers h fp;
            h = fold (announce ser fp True) (filter (\<lambda>f. f \<notin> before) (iter after)) h
        in fold (announce ser fp False) (filter (\<lambda>f. f \<notin> after) (iter before)) h)"

definition forward :: "ser \<Rightarrow> hub \<Rightarrow> fp \<Rightarrow> nat \<Rightarrow> fp \<Rightarrow> json \<Rightarrow> (error_code, unit) result \<times> hub" where
  "forward ser h from conn to data =
     (case current h from conn of
        None \<Rightarrow> (Inl Offline, h)
      | Some sender \<Rightarrow>
          if to \<notin> p_allow sender then (Inl NotAllowed, h)
          else (case h_peers h to of
              Some target \<Rightarrow>
                if mutual h from to then
                  (let (ok, h') = push ser h (p_outbox target) (Msg from data) True
                   in (if ok then Inr () else Inl Offline, h'))
                else (Inl Offline, h)
            | None \<Rightarrow> (Inl Offline, h)))"

definition can_turn :: "hub \<Rightarrow> fp \<Rightarrow> nat \<Rightarrow> fp \<Rightarrow> bool" where
  "can_turn h from conn peer = (current h from conn \<noteq> None \<and> mutual h from peer)"


subsection \<open>What a connection is shown\<close>

text \<open>
  The hub beside what each receiver has taken out of its inbox (\<open>hs_seen\<close>) and the channels
  made for connections that have not registered yet (\<open>hs_pending\<close>).
\<close>

record hub_sys =
  hs_hub :: hub
  hs_seen :: "addr \<Rightarrow> outbound list"
  hs_pending :: "addr set"

definition hub_init :: "hub_sys \<Rightarrow> bool" where
  "hub_init s \<longleftrightarrow> hs_hub s = hub_default \<and> hs_seen s = (\<lambda>_. []) \<and> hs_pending s = {}"

inductive hub_step :: "ser \<Rightarrow> iter \<Rightarrow> hub_sys \<Rightarrow> hub_sys \<Rightarrow> bool"
  for ser :: ser and iter :: iter where
  step_outbox: "outbox (hs_hub s) = (a, h) \<Longrightarrow>
    hub_step ser iter s (s\<lparr>hs_hub := h, hs_pending := insert a (hs_pending s)\<rparr>)"
| step_register: "a \<in> hs_pending s \<Longrightarrow>
    hub_step ser iter s (s\<lparr>hs_hub := register ser iter (hs_hub s) fp conn a,
      hs_pending := hs_pending s - {a}\<rparr>)"
| step_unregister:
    "hub_step ser iter s (s\<lparr>hs_hub := unregister ser iter (hs_hub s) fp conn\<rparr>)"
| step_set_allow:
    "hub_step ser iter s (s\<lparr>hs_hub := set_allow ser iter (hs_hub s) fp conn fps\<rparr>)"
| step_forward:
    "hub_step ser iter s (s\<lparr>hs_hub := snd (forward ser (hs_hub s) from conn to data)\<rparr>)"
| step_recv: "try_recv (hs_hub s) a = (Some x, h) \<Longrightarrow>
    hub_step ser iter s (s\<lparr>hs_hub := h, hs_seen := (hs_seen s)(a := hs_seen s a @ [x])\<rparr>)"
| step_drop: "hub_step ser iter s (s\<lparr>hs_hub := drop_inbox (hs_hub s) a\<rparr>)"

text \<open>Everything sent to a channel so far, and what a client reads out of it.\<close>

definition chan_log :: "hub_sys \<Rightarrow> addr \<Rightarrow> outbound list" where
  "chan_log s a = hs_seen s a @ ch_queue (h_chans (hs_hub s) a)"

fun see :: "(string \<Rightarrow> server_message option) \<Rightarrow> fp \<Rightarrow> outbound \<Rightarrow> bool \<Rightarrow> bool" where
  "see de x (Frame t) v =
     (case de t of Some (Presence f on) \<Rightarrow> if f = x then on else v | _ \<Rightarrow> v)"
| "see de x (Close _ _) v = v"

definition view :: "(string \<Rightarrow> server_message option) \<Rightarrow> outbound list \<Rightarrow> fp \<Rightarrow> bool" where
  "view de xs x = fold (see de x) xs False"

definition is_close :: "outbound \<Rightarrow> bool" where
  "is_close x = (case x of Close _ _ \<Rightarrow> True | Frame _ \<Rightarrow> False)"

text \<open>The connection of \<open>q\<close> still listens and has not been told to close.\<close>

definition live :: "hub_sys \<Rightarrow> fp \<Rightarrow> bool" where
  "live s q =
     (case h_peers (hs_hub s) q of
        None \<Rightarrow> False
      | Some p \<Rightarrow> ch_alive (h_chans (hs_hub s) (p_outbox p))
          \<and> \<not> list_ex is_close (chan_log s (p_outbox p)))"

definition shown :: "(string \<Rightarrow> server_message option) \<Rightarrow> hub_sys \<Rightarrow> fp \<Rightarrow> fp \<Rightarrow> bool" where
  "shown de s q x =
     (case h_peers (hs_hub s) q of None \<Rightarrow> False | Some p \<Rightarrow> view de (chan_log s (p_outbox p)) x)"

text \<open>What the theorems rely on of \<open>serde_json\<close> and of \<open>HashSet\<close>.\<close>

definition wire_ok :: "ser \<Rightarrow> (string \<Rightarrow> server_message option) \<Rightarrow> bool" where
  "wire_ok ser de \<longleftrightarrow>
     (\<forall>f on. \<exists>t. ser (Presence f on) = Some t \<and> de t = Some (Presence f on))
     \<and> (\<forall>f d t. ser (Msg f d) = Some t \<longrightarrow> (\<exists>d'. de t = Some (Msg f d')))"

definition iter_ok :: "iter \<Rightarrow> bool" where
  "iter_ok iter \<longleftrightarrow> (\<forall>A. finite A \<longrightarrow> set (iter A) = A \<and> distinct (iter A))"

definition peers_ok :: "hub \<Rightarrow> bool" where
  "peers_ok h \<longleftrightarrow>
     (\<forall>f p. h_peers h f = Some p \<longrightarrow> p_outbox p < h_next h \<and> finite (p_allow p) \<and> f \<notin> p_allow p)
     \<and> (\<forall>f p g q. h_peers h f = Some p \<longrightarrow> h_peers h g = Some q \<longrightarrow> p_outbox p = p_outbox q \<longrightarrow> f = g)"

lemma peers_okD:
  assumes "peers_ok h" and "h_peers h f = Some p"
  shows "p_outbox p < h_next h" and "finite (p_allow p)" and "f \<notin> p_allow p"
  using assms by (auto simp: peers_ok_def)

lemma push_fields [simp]:
  "h_peers (snd (push ser h a m b)) = h_peers h" "h_next (snd (push ser h a m b)) = h_next h"
  by (simp_all add: push_def case_prod_beta)

subsubsection \<open>One channel\<close>

lemma chan_push_control:
  assumes "ser m = Some t"
  shows "ch_alive (snd (chan_push ser c m False)) = ch_alive c
    \<and> ch_queue (snd (chan_push ser c m False)) = ch_queue c @
        (if ch_alive c then
           [if MAX_QUEUED_BYTES + CONTROL_HEADROOM < ch_queued c + length t
            then Close CLOSE_RATE_LIMITED ''too far behind'' else Frame t]
         else [])"
  using assms by (simp add: chan_push_def chan_close_def chan_send_def Let_def)

lemma chan_push_bounded:
  "ch_alive (snd (chan_push ser c m True)) = ch_alive c
   \<and> (ch_queue (snd (chan_push ser c m True)) = ch_queue c
      \<or> (\<exists>t. ser m = Some t \<and> ch_queue (snd (chan_push ser c m True)) = ch_queue c @ [Frame t]))"
  by (auto simp: chan_push_def chan_close_def chan_send_def Let_def CONTROL_HEADROOM_def
      split: option.splits)

definition frame_bytes :: "outbound list \<Rightarrow> nat" where
  "frame_bytes xs = sum_list (map (\<lambda>x. case x of Frame t \<Rightarrow> length t | Close _ _ \<Rightarrow> 0) xs)"

definition chan_ok :: "chan \<Rightarrow> bool" where
  "chan_ok c \<longleftrightarrow>
     (ch_alive c \<longrightarrow> ch_queued c = frame_bytes (ch_queue c))
     \<and> ch_queued c \<le> MAX_QUEUED_BYTES + CONTROL_HEADROOM"

lemma chan_ok_push [wf_intros]: "chan_ok c \<Longrightarrow> chan_ok (snd (chan_push ser c m b))"
  by (auto simp: chan_ok_def chan_push_def chan_close_def chan_send_def frame_bytes_def Let_def
      split: option.splits)

lemma chan_ok_close [wf_intros]: "chan_ok c \<Longrightarrow> chan_ok (chan_close c code reason)"
  by (auto simp: chan_ok_def chan_close_def chan_send_def frame_bytes_def)

lemma chan_ok_recv [wf_intros]: "chan_ok c \<Longrightarrow> chan_ok (snd (chan_try_recv c))"
  by (auto simp: chan_ok_def chan_try_recv_def frame_bytes_def split: list.splits outbound.splits)

subsubsection \<open>Announcements\<close>

text \<open>A batch of announcements: to whom, about whom.\<close>

definition notify :: "ser \<Rightarrow> bool \<Rightarrow> (fp \<times> fp) list \<Rightarrow> hub \<Rightarrow> hub" where
  "notify ser on pairs h = fold (\<lambda>(to, about). presence ser to about on) pairs h"

lemma remove_notify:
  "remove ser iter h fp =
     (let h = notify ser False (map (\<lambda>q. (q, fp)) (iter (mutual_peers h fp))) h
      in h\<lparr>h_peers := (h_peers h)(fp := None)\<rparr>)"
  by (simp add: remove_def notify_def fold_map comp_def)

definition both_ways :: "fp \<Rightarrow> fp list \<Rightarrow> (fp \<times> fp) list" where
  "both_ways fp others = concat (map (\<lambda>q. [(fp, q), (q, fp)]) others)"

lemma announce_notify: "fold (announce ser fp on) others h = notify ser on (both_ways fp others) h"
  by (induction others arbitrary: h) (simp_all add: notify_def both_ways_def announce_def)

lemma set_both_ways: "set (both_ways fp others) = (\<Union>q \<in> set others. {(fp, q), (q, fp)})"
  by (auto simp: both_ways_def)

lemma presence_fields [simp]:
  "h_peers (presence ser to about on h) = h_peers h"
  "h_next (presence ser to about on h) = h_next h"
  by (simp_all add: presence_def push_def Let_def split: option.splits prod.splits)

lemma notify_fields [simp]:
  "h_peers (notify ser on pairs h) = h_peers h" "h_next (notify ser on pairs h) = h_next h"
  unfolding notify_def by (induction pairs arbitrary: h) (auto split: prod.splits)

lemma mutual_cong: "h_peers h' = h_peers h \<Longrightarrow> mutual h' = mutual h"
  by (simp add: mutual_def fun_eq_iff)

lemma mutual_peers_iff [simp]: "x \<in> mutual_peers h q \<longleftrightarrow> mutual h q x"
  by (auto simp: mutual_peers_def mutual_def split: option.splits)

lemma mutual_sym: "mutual h a b \<Longrightarrow> mutual h b a"
  by (auto simp: mutual_def split: option.splits)

lemma mutual_commute: "mutual h a b = mutual h b a"
  by (auto dest: mutual_sym)

lemma mutual_peers_finite: "peers_ok h \<Longrightarrow> finite (mutual_peers h q)"
  unfolding mutual_peers_def peers_ok_def
  by (auto split: option.splits intro: finite_subset [of "Set.filter P A" A for P A])

text \<open>One announcement reaches one channel, and either tells it or closes it.\<close>

lemma presence_effect:
  assumes "wire_ok ser de" and ok: "peers_ok (hs_hub s)"
    and s': "s' = s\<lparr>hs_hub := presence ser to about on (hs_hub s)\<rparr>" and "live s' q"
  shows "live s q \<and> shown de s' q x = (if q = to \<and> x = about then on else shown de s q x)"
proof (cases "h_peers (hs_hub s) to")
  case None
  then show ?thesis using assms(4) s' by (auto simp: presence_def live_def)
next
  case (Some p)
  obtain t where t: "ser (Presence about on) = Some t" "de t = Some (Presence about on)"
    using assms(1) unfolding wire_ok_def by blast
  obtain pq where pq: "h_peers (hs_hub s) q = Some pq"
    using assms(4) s' by (auto simp: live_def split: option.splits)
  have diff: "p_outbox pq \<noteq> p_outbox p" if "q \<noteq> to"
    using ok pq Some that by (auto simp: peers_ok_def)
  note pushed = chan_push_control [of ser "Presence about on" t "h_chans (hs_hub s) (p_outbox p)", OF t(1)]
  show ?thesis
    using assms(4) pushed diff pq Some t
    by (cases "q = to")
      (auto simp: s' live_def shown_def chan_log_def presence_def push_def Let_def view_def is_close_def
        split: prod.splits if_splits)
qed

lemma notify_effect:
  assumes "wire_ok ser de" and "peers_ok (hs_hub s)"
    and "live (s\<lparr>hs_hub := notify ser on pairs (hs_hub s)\<rparr>) q"
  shows "live s q \<and> shown de (s\<lparr>hs_hub := notify ser on pairs (hs_hub s)\<rparr>) q x
      = (if (q, x) \<in> set pairs then on else shown de s q x)"
  using assms(2,3)
proof (induction pairs arbitrary: s)
  case Nil
  then show ?case by (simp add: notify_def)
next
  case (Cons pr pairs)
  obtain t a where pr: "pr = (t, a)" by (cases pr)
  let ?s1 = "s\<lparr>hs_hub := presence ser t a on (hs_hub s)\<rparr>"
  have eq: "s\<lparr>hs_hub := notify ser on (pr # pairs) (hs_hub s)\<rparr>
      = ?s1\<lparr>hs_hub := notify ser on pairs (hs_hub ?s1)\<rparr>"
    by (simp add: notify_def pr)
  have ok1: "peers_ok (hs_hub ?s1)" using Cons.prems(1) by (simp add: peers_ok_def)
  have step: "live ?s1 q" "shown de (s\<lparr>hs_hub := notify ser on (pr # pairs) (hs_hub s)\<rparr>) q x
      = (if (q, x) \<in> set pairs then on else shown de ?s1 q x)"
    using Cons.IH [OF ok1] Cons.prems(2) unfolding eq by blast+
  show ?case
    unfolding step(2) using presence_effect [OF assms(1) Cons.prems(1) refl step(1), of x]
    by (cases "q = t \<and> x = a") (auto simp: pr)
qed


definition registered_at :: "hub \<Rightarrow> addr \<Rightarrow> bool" where
  "registered_at h a \<longleftrightarrow> (\<exists>f p. h_peers h f = Some p \<and> p_outbox p = a)"

lemma presence_other: "\<not> registered_at h a \<Longrightarrow> h_chans (presence ser to about on h) a = h_chans h a"
  by (auto simp: registered_at_def presence_def push_def Let_def split: option.splits prod.splits)

lemma notify_other: "\<not> registered_at h a \<Longrightarrow> h_chans (notify ser on pairs h) a = h_chans h a"
  unfolding notify_def
proof (induction pairs arbitrary: h)
  case (Cons pr pairs)
  then show ?case by (cases pr) (simp add: presence_other registered_at_def)
qed simp

definition chans_ok :: "hub \<Rightarrow> bool" where
  "chans_ok h \<longleftrightarrow> (\<forall>a. chan_ok (h_chans h a))"

lemma chans_ok_push: "chans_ok h \<Longrightarrow> chans_ok (snd (push ser h a m b))"
  by (simp add: chans_ok_def push_def case_prod_beta chan_ok_push)

lemma chans_ok_presence: "chans_ok h \<Longrightarrow> chans_ok (presence ser to about on h)"
  by (simp add: presence_def chans_ok_push split: option.splits)

lemma chans_ok_notify: "chans_ok h \<Longrightarrow> chans_ok (notify ser on pairs h)"
  unfolding notify_def
  by (induction pairs arbitrary: h) (auto simp: chans_ok_presence)

subsubsection \<open>The invariant\<close>

text \<open>
  The last announcement a live connection was sent about another device says whether the two
  are mutual now; the byte counters count what is queued; addresses are not shared.
\<close>

definition frame_inv :: "hub_sys \<Rightarrow> bool" where
  "frame_inv s \<longleftrightarrow>
     peers_ok (hs_hub s) \<and> chans_ok (hs_hub s)
     \<and> (\<forall>a. a \<in> hs_pending s \<longrightarrow>
          a < h_next (hs_hub s) \<and> \<not> registered_at (hs_hub s) a \<and> chan_log s a = [])
     \<and> (\<forall>a. h_next (hs_hub s) \<le> a \<longrightarrow> chan_log s a = [])"

definition view_inv :: "(string \<Rightarrow> server_message option) \<Rightarrow> hub_sys \<Rightarrow> bool" where
  "view_inv de s \<longleftrightarrow> (\<forall>q x. live s q \<longrightarrow> shown de s q x = mutual (hs_hub s) q x)"

definition hub_inv :: "(string \<Rightarrow> server_message option) \<Rightarrow> hub_sys \<Rightarrow> bool" where
  "hub_inv de s \<longleftrightarrow> frame_inv s \<and> view_inv de s"

lemma unregistered_beyond: "frame_inv s \<Longrightarrow> h_next (hs_hub s) \<le> a \<Longrightarrow> \<not> registered_at (hs_hub s) a"
  by (auto simp: frame_inv_def registered_at_def dest: peers_okD)

text \<open>Steps that only use the channels of registered connections.\<close>

lemma frame_inv_quiet:
  assumes inv: "frame_inv s" and hub: "chans_ok (hs_hub t)"
    and same: "h_peers (hs_hub t) = h_peers (hs_hub s)" "h_next (hs_hub t) = h_next (hs_hub s)"
      "hs_pending t = hs_pending s"
    and log: "\<And>a. \<not> registered_at (hs_hub s) a \<Longrightarrow> chan_log t a = chan_log s a"
  shows "frame_inv t"
proof -
  have "peers_ok (hs_hub t) = peers_ok (hs_hub s)"
    "registered_at (hs_hub t) = registered_at (hs_hub s)"
    by (simp_all add: peers_ok_def registered_at_def same fun_eq_iff)
  then show ?thesis
    using inv hub log unregistered_beyond [OF inv] by (simp add: frame_inv_def same)
qed

lemma frame_inv_notify [wf_intros]:
  "frame_inv s \<Longrightarrow> frame_inv (s\<lparr>hs_hub := notify ser on pairs (hs_hub s)\<rparr>)"
  by (rule frame_inv_quiet, assumption) (auto simp: chan_log_def notify_other frame_inv_def chans_ok_notify)

lemma frame_inv_delete [wf_intros]:
  "frame_inv s \<Longrightarrow> frame_inv (s\<lparr>hs_hub := (hs_hub s)\<lparr>h_peers := (h_peers (hs_hub s))(fp := None)\<rparr>\<rparr>)"
  by (auto simp: frame_inv_def chans_ok_def chan_log_def peers_ok_def registered_at_def)

lemma hub_inv_remove [wf_intros]:
  assumes wire: "wire_ok ser de" and iter: "iter_ok iter" and inv: "hub_inv de s"
  shows "hub_inv de (s\<lparr>hs_hub := remove ser iter (hs_hub s) fp\<rparr>)"
proof -
  let ?h = "hs_hub s" and ?pairs = "map (\<lambda>q. (q, fp)) (iter (mutual_peers (hs_hub s) fp))"
  let ?s1 = "s\<lparr>hs_hub := notify ser False ?pairs ?h\<rparr>"
  let ?s2 = "s\<lparr>hs_hub := remove ser iter ?h fp\<rparr>"
  have fr: "frame_inv s" and pk: "peers_ok ?h" and vw: "view_inv de s"
    using inv by (auto simp: hub_inv_def frame_inv_def)
  have pairs: "(q, x) \<in> set ?pairs \<longleftrightarrow> x = fp \<and> mutual ?h fp q" for q x
    using iter mutual_peers_finite [OF pk, of fp] by (auto simp: iter_ok_def)
  have s2: "?s2 = ?s1\<lparr>hs_hub := (hs_hub ?s1)\<lparr>h_peers := (h_peers (hs_hub ?s1))(fp := None)\<rparr>\<rparr>"
    by (simp add: remove_notify Let_def)
  have mut: "mutual (hs_hub ?s2) q x \<longleftrightarrow> mutual ?h q x \<and> q \<noteq> fp \<and> x \<noteq> fp" for q x
    by (auto simp: mutual_def remove_notify Let_def split: option.splits)
  have "frame_inv ?s2"
    unfolding s2 by (intro frame_inv_delete frame_inv_notify fr)
  moreover have "shown de ?s2 q x = mutual (hs_hub ?s2) q x" if l: "live ?s2 q" for q x
  proof -
    have q: "q \<noteq> fp" and l1: "live ?s1 q"
      using l unfolding s2 by (auto simp: live_def chan_log_def split: if_splits option.splits)
    have "shown de ?s2 q x = shown de ?s1 q x"
      unfolding s2 using q by (simp add: shown_def chan_log_def split: option.splits)
    also have "\<dots> = (if x = fp \<and> mutual ?h fp q then False else mutual ?h q x)"
      using notify_effect [OF wire pk l1, of x] vw unfolding pairs by (auto simp: view_inv_def)
    finally show ?thesis unfolding mut using q by (auto dest: mutual_sym)
  qed
  ultimately show ?thesis by (simp add: hub_inv_def view_inv_def)
qed

lemma hub_inv_close [wf_intros]:
  assumes inv: "hub_inv de s" and reg: "registered_at (hs_hub s) a"
  shows "hub_inv de (s\<lparr>hs_hub := close (hs_hub s) a code reason\<rparr>)"
proof -
  let ?s = "s\<lparr>hs_hub := close (hs_hub s) a code reason\<rparr>"
  have "frame_inv s" using inv by (simp add: hub_inv_def)
  then have fr: "frame_inv ?s"
    by (rule frame_inv_quiet)
      (use inv reg in \<open>auto simp: hub_inv_def frame_inv_def close_def chans_ok_def chan_ok_close chan_log_def\<close>)
  have closed: "\<not> ch_alive (h_chans (hs_hub ?s) a) \<or> list_ex is_close (chan_log ?s a)"
    by (simp add: close_def chan_log_def chan_close_def chan_send_def is_close_def)
  have "live s q \<and> shown de ?s q x = shown de s q x" if l: "live ?s q" for q x
  proof -
    obtain p where p: "h_peers (hs_hub s) q = Some p"
      using l by (auto simp: live_def close_def split: option.splits)
    then have "p_outbox p \<noteq> a" using l closed by (auto simp: live_def close_def)
    then show ?thesis using l p by (simp add: live_def shown_def close_def chan_log_def)
  qed
  then show ?thesis
    using inv fr mutual_cong [of "hs_hub ?s" "hs_hub s"]
    by (simp add: hub_inv_def view_inv_def) (simp add: close_def)
qed

text \<open>A connection that starts: nothing was sent to it and it is mutual with nobody.\<close>

lemma hub_inv_insert:
  assumes inv: "hub_inv de s" and pend: "a \<in> hs_pending s" and none: "h_peers (hs_hub s) fp = None"
  shows "hub_inv de (s\<lparr>hs_hub := (hs_hub s)\<lparr>h_peers := (h_peers (hs_hub s))
      (fp \<mapsto> \<lparr>p_conn = conn, p_outbox = a, p_allow = {}\<rparr>)\<rparr>, hs_pending := hs_pending s - {a}\<rparr>)"
    (is "hub_inv de ?s")
proof -
  have log: "chan_log s a = []" and nreg: "\<not> registered_at (hs_hub s) a" and fr: "frame_inv s"
    using inv pend by (auto simp: hub_inv_def frame_inv_def)
  have fresh: "p_outbox p \<noteq> a" if "h_peers (hs_hub s) f = Some p" for f p
    using nreg that by (auto simp: registered_at_def)
  have "a < h_next (hs_hub s)" using fr pend by (auto simp: frame_inv_def)
  then have "peers_ok (hs_hub ?s)"
    using fr fresh by (auto simp: frame_inv_def peers_ok_def)
  then have "frame_inv ?s"
    using fr pend by (auto simp: frame_inv_def chans_ok_def registered_at_def chan_log_def)
  moreover have "shown de ?s q x = mutual (hs_hub ?s) q x" if l: "live ?s q" for q x
  proof (cases "q = fp")
    case True
    then show ?thesis
      using log by (simp add: shown_def mutual_def chan_log_def view_def split: option.splits)
  next
    case False
    then have "live s q" using l by (simp add: live_def chan_log_def split: option.splits)
    then have "shown de s q x = mutual (hs_hub s) q x" using inv by (simp add: hub_inv_def view_inv_def)
    then show ?thesis
      using False none by (auto simp: shown_def mutual_def chan_log_def split: option.splits if_splits)
  qed
  ultimately show ?thesis by (simp add: hub_inv_def view_inv_def)
qed

lemma hub_inv_register [wf_intros]:
  assumes "wire_ok ser de" and "iter_ok iter" and inv: "hub_inv de s" and pend: "a \<in> hs_pending s"
  shows "hub_inv de (s\<lparr>hs_hub := register ser iter (hs_hub s) fp conn a, hs_pending := hs_pending s - {a}\<rparr>)"
proof (cases "h_peers (hs_hub s) fp")
  case None
  then show ?thesis using hub_inv_insert [OF inv pend None] by (simp add: register_def Let_def)
next
  case (Some old)
  let ?s1 = "s\<lparr>hs_hub := close (hs_hub s) (p_outbox old) CLOSE_REPLACED ''replaced by a newer connection''\<rparr>"
  let ?s2 = "?s1\<lparr>hs_hub := remove ser iter (hs_hub ?s1) fp\<rparr>"
  have "registered_at (hs_hub s) (p_outbox old)" using Some by (auto simp: registered_at_def)
  then have i2: "hub_inv de ?s2" by (intro hub_inv_remove hub_inv_close assms)
  have "h_peers (hs_hub ?s2) fp = None" by (simp add: remove_notify Let_def)
  from hub_inv_insert [OF i2 _ this, of a conn] show ?thesis
    using pend Some by (simp add: register_def Let_def)
qed

lemma reallow_same:
  assumes "h_peers (hs_hub s) fp = Some peer"
  shows "live (s\<lparr>hs_hub := (hs_hub s)\<lparr>h_peers := (h_peers (hs_hub s))(fp \<mapsto> peer\<lparr>p_allow := A\<rparr>)\<rparr>\<rparr>) q = live s q"
    and "shown de (s\<lparr>hs_hub := (hs_hub s)\<lparr>h_peers := (h_peers (hs_hub s))(fp \<mapsto> peer\<lparr>p_allow := A\<rparr>)\<rparr>\<rparr>) q x
      = shown de s q x"
  using assms by (auto simp: live_def shown_def chan_log_def split: option.splits)

text \<open>The changes of mutuality of \<open>fp\<close> are announced to both sides, and nothing else.\<close>

lemma hub_inv_set_allow [wf_intros]:
  assumes wire: "wire_ok ser de" and iter: "iter_ok iter" and inv: "hub_inv de s"
  shows "hub_inv de (s\<lparr>hs_hub := set_allow ser iter (hs_hub s) fp conn fps\<rparr>)"
proof (cases "current (hs_hub s) fp conn")
  case None
  then show ?thesis using inv by (simp add: set_allow_def)
next
  case (Some peer)
  let ?h = "hs_hub s"
  have peer: "h_peers ?h fp = Some peer" using Some by (simp add: current_def split: option.splits if_splits)
  define h1 where "h1 = ?h\<lparr>h_peers := (h_peers ?h)(fp \<mapsto> peer\<lparr>p_allow := set (filter (\<lambda>f. f \<noteq> fp) fps)\<rparr>)\<rparr>"
  define gained where "gained = filter (\<lambda>f. f \<notin> mutual_peers ?h fp) (iter (mutual_peers h1 fp))"
  define lost where "lost = filter (\<lambda>f. f \<notin> mutual_peers h1 fp) (iter (mutual_peers ?h fp))"
  let ?s1 = "s\<lparr>hs_hub := h1\<rparr>"
  let ?s2 = "?s1\<lparr>hs_hub := notify ser True (both_ways fp gained) (hs_hub ?s1)\<rparr>"
  let ?s3 = "?s2\<lparr>hs_hub := notify ser False (both_ways fp lost) (hs_hub ?s2)\<rparr>"
  have s3: "s\<lparr>hs_hub := set_allow ser iter ?h fp conn fps\<rparr> = ?s3"
    using Some peer by (simp add: set_allow_def Let_def h1_def gained_def lost_def announce_notify)
  have fr: "frame_inv s" and pk: "peers_ok ?h" and vw: "view_inv de s"
    using inv by (auto simp: hub_inv_def frame_inv_def)
  have fr1: "frame_inv ?s1"
    using fr peer by (auto simp: frame_inv_def h1_def chans_ok_def chan_log_def peers_ok_def registered_at_def)
  have pk1: "peers_ok h1" and pk2: "peers_ok (hs_hub ?s2)"
    using fr1 by (auto simp: frame_inv_def peers_ok_def)
  have g: "set gained = {f. mutual h1 fp f \<and> \<not> mutual ?h fp f}"
    and l: "set lost = {f. mutual ?h fp f \<and> \<not> mutual h1 fp f}"
    using iter mutual_peers_finite [OF pk] mutual_peers_finite [OF pk1]
    by (auto simp: gained_def lost_def iter_ok_def)
  have mut: "mutual h1 q x = mutual ?h q x" if "q \<noteq> fp" "x \<noteq> fp" for q x
    using that by (simp add: mutual_def h1_def)
  have both: "(q, x) \<in> set (both_ways fp gained) \<longleftrightarrow>
      (q = fp \<or> x = fp) \<and> mutual h1 q x \<and> \<not> mutual ?h q x"
    "(q, x) \<in> set (both_ways fp lost) \<longleftrightarrow>
      (q = fp \<or> x = fp) \<and> mutual ?h q x \<and> \<not> mutual h1 q x" for q x
    unfolding set_both_ways g l by (auto simp: mutual_commute [of _ fp])
  have "shown de ?s3 q x = mutual h1 q x" if l3: "live ?s3 q" for q x
  proof -
    note e3 = notify_effect [OF wire pk2 l3, of x]
    have pk1': "peers_ok (hs_hub ?s1)" using pk1 by simp
    note e2 = notify_effect [OF wire pk1' conjunct1 [OF e3], of x]
    have "live s q" "shown de ?s1 q x = shown de s q x"
      using e2 reallow_same [OF peer] unfolding h1_def by blast+
    then have "shown de ?s3 q x = (if (q, x) \<in> set (both_ways fp lost) then False
        else if (q, x) \<in> set (both_ways fp gained) then True else mutual ?h q x)"
      using e3 e2 vw by (simp add: view_inv_def)
    then show ?thesis
      unfolding both using mut [of q x] by (auto dest: mutual_sym)
  qed
  moreover have mut3: "mutual (hs_hub ?s3) = mutual h1" by (rule mutual_cong) simp
  moreover have "frame_inv ?s3" by (intro frame_inv_notify fr1)
  ultimately show ?thesis
    unfolding s3 hub_inv_def view_inv_def mut3 by blast
qed


lemma hub_inv_forward [wf_intros]:
  assumes wire: "wire_ok ser de" and inv: "hub_inv de s"
  shows "hub_inv de (s\<lparr>hs_hub := snd (forward ser (hs_hub s) from conn to data)\<rparr>)"
proof (cases "snd (forward ser (hs_hub s) from conn to data) = hs_hub s")
  case True
  then show ?thesis using inv by simp
next
  case False
  then obtain target where t: "h_peers (hs_hub s) to = Some target"
    and h: "snd (forward ser (hs_hub s) from conn to data)
      = snd (push ser (hs_hub s) (p_outbox target) (Msg from data) True)"
    by (auto simp: forward_def Let_def split: option.splits if_splits prod.splits)
  let ?s = "s\<lparr>hs_hub := snd (push ser (hs_hub s) (p_outbox target) (Msg from data) True)\<rparr>"
  have peers: "h_peers (hs_hub ?s) = h_peers (hs_hub s)" "h_next (hs_hub ?s) = h_next (hs_hub s)"
    by simp_all
  have mut: "mutual (hs_hub ?s) = mutual (hs_hub s)" by (rule mutual_cong) (rule peers)
  have reg: "registered_at (hs_hub s) (p_outbox target)" using t by (auto simp: registered_at_def)
  have log: "chan_log ?s a = chan_log s a" if "\<not> registered_at (hs_hub s) a" for a
    using that reg by (auto simp: chan_log_def push_def case_prod_beta)
  have "frame_inv s" "chans_ok (hs_hub s)" using inv by (simp_all add: hub_inv_def frame_inv_def)
  then have "frame_inv ?s"
    by (intro frame_inv_quiet [OF _ _ peers _ log]) (simp_all add: chans_ok_push)
  moreover have "live s q \<and> shown de ?s q x = shown de s q x" if l: "live ?s q" for q x
  proof -
    obtain p where p: "h_peers (hs_hub s) q = Some p"
      using l by (auto simp: live_def split: option.splits)
    have nomsg: "see de x (Frame t) v = v" if "ser (Msg from data) = Some t" for t v
      using wire that unfolding wire_ok_def by fastforce
    show ?thesis
      using l p chan_push_bounded [of ser "h_chans (hs_hub s) (p_outbox target)" "Msg from data"] nomsg
      by (cases "p_outbox p = p_outbox target")
        (auto simp: live_def shown_def chan_log_def push_def case_prod_beta view_def is_close_def)
  qed
  ultimately show ?thesis
    using inv unfolding h hub_inv_def view_inv_def mut by blast
qed

text \<open>Steps that announce nothing: the channels that are still read have the same log.\<close>

lemma view_inv_quiet:
  assumes inv: "view_inv de s" and peers: "h_peers (hs_hub t) = h_peers (hs_hub s)"
    and same: "\<And>f p. h_peers (hs_hub s) f = Some p \<Longrightarrow> ch_alive (h_chans (hs_hub t) (p_outbox p)) \<Longrightarrow>
      ch_alive (h_chans (hs_hub s) (p_outbox p)) \<and> chan_log t (p_outbox p) = chan_log s (p_outbox p)"
  shows "view_inv de t"
proof -
  have "live s q \<and> shown de t q x = shown de s q x" if "live t q" for q x
    using that same [of q] by (auto simp: live_def shown_def peers split: option.splits)
  then show ?thesis
    using inv unfolding view_inv_def mutual_cong [OF peers] by blast
qed

lemma hub_inv_recv [wf_intros]:
  assumes inv: "hub_inv de s" and r: "try_recv (hs_hub s) a = (Some x, h)"
  shows "hub_inv de (s\<lparr>hs_hub := h, hs_seen := (hs_seen s)(a := hs_seen s a @ [x])\<rparr>)"
    (is "hub_inv de ?s")
proof -
  let ?c = "h_chans (hs_hub s) a"
  have h: "h = (hs_hub s)\<lparr>h_chans := (h_chans (hs_hub s))(a := snd (chan_try_recv ?c))\<rparr>"
    and q: "ch_queue ?c = x # ch_queue (snd (chan_try_recv ?c))"
    using r by (auto simp: try_recv_def case_prod_beta chan_try_recv_def split: list.splits)
  have al: "ch_alive (snd (chan_try_recv c)) = ch_alive c" for c
    by (simp add: chan_try_recv_def split: list.splits)
  have log: "chan_log ?s = chan_log s" using q by (auto simp: chan_log_def h)
  have fr: "frame_inv s" and vw: "view_inv de s" using inv by (simp_all add: hub_inv_def)
  have "view_inv de ?s"
    by (rule view_inv_quiet [OF vw]) (simp_all add: log, simp_all add: h al split: if_splits)
  moreover have "frame_inv ?s"
    using fr unfolding frame_inv_def log by (auto simp: h peers_ok_def registered_at_def chans_ok_def chan_ok_recv)
  ultimately show ?thesis by (simp add: hub_inv_def)
qed

lemma hub_inv_drop [wf_intros]:
  assumes inv: "hub_inv de s"
  shows "hub_inv de (s\<lparr>hs_hub := drop_inbox (hs_hub s) a\<rparr>)" (is "hub_inv de ?s")
proof -
  have fr: "frame_inv s" and vw: "view_inv de s" using inv by (simp_all add: hub_inv_def)
  have "view_inv de ?s"
    by (rule view_inv_quiet [OF vw]) (auto simp: drop_inbox_def chan_log_def split: if_splits)
  moreover have "frame_inv ?s"
    using fr
    by (auto simp: frame_inv_def drop_inbox_def peers_ok_def registered_at_def chans_ok_def chan_ok_def chan_log_def)
  ultimately show ?thesis by (simp add: hub_inv_def)
qed

lemma hub_inv_outbox [wf_intros]:
  assumes inv: "hub_inv de s" and o: "outbox (hs_hub s) = (a, h)"
  shows "hub_inv de (s\<lparr>hs_hub := h, hs_pending := insert a (hs_pending s)\<rparr>)" (is "hub_inv de ?s")
proof -
  have h: "a = h_next (hs_hub s)"
    "h = (hs_hub s)\<lparr>h_chans := (h_chans (hs_hub s))(a := new_chan), h_next := a + 1\<rparr>"
    using o by (auto simp: outbox_def)
  have fr: "frame_inv s" and vw: "view_inv de s" using inv by (simp_all add: hub_inv_def)
  have fresh: "p_outbox p < a" if "h_peers (hs_hub s) f = Some p" for f p
    using fr that by (auto simp: frame_inv_def peers_ok_def h)
  have view: "view_inv de ?s"
    by (rule view_inv_quiet [OF vw]) (auto simp: h(2) chan_log_def dest: fresh)
  have "\<not> registered_at (hs_hub s) a" using unregistered_beyond [OF fr] h(1) by simp
  moreover have "chan_ok new_chan" by (simp add: chan_ok_def new_chan_def frame_bytes_def)
  moreover have "chan_log ?s b = chan_log s b" if "b \<noteq> a" for b
    using that by (simp add: chan_log_def h(2))
  moreover have "chan_log ?s a = []"
    using fr h(1) by (simp add: chan_log_def h(2) new_chan_def frame_inv_def)
  moreover have "peers_ok (hs_hub ?s)"
    using fr fresh [THEN less_SucI] by (auto simp: h(2) frame_inv_def peers_ok_def)
  moreover have "registered_at (hs_hub ?s) = registered_at (hs_hub s)"
    by (simp add: h(2) registered_at_def fun_eq_iff)
  ultimately have "frame_inv ?s"
    using fr by (auto simp: frame_inv_def h chans_ok_def simp del: fun_upd_apply) (auto simp: chans_ok_def)
  with view show ?thesis by (simp add: hub_inv_def)
qed

lemma hub_inv_step:
  assumes "wire_ok ser de" and "iter_ok iter" and "hub_inv de s" and "hub_step ser iter s t"
  shows "hub_inv de t"
  using assms(4)
proof cases
  case (step_unregister fp conn)
  then show ?thesis
    using assms hub_inv_remove by (simp add: unregister_def)
qed (use assms in \<open>auto intro: wf_intros\<close>)

lemma hub_inv_init: "hub_init s \<Longrightarrow> hub_inv de s"
  by (simp add: hub_init_def hub_default_def hub_inv_def frame_inv_def view_inv_def peers_ok_def
      chans_ok_def chan_ok_def new_chan_def frame_bytes_def chan_log_def live_def registered_at_def)

text \<open>The hub keeps its invariant on every wire and set order that keep their promises.\<close>

interpretation hub_run: invariant_system hub_init "hub_step ser iter"
  "\<lambda>s. wire_ok ser de \<and> iter_ok iter \<longrightarrow> hub_inv de s"
  for ser :: ser and de :: "string \<Rightarrow> server_message option" and iter :: iter
  by unfold_locales (auto intro: hub_inv_init hub_inv_step)

subsubsection \<open>Nothing is told about a device that is not mutual\<close>

text \<open>A channel's log is extended, by closes and by frames that satisfy \<open>P\<close>.\<close>

definition log_grows :: "(outbound \<Rightarrow> bool) \<Rightarrow> outbound list \<Rightarrow> outbound list \<Rightarrow> bool" where
  "log_grows P xs ys \<longleftrightarrow> (\<exists>zs. ys = xs @ zs \<and> (\<forall>z \<in> set zs. is_close z \<or> P z))"

lemma log_grows_refl [simp]: "log_grows P xs xs"
  by (simp add: log_grows_def)

lemma log_grows_mono: "log_grows P xs ys \<Longrightarrow> (\<And>y. P y \<Longrightarrow> Q y) \<Longrightarrow> log_grows Q xs ys"
  by (auto simp: log_grows_def)

lemma log_grows_trans: "log_grows P xs ys \<Longrightarrow> log_grows P ys zs \<Longrightarrow> log_grows P xs zs"
  by (fastforce simp: log_grows_def)

definition told :: "(string \<Rightarrow> server_message option) \<Rightarrow> (fp \<Rightarrow> bool) \<Rightarrow> outbound \<Rightarrow> bool" where
  "told de ok y \<longleftrightarrow> (\<exists>t x on. y = Frame t \<and> de t = Some (Presence x on) \<and> ok x)"

lemma presence_grows:
  assumes "wire_ok ser de" and ok: "peers_ok h" and q: "h_peers h q = Some p"
  shows "log_grows (told de (\<lambda>x. q = to \<and> x = about)) (ch_queue (h_chans h (p_outbox p)))
    (ch_queue (h_chans (presence ser to about on h) (p_outbox p)))"
proof (cases "h_peers h to")
  case None
  then show ?thesis by (simp add: presence_def)
next
  case (Some pt)
  obtain t where t: "ser (Presence about on) = Some t" "de t = Some (Presence about on)"
    using assms(1) unfolding wire_ok_def by blast
  have "p_outbox p = p_outbox pt \<Longrightarrow> q = to" using ok q Some unfolding peers_ok_def by blast
  then show ?thesis
    using chan_push_control [of ser "Presence about on" t "h_chans h (p_outbox pt)", OF t(1)] Some q t(2)
    by (auto simp: presence_def push_def case_prod_beta log_grows_def told_def is_close_def)
qed

lemma notify_grows:
  assumes "wire_ok ser de" and "peers_ok h" and "h_peers h q = Some p"
  shows "log_grows (told de (\<lambda>x. (q, x) \<in> set pairs)) (ch_queue (h_chans h (p_outbox p)))
    (ch_queue (h_chans (notify ser on pairs h) (p_outbox p)))"
  using assms(2,3)
proof (induction pairs arbitrary: h)
  case Nil
  then show ?case by (simp add: notify_def)
next
  case (Cons pr pairs)
  obtain t a where pr: "pr = (t, a)" by (cases pr)
  have ok1: "peers_ok (presence ser t a on h)" using Cons.prems(1) by (simp add: peers_ok_def)
  have P: "told de (\<lambda>x. q = t \<and> x = a) y \<Longrightarrow> told de (\<lambda>x. (q, x) \<in> set (pr # pairs)) y"
    "told de (\<lambda>x. (q, x) \<in> set pairs) y \<Longrightarrow> told de (\<lambda>x. (q, x) \<in> set (pr # pairs)) y" for y
    by (auto simp: told_def pr)
  have q1: "h_peers (presence ser t a on h) q = Some p" using Cons.prems by simp
  have "notify ser on (pr # pairs) h = notify ser on pairs (presence ser t a on h)"
    by (simp add: notify_def pr)
  then show ?case
    using log_grows_trans [OF log_grows_mono [OF presence_grows [OF assms(1) Cons.prems] P(1)]
        log_grows_mono [OF Cons.IH [OF ok1 q1] P(2)]]
    by simp
qed

lemma remove_grows:
  assumes wire: "wire_ok ser de" and iter: "iter_ok iter" and ok: "peers_ok h" and q: "h_peers h q = Some p"
  shows "log_grows (told de (mutual h q)) (ch_queue (h_chans h (p_outbox p)))
    (ch_queue (h_chans (remove ser iter h fp) (p_outbox p)))"
proof -
  let ?pairs = "map (\<lambda>q. (q, fp)) (iter (mutual_peers h fp))"
  have "(q, x) \<in> set ?pairs \<Longrightarrow> mutual h q x" for x
    using iter mutual_peers_finite [OF ok, of fp] by (auto simp: iter_ok_def mutual_commute [of _ fp])
  then have "told de (\<lambda>x. (q, x) \<in> set ?pairs) y \<Longrightarrow> told de (mutual h q) y" for y
    unfolding told_def by blast
  from log_grows_mono [OF notify_grows [OF wire ok q, of ?pairs False] this]
  show ?thesis by (simp add: remove_notify Let_def)
qed

lemma set_allow_grows:
  assumes wire: "wire_ok ser de" and iter: "iter_ok iter" and ok: "peers_ok h" and q: "h_peers h q = Some p"
  shows "log_grows (told de (\<lambda>x. mutual h q x \<or> mutual (set_allow ser iter h fp conn fps) q x))
    (ch_queue (h_chans h (p_outbox p)))
    (ch_queue (h_chans (set_allow ser iter h fp conn fps) (p_outbox p)))"
proof (cases "current h fp conn")
  case None
  then show ?thesis by (simp add: set_allow_def)
next
  case (Some peer)
  have peer: "h_peers h fp = Some peer" using Some by (simp add: current_def split: option.splits if_splits)
  define h1 where "h1 = h\<lparr>h_peers := (h_peers h)(fp \<mapsto> peer\<lparr>p_allow := set (filter (\<lambda>f. f \<noteq> fp) fps)\<rparr>)\<rparr>"
  define gained where "gained = filter (\<lambda>f. f \<notin> mutual_peers h fp) (iter (mutual_peers h1 fp))"
  define lost where "lost = filter (\<lambda>f. f \<notin> mutual_peers h1 fp) (iter (mutual_peers h fp))"
  let ?h2 = "notify ser True (both_ways fp gained) h1"
  let ?h3 = "notify ser False (both_ways fp lost) ?h2"
  have h3: "set_allow ser iter h fp conn fps = ?h3"
    using Some peer by (simp add: set_allow_def Let_def h1_def gained_def lost_def announce_notify)
  have ok1: "peers_ok h1" using ok peer by (auto simp: peers_ok_def h1_def)
  then have ok2: "peers_ok ?h2" by (simp add: peers_ok_def)
  have mut3: "mutual ?h3 = mutual h1" by (rule mutual_cong) simp
  have sets: "set gained \<subseteq> {f. mutual h1 fp f}" "set lost \<subseteq> {f. mutual h fp f}"
    using iter mutual_peers_finite [OF ok] mutual_peers_finite [OF ok1]
    by (auto simp: gained_def lost_def iter_ok_def)
  obtain p1 where q1: "h_peers h1 q = Some p1" "p_outbox p1 = p_outbox p"
    using q peer by (cases "q = fp") (auto simp: h1_def)
  have q2: "h_peers ?h2 q = Some p1" using q1 by simp
  let ?P = "told de (\<lambda>x. mutual h q x \<or> mutual ?h3 q x)"
  have P: "told de (\<lambda>x. (q, x) \<in> set (both_ways fp gained)) y \<Longrightarrow> ?P y"
    "told de (\<lambda>x. (q, x) \<in> set (both_ways fp lost)) y \<Longrightarrow> ?P y" for y
    unfolding told_def mut3 set_both_ways using sets by (auto simp: mutual_commute [of _ q fp])
  have "log_grows ?P (ch_queue (h_chans h1 (p_outbox p1))) (ch_queue (h_chans ?h3 (p_outbox p1)))"
    by (rule log_grows_trans [OF log_grows_mono [OF notify_grows [OF wire ok1 q1(1)] P(1)]
        log_grows_mono [OF notify_grows [OF wire ok2 q2] P(2)]])
  then show ?thesis by (simp add: h3 q1(2)) (simp add: h1_def)
qed


definition new_frames :: "hub_sys \<Rightarrow> hub_sys \<Rightarrow> addr \<Rightarrow> outbound list" where
  "new_frames s t a = drop (length (chan_log s a)) (chan_log t a)"

lemma new_frames_grow:
  "hs_seen t a = hs_seen s a \<Longrightarrow>
   log_grows P (ch_queue (h_chans (hs_hub s) a)) (ch_queue (h_chans (hs_hub t) a)) \<Longrightarrow>
   y \<in> set (new_frames s t a) \<Longrightarrow> is_close y \<or> P y"
  by (auto simp: new_frames_def chan_log_def log_grows_def)

text \<open>What a new connection of \<open>fp\<close> changes on the channels of the others, and on its own.\<close>

lemma register_grows:
  assumes wire: "wire_ok ser de" and iter: "iter_ok iter" and fr: "frame_inv s" and a: "a \<in> hs_pending s"
    and q: "h_peers (register ser iter (hs_hub s) fp conn a) q = Some p"
  shows "log_grows (told de (mutual (hs_hub s) q)) (ch_queue (h_chans (hs_hub s) (p_outbox p)))
    (ch_queue (h_chans (register ser iter (hs_hub s) fp conn a) (p_outbox p)))"
proof (cases "h_peers (hs_hub s) fp")
  case None
  then show ?thesis by (simp add: register_def Let_def)
next
  case (Some old)
  let ?h = "hs_hub s"
  let ?h1 = "close ?h (p_outbox old) CLOSE_REPLACED ''replaced by a newer connection''"
  have reg: "register ser iter ?h fp conn a = (remove ser iter ?h1 fp)\<lparr>h_peers :=
      (h_peers (remove ser iter ?h1 fp))(fp \<mapsto> \<lparr>p_conn = conn, p_outbox = a, p_allow = {}\<rparr>)\<rparr>"
    using Some by (simp add: register_def Let_def)
  have ok: "peers_ok ?h" and na: "\<not> registered_at ?h a" using fr a by (auto simp: frame_inv_def)
  have peers1: "h_peers ?h1 = h_peers ?h" by (simp add: close_def)
  have ok1: "peers_ok ?h1" using ok by (simp add: peers_ok_def close_def)
  show ?thesis
  proof (cases "q = fp")
    case True
    then have p: "p_outbox p = a" using q by (auto simp: reg)
    have "p_outbox old \<noteq> a" using na Some by (auto simp: registered_at_def)
    moreover have "\<not> registered_at ?h1 a" using na by (simp add: registered_at_def peers1)
    ultimately have "h_chans (remove ser iter ?h1 fp) a = h_chans ?h a"
      by (simp add: remove_notify Let_def notify_other) (simp add: close_def)
    then show ?thesis by (simp add: reg p)
  next
    case False
    then have q1: "h_peers ?h1 q = Some p" using q by (simp add: reg remove_notify Let_def)
    have "p_outbox p \<noteq> p_outbox old"
      using ok q1 Some False unfolding peers1 peers_ok_def by blast
    then have "h_chans ?h1 (p_outbox p) = h_chans ?h (p_outbox p)" by (simp add: close_def)
    then show ?thesis
      using remove_grows [OF wire iter ok1 q1, of fp] mutual_cong [OF peers1] by (simp add: reg)
  qed
qed

lemma forward_grows:
  assumes "wire_ok ser de" and ok: "peers_ok h" and q: "h_peers h q = Some p"
  shows "log_grows (\<lambda>y. \<exists>t d. y = Frame t \<and> de t = Some (Msg src d) \<and> mutual h q src)
    (ch_queue (h_chans h (p_outbox p)))
    (ch_queue (h_chans (snd (forward ser h src conn to data)) (p_outbox p)))"
proof (cases "snd (forward ser h src conn to data) = h")
  case False
  then obtain target where t: "h_peers h to = Some target" and m: "mutual h src to"
    and h: "snd (forward ser h src conn to data) = snd (push ser h (p_outbox target) (Msg src data) True)"
    by (auto simp: forward_def Let_def split: option.splits if_splits prod.splits)
  have same: "p_outbox p = p_outbox target \<Longrightarrow> q = to" using ok q t unfolding peers_ok_def by blast
  have "ser (Msg src data) = Some x \<Longrightarrow> \<exists>d. de x = Some (Msg src d)" for x
    using assms(1) by (auto simp: wire_ok_def)
  then show ?thesis
    using chan_push_bounded [of ser "h_chans h (p_outbox target)" "Msg src data"] same m
    unfolding h push_def log_grows_def
    by (cases "p_outbox p = p_outbox target") (auto simp: case_prod_beta mutual_commute [of _ to src])
qed simp

lemma hub_step_told:
  assumes wire: "wire_ok ser de" and iter: "iter_ok iter" and inv: "hub_inv de s"
    and step: "hub_step ser iter s t" and q: "h_peers (hs_hub t) q = Some p"
    and y: "y \<in> set (new_frames s t (p_outbox p))"
  shows "is_close y \<or> told de (\<lambda>x. mutual (hs_hub s) q x \<or> mutual (hs_hub t) q x) y
    \<or> (\<exists>txt f d. y = Frame txt \<and> de txt = Some (Msg f d) \<and> mutual (hs_hub s) q f)"
proof -
  have fr: "frame_inv s" and ok: "peers_ok (hs_hub s)" using inv by (auto simp: hub_inv_def frame_inv_def)
  have weaken: "told de (mutual (hs_hub s) q) y \<Longrightarrow>
    told de (\<lambda>x. mutual (hs_hub s) q x \<or> mutual (hs_hub t) q x) y"
    by (auto simp: told_def)
  from step show ?thesis
  proof cases
    case (step_register a fp conn)
    then show ?thesis
      using new_frames_grow [OF _ _ y] register_grows [OF wire iter fr, of a fp conn q p] q weaken
      by simp blast
  next
    case (step_unregister fp conn)
    have q0: "h_peers (hs_hub s) q = Some p"
      using q step_unregister by (auto simp: unregister_def remove_notify Let_def split: if_splits)
    then have "log_grows (told de (mutual (hs_hub s) q)) (ch_queue (h_chans (hs_hub s) (p_outbox p)))
        (ch_queue (h_chans (hs_hub t) (p_outbox p)))"
      using remove_grows [OF wire iter ok q0] step_unregister by (simp add: unregister_def)
    from new_frames_grow [OF _ this y] show ?thesis using weaken step_unregister by auto
  next
    case (step_set_allow fp conn fps)
    obtain p0 where "h_peers (hs_hub s) q = Some p0" "p_outbox p0 = p_outbox p"
      using q step_set_allow
      by (cases "q = fp")
        (auto simp: set_allow_def Let_def announce_notify current_def split: if_splits option.splits)
    then show ?thesis
      using new_frames_grow [OF _ _ y] set_allow_grows [OF wire iter ok, of q p0 fp conn fps] step_set_allow
      by auto
  next
    case (step_forward src conn to data)
    have "h_peers (hs_hub s) q = Some p"
      using q step_forward by (auto simp: forward_def Let_def split: option.splits if_splits prod.splits)
        (metis push_fields(1) snd_conv)+
    from new_frames_grow [OF _ _ y] forward_grows [OF wire ok this, of src conn to data]
    show ?thesis using step_forward by fastforce
  next
    case (step_outbox a h)
    have "p_outbox p < a"
      using q step_outbox ok by (auto simp: outbox_def dest: peers_okD)
    then show ?thesis using y step_outbox by (auto simp: new_frames_def chan_log_def outbox_def)
  next
    case (step_recv a x h)
    then have "chan_log t = chan_log s"
      by (auto simp: chan_log_def try_recv_def case_prod_beta chan_try_recv_def split: list.splits)
    then show ?thesis using y by (simp add: new_frames_def)
  next
    case (step_drop a)
    then show ?thesis using y by (auto simp: new_frames_def chan_log_def drop_inbox_def split: if_splits)
  qed
qed


subsection \<open>A run of two devices\<close>

text \<open>
  A wire and an order for evaluating the theorems: a presence is a sign and the fingerprint, a
  message its sender. Two devices connect and allow each other.
\<close>

fun demo_ser :: ser where
  "demo_ser (Presence f on) = Some ((if on then CHR ''+'' else CHR ''-'') # f)"
| "demo_ser (Msg f _) = Some (CHR ''m'' # f)"
| "demo_ser _ = None"

fun demo_de :: "string \<Rightarrow> server_message option" where
  "demo_de (c # f) =
     (if c = CHR ''m'' then Some (Msg f JNull) else Some (Presence f (c = CHR ''+'')))"
| "demo_de [] = None"

definition demo_iter :: iter where
  "demo_iter A = sorted_list_of_set A"

lemma demo_ok: "wire_ok demo_ser demo_de" "iter_ok demo_iter"
  by (auto simp: wire_ok_def iter_ok_def demo_iter_def)

definition demo_outbox :: "hub_sys \<Rightarrow> hub_sys" where
  "demo_outbox s = s\<lparr>hs_hub := snd (outbox (hs_hub s)), hs_pending := insert (fst (outbox (hs_hub s))) (hs_pending s)\<rparr>"

definition demo_register :: "fp \<Rightarrow> nat \<Rightarrow> addr \<Rightarrow> hub_sys \<Rightarrow> hub_sys" where
  "demo_register fp conn a s =
     s\<lparr>hs_hub := register demo_ser demo_iter (hs_hub s) fp conn a, hs_pending := hs_pending s - {a}\<rparr>"

definition demo_allow :: "fp \<Rightarrow> nat \<Rightarrow> fp list \<Rightarrow> hub_sys \<Rightarrow> hub_sys" where
  "demo_allow fp conn fps s = s\<lparr>hs_hub := set_allow demo_ser demo_iter (hs_hub s) fp conn fps\<rparr>"

definition demo_one_side :: hub_sys where
  "demo_one_side =
     demo_allow ''A'' 1 [''B''] (demo_register ''B'' 2 1 (demo_register ''A'' 1 0 (demo_outbox (demo_outbox
       \<lparr>hs_hub = hub_default, hs_seen = (\<lambda>_. []), hs_pending = {}\<rparr>))))"

definition demo_mutual :: hub_sys where
  "demo_mutual = demo_allow ''B'' 2 [''A''] demo_one_side"

lemma demo_reachable: "reachable hub_init (hub_step demo_ser demo_iter) demo_one_side"
proof -
  let ?R = "reachable hub_init (hub_step demo_ser demo_iter)"
  have out: "?R s \<Longrightarrow> ?R (demo_outbox s)" for s
    unfolding demo_outbox_def by (erule reach_step, rule step_outbox) simp
  have reg: "?R s \<Longrightarrow> a \<in> hs_pending s \<Longrightarrow> ?R (demo_register fp conn a s)" for s a fp conn
    unfolding demo_register_def by (erule reach_step, rule step_register)
  have allow: "?R s \<Longrightarrow> ?R (demo_allow fp conn fps s)" for s fp conn fps
    unfolding demo_allow_def by (erule reach_step, rule step_set_allow)
  have init: "?R \<lparr>hs_hub = hub_default, hs_seen = (\<lambda>_. []), hs_pending = {}\<rparr>"
    by (rule reach_init) (simp add: hub_init_def)
  show ?thesis
    unfolding demo_one_side_def
    by (intro allow reg out init) (simp_all add: demo_outbox_def demo_register_def outbox_def hub_default_def)
qed

lemma demo_last_step: "hub_step demo_ser demo_iter demo_one_side demo_mutual"
  unfolding demo_mutual_def demo_allow_def by (rule step_set_allow)

lemmas demo_eval = demo_outbox_def demo_register_def demo_allow_def outbox_def hub_default_def
  register_def set_allow_def current_def mutual_peers_def mutual_def announce_def presence_def push_def
  chan_push_def chan_send_def new_chan_def demo_iter_def MAX_QUEUED_BYTES_def CONTROL_HEADROOM_def

lemma demo_one_side_eq:
  "demo_one_side =
     \<lparr>hs_hub = \<lparr>h_peers = [''A'' \<mapsto> \<lparr>p_conn = 1, p_outbox = 0, p_allow = {''B''}\<rparr>,
                          ''B'' \<mapsto> \<lparr>p_conn = 2, p_outbox = 1, p_allow = {}\<rparr>],
               h_chans = (\<lambda>_. new_chan), h_next = 2\<rparr>,
      hs_seen = (\<lambda>_. []), hs_pending = {}\<rparr>"
  by (auto simp: demo_one_side_def demo_eval Let_def fun_eq_iff)

lemma demo_mutual_eq:
  "demo_mutual =
     \<lparr>hs_hub = \<lparr>h_peers = [''A'' \<mapsto> \<lparr>p_conn = 1, p_outbox = 0, p_allow = {''B''}\<rparr>,
                          ''B'' \<mapsto> \<lparr>p_conn = 2, p_outbox = 1, p_allow = {''A''}\<rparr>],
               h_chans = (\<lambda>_. new_chan)
                 (0 := \<lparr>ch_queue = [Frame ''+B''], ch_queued = 2, ch_alive = True\<rparr>,
                  1 := \<lparr>ch_queue = [Frame ''+A''], ch_queued = 2, ch_alive = True\<rparr>),
               h_next = 2\<rparr>,
      hs_seen = (\<lambda>_. []), hs_pending = {}\<rparr>"
  by (auto simp: demo_mutual_def demo_one_side_eq demo_eval Let_def fun_eq_iff)

lemmas demo_state = live_def shown_def view_def mutual_def chan_log_def new_frames_def current_def
  new_chan_def is_close_def

subsection \<open>Properties\<close>

interpretation queue_run: invariant_system hub_init "hub_step ser iter" "\<lambda>s. chans_ok (hs_hub s)"
  for ser :: ser and iter :: iter
proof (unfold_locales, goal_cases)
  case (1 s)
  then show ?case
    by (simp add: hub_init_def hub_default_def chans_ok_def chan_ok_def new_chan_def frame_bytes_def)
next
  case (2 s t)
  have rm: "chans_ok h \<Longrightarrow> chans_ok (remove ser iter h fp)" for h fp
    using chans_ok_notify [of h] by (simp add: remove_notify Let_def chans_ok_def)
  have cl: "chans_ok h \<Longrightarrow> chans_ok (close h a code reason)" for h a code reason
    by (simp add: close_def chans_ok_def chan_ok_close)
  have up: "chans_ok (h\<lparr>h_peers := m\<rparr>) = chans_ok h" for h m by (simp add: chans_ok_def)
  from 2(2,1) show ?case
  proof cases
    case (step_set_allow fp conn fps)
    then show ?thesis
      using 2(1) by (auto simp: set_allow_def Let_def announce_notify chans_ok_notify up split: option.splits)
  next
    case (step_forward src conn to data)
    then show ?thesis
      using 2(1) chans_ok_push [of "hs_hub s" ser]
      by (auto simp: forward_def case_prod_beta split: option.splits)
  next
    case (step_recv a x h)
    then show ?thesis
      using 2(1) by (auto simp: try_recv_def case_prod_beta chans_ok_def chan_ok_recv)
  next
    case (step_register a fp conn)
    then show ?thesis using 2(1) by (simp add: register_def Let_def up rm cl split: option.splits)
  next
    case (step_unregister fp conn)
    then show ?thesis using 2(1) by (simp add: unregister_def rm)
  qed (use 2(1) in \<open>auto simp: outbox_def drop_inbox_def chans_ok_def chan_ok_def
      new_chan_def frame_bytes_def\<close>)
qed

text \<open>
  C26. What a device believes about its peers is true: in every reachable state of the hub, for
  a connection that still listens and was not told to close, the last presence it was sent
  about another device (offline if none) says exactly whether the two are mutual now.
\<close>

theorem presence_is_faithful:
  assumes "reachable hub_init (hub_step ser iter) s" and "wire_ok ser de" and "iter_ok iter"
    and "live s q"
  shows "shown de s q x = mutual (hs_hub s) q x"
  using hub_run.reachable_inv [OF assms(1), of de] assms(2-4) by (simp add: hub_inv_def view_inv_def)

theorem presence_is_faithful_witness:
  "shown demo_de demo_mutual ''A'' ''B'' = mutual (hs_hub demo_mutual) ''A'' ''B''
   \<and> mutual (hs_hub demo_mutual) ''A'' ''B''"
proof -
  have "live demo_mutual ''A''" "mutual (hs_hub demo_mutual) ''A'' ''B''" by (simp_all add: demo_one_side_eq demo_mutual_eq demo_state)
  then show ?thesis
    using presence_is_faithful [OF reach_step [OF demo_reachable demo_last_step] demo_ok] by blast
qed

text \<open>
  C27. A device is told only about devices it is mutual with: whatever step the hub takes, each
  frame it adds to a registered connection is a close, a presence about a device mutual with the
  receiver before or after the step, or a message from a device mutual with it.
\<close>

theorem only_mutual_is_told:
  assumes "reachable hub_init (hub_step ser iter) s" and "wire_ok ser de" and "iter_ok iter"
    and "hub_step ser iter s t" and "h_peers (hs_hub t) q = Some p"
    and "y \<in> set (new_frames s t (p_outbox p))"
  shows "is_close y \<or> told de (\<lambda>x. mutual (hs_hub s) q x \<or> mutual (hs_hub t) q x) y
    \<or> (\<exists>txt f d. y = Frame txt \<and> de txt = Some (Msg f d) \<and> mutual (hs_hub s) q f)"
  using hub_step_told [OF assms(2,3) _ assms(4-6)] hub_run.reachable_inv [OF assms(1), of de] assms(2,3)
  by blast

theorem only_mutual_is_told_witness:
  "new_frames demo_one_side demo_mutual 0 = [Frame ''+B'']
   \<and> (is_close (Frame ''+B'')
      \<or> told demo_de (\<lambda>x. mutual (hs_hub demo_one_side) ''A'' x \<or> mutual (hs_hub demo_mutual) ''A'' x) (Frame ''+B'')
      \<or> (\<exists>txt f d. Frame ''+B'' = Frame txt \<and> demo_de txt = Some (Msg f d) \<and> mutual (hs_hub demo_one_side) ''A'' f))"
proof -
  have n: "new_frames demo_one_side demo_mutual 0 = [Frame ''+B'']" by (simp add: demo_one_side_eq demo_mutual_eq demo_state)
  have "map_option p_outbox (h_peers (hs_hub demo_mutual) ''A'') = Some 0" by (simp add: demo_one_side_eq demo_mutual_eq demo_state)
  then obtain p where p: "h_peers (hs_hub demo_mutual) ''A'' = Some p" "p_outbox p = 0" by auto
  from only_mutual_is_told [OF demo_reachable demo_ok demo_last_step p(1), of "Frame ''+B''"]
  show ?thesis unfolding p(2) n by simp
qed

text \<open>
  C32. A sender learns nothing about a device it is not mutual with: \<open>forward\<close> answers from the
  sender's own allow set alone and changes nothing, whether the target is online or not, and
  TURN credentials are refused.
\<close>

theorem forward_reveals_nothing:
  assumes "\<not> mutual h src to"
  shows "forward ser h src conn to data =
      (Inl (case current h src conn of
              None \<Rightarrow> Offline
            | Some p \<Rightarrow> if to \<in> p_allow p then Offline else NotAllowed), h)
    \<and> \<not> can_turn h src conn to"
  using assms by (auto simp: forward_def can_turn_def split: option.splits)

theorem forward_reveals_nothing_witness:
  "forward demo_ser (hs_hub demo_one_side) ''A'' 1 ''B'' JNull = (Inl Offline, hs_hub demo_one_side)
   \<and> forward demo_ser (hs_hub demo_one_side) ''B'' 2 ''A'' JNull = (Inl NotAllowed, hs_hub demo_one_side)"
proof -
  have m: "\<not> mutual (hs_hub demo_one_side) ''A'' ''B''" "\<not> mutual (hs_hub demo_one_side) ''B'' ''A''"
    by (simp_all add: demo_one_side_eq demo_mutual_eq demo_state)
  have c: "current (hs_hub demo_one_side) ''A'' 1 = Some \<lparr>p_conn = 1, p_outbox = 0, p_allow = {''B''}\<rparr>"
    "current (hs_hub demo_one_side) ''B'' 2 = Some \<lparr>p_conn = 2, p_outbox = 1, p_allow = {}\<rparr>"
    by (simp_all add: demo_one_side_eq current_def)
  show ?thesis
    using conjunct1 [OF forward_reveals_nothing [OF m(1), of demo_ser 1 JNull]]
      conjunct1 [OF forward_reveals_nothing [OF m(2), of demo_ser 2 JNull]]
    by (simp add: c del: One_nat_def)
qed

text \<open>
  Between mutual devices \<open>forward\<close> delivers in order: if the text fits under
  \<open>MAX_QUEUED_BYTES\<close> with what already waits, it is the last frame of the target's queue, no
  other channel is touched, and the sender is told of success; if it does not fit, nothing is
  queued and the answer is \<open>offline\<close>.
\<close>

lemma forward_delivers:
  assumes "mutual h src to" and "current h src conn \<noteq> None" and "h_peers h to = Some target"
    and "ser (Msg src data) = Some t" and "ch_alive (h_chans h (p_outbox target))"
  shows "forward ser h src conn to data =
    (let c = h_chans h (p_outbox target) in
     if ch_queued c + length t \<le> MAX_QUEUED_BYTES
     then (Inr (), h\<lparr>h_chans := (h_chans h)(p_outbox target :=
       c\<lparr>ch_queued := ch_queued c + length t, ch_queue := ch_queue c @ [Frame t]\<rparr>)\<rparr>)
     else (Inl Offline, h))"
proof -
  obtain p where p: "current h src conn = Some p" "h_peers h src = Some p"
    using assms(2) by (auto simp: current_def split: option.splits if_splits)
  then have "to \<in> p_allow p" using assms(1,3) by (simp add: mutual_def)
  then show ?thesis
    using assms p
    by (simp add: forward_def push_def chan_push_def chan_send_def Let_def not_less CONTROL_HEADROOM_def)
qed

text \<open>
  No receiver makes the relay buffer without bound: in every reachable state the counter
  of a channel that is still read is the number of bytes waiting in it, and it never exceeds
  \<open>MAX_QUEUED_BYTES + CONTROL_HEADROOM\<close>.
\<close>

lemma queues_are_bounded:
  assumes "reachable hub_init (hub_step ser iter) s" and "ch_alive (h_chans (hs_hub s) a)"
  shows "ch_queued (h_chans (hs_hub s) a) = frame_bytes (ch_queue (h_chans (hs_hub s) a))
    \<and> frame_bytes (ch_queue (h_chans (hs_hub s) a)) \<le> 2 * 1024 * 1024 + 256 * 1024"
  using queue_run.reachable_inv [OF assms(1)] assms(2)
  by (auto simp: chans_ok_def chan_ok_def MAX_QUEUED_BYTES_def CONTROL_HEADROOM_def)

text \<open>
  A replaced connection cannot act: after \<open>register\<close> gives a fingerprint to a new
  connection, every call of any other connection under that fingerprint leaves the hub as it is
  and obtains nothing.
\<close>

lemma replaced_connection_is_inert:
  assumes "h = register ser iter h0 fp conn a" and "old \<noteq> conn"
  shows "set_allow ser iter h fp old fps = h \<and> unregister ser iter h fp old = h
    \<and> forward ser h fp old to data = (Inl Offline, h) \<and> \<not> can_turn h fp old to"
proof -
  have "current h fp old = None" using assms by (simp add: register_def current_def Let_def)
  then show ?thesis by (simp add: set_allow_def unregister_def forward_def can_turn_def)
qed

end
