(* ===== verification/Relay_Server.thy ===== *)
theory Relay_Server
  imports Relay_Hub Relay_Limits "HOL-Library.Multiset"
begin

section \<open>The relay server\<close>

text \<open>
  \<open>relay/src/server.rs\<close>, with \<open>auth.rs\<close>, \<open>turn.rs\<close> and \<open>config.rs\<close>: authentication of a
  connection, the messages of an authenticated one, TURN credentials, and the life of a
  connection from \<open>accept\<close> to the drop of its slots.

  A handler is a function of the shared state and the connection. The socket is the record
  \<open>ws\<close>: the messages written, whether it is broken (a write to it ends the connection) and the
  largest frame it accepts; what is read from it, and when, is an argument. \<open>Instant::now()\<close>
  and the wall clock are arguments too.

  Parameters: \<open>ser\<close> and \<open>de\<close> for \<open>serde_json\<close>, \<open>iter\<close> for \<open>HashSet\<close>, the record \<open>crypto\<close> for
  \<open>openssl\<close> and \<open>base64\<close>, \<open>post\<close> for the HTTP request to Cloudflare, \<open>digest\<close> and the salt of
  the quota.
\<close>

subsection \<open>Configuration\<close>

datatype turn_backend_kind = KindNone | KindCloudflare | KindCoturn

record config =
  listen :: string
  public_host :: string
  trusted_proxies :: "ip_addr list"
  turn_backend_kind :: turn_backend_kind
  cf_key_id :: string
  cf_api_token :: string
  ct_static_secret :: string
  ct_urls :: "string list"
  ct_ttl :: u64
  state_file :: "string option"
  cfg_limits :: limits

definition config_default :: config where
  "config_default =
     \<lparr>listen = ''127.0.0.1:8080'', public_host = [],
      trusted_proxies = [IpV4 0x7F000001, IpV6 1],
      turn_backend_kind = KindNone, cf_key_id = [], cf_api_token = [],
      ct_static_secret = [], ct_urls = [], ct_ttl = 3600,
      state_file = None, cfg_limits = limits_default\<rparr>"

definition ENV_CF_TOKEN :: string where "ENV_CF_TOKEN = ''DESKLINK_RELAY_CF_TOKEN''"
definition ENV_TURN_SECRET :: string where "ENV_TURN_SECRET = ''DESKLINK_RELAY_TURN_SECRET''"

text \<open>The reasons a configuration is refused; \<open>BadToml\<close> carries the parser's message.\<close>

datatype config_error = BadToml string | NoPublicHost | CloudflareIncomplete | CoturnIncomplete

text \<open>\<open>trim()\<close> on an ASCII host name.\<close>

definition is_space :: "char \<Rightarrow> bool" where
  "is_space c = (c \<in> {CHR '' '', CHR 0x09, CHR 0x0A, CHR 0x0B, CHR 0x0C, CHR 0x0D})"

definition validate :: "config \<Rightarrow> (config_error, unit) result" where
  "validate c =
     (if list_all is_space (public_host c) then Inl NoPublicHost
      else (case turn_backend_kind c of
          KindCloudflare \<Rightarrow>
            if cf_key_id c = [] \<or> cf_api_token c = [] then Inl CloudflareIncomplete else Inr ()
        | KindCoturn \<Rightarrow>
            if ct_static_secret c = [] \<or> ct_urls c = [] then Inl CoturnIncomplete else Inr ()
        | KindNone \<Rightarrow> Inr ()))"

text \<open>\<open>toml\<close> is \<open>toml::from_str\<close>; \<open>env\<close> reads the environment.\<close>

definition config_parse ::
  "(string \<Rightarrow> (string, config) result) \<Rightarrow> (string \<Rightarrow> string option) \<Rightarrow> string
     \<Rightarrow> (config_error, config) result" where
  "config_parse toml env txt =
     (case toml txt of
        Inl e \<Rightarrow> Inl (BadToml e)
      | Inr c \<Rightarrow>
          (let c = (case env ENV_CF_TOKEN of
                      Some t \<Rightarrow> if t \<noteq> [] then c\<lparr>cf_api_token := t\<rparr> else c | None \<Rightarrow> c);
               c = (case env ENV_TURN_SECRET of
                      Some t \<Rightarrow> if t \<noteq> [] then c\<lparr>ct_static_secret := t\<rparr> else c | None \<Rightarrow> c)
           in (case validate c of Inl e \<Rightarrow> Inl e | Inr _ \<Rightarrow> Inr c)))"

subsection \<open>Authentication\<close>

datatype key_kind = KeyRsa | KeyEc | KeyOther

text \<open>
  What is used of \<open>openssl\<close> and \<open>base64\<close>, for certificates \<open>'c\<close> and keys \<open>'k\<close>: each call
  may fail. Byte strings are \<^typ>\<open>string\<close>.
\<close>

record ('c, 'k) crypto =
  b64_decode :: "string \<Rightarrow> string option"
  b64url :: "string \<Rightarrow> string"
  sha256 :: "string \<Rightarrow> string option"
  x509_from_der :: "string \<Rightarrow> 'c option"
  x509_to_der :: "'c \<Rightarrow> string option"
  x509_key :: "'c \<Rightarrow> 'k option"
  key_id :: "'k \<Rightarrow> key_kind"
  verify_sha256 :: "'k \<Rightarrow> string \<Rightarrow> string \<Rightarrow> bool option"

definition fingerprint :: "('c, 'k) crypto \<Rightarrow> string \<Rightarrow> string option" where
  "fingerprint cr cert_der = map_option (b64url cr) (sha256 cr cert_der)"

definition is_ascii_whitespace :: "char \<Rightarrow> bool" where
  "is_ascii_whitespace c = (c \<in> {CHR '' '', CHR 0x09, CHR 0x0A, CHR 0x0C, CHR 0x0D})"

definition decode_b64 :: "('c, 'k) crypto \<Rightarrow> string \<Rightarrow> string option" where
  "decode_b64 cr txt = b64_decode cr (filter (\<lambda>c. \<not> is_ascii_whitespace c) txt)"

definition verify :: "('c, 'k) crypto \<Rightarrow> string \<Rightarrow> string \<Rightarrow> string \<Rightarrow> string \<Rightarrow> fp option" where
  "verify cr cert_b64 sig_b64 nonce host =
     Option.bind (decode_b64 cr cert_b64) (\<lambda>der.
     Option.bind (decode_b64 cr sig_b64) (\<lambda>signature.
     Option.bind (x509_from_der cr der) (\<lambda>cert.
     Option.bind (x509_to_der cr cert) (\<lambda>again.
       if again \<noteq> der then None
       else Option.bind (x509_key cr cert) (\<lambda>key.
         if key_id cr key \<noteq> KeyRsa \<and> key_id cr key \<noteq> KeyEc then None
         else Option.bind (verify_sha256 cr key (auth_sign_input nonce host) signature) (\<lambda>ok.
           if \<not> ok then None else fingerprint cr der))))))"

subsection \<open>TURN credentials\<close>

definition CLOUDFLARE_TTL :: u64 where "CLOUDFLARE_TTL = 3600"

datatype turn_backend =
    TurnNone
  | TurnCloudflare (cf_url: string) (cf_token: string)
  | TurnCoturn (ct_secret: string) (turn_urls: "string list") (turn_ttl: u64)

definition turn_from_config :: "config \<Rightarrow> turn_backend" where
  "turn_from_config c =
     (case turn_backend_kind c of
        KindNone \<Rightarrow> TurnNone
      | KindCloudflare \<Rightarrow>
          TurnCloudflare (''https://rtc.live.cloudflare.com/v1/turn/keys/'' @ cf_key_id c
            @ ''/credentials/generate-ice-servers'') (cf_api_token c)
      | KindCoturn \<Rightarrow> TurnCoturn (ct_static_secret c) (ct_urls c) (ct_ttl c))"

definition is_enabled :: "turn_backend \<Rightarrow> bool" where
  "is_enabled b = (b \<noteq> TurnNone)"

definition coturn_username :: "u64 \<Rightarrow> fp \<Rightarrow> string" where
  "coturn_username expiry_unix fp = show_nat (unat expiry_unix) @ '':'' @ take 16 fp"

datatype 'a one_or_many = One 'a | Many "'a list"

fun into_vec :: "'a one_or_many \<Rightarrow> 'a list" where
  "into_vec (One x) = [x]"
| "into_vec (Many xs) = xs"

record raw_ice_server =
  raw_urls :: "string one_or_many"
  raw_username :: "string option"
  raw_credential :: "string option"

definition into_ice_servers :: "raw_ice_server one_or_many \<Rightarrow> ice_server list" where
  "into_ice_servers rs =
     map (\<lambda>raw. \<lparr>ice_urls = into_vec (raw_urls raw), ice_username = raw_username raw,
                 ice_credential = raw_credential raw\<rparr>) (into_vec rs)"

text \<open>
  \<open>post url token ttl\<close> is the request and its parsed response; \<open>hmac\<close> is the base64 of the
  HMAC-SHA1. The sum of the expiry is computed in \<open>u64\<close>.
\<close>

definition credentials ::
  "(string \<Rightarrow> string \<Rightarrow> u64 \<Rightarrow> raw_ice_server one_or_many option) \<Rightarrow> (string \<Rightarrow> string \<Rightarrow> string option)
     \<Rightarrow> turn_backend \<Rightarrow> fp \<Rightarrow> u64 \<Rightarrow> (ice_server list \<times> u64) option" where
  "credentials post hmac b fp now_unix =
     (case b of
        TurnNone \<Rightarrow> None
      | TurnCloudflare url api_token \<Rightarrow>
          map_option (\<lambda>rs. (into_ice_servers rs, CLOUDFLARE_TTL)) (post url api_token CLOUDFLARE_TTL)
      | TurnCoturn secret urls ttl \<Rightarrow>
          (let username = coturn_username (now_unix + ttl) fp in
           map_option (\<lambda>credential.
             ([\<lparr>ice_urls = urls, ice_username = Some username, ice_credential = Some credential\<rparr>], ttl))
             (hmac secret username)))"

subsection \<open>Shared state and connections\<close>

definition AUTH_TIMEOUT :: nat where "AUTH_TIMEOUT = 10 * 10 ^ 9"
definition PING_INTERVAL :: nat where "PING_INTERVAL = 20 * 10 ^ 9"
definition SILENCE_LIMIT :: nat where "SILENCE_LIMIT = 60 * 10 ^ 9"
definition PRE_AUTH_MAX_FRAME :: nat where "PRE_AUTH_MAX_FRAME = 16 * 1024"
definition MAX_FP_LEN :: nat where "MAX_FP_LEN = 64"
definition CLOSE_TOO_BIG :: nat where "CLOSE_TOO_BIG = 1009"

record metrics =
  auth_ok :: nat
  auth_fail :: nat
  messages_forwarded :: nat
  turn_grants :: nat
  turn_denials :: nat
  rate_limit_closes :: nat

record shared =
  sh_config :: config
  sh_hub :: hub
  sh_net :: net_limits
  sh_quota :: turn_quota
  sh_metrics :: metrics
  sh_next_conn :: nat

definition shared_new :: "config \<Rightarrow> turn_quota \<Rightarrow> shared" where
  "shared_new c q =
     \<lparr>sh_config = c, sh_hub = hub_default, sh_net = net_limits_new (cfg_limits c), sh_quota = q,
      sh_metrics = \<lparr>auth_ok = 0, auth_fail = 0, messages_forwarded = 0, turn_grants = 0,
        turn_denials = 0, rate_limit_closes = 0\<rparr>,
      sh_next_conn = 1\<rparr>"

definition shared_prune :: "shared \<Rightarrow> instant \<Rightarrow> shared" where
  "shared_prune sh now = sh\<lparr>sh_net := prune (sh_net sh) now\<rparr>"

text \<open>\<open>counters\<close>, and the two texts made of them.\<close>

definition counters :: "shared \<Rightarrow> (string \<times> string \<times> nat) list" where
  "counters sh =
     (let m = sh_metrics sh in
      [(''connections'', ''gauge'', nl_total (sh_net sh)),
       (''devices_online'', ''gauge'', online (sh_hub sh)),
       (''auth_ok_total'', ''counter'', auth_ok m),
       (''auth_fail_total'', ''counter'', auth_fail m),
       (''messages_forwarded_total'', ''counter'', messages_forwarded m),
       (''turn_grants_total'', ''counter'', turn_grants m),
       (''turn_denials_total'', ''counter'', turn_denials m),
       (''rate_limit_closes_total'', ''counter'', rate_limit_closes m)])"

definition metrics_text :: "shared \<Rightarrow> string" where
  "metrics_text sh =
     concat (map (\<lambda>(name, kind, val).
       ''# TYPE desklink_relay_'' @ name @ '' '' @ kind @ [newline]
       @ ''desklink_relay_'' @ name @ '' '' @ show_nat val @ [newline]) (counters sh))"

definition summary :: "shared \<Rightarrow> string" where
  "summary sh =
     concat (case map (\<lambda>(name, _, val). name @ ''='' @ show_nat val) (counters sh) of
       [] \<Rightarrow> [] | x # xs \<Rightarrow> x # concat (map (\<lambda>y. ['' '', y]) xs))"

datatype exit = Gone | ExitClose nat string

datatype ws_message = WsText string | WsPing | WsCloseFrame nat string

record ws =
  ws_sent :: "ws_message list"
  ws_broken :: bool
  ws_max_frame :: nat

record connection =
  cn_ws :: ws
  cn_net :: net_key
  cn_conn :: nat
  cn_nonce :: string
  cn_fp :: "fp option"
  cn_outbox :: addr
  cn_limits :: conn_limits
  cn_started :: instant
  cn_last_heard :: instant
  cn_last_ping :: instant

text \<open>\<open>written(self.ws.write(..))\<close>: a write that would block stays queued and counts as done.\<close>

definition ws_write :: "ws_message \<Rightarrow> connection \<Rightarrow> (exit, connection) result" where
  "ws_write m c =
     (if ws_broken (cn_ws c) then Inl Gone
      else Inr (c\<lparr>cn_ws := (cn_ws c)\<lparr>ws_sent := ws_sent (cn_ws c) @ [m]\<rparr>\<rparr>))"

definition send :: "ser \<Rightarrow> server_message \<Rightarrow> connection \<Rightarrow> (exit, connection) result" where
  "send ser message c =
     (case ser message of None \<Rightarrow> Inl Gone | Some t \<Rightarrow> ws_write (WsText t) c)"


subsection \<open>Handlers\<close>

record ('c, 'k) env =
  e_crypto :: "('c, 'k) crypto"
  e_ser :: ser
  e_de :: "string \<Rightarrow> client_message option"
  e_iter :: iter
  e_post :: "string \<Rightarrow> string \<Rightarrow> u64 \<Rightarrow> raw_ice_server one_or_many option"
  e_hmac :: "string \<Rightarrow> string \<Rightarrow> string option"
  e_digest :: "string \<Rightarrow> string option"
  e_salt :: string

text \<open>A handler ends the connection with an \<open>exit\<close>, or returns \<open>Ok(())\<close> as \<open>None\<close>.\<close>

type_synonym handled = "exit option \<times> connection \<times> shared"

definition reply :: "ser \<Rightarrow> server_message \<Rightarrow> connection \<Rightarrow> shared \<Rightarrow> handled" where
  "reply ser m c sh = (case send ser m c of Inl e \<Rightarrow> (Some e, c, sh) | Inr c' \<Rightarrow> (None, c', sh))"

definition authenticate ::
  "('c, 'k) env \<Rightarrow> 32 word \<Rightarrow> string \<Rightarrow> string \<Rightarrow> instant \<Rightarrow> connection \<Rightarrow> shared \<Rightarrow> handled" where
  "authenticate e v cert sig now c sh =
     (let (allowed, n) = allow_auth (sh_net sh) (cn_net c) now; sh = sh\<lparr>sh_net := n\<rparr> in
      if \<not> allowed then (Some (ExitClose CLOSE_RATE_LIMITED ''too many authentication attempts''), c, sh)
      else if v < MIN_PROTOCOL_VERSION
      then (Some (ExitClose CLOSE_UPGRADE_REQUIRED ''protocol upgrade required''), c, sh)
      else (case verify (e_crypto e) cert sig (cn_nonce c) (public_host (sh_config sh)) of
          None \<Rightarrow>
            (Some (ExitClose CLOSE_UNAUTHORIZED ''authentication failed''), c,
             sh\<lparr>sh_metrics := (sh_metrics sh)\<lparr>auth_fail := auth_fail (sh_metrics sh) + 1\<rparr>\<rparr>)
        | Some fp \<Rightarrow>
            (let sh = sh\<lparr>sh_metrics := (sh_metrics sh)\<lparr>auth_ok := auth_ok (sh_metrics sh) + 1\<rparr>,
                         sh_net := net_authenticated (sh_net sh)\<rparr>;
                 c = c\<lparr>cn_fp := Some fp,
                       cn_ws := (cn_ws c)\<lparr>ws_max_frame := max_frame_bytes (cfg_limits (sh_config sh))\<rparr>\<rparr>
             in (case send (e_ser e) (Welcome fp) c of
                 Inl x \<Rightarrow> (Some x, c, sh)
               | Inr c' \<Rightarrow>
                   (None, c',
                    sh\<lparr>sh_hub := register (e_ser e) (e_iter e) (sh_hub sh) fp (cn_conn c') (cn_outbox c')\<rparr>)))))"

definition refuse_turn :: "('c, 'k) env \<Rightarrow> error_code \<Rightarrow> fp \<Rightarrow> connection \<Rightarrow> shared \<Rightarrow> handled" where
  "refuse_turn e code to c sh =
     reply (e_ser e) (Error code to) c
       (sh\<lparr>sh_metrics := (sh_metrics sh)\<lparr>turn_denials := turn_denials (sh_metrics sh) + 1\<rparr>\<rparr>)"

definition turn :: "('c, 'k) env \<Rightarrow> fp \<Rightarrow> fp \<Rightarrow> u64 \<Rightarrow> connection \<Rightarrow> shared \<Rightarrow> handled" where
  "turn e fp peer now c sh =
     (let backend = turn_from_config (sh_config sh) in
      if \<not> is_enabled backend \<or> \<not> can_turn (sh_hub sh) fp (cn_conn c) peer
      then refuse_turn e TurnDenied peer c sh
      else
        (let (granted, q) = try_grant (e_digest e) (e_salt e) (cfg_limits (sh_config sh)) (sh_quota sh)
               fp peer (cn_net c) (unat now);
             sh = sh\<lparr>sh_quota := q\<rparr>
         in (case granted of
             Inl _ \<Rightarrow> refuse_turn e TurnQuotaExceeded peer c sh
           | Inr g \<Rightarrow>
               (case credentials (e_post e) (e_hmac e) backend fp now of
                  Some (ice_servers, ttl) \<Rightarrow>
                    reply (e_ser e) (TurnCreds peer ice_servers ttl) c
                      (sh\<lparr>sh_metrics := (sh_metrics sh)\<lparr>turn_grants := turn_grants (sh_metrics sh) + 1\<rparr>\<rparr>)
                | None \<Rightarrow>
                    refuse_turn e TurnDenied peer c (sh\<lparr>sh_quota := refund (sh_quota sh) g\<rparr>)))))"

definition on_text :: "('c, 'k) env \<Rightarrow> string \<Rightarrow> instant \<Rightarrow> u64 \<Rightarrow> connection \<Rightarrow> shared \<Rightarrow> handled" where
  "on_text e txt now unix c sh =
     (case e_de e txt of
        None \<Rightarrow> (Some (ExitClose CLOSE_BAD_REQUEST ''malformed frame''), c, sh)
      | Some message \<Rightarrow>
          (case cn_fp c of
             None \<Rightarrow>
               (case message of
                  Auth v cert sig \<Rightarrow> authenticate e v cert sig now c sh
                | _ \<Rightarrow> (Some (ExitClose CLOSE_UNAUTHORIZED ''authenticate first''), c, sh))
           | Some fp \<Rightarrow>
               (case message of
                  Auth _ _ _ \<Rightarrow> (Some (ExitClose CLOSE_BAD_REQUEST ''already authenticated''), c, sh)
                | Allow fps \<Rightarrow>
                    if MAX_ALLOW < length fps \<or> list_ex (\<lambda>fp. MAX_FP_LEN < length fp) fps
                    then (Some (ExitClose CLOSE_BAD_REQUEST ''allow list too large''), c, sh)
                    else (None, c,
                      sh\<lparr>sh_hub := set_allow (e_ser e) (e_iter e) (sh_hub sh) fp (cn_conn c) fps\<rparr>)
                | Send to data \<Rightarrow>
                    (let (res, h) = forward (e_ser e) (sh_hub sh) fp (cn_conn c) to data;
                         sh = sh\<lparr>sh_hub := h\<rparr>
                     in (case res of
                         Inr _ \<Rightarrow> (None, c, sh\<lparr>sh_metrics :=
                           (sh_metrics sh)\<lparr>messages_forwarded := messages_forwarded (sh_metrics sh) + 1\<rparr>\<rparr>)
                       | Inl code \<Rightarrow> reply (e_ser e) (Error code to) c sh))
                | Turn peer \<Rightarrow> turn e fp peer unix c sh)))"

subsection \<open>The loop of a connection\<close>

text \<open>The \<open>while let\<close> loop that empties the inbox into the socket.\<close>

lemma try_recv_shorter [termination_simp]:
  "try_recv h a = (Some x, h') \<Longrightarrow>
     length (ch_queue (h_chans h' a)) < length (ch_queue (h_chans h a))"
  by (auto simp: try_recv_def chan_try_recv_def case_prod_beta split: list.splits)

function drain :: "connection \<Rightarrow> shared \<Rightarrow> handled" where
  "drain c sh =
     (case try_recv (sh_hub sh) (cn_outbox c) of
        (None, _) \<Rightarrow> (None, c, sh)
      | (Some (Frame t), h) \<Rightarrow>
          (case ws_write (WsText t) c of
             Inl x \<Rightarrow> (Some x, c, sh\<lparr>sh_hub := h\<rparr>)
           | Inr c' \<Rightarrow> drain c' (sh\<lparr>sh_hub := h\<rparr>))
      | (Some (Close code reason), h) \<Rightarrow> (Some (ExitClose code reason), c, sh\<lparr>sh_hub := h\<rparr>))"
  by pat_completeness auto
termination
  by (relation "measure (\<lambda>(c, sh). length (ch_queue (h_chans (sh_hub sh) (cn_outbox c))))")
    (auto simp: ws_write_def try_recv_shorter [OF sym] split: if_splits)

declare drain.simps [simp del]

datatype ws_in = InText string | InBinary nat | InPing nat | InPong nat | InClose nat

fun ws_in_len :: "ws_in \<Rightarrow> nat" where
  "ws_in_len (InText t) = length t"
| "ws_in_len (InBinary n) = n"
| "ws_in_len (InPing n) = n"
| "ws_in_len (InPong n) = n"
| "ws_in_len (InClose n) = n"

datatype ws_read = ReadMessage ws_in | ReadWouldBlock | ReadTooBig | ReadError

text \<open>After the inbox: the timeouts and the ping, at \<open>now\<close>.\<close>

definition check_timers :: "instant \<Rightarrow> connection \<Rightarrow> (exit, connection) result" where
  "check_timers now c =
     (if ws_broken (cn_ws c) then Inl Gone
      else if cn_fp c = None \<and> AUTH_TIMEOUT \<le> now - cn_started c
      then Inl (ExitClose CLOSE_UNAUTHORIZED ''authentication timed out'')
      else if SILENCE_LIMIT \<le> now - cn_last_heard c then Inl Gone
      else if PING_INTERVAL \<le> now - cn_last_ping c
      then (case ws_write WsPing c of Inl x \<Rightarrow> Inl x | Inr c' \<Rightarrow> Inr (c'\<lparr>cn_last_ping := now\<rparr>))
      else Inr c)"

definition on_read :: "('c, 'k) env \<Rightarrow> ws_read \<Rightarrow> instant \<Rightarrow> u64 \<Rightarrow> connection \<Rightarrow> shared \<Rightarrow> handled" where
  "on_read e ev now unix c sh =
     (case ev of
        ReadMessage m \<Rightarrow>
          (let c = c\<lparr>cn_last_heard := now\<rparr>;
               (ok, l) = allow_frame (cn_limits c) (ws_in_len m) now;
               c = c\<lparr>cn_limits := l\<rparr>
           in if \<not> ok then (Some (ExitClose CLOSE_RATE_LIMITED ''rate limited''), c, sh)
              else (case m of
                  InText t \<Rightarrow> on_text e t now unix c sh
                | InBinary _ \<Rightarrow> (Some (ExitClose CLOSE_BAD_REQUEST ''text frames only''), c, sh)
                | InPing _ \<Rightarrow> (None, c, sh)
                | InPong _ \<Rightarrow> (None, c, sh)
                | InClose _ \<Rightarrow> (Some Gone, c, sh)))
      | ReadWouldBlock \<Rightarrow> (None, c, sh)
      | ReadTooBig \<Rightarrow> (Some (ExitClose CLOSE_TOO_BIG ''frame too large''), c, sh)
      | ReadError \<Rightarrow> (Some Gone, c, sh))"

text \<open>One turn of the loop of \<open>serve\<close>.\<close>

definition serve_turn ::
  "('c, 'k) env \<Rightarrow> instant \<Rightarrow> ws_read \<Rightarrow> instant \<Rightarrow> u64 \<Rightarrow> connection \<Rightarrow> shared \<Rightarrow> handled" where
  "serve_turn e now ev now' unix c sh =
     (case drain c sh of
        (Some x, c', sh') \<Rightarrow> (Some x, c', sh')
      | (None, c', sh') \<Rightarrow>
          (case check_timers now c' of
             Inl x \<Rightarrow> (Some x, c', sh')
           | Inr c'' \<Rightarrow> on_read e ev now' unix c'' sh'))"

text \<open>The network a client is counted under: \<open>X-Forwarded-For\<close> counts from a trusted proxy only.\<close>

definition client_net :: "config \<Rightarrow> ip_addr \<Rightarrow> ip_addr option \<Rightarrow> net_key" where
  "client_net cfg peer_ip header =
     (let forwarded = (if peer_ip \<in> set (trusted_proxies cfg) then header else None)
      in net_key_of (case forwarded of Some ip \<Rightarrow> ip | None \<Rightarrow> peer_ip))"

text \<open>The life of a connection up to the loop: \<open>websocket\<close> from the network count on.\<close>

definition websocket_open ::
  "('c, 'k) env \<Rightarrow> ip_addr \<Rightarrow> ip_addr option \<Rightarrow> string option \<Rightarrow> instant \<Rightarrow> shared
     \<Rightarrow> (exit option \<times> connection option) \<times> shared" where
  "websocket_open e peer_ip header nonce now sh =
     (let net = client_net (sh_config sh) peer_ip header;
          (ok, n) = open_network (sh_net sh) net;
          sh = sh\<lparr>sh_net := n\<rparr>
      in if \<not> ok then
           ((Some (ExitClose CLOSE_RATE_LIMITED ''too many connections''), None),
            sh\<lparr>sh_metrics := (sh_metrics sh)\<lparr>rate_limit_closes := rate_limit_closes (sh_metrics sh) + 1\<rparr>\<rparr>)
         else (case nonce of
             None \<Rightarrow> ((Some Gone, None), sh\<lparr>sh_net := close_network (sh_net sh) net\<rparr>)
           | Some nonce \<Rightarrow>
               (let (a, h) = outbox (sh_hub sh);
                    c = \<lparr>cn_ws = \<lparr>ws_sent = [], ws_broken = False, ws_max_frame = PRE_AUTH_MAX_FRAME\<rparr>,
                         cn_net = net, cn_conn = sh_next_conn sh, cn_nonce = nonce, cn_fp = None,
                         cn_outbox = a, cn_limits = conn_limits_new (cfg_limits (sh_config sh)) now,
                         cn_started = now, cn_last_heard = now, cn_last_ping = now\<rparr>;
                    sh = sh\<lparr>sh_hub := h, sh_next_conn := sh_next_conn sh + 1\<rparr>
                in (case send (e_ser e) (Challenge PROTOCOL_VERSION MIN_PROTOCOL_VERSION nonce) c of
                    Inl x \<Rightarrow> ((Some x, Some c), sh)
                  | Inr c \<Rightarrow> ((None, Some c), sh)))))"

text \<open>After the loop: leave the hub, then answer with the close frame.\<close>

definition websocket_leave :: "('c, 'k) env \<Rightarrow> exit \<Rightarrow> connection \<Rightarrow> shared \<Rightarrow> connection \<times> shared" where
  "websocket_leave e x c sh =
     (let sh = (case cn_fp c of
                  Some fp \<Rightarrow> sh\<lparr>sh_hub := unregister (e_ser e) (e_iter e) (sh_hub sh) fp (cn_conn c)\<rparr>
                | None \<Rightarrow> sh)
      in (case x of
          ExitClose code reason \<Rightarrow>
            (let sh = (if code = CLOSE_RATE_LIMITED
                       then sh\<lparr>sh_metrics := (sh_metrics sh)\<lparr>rate_limit_closes := rate_limit_closes (sh_metrics sh) + 1\<rparr>\<rparr>
                       else sh)
             in (c\<lparr>cn_ws := (cn_ws c)\<lparr>ws_sent := ws_sent (cn_ws c) @ [WsCloseFrame code reason]\<rparr>\<rparr>, sh))
        | Gone \<Rightarrow> (c, sh)))"

text \<open>The drops at the end of \<open>websocket\<close> and \<open>handle\<close>: inbox, network slot, global slot.\<close>

definition websocket_drop :: "connection \<Rightarrow> shared \<Rightarrow> shared" where
  "websocket_drop c sh =
     sh\<lparr>sh_hub := drop_inbox (sh_hub sh) (cn_outbox c),
        sh_net := close_global (close_network (sh_net sh) (cn_net c)) (cn_fp c \<noteq> None)\<rparr>"

text \<open>\<open>run\<close>: the accept loop's book-keeping.\<close>

definition accept :: "shared \<Rightarrow> bool \<times> shared" where
  "accept sh =
     (let (ok, n) = open_global (sh_net sh); sh = sh\<lparr>sh_net := n\<rparr>
      in if ok then (True, sh)
         else (False, sh\<lparr>sh_metrics := (sh_metrics sh)\<lparr>rate_limit_closes := rate_limit_closes (sh_metrics sh) + 1\<rparr>\<rparr>))"

text \<open>\<open>handle\<close> on the request line: what a plain socket asks for.\<close>

datatype request = Health | MetricsPage | Upgrade | NotFound

definition starts_with :: "string \<Rightarrow> string \<Rightarrow> bool" where
  "starts_with p s = (take (length p) s = p)"

definition route :: "string \<Rightarrow> request" where
  "route line =
     (if starts_with ''GET /healthz '' line then Health
      else if starts_with ''GET /metrics '' line then MetricsPage
      else if starts_with ''GET /v1 '' line \<or> starts_with ''GET /v1?'' line then Upgrade
      else NotFound)"

definition http_body :: "shared \<Rightarrow> request \<Rightarrow> (string \<times> string \<times> string) option" where
  "http_body sh r =
     (case r of
        Health \<Rightarrow> Some (''200 OK'', ''text/plain'', ''ok'')
      | MetricsPage \<Rightarrow> Some (''200 OK'', ''text/plain; version=0.0.4'', metrics_text sh)
      | Upgrade \<Rightarrow> None
      | NotFound \<Rightarrow> Some (''404 Not Found'', ''text/plain'', ''not found''))"


subsection \<open>What a turn of the loop can do\<close>

text \<open>
  The elementary actions of a connection on the shared state. Every turn is a sequence of
  them, so a property of the server has to be checked on these only.
\<close>

definition same_conn :: "connection \<Rightarrow> connection \<Rightarrow> bool" where
  "same_conn c c' \<longleftrightarrow>
     cn_conn c' = cn_conn c \<and> cn_net c' = cn_net c \<and> cn_nonce c' = cn_nonce c \<and> cn_outbox c' = cn_outbox c"

definition same_shared :: "shared \<Rightarrow> shared \<Rightarrow> bool" where
  "same_shared sh sh' \<longleftrightarrow> sh_config sh' = sh_config sh \<and> sh_next_conn sh' = sh_next_conn sh"

inductive act :: "('c, 'k) env \<Rightarrow> connection \<times> shared \<Rightarrow> connection \<times> shared \<Rightarrow> bool"
  for e :: "('c, 'k) env" where
  act_quiet: "same_conn c c' \<Longrightarrow> cn_fp c' = cn_fp c \<Longrightarrow> same_shared sh sh' \<Longrightarrow>
    sh_net sh' = sh_net sh \<Longrightarrow> sh_hub sh' = sh_hub sh \<Longrightarrow> act e (c, sh) (c', sh')"
| act_recv: "try_recv (sh_hub sh) (cn_outbox c) = (Some x, h) \<Longrightarrow> act e (c, sh) (c, sh\<lparr>sh_hub := h\<rparr>)"
| act_charge: "allow_auth (sh_net sh) (cn_net c) now = (ok, n) \<Longrightarrow> act e (c, sh) (c, sh\<lparr>sh_net := n\<rparr>)"
| act_prove: "cn_fp c = None \<Longrightarrow>
    verify (e_crypto e) cert sig (cn_nonce c) (public_host (sh_config sh)) = Some fp \<Longrightarrow>
    act e (c, sh) (c\<lparr>cn_fp := Some fp\<rparr>, sh\<lparr>sh_net := net_authenticated (sh_net sh)\<rparr>)"
| act_enrol: "cn_fp c = None \<Longrightarrow>
    verify (e_crypto e) cert sig (cn_nonce c) (public_host (sh_config sh)) = Some fp \<Longrightarrow>
    act e (c, sh) (c\<lparr>cn_fp := Some fp\<rparr>, sh\<lparr>sh_net := net_authenticated (sh_net sh),
      sh_hub := register (e_ser e) (e_iter e) (sh_hub sh) fp (cn_conn c) (cn_outbox c)\<rparr>)"
| act_allow: "cn_fp c = Some fp \<Longrightarrow>
    act e (c, sh) (c, sh\<lparr>sh_hub := set_allow (e_ser e) (e_iter e) (sh_hub sh) fp (cn_conn c) fps\<rparr>)"
| act_send: "cn_fp c = Some fp \<Longrightarrow>
    act e (c, sh) (c, sh\<lparr>sh_hub := snd (forward (e_ser e) (sh_hub sh) fp (cn_conn c) to data)\<rparr>)"

abbreviation acts :: "('c, 'k) env \<Rightarrow> connection \<times> shared \<Rightarrow> connection \<times> shared \<Rightarrow> bool" where
  "acts e \<equiv> (act e)\<^sup>*\<^sup>*"

lemma acts_trans: "acts e p q \<Longrightarrow> acts e q r \<Longrightarrow> acts e p r"
  by (rule rtranclp_trans)

lemma acts_then_quiet:
  "acts e p (c, sh) \<Longrightarrow> same_conn c c' \<Longrightarrow> cn_fp c' = cn_fp c \<Longrightarrow> same_shared sh sh' \<Longrightarrow>
   sh_net sh' = sh_net sh \<Longrightarrow> sh_hub sh' = sh_hub sh \<Longrightarrow> acts e p (c', sh')"
  by (erule rtranclp.rtrancl_into_rtrancl, rule act_quiet)

lemma reply_frame:
  "reply ser m c sh = (x, c', sh') \<Longrightarrow> same_conn c c' \<and> cn_fp c' = cn_fp c \<and> sh' = sh"
  by (auto simp: reply_def send_def ws_write_def same_conn_def split: option.splits sum.splits if_splits)

lemma reply_acts:
  assumes "acts e p (c, sh)" and "reply ser m c sh1 = (x, c', sh')"
    and "same_shared sh sh1" "sh_net sh1 = sh_net sh" "sh_hub sh1 = sh_hub sh"
  shows "acts e p (c', sh')"
  using acts_then_quiet [OF assms(1), of c' sh1] reply_frame [OF assms(2)] assms(3-) by simp

lemma turn_acts:
  assumes "turn e fp peer now c sh = (x, c', sh')"
  shows "acts e (c, sh) (c', sh')"
  using assms
  by (auto simp: turn_def refuse_turn_def Let_def same_shared_def split: if_splits prod.splits sum.splits option.splits
      elim!: reply_acts [OF rtranclp.rtrancl_refl])

lemma authenticate_acts:
  assumes "authenticate e v cert sig now c sh = (x, c', sh')" and none: "cn_fp c = None"
  shows "acts e (c, sh) (c', sh')"
proof -
  obtain ok n where al: "allow_auth (sh_net sh) (cn_net c) now = (ok, n)"
    by (cases "allow_auth (sh_net sh) (cn_net c) now")
  let ?sh1 = "sh\<lparr>sh_net := n\<rparr>"
  have one: "acts e (c, sh) (c, ?sh1)" using act_charge [OF al] by blast
  show ?thesis
  proof (cases "ok \<and> \<not> v < MIN_PROTOCOL_VERSION")
    case False
    then show ?thesis using assms(1) one by (auto simp: authenticate_def al Let_def split: if_splits)
  next
    case True
    show ?thesis
    proof (cases "verify (e_crypto e) cert sig (cn_nonce c) (public_host (sh_config sh))")
      case None
      then show ?thesis
        using assms(1) True one
        by (auto simp: authenticate_def al Let_def same_conn_def same_shared_def intro: acts_then_quiet)
    next
      case (Some fp)
      then have v1: "verify (e_crypto e) cert sig (cn_nonce c) (public_host (sh_config ?sh1)) = Some fp" by simp
      note prove = rtranclp.rtrancl_into_rtrancl [OF one act_prove [OF none v1]]
      note enrol = rtranclp.rtrancl_into_rtrancl [OF one act_enrol [OF none v1]]
      show ?thesis
        using assms(1) True Some none
        by (auto simp: authenticate_def al Let_def send_def ws_write_def same_conn_def same_shared_def
            split: option.splits sum.splits if_splits
            intro: acts_then_quiet [OF prove] acts_then_quiet [OF enrol])
    qed
  qed
qed

lemma on_text_acts:
  assumes "on_text e txt now unix c sh = (x, c', sh')"
  shows "acts e (c, sh) (c', sh')"
proof (cases "e_de e txt")
  case None
  then show ?thesis using assms by (auto simp: on_text_def)
next
  case (Some m)
  show ?thesis
  proof (cases "cn_fp c")
    case None
    then show ?thesis
      using assms Some authenticate_acts [OF _ None]
      by (auto simp: on_text_def split: client_message.splits)
  next
    case fp: (Some fp)
    show ?thesis
    proof (cases m)
      case (Send to data)
      have one: "acts e (c, sh) (c, sh\<lparr>sh_hub := snd (forward (e_ser e) (sh_hub sh) fp (cn_conn c) to data)\<rparr>)"
        using act_send [OF fp] by blast
      show ?thesis
      proof (cases "fst (forward (e_ser e) (sh_hub sh) fp (cn_conn c) to data)")
        case (Inl code)
        then show ?thesis
          using assms Some fp Send reply_acts [OF one, of "e_ser e" "Error code to" _ x c' sh']
          by (simp add: on_text_def Let_def case_prod_beta same_shared_def)
      next
        case (Inr u)
        then have "c' = c" "sh_net sh' = sh_net sh" "same_shared sh sh'"
          "sh_hub sh' = snd (forward (e_ser e) (sh_hub sh) fp (cn_conn c) to data)"
          using assms Some fp Send by (auto simp: on_text_def Let_def case_prod_beta same_shared_def)
        then show ?thesis
          by (intro acts_then_quiet [OF one]) (simp_all add: same_conn_def same_shared_def)
      qed
    next
      case (Allow fps)
      then show ?thesis
        using assms Some fp act_allow [OF fp] by (auto simp: on_text_def split: if_splits)
    qed (use assms Some fp turn_acts in \<open>auto simp: on_text_def\<close>)
  qed
qed

lemma on_read_acts:
  assumes "on_read e ev now unix c sh = (x, c', sh')"
  shows "acts e (c, sh) (c', sh')"
proof -
  have q: "acts e (c, sh) (c\<lparr>cn_last_heard := now, cn_limits := l\<rparr>, sh)" for l
    by (rule acts_then_quiet [OF rtranclp.rtrancl_refl]) (simp_all add: same_conn_def same_shared_def)
  show ?thesis
  proof (cases ev)
    case (ReadMessage m)
    define c1 where "c1 = c\<lparr>cn_last_heard := now, cn_limits := snd (allow_frame (cn_limits c) (ws_in_len m) now)\<rparr>"
    have q1: "acts e (c, sh) (c1, sh)" unfolding c1_def by (rule q)
    have "(c', sh') = (c1, sh) \<or> (\<exists>t. on_text e t now unix c1 sh = (x, c', sh'))"
      using assms ReadMessage
      by (auto simp: on_read_def Let_def case_prod_beta c1_def split: ws_in.splits if_splits)
    then show ?thesis using q1 acts_trans [OF q1 on_text_acts] by blast
  qed (use assms in \<open>auto simp: on_read_def\<close>)
qed

lemma drain_acts:
  assumes "drain c sh = (x, c', sh')"
  shows "acts e (c, sh) (c', sh')"
  using assms
proof (induction c sh rule: drain.induct)
  case (1 c sh)
  show ?case
  proof (cases "try_recv (sh_hub sh) (cn_outbox c)")
    case (Pair y h)
    show ?thesis
    proof (cases y)
      case None
      then show ?thesis using 1(2) Pair by (simp add: drain.simps)
    next
      case (Some m)
      have one: "acts e (c, sh) (c, sh\<lparr>sh_hub := h\<rparr>)" using act_recv Pair Some by blast
      show ?thesis
      proof (cases m)
        case (Close code reason)
        then show ?thesis using 1(2) Pair Some one by (simp add: drain.simps [of c sh])
      next
        case (Frame t)
        show ?thesis
        proof (cases "ws_write (WsText t) c")
          case (Inl z)
          then show ?thesis using 1(2) Pair Some Frame one by (simp add: drain.simps [of c sh])
        next
          case (Inr c1)
          have "acts e (c1, sh\<lparr>sh_hub := h\<rparr>) (c', sh')"
            using 1(1) [OF Pair [symmetric] Some Frame Inr] 1(2) Pair Some Frame Inr
            by (simp add: drain.simps [of c sh])
          moreover have "acts e (c, sh) (c1, sh\<lparr>sh_hub := h\<rparr>)"
            using Inr by (auto simp: ws_write_def same_conn_def same_shared_def split: if_splits
                intro!: acts_then_quiet [OF one])
          ultimately show ?thesis by (rule acts_trans [rotated])
        qed
      qed
    qed
  qed
qed

lemma serve_turn_acts:
  assumes "serve_turn e now ev now' unix c sh = (x, c', sh')"
  shows "acts e (c, sh) (c', sh')"
proof -
  obtain x1 c1 sh1 where d: "drain c sh = (x1, c1, sh1)" by (cases "drain c sh")
  have one: "acts e (c, sh) (c1, sh1)" by (rule drain_acts [OF d])
  have q: "acts e (c1, sh1) (c2, sh1)" if "check_timers now c1 = Inr c2" for c2
    using that
    by (auto simp: check_timers_def ws_write_def same_conn_def same_shared_def split: if_splits
        intro!: acts_then_quiet [OF rtranclp.rtrancl_refl])
  have "(c', sh') = (c1, sh1) \<or> (\<exists>c2. check_timers now c1 = Inr c2 \<and> on_read e ev now' unix c2 sh1 = (x, c', sh'))"
    using assms d by (auto simp: serve_turn_def split: option.splits sum.splits)
  then show ?thesis using one acts_trans [OF one acts_trans [OF q on_read_acts]] by blast
qed


subsection \<open>The server as a system\<close>

text \<open>
  The shared state, the sockets that hold a global slot and are not connections yet, the
  connections in their loop, and those that have left it and still hold their slots. The
  environment chooses the thread, what is read, and the clocks. A step is one turn of one thread's
  loop, or its leaving: the source takes the locks of the hub, the limits and the quota one after
  the other within a turn, so what other threads do between two of them is not among these runs.
\<close>

record server_sys =
  sv_shared :: shared
  sv_waiting :: nat
  sv_conns :: "connection list"
  sv_closing :: "connection list"

definition server_init :: "config \<Rightarrow> server_sys \<Rightarrow> bool" where
  "server_init cfg s \<longleftrightarrow>
     (\<exists>q. sv_shared s = shared_new cfg q) \<and> sv_waiting s = 0 \<and> sv_conns s = [] \<and> sv_closing s = []"

inductive server_step :: "('c, 'k) env \<Rightarrow> server_sys \<Rightarrow> server_sys \<Rightarrow> bool" for e :: "('c, 'k) env" where
  sv_accept: "accept (sv_shared s) = (True, sh) \<Longrightarrow>
    server_step e s (s\<lparr>sv_shared := sh, sv_waiting := sv_waiting s + 1\<rparr>)"
| sv_refuse: "accept (sv_shared s) = (False, sh) \<Longrightarrow> server_step e s (s\<lparr>sv_shared := sh\<rparr>)"
| sv_probe: "0 < sv_waiting s \<Longrightarrow>
    server_step e s (s\<lparr>sv_shared := (sv_shared s)\<lparr>sh_net := close_global (sh_net (sv_shared s)) False\<rparr>,
      sv_waiting := sv_waiting s - 1\<rparr>)"
| sv_open: "0 < sv_waiting s \<Longrightarrow>
    websocket_open e ip forwarded nonce now (sv_shared s) = ((None, Some c), sh) \<Longrightarrow>
    server_step e s (s\<lparr>sv_shared := sh, sv_waiting := sv_waiting s - 1, sv_conns := c # sv_conns s\<rparr>)"
| sv_open_failed: "0 < sv_waiting s \<Longrightarrow>
    websocket_open e ip forwarded nonce now (sv_shared s) = ((Some x, None), sh) \<Longrightarrow>
    server_step e s (s\<lparr>sv_shared := sh\<lparr>sh_net := close_global (sh_net sh) False\<rparr>,
      sv_waiting := sv_waiting s - 1\<rparr>)"
| sv_open_gone: "0 < sv_waiting s \<Longrightarrow>
    websocket_open e ip forwarded nonce now (sv_shared s) = ((Some x, Some c), sh) \<Longrightarrow>
    websocket_leave e x c sh = (c', sh') \<Longrightarrow>
    server_step e s (s\<lparr>sv_shared := sh', sv_waiting := sv_waiting s - 1, sv_closing := c' # sv_closing s\<rparr>)"
| sv_turn: "sv_conns s = xs @ c # ys \<Longrightarrow>
    serve_turn e now ev now' unix c (sv_shared s) = (None, c', sh) \<Longrightarrow>
    server_step e s (s\<lparr>sv_shared := sh, sv_conns := xs @ c' # ys\<rparr>)"
| sv_exit: "sv_conns s = xs @ c # ys \<Longrightarrow>
    serve_turn e now ev now' unix c (sv_shared s) = (Some x, c', sh) \<Longrightarrow>
    websocket_leave e x c' sh = (c'', sh') \<Longrightarrow>
    server_step e s (s\<lparr>sv_shared := sh', sv_conns := xs @ ys, sv_closing := c'' # sv_closing s\<rparr>)"
| sv_break: "sv_conns s = xs @ c # ys \<Longrightarrow>
    server_step e s (s\<lparr>sv_conns := xs @ c\<lparr>cn_ws := (cn_ws c)\<lparr>ws_broken := True\<rparr>\<rparr> # ys\<rparr>)"
| sv_drop: "sv_closing s = xs @ c # ys \<Longrightarrow>
    server_step e s (s\<lparr>sv_shared := websocket_drop c (sv_shared s), sv_closing := xs @ ys\<rparr>)"
| sv_prune: "server_step e s (s\<lparr>sv_shared := shared_prune (sv_shared s) now\<rparr>)"

subsubsection \<open>The slots of the server\<close>

text \<open>The server seen as the slots it holds: an instance of the slot system of the limits.\<close>

definition held :: "server_sys \<Rightarrow> connection list" where
  "held s = sv_conns s @ sv_closing s"

definition slots_of :: "net_limits \<Rightarrow> nat \<Rightarrow> connection list \<Rightarrow> slots" where
  "slots_of n w cs =
     \<lparr>sl_net = n,
      sl_pending = w + length (filter (\<lambda>c. cn_fp c = None) cs),
      sl_authed = length (filter (\<lambda>c. cn_fp c \<noteq> None) cs),
      sl_keys = map cn_net cs\<rparr>"

definition server_slots :: "server_sys \<Rightarrow> slots" where
  "server_slots s = slots_of (sh_net (sv_shared s)) (sv_waiting s) (held s)"

lemma slots_inv_perm:
  assumes "slots_inv l (slots_of n w cs)" and "mset cs' = mset cs"
  shows "slots_inv l (slots_of n w cs')"
proof -
  have "length (filter P cs') = length (filter P cs)" for P
    using assms(2) by (metis mset_filter size_mset)
  moreover have "tier_load tier (map cn_net cs') = tier_load tier (map cn_net cs)" for tier
    using assms(2) unfolding tier_load_def by (metis mset_filter mset_map size_mset)
  ultimately show ?thesis using assms(1) by (simp add: slots_inv_def slots_of_def)
qed

lemma slots_of_Cons: "mset cs = mset (c # ds) \<Longrightarrow> slots_inv l (slots_of n w cs) = slots_inv l (slots_of n w (c # ds))"
  using slots_inv_perm by metis

lemma slots_of_same: "same_conn c c' \<Longrightarrow> cn_fp c' = cn_fp c \<Longrightarrow> slots_of n w (c' # cs) = slots_of n w (c # cs)"
  by (simp add: slots_of_def same_conn_def)

text \<open>An action of a connection on its slots.\<close>

lemma act_slots:
  assumes "act e (c, sh) (c', sh')" and "slots_inv l (slots_of (sh_net sh) w (c # cs))"
  shows "slots_inv l (slots_of (sh_net sh') w (c' # cs))"
  using assms(1)
proof cases
  case act_quiet
  then show ?thesis using assms(2) slots_of_same [of c c'] by simp
next
  case (act_charge now ok n)
  have "slots_step (slots_of (sh_net sh) w (c # cs)) (slots_of n w (c # cs))"
    using net_auth [of "slots_of (sh_net sh) w (c # cs)" "cn_net c" now ok n] act_charge
    by (simp add: slots_of_def)
  then show ?thesis using slots_inv_step [OF assms(2)] act_charge by simp
next
  case (act_prove cert sig fp)
  have "slots_step (slots_of (sh_net sh) w (c # cs)) (slots_of (net_authenticated (sh_net sh)) w (c\<lparr>cn_fp := Some fp\<rparr> # cs))"
    using slot_authenticated [of "slots_of (sh_net sh) w (c # cs)"] act_prove by (simp add: slots_of_def)
  then show ?thesis using slots_inv_step [OF assms(2)] act_prove by simp
next
  case (act_enrol cert sig fp)
  have "slots_step (slots_of (sh_net sh) w (c # cs)) (slots_of (net_authenticated (sh_net sh)) w (c\<lparr>cn_fp := Some fp\<rparr> # cs))"
    using slot_authenticated [of "slots_of (sh_net sh) w (c # cs)"] act_enrol by (simp add: slots_of_def)
  then show ?thesis using slots_inv_step [OF assms(2)] act_enrol by simp
qed (use assms(2) in simp_all)

lemma acts_slots:
  assumes "acts e p q" and "slots_inv l (slots_of (sh_net (snd p)) w (fst p # cs))"
  shows "slots_inv l (slots_of (sh_net (snd q)) w (fst q # cs))"
  using assms
proof (induction rule: rtranclp_induct)
  case (step y z)
  then show ?case using act_slots [of e "fst y" "snd y" "fst z" "snd z"] by simp
qed

lemma websocket_leave_frame:
  "websocket_leave e x c sh = (c', sh') \<Longrightarrow> same_conn c c' \<and> cn_fp c' = cn_fp c
   \<and> sh_net sh' = sh_net sh \<and> same_shared sh sh'
   \<and> sh_hub sh' = (case cn_fp c of
       Some fp \<Rightarrow> unregister (e_ser e) (e_iter e) (sh_hub sh) fp (cn_conn c) | None \<Rightarrow> sh_hub sh)"
  by (auto simp: websocket_leave_def Let_def same_conn_def same_shared_def
      split: exit.splits option.splits if_splits)

text \<open>A new connection takes the slot of a waiting socket and a network slot.\<close>

lemma websocket_open_Some:
  assumes "websocket_open e ip fw nonce now sh = ((x, Some c), sh')"
  shows "open_network (sh_net sh) (cn_net c) = (True, sh_net sh')" and "cn_fp c = None"
    and "outbox (sh_hub sh) = (cn_outbox c, sh_hub sh')" and "cn_conn c = sh_next_conn sh"
    and "sh_next_conn sh' = sh_next_conn sh + 1" and "sh_config sh' = sh_config sh"
proof -
  obtain ok n where n: "open_network (sh_net sh) (client_net (sh_config sh) ip fw) = (ok, n)" by fastforce
  obtain a h where h: "outbox (sh_hub sh) = (a, h)" by fastforce
  from assms show "open_network (sh_net sh) (cn_net c) = (True, sh_net sh')" "cn_fp c = None"
    "outbox (sh_hub sh) = (cn_outbox c, sh_hub sh')" "cn_conn c = sh_next_conn sh"
    "sh_next_conn sh' = sh_next_conn sh + 1" "sh_config sh' = sh_config sh"
    by (auto simp: websocket_open_def Let_def n h send_def ws_write_def
        split: if_splits option.splits sum.splits)
qed

lemma websocket_open_None:
  assumes "websocket_open e ip fw nonce now sh = ((x, None), sh')"
  shows "sh_hub sh' = sh_hub sh \<and> same_shared sh sh'"
    and "slots_inv l (slots_of (sh_net sh) w cs) \<Longrightarrow> slots_inv l (slots_of (sh_net sh') w cs)"
proof -
  let ?k = "client_net (sh_config sh) ip fw"
  obtain ok n where n: "open_network (sh_net sh) ?k = (ok, n)" by fastforce
  have cases: "sh_hub sh' = sh_hub sh \<and> same_shared sh sh'
      \<and> sh_net sh' = (if ok then close_network n ?k else n)"
    using assms
    by (auto simp: websocket_open_def Let_def n same_shared_def
        split: if_splits option.splits sum.splits prod.splits)
  then show "sh_hub sh' = sh_hub sh \<and> same_shared sh sh'" by simp
  assume inv: "slots_inv l (slots_of (sh_net sh) w cs)"
  let ?s = "slots_of (sh_net sh) w cs"
  show "slots_inv l (slots_of (sh_net sh') w cs)"
  proof (cases ok)
    case False
    then have "slots_step ?s (?s\<lparr>sl_net := n\<rparr>)"
      using net_refused [of ?s ?k] n by (simp add: slots_of_def)
    then show ?thesis using slots_inv_step [OF inv] cases False by (auto simp: slots_of_def)
  next
    case True
    let ?s1 = "?s\<lparr>sl_net := n, sl_keys := ?k # sl_keys ?s\<rparr>"
    have one: "slots_step ?s ?s1" using net_open [of ?s ?k] n True by (simp add: slots_of_def)
    have "slots_step ?s1 (?s1\<lparr>sl_net := close_network n ?k, sl_keys := sl_keys ?s\<rparr>)"
      using net_drop [of ?k ?s1] by simp
    then show ?thesis
      using slots_inv_step [OF slots_inv_step [OF inv one]] cases True
      by (auto simp: slots_of_def)
  qed
qed

lemma websocket_open_slots:
  assumes inv: "slots_inv l (slots_of (sh_net sh) w cs)" and w: "0 < w"
    and o: "websocket_open e ip fw nonce now sh = ((x, Some c), sh')"
  shows "slots_inv l (slots_of (sh_net sh') (w - 1) (c # cs))"
proof -
  let ?s = "slots_of (sh_net sh) w cs"
  note f = websocket_open_Some [OF o]
  have "slots_step ?s (?s\<lparr>sl_net := sh_net sh', sl_keys := cn_net c # sl_keys ?s\<rparr>)"
    using net_open [of ?s "cn_net c"] f(1) by (simp add: slots_of_def)
  then show ?thesis
    using slots_inv_step [OF inv] w f(2) by (simp add: slots_of_def)
qed

text \<open>A socket that never became a connection gives its slot back.\<close>

lemma close_waiting_slots:
  assumes "slots_inv l (slots_of n w cs)" and "0 < w"
  shows "slots_inv l (slots_of (close_global n False) (w - 1) cs)"
proof -
  let ?s = "slots_of n w cs"
  have "slots_step ?s (?s\<lparr>sl_net := close_global n False, sl_pending := sl_pending ?s - 1\<rparr>)"
    using slot_drop_pending [of ?s] assms(2) by (simp add: slots_of_def)
  then show ?thesis using slots_inv_step [OF assms(1)] assms(2) by (simp add: slots_of_def)
qed

text \<open>A connection that has left gives back its two slots.\<close>

lemma websocket_drop_slots:
  assumes "slots_inv l (slots_of (sh_net sh) w (c # cs))"
  shows "slots_inv l (slots_of (sh_net (websocket_drop c sh)) w cs)"
proof -
  let ?s = "slots_of (sh_net sh) w (c # cs)"
  let ?s1 = "?s\<lparr>sl_net := close_network (sh_net sh) (cn_net c), sl_keys := map cn_net cs\<rparr>"
  have one: "slots_step ?s ?s1" using net_drop [of "cn_net c" ?s] by (simp add: slots_of_def)
  show ?thesis
  proof (cases "cn_fp c")
    case None
    have "slots_step ?s1 (?s1\<lparr>sl_net := close_global (sl_net ?s1) False, sl_pending := sl_pending ?s1 - 1\<rparr>)"
      by (rule slot_drop_pending) (simp add: slots_of_def None)
    then show ?thesis
      using slots_inv_step [OF slots_inv_step [OF assms one]] None
      by (simp add: slots_of_def websocket_drop_def)
  next
    case (Some fp)
    have "slots_step ?s1 (?s1\<lparr>sl_net := close_global (sl_net ?s1) True, sl_authed := sl_authed ?s1 - 1\<rparr>)"
      by (rule slot_drop_authed) (simp add: slots_of_def Some)
    then show ?thesis
      using slots_inv_step [OF slots_inv_step [OF assms one]] Some
      by (simp add: slots_of_def websocket_drop_def)
  qed
qed

lemma server_slots_step:
  assumes inv: "slots_inv l (server_slots s)" and step: "server_step e s t"
  shows "slots_inv l (server_slots t)"
  using step
proof cases
  case (sv_accept sh)
  then have "slots_step (server_slots s) (server_slots t)"
    using slot_open [of "server_slots s"]
    by (auto simp: server_slots_def slots_of_def held_def accept_def Let_def split: prod.splits if_splits)
  then show ?thesis by (rule slots_inv_step [OF inv])
next
  case (sv_refuse sh)
  then have "slots_step (server_slots s) (server_slots t)"
    using slot_refused [of "server_slots s"]
    by (auto simp: server_slots_def slots_of_def held_def accept_def Let_def split: prod.splits if_splits)
  then show ?thesis by (rule slots_inv_step [OF inv])
next
  case sv_probe
  then show ?thesis
    using close_waiting_slots [OF inv [unfolded server_slots_def]] by (simp add: server_slots_def held_def)
next
  case (sv_open ip fw nonce now c sh)
  then show ?thesis
    using websocket_open_slots [OF inv [unfolded server_slots_def]] by (simp add: server_slots_def held_def)
next
  case (sv_open_failed ip fw nonce now x sh)
  then show ?thesis
    using close_waiting_slots websocket_open_None(2) [OF sv_open_failed(3) inv [unfolded server_slots_def]]
    by (simp add: server_slots_def held_def)
next
  case (sv_open_gone ip fw nonce now x c sh c' sh')
  have "slots_inv l (slots_of (sh_net sh) (sv_waiting s - 1) (c # held s))"
    using websocket_open_slots [OF inv [unfolded server_slots_def] sv_open_gone(2,3)] .
  then have "slots_inv l (slots_of (sh_net sh') (sv_waiting s - 1) (c' # held s))"
    using websocket_leave_frame [OF sv_open_gone(4)] slots_of_same [of c c'] by simp
  then show ?thesis
    by (auto simp: sv_open_gone(1) server_slots_def held_def intro: slots_inv_perm)
next
  case (sv_turn xs c ys now ev now' unix c' sh)
  have "slots_inv l (slots_of (sh_net (sv_shared s)) (sv_waiting s) (c # xs @ ys @ sv_closing s))"
    using inv sv_turn by (auto simp: server_slots_def held_def intro: slots_inv_perm)
  from acts_slots [OF serve_turn_acts [OF sv_turn(3)], of l "sv_waiting s"] this
  have "slots_inv l (slots_of (sh_net sh) (sv_waiting s) (c' # xs @ ys @ sv_closing s))" by simp
  then show ?thesis
    by (auto simp: sv_turn(1) server_slots_def held_def intro: slots_inv_perm)
next
  case (sv_exit xs c ys now ev now' unix x c' sh c'' sh')
  have "slots_inv l (slots_of (sh_net (sv_shared s)) (sv_waiting s) (c # xs @ ys @ sv_closing s))"
    using inv sv_exit by (auto simp: server_slots_def held_def intro: slots_inv_perm)
  from acts_slots [OF serve_turn_acts [OF sv_exit(3)], of l "sv_waiting s"] this
  have "slots_inv l (slots_of (sh_net sh) (sv_waiting s) (c' # xs @ ys @ sv_closing s))" by simp
  then have "slots_inv l (slots_of (sh_net sh') (sv_waiting s) (c'' # xs @ ys @ sv_closing s))"
    using websocket_leave_frame [OF sv_exit(4)] slots_of_same [of c' c''] by simp
  then show ?thesis
    by (auto simp: sv_exit(1) server_slots_def held_def intro: slots_inv_perm)
next
  case (sv_break xs c ys)
  then show ?thesis using inv by (cases "cn_fp c") (simp_all add: server_slots_def held_def slots_of_def)
next
  case (sv_drop xs c ys)
  have "slots_inv l (slots_of (sh_net (sv_shared s)) (sv_waiting s) (c # sv_conns s @ xs @ ys))"
    using inv sv_drop by (auto simp: server_slots_def held_def intro: slots_inv_perm)
  from websocket_drop_slots [OF this] show ?thesis
    by (simp add: sv_drop(1) server_slots_def held_def)
next
  case (sv_prune now)
  then have "slots_step (server_slots s) (server_slots t)"
    using net_prune [of "server_slots s"] by (simp add: server_slots_def slots_of_def held_def shared_prune_def)
  then show ?thesis by (rule slots_inv_step [OF inv])
qed

interpretation server_slot_sys: invariant_system "server_init cfg" "server_step e"
  "\<lambda>s. slots_inv (cfg_limits cfg) (server_slots s)"
  for cfg :: config and e :: "('c, 'k) env"
proof (unfold_locales, goal_cases)
  case (1 s)
  then show ?case
    by (auto simp: server_init_def shared_new_def server_slots_def slots_of_def held_def
        slots_inv_def net_limits_new_def count_of_def tier_load_def)
qed (rule server_slots_step)


subsubsection \<open>Who is registered\<close>

lemma register_peers:
  "h_peers (register ser iter h fp conn a) = (h_peers h)(fp \<mapsto> \<lparr>p_conn = conn, p_outbox = a, p_allow = {}\<rparr>)"
  by (auto simp: register_def remove_notify Let_def close_def split: option.splits)

lemma unregister_peers:
  "h_peers (unregister ser iter h fp conn) =
     (if current h fp conn \<noteq> None then (h_peers h)(fp := None) else h_peers h)"
  by (simp add: unregister_def remove_notify Let_def)

lemma set_allow_peers:
  "h_peers (set_allow ser iter h fp conn fps) f = Some p' \<Longrightarrow>
     \<exists>p. h_peers h f = Some p \<and> p_conn p' = p_conn p \<and> p_outbox p' = p_outbox p"
  by (auto simp: set_allow_def Let_def announce_notify split: if_splits option.splits)

lemma forward_peers: "h_peers (snd (forward ser h src conn to data)) = h_peers h"
  by (auto simp: forward_def case_prod_beta Let_def split: option.splits)

lemma try_recv_peers: "try_recv h a = (x, h') \<Longrightarrow> h_peers h' = h_peers h"
  by (auto simp: try_recv_def case_prod_beta)

lemma register_next: "h_next (register ser iter h fp conn a) = h_next h"
  by (simp add: register_def remove_notify Let_def close_def split: option.splits)

lemma set_allow_next: "h_next (set_allow ser iter h fp conn fps) = h_next h"
  by (simp add: set_allow_def Let_def announce_notify split: option.splits)

lemma forward_next: "h_next (snd (forward ser h src conn to data)) = h_next h"
  by (auto simp: forward_def case_prod_beta Let_def split: option.splits)

lemma unregister_next: "h_next (unregister ser iter h fp conn) = h_next h"
  by (simp add: unregister_def remove_notify Let_def)

text \<open>The holder of the fingerprint proved possession of its key to this connection's challenge.\<close>

definition proven :: "('c, 'k) env \<Rightarrow> config \<Rightarrow> connection \<Rightarrow> bool" where
  "proven e cfg c \<longleftrightarrow>
     (\<forall>fp. cn_fp c = Some fp \<longrightarrow>
        (\<exists>cert sig. verify (e_crypto e) cert sig (cn_nonce c) (public_host cfg) = Some fp))"

definition owns :: "connection \<Rightarrow> fp \<Rightarrow> peer \<Rightarrow> bool" where
  "owns c f p \<longleftrightarrow> cn_conn c = p_conn p \<and> cn_fp c = Some f \<and> cn_outbox c = p_outbox p"

definition ident :: "('c, 'k) env \<Rightarrow> config \<Rightarrow> shared \<Rightarrow> connection list \<Rightarrow> bool" where
  "ident e cfg sh cs \<longleftrightarrow>
     sh_config sh = cfg
     \<and> distinct (map cn_conn cs) \<and> (\<forall>c \<in> set cs. cn_conn c < sh_next_conn sh \<and> proven e cfg c)
     \<and> (\<forall>f p. h_peers (sh_hub sh) f = Some p \<longrightarrow> (\<exists>c \<in> set cs. owns c f p))"

text \<open>The hub of the server is a reachable hub, and new connections wait to be registered.\<close>

definition hub_ok :: "('c, 'k) env \<Rightarrow> shared \<Rightarrow> connection list \<Rightarrow> bool" where
  "hub_ok e sh cs \<longleftrightarrow>
     distinct (map cn_outbox cs)
     \<and> (\<exists>hs. reachable hub_init (hub_step (e_ser e) (e_iter e)) hs \<and> hs_hub hs = sh_hub sh
          \<and> (\<forall>c \<in> set cs. cn_outbox c < h_next (sh_hub sh))
          \<and> (\<forall>c \<in> set cs. cn_fp c = None \<longrightarrow> cn_outbox c \<in> hs_pending hs))"

lemma perm_facts:
  assumes "mset cs' = mset cs"
  shows "set cs' = set cs" and "distinct (map f cs') = distinct (map f cs)"
proof -
  show "set cs' = set cs" using assms by (rule mset_eq_setD)
  have "mset (map f cs') = mset (map f cs)" using assms by simp
  then show "distinct (map f cs') = distinct (map f cs)" by (rule mset_eq_imp_distinct_iff)
qed

lemma ident_perm: "ident e cfg sh cs \<Longrightarrow> mset cs' = mset cs \<Longrightarrow> ident e cfg sh cs'"
  by (simp add: ident_def perm_facts [of cs' cs])

lemma hub_ok_perm: "hub_ok e sh cs \<Longrightarrow> mset cs' = mset cs \<Longrightarrow> hub_ok e sh cs'"
  by (simp add: hub_ok_def perm_facts [of cs' cs])

lemma owns_same: "same_conn c c' \<Longrightarrow> cn_fp c' = cn_fp c \<Longrightarrow> owns c' f p = owns c f p"
  by (simp add: owns_def same_conn_def)

lemma proven_same: "same_conn c c' \<Longrightarrow> cn_fp c' = cn_fp c \<Longrightarrow> proven e cfg c' = proven e cfg c"
  by (simp add: proven_def same_conn_def)

lemma ident_same:
  "same_conn c c' \<Longrightarrow> cn_fp c' = cn_fp c \<Longrightarrow> same_shared sh sh' \<Longrightarrow> sh_hub sh' = sh_hub sh \<Longrightarrow>
   ident e cfg sh (c # cs) \<Longrightarrow> ident e cfg sh' (c' # cs)"
  by (simp add: ident_def owns_same [of c c'] proven_same [of c c'])
    (simp add: same_conn_def same_shared_def)

lemma act_ident:
  assumes "act e (c, sh) (c', sh')" and inv: "ident e cfg sh (c # cs)"
  shows "ident e cfg sh' (c' # cs)"
  using assms(1)
proof cases
  case act_quiet
  then show ?thesis using inv by (intro ident_same [OF _ _ _ _ inv])
next
  case (act_recv x h)
  then show ?thesis using inv try_recv_peers by (force simp: ident_def)
next
  case (act_prove cert sig fp)
  have "\<not> owns c f p" for f p using act_prove by (simp add: owns_def)
  then show ?thesis using inv act_prove by (auto simp: ident_def proven_def)
next
  case (act_enrol cert sig fp)
  have "\<not> owns c f p" for f p using act_enrol by (simp add: owns_def)
  then show ?thesis
    using inv act_enrol by (auto simp: ident_def proven_def register_peers owns_def)
next
  case (act_allow fp fps)
  have "\<exists>d \<in> set (c # cs). owns d f p'"
    if "h_peers (set_allow (e_ser e) (e_iter e) (sh_hub sh) fp (cn_conn c) fps) f = Some p'" for f p'
    using set_allow_peers [OF that] inv unfolding ident_def owns_def by metis
  then show ?thesis using inv act_allow by (simp add: ident_def)
qed (use inv in \<open>auto simp: ident_def forward_peers\<close>)

lemma act_hub_ok:
  assumes "act e (c, sh) (c', sh')" and inv: "hub_ok e sh (c # cs)"
  shows "hub_ok e sh' (c' # cs)"
proof -
  obtain hs where hs: "reachable hub_init (hub_step (e_ser e) (e_iter e)) hs" "hs_hub hs = sh_hub sh"
    "\<forall>d \<in> set (c # cs). cn_outbox d < h_next (sh_hub sh)"
    "\<forall>d \<in> set (c # cs). cn_fp d = None \<longrightarrow> cn_outbox d \<in> hs_pending hs"
    and dist: "distinct (map cn_outbox (c # cs))"
    using inv by (auto simp: hub_ok_def)
  note onward = reach_step [OF hs(1)]
  have keep: "hub_ok e sh' (c' # cs)"
    if "hub_step (e_ser e) (e_iter e) hs hs'" "hs_hub hs' = sh_hub sh'" "h_next (sh_hub sh') = h_next (sh_hub sh)"
      "same_conn c c'" "hs_pending hs' = hs_pending hs" "cn_fp c' = None \<Longrightarrow> cn_fp c = None" for hs'
    using onward [OF that(1)] that(2-) hs(3,4) dist unfolding hub_ok_def same_conn_def by auto
  have same: "hub_ok e sh' (c' # cs)"
    if "sh_hub sh' = sh_hub sh" "same_conn c c'" "cn_fp c' = None \<Longrightarrow> cn_fp c = None"
    using that hs dist unfolding hub_ok_def same_conn_def by auto
  from assms(1) show ?thesis
  proof cases
    case (act_recv x h)
    have "h_next h = h_next (sh_hub sh)" using act_recv by (auto simp: try_recv_def case_prod_beta)
    moreover have "try_recv (hs_hub hs) (cn_outbox c) = (Some x, h)" using act_recv hs(2) by simp
    ultimately show ?thesis
      using keep [OF step_recv [of hs "cn_outbox c" x h]] act_recv by (simp add: same_conn_def)
  next
    case (act_allow fp fps)
    then show ?thesis
      using keep [OF step_set_allow [of _ _ hs fp "cn_conn c" fps]] hs(2)
      by (simp add: same_conn_def set_allow_next)
  next
    case (act_send fp to data)
    then show ?thesis
      using keep [OF step_forward [of _ _ hs fp "cn_conn c" to data]] hs(2)
      by (simp add: same_conn_def forward_next)
  next
    case (act_enrol cert sig fp)
    let ?hs = "hs\<lparr>hs_hub := register (e_ser e) (e_iter e) (hs_hub hs) fp (cn_conn c) (cn_outbox c),
      hs_pending := hs_pending hs - {cn_outbox c}\<rparr>"
    have other: "cn_outbox d \<noteq> cn_outbox c" if "d \<in> set cs" for d
      using dist that by (metis distinct.simps(2) image_eqI list.set_map list.simps(9))
    have "cn_outbox c \<in> hs_pending hs" using hs(4) act_enrol by simp
    then have "reachable hub_init (hub_step (e_ser e) (e_iter e)) ?hs"
      by (intro onward step_register)
    then show ?thesis
      unfolding hub_ok_def using hs(2-4) dist act_enrol other
      by (intro conjI exI [of _ ?hs]) (auto simp: register_next)
  next
    case act_quiet
    then show ?thesis using same by simp
  next
    case (act_charge now ok n)
    then show ?thesis using same by (simp add: same_conn_def)
  next
    case (act_prove cert sig fp)
    then show ?thesis using same by (simp add: same_conn_def)
  qed
qed


lemma acts_ident_hub:
  assumes "acts e p q" and "ident e cfg (snd p) (fst p # cs)" and "hub_ok e (snd p) (fst p # cs)"
  shows "ident e cfg (snd q) (fst q # cs) \<and> hub_ok e (snd q) (fst q # cs)"
  using assms
proof (induction rule: rtranclp_induct)
  case (step y z)
  then show ?case
    using act_ident [of e "fst y" "snd y" "fst z" "snd z"] act_hub_ok [of e "fst y" "snd y" "fst z" "snd z"]
    by simp
qed simp

text \<open>Leaving the loop takes the connection's registration with it, if it still has one.\<close>

lemma leave_ident:
  assumes l: "websocket_leave e x c sh = (c', sh')" and inv: "ident e cfg sh (c # cs)"
  shows "ident e cfg sh' cs"
proof -
  note f = websocket_leave_frame [OF l]
  have "\<exists>d \<in> set cs. owns d g p" if p: "h_peers (sh_hub sh') g = Some p" for g p
  proof -
    have "h_peers (sh_hub sh) g = Some p"
      using p f by (auto simp: unregister_peers split: option.splits if_splits)
    then obtain d where d: "d \<in> set (c # cs)" "owns d g p" using inv unfolding ident_def by blast
    have "d \<noteq> c"
      using d p f \<open>h_peers (sh_hub sh) g = Some p\<close>
      by (auto simp: owns_def unregister_peers current_def split: if_splits)
    then show ?thesis using d by auto
  qed
  then show ?thesis using inv f by (auto simp: ident_def same_shared_def)
qed

lemma leave_hub_ok:
  assumes l: "websocket_leave e x c sh = (c', sh')" and inv: "hub_ok e sh (c # cs)"
  shows "hub_ok e sh' cs"
proof -
  note f = websocket_leave_frame [OF l]
  obtain hs where hs: "reachable hub_init (hub_step (e_ser e) (e_iter e)) hs" "hs_hub hs = sh_hub sh"
    "\<forall>d \<in> set (c # cs). cn_outbox d < h_next (sh_hub sh)"
    "\<forall>d \<in> set (c # cs). cn_fp d = None \<longrightarrow> cn_outbox d \<in> hs_pending hs"
    and dist: "distinct (map cn_outbox (c # cs))"
    using inv by (auto simp: hub_ok_def)
  show ?thesis
  proof (cases "cn_fp c")
    case None
    then show ?thesis using f hs dist unfolding hub_ok_def by auto
  next
    case (Some fp)
    have "reachable hub_init (hub_step (e_ser e) (e_iter e))
        (hs\<lparr>hs_hub := unregister (e_ser e) (e_iter e) (hs_hub hs) fp (cn_conn c)\<rparr>)"
      by (rule reach_step [OF hs(1) step_unregister])
    then show ?thesis
      unfolding hub_ok_def using f hs(2-) dist Some
      by (intro conjI exI [of _ "hs\<lparr>hs_hub := unregister (e_ser e) (e_iter e) (hs_hub hs) fp (cn_conn c)\<rparr>"])
        (auto simp: unregister_next)
  qed
qed

lemma drop_ident: "ident e cfg sh cs \<Longrightarrow> ident e cfg (websocket_drop c sh) cs"
  by (simp add: ident_def websocket_drop_def drop_inbox_def)

lemma drop_hub_ok:
  assumes "hub_ok e sh cs"
  shows "hub_ok e (websocket_drop c sh) cs"
proof -
  obtain hs where hs: "reachable hub_init (hub_step (e_ser e) (e_iter e)) hs" "hs_hub hs = sh_hub sh"
    "\<forall>d \<in> set cs. cn_outbox d < h_next (sh_hub sh)"
    "\<forall>d \<in> set cs. cn_fp d = None \<longrightarrow> cn_outbox d \<in> hs_pending hs" "distinct (map cn_outbox cs)"
    using assms by (auto simp: hub_ok_def)
  have "reachable hub_init (hub_step (e_ser e) (e_iter e)) (hs\<lparr>hs_hub := drop_inbox (hs_hub hs) (cn_outbox c)\<rparr>)"
    by (rule reach_step [OF hs(1) step_drop])
  then show ?thesis
    unfolding hub_ok_def using hs(2-)
    by (intro conjI exI [of _ "hs\<lparr>hs_hub := drop_inbox (hs_hub hs) (cn_outbox c)\<rparr>"])
      (auto simp: websocket_drop_def drop_inbox_def)
qed

lemma outbox_fields:
  assumes "outbox h = (a, h')"
  shows "h_peers h' = h_peers h" and "a = h_next h" and "h_next h' = h_next h + 1"
proof -
  have "a = fst (outbox h)" "h' = snd (outbox h)" using assms by simp_all
  then show "h_peers h' = h_peers h" "a = h_next h" "h_next h' = h_next h + 1"
    by (simp_all add: outbox_def)
qed

lemma open_ident:
  assumes "websocket_open e ip fw nonce now sh = ((x, Some c), sh')" and inv: "ident e cfg sh cs"
  shows "ident e cfg sh' (c # cs)"
proof -
  note f = websocket_open_Some [OF assms(1)]
  have "h_peers (sh_hub sh') = h_peers (sh_hub sh)" by (rule outbox_fields [OF f(3)])
  moreover have "cn_conn d \<noteq> sh_next_conn sh" if "d \<in> set cs" for d
    using inv that by (auto simp: ident_def)
  ultimately show ?thesis
    using inv f by (force simp: ident_def proven_def less_SucI)
qed

lemma open_hub_ok:
  assumes "websocket_open e ip fw nonce now sh = ((x, Some c), sh')" and inv: "hub_ok e sh cs"
  shows "hub_ok e sh' (c # cs)"
proof -
  note f = websocket_open_Some [OF assms(1)]
  obtain hs where hs: "reachable hub_init (hub_step (e_ser e) (e_iter e)) hs" "hs_hub hs = sh_hub sh"
    "\<forall>d \<in> set cs. cn_outbox d < h_next (sh_hub sh)"
    "\<forall>d \<in> set cs. cn_fp d = None \<longrightarrow> cn_outbox d \<in> hs_pending hs" "distinct (map cn_outbox cs)"
    using inv by (auto simp: hub_ok_def)
  let ?hs = "hs\<lparr>hs_hub := sh_hub sh', hs_pending := insert (cn_outbox c) (hs_pending hs)\<rparr>"
  have "reachable hub_init (hub_step (e_ser e) (e_iter e)) ?hs"
    by (rule reach_step [OF hs(1) step_outbox]) (simp add: hs(2) f(3))
  moreover have "cn_outbox c = h_next (sh_hub sh)" "h_next (sh_hub sh') = h_next (sh_hub sh) + 1"
    by (rule outbox_fields [OF f(3)])+
  ultimately show ?thesis
    unfolding hub_ok_def using hs(3-) by (intro conjI exI [of _ ?hs]) (auto simp: less_SucI)
qed

definition server_inv :: "('c, 'k) env \<Rightarrow> config \<Rightarrow> server_sys \<Rightarrow> bool" where
  "server_inv e cfg s \<longleftrightarrow> ident e cfg (sv_shared s) (sv_conns s) \<and> hub_ok e (sv_shared s) (sv_conns s)"

lemma server_inv_quiet:
  assumes "server_inv e cfg s" and "same_shared (sv_shared s) sh" and "sh_hub sh = sh_hub (sv_shared s)"
  shows "ident e cfg sh (sv_conns s)" and "hub_ok e sh (sv_conns s)"
  using assms by (simp_all add: server_inv_def ident_def hub_ok_def same_shared_def)

lemma server_inv_turn:
  assumes inv: "server_inv e cfg s" and c: "sv_conns s = xs @ c # ys"
    and t: "serve_turn e now ev now' unix c (sv_shared s) = (x, c', sh)"
  shows "ident e cfg sh (c' # xs @ ys)" and "hub_ok e sh (c' # xs @ ys)"
proof -
  have "mset (c # xs @ ys) = mset (sv_conns s)" by (simp add: c)
  then have "ident e cfg (sv_shared s) (c # xs @ ys)" "hub_ok e (sv_shared s) (c # xs @ ys)"
    using inv by (auto simp: server_inv_def intro: ident_perm hub_ok_perm)
  then show "ident e cfg sh (c' # xs @ ys)" "hub_ok e sh (c' # xs @ ys)"
    using acts_ident_hub [OF serve_turn_acts [OF t], of cfg "xs @ ys"] by simp_all
qed

lemma server_inv_step:
  assumes inv: "server_inv e cfg s" and step: "server_step e s t"
  shows "server_inv e cfg t"
  using step
proof cases
  case (sv_turn xs c ys now ev now' unix c' sh)
  show ?thesis
    using ident_perm [OF server_inv_turn(1) [OF inv sv_turn(2,3)], of "xs @ c' # ys"]
      hub_ok_perm [OF server_inv_turn(2) [OF inv sv_turn(2,3)], of "xs @ c' # ys"]
    by (simp add: server_inv_def sv_turn(1))
next
  case (sv_exit xs c ys now ev now' unix x c' sh c'' sh')
  show ?thesis
    using leave_ident [OF sv_exit(4) server_inv_turn(1) [OF inv sv_exit(2,3)]]
      leave_hub_ok [OF sv_exit(4) server_inv_turn(2) [OF inv sv_exit(2,3)]]
    by (simp add: server_inv_def sv_exit(1))
next
  case (sv_break xs c ys)
  let ?c = "c\<lparr>cn_ws := (cn_ws c)\<lparr>ws_broken := True\<rparr>\<rparr>"
  have q: "act e (c, sv_shared s) (?c, sv_shared s)"
    by (rule act_quiet) (simp_all add: same_conn_def same_shared_def)
  have "ident e cfg (sv_shared s) (c # xs @ ys)" "hub_ok e (sv_shared s) (c # xs @ ys)"
    using inv sv_break by (auto simp: server_inv_def intro: ident_perm hub_ok_perm)
  then have "ident e cfg (sv_shared s) (?c # xs @ ys)" "hub_ok e (sv_shared s) (?c # xs @ ys)"
    using act_ident [OF q] act_hub_ok [OF q] by blast+
  then show ?thesis
    by (auto simp: server_inv_def sv_break(1) intro: ident_perm hub_ok_perm)
next
  case (sv_open ip fw nonce now c sh)
  have "ident e cfg sh (c # sv_conns s)" "hub_ok e sh (c # sv_conns s)"
    using inv open_ident [OF sv_open(3)] open_hub_ok [OF sv_open(3)] by (auto simp: server_inv_def)
  then show ?thesis by (simp add: server_inv_def sv_open(1))
next
  case (sv_open_gone ip fw nonce now x c sh c' sh')
  have "ident e cfg sh (c # sv_conns s)" "hub_ok e sh (c # sv_conns s)"
    using inv open_ident [OF sv_open_gone(3)] open_hub_ok [OF sv_open_gone(3)] by (auto simp: server_inv_def)
  then show ?thesis
    using leave_ident [OF sv_open_gone(4)] leave_hub_ok [OF sv_open_gone(4)]
    by (simp add: server_inv_def sv_open_gone(1))
next
  case (sv_open_failed ip fw nonce now x sh)
  have q: "same_shared (sv_shared s) (sh\<lparr>sh_net := close_global (sh_net sh) False\<rparr>)"
    "sh_hub (sh\<lparr>sh_net := close_global (sh_net sh) False\<rparr>) = sh_hub (sv_shared s)"
    using websocket_open_None(1) [OF sv_open_failed(3)] by (simp_all add: same_shared_def)
  show ?thesis using server_inv_quiet [OF inv q] by (simp add: server_inv_def sv_open_failed(1))
next
  case (sv_drop xs c ys)
  then show ?thesis using inv by (simp add: server_inv_def drop_ident drop_hub_ok)
next
  case (sv_accept sh)
  have q: "same_shared (sv_shared s) sh" "sh_hub sh = sh_hub (sv_shared s)"
    using sv_accept by (auto simp: accept_def Let_def same_shared_def split: prod.splits if_splits)
  show ?thesis using server_inv_quiet [OF inv q] by (simp add: server_inv_def sv_accept(1))
next
  case (sv_refuse sh)
  have q: "same_shared (sv_shared s) sh" "sh_hub sh = sh_hub (sv_shared s)"
    using sv_refuse by (auto simp: accept_def Let_def same_shared_def split: prod.splits if_splits)
  show ?thesis using server_inv_quiet [OF inv q] by (simp add: server_inv_def sv_refuse(1))
qed (use inv in \<open>auto simp: server_inv_def ident_def hub_ok_def shared_prune_def\<close>)

interpretation server_sys: invariant_system "server_init cfg" "server_step e" "server_inv e cfg"
  for cfg :: config and e :: "('c, 'k) env"
proof (unfold_locales, goal_cases)
  case (1 s)
  have "reachable hub_init (hub_step (e_ser e) (e_iter e)) \<lparr>hs_hub = hub_default, hs_seen = (\<lambda>_. []), hs_pending = {}\<rparr>"
    by (rule reach_init) (simp add: hub_init_def)
  then show ?case
    using 1 by (force simp: server_init_def shared_new_def server_inv_def ident_def hub_ok_def hub_default_def)
qed (rule server_inv_step)


lemma verify_sound:
  assumes "verify cr cert_b64 sig_b64 nonce host = Some fp"
  shows "\<exists>cert key sg der. x509_to_der cr cert = Some der \<and> x509_key cr cert = Some key
    \<and> (key_id cr key = KeyRsa \<or> key_id cr key = KeyEc)
    \<and> verify_sha256 cr key (auth_sign_input nonce host) sg = Some True
    \<and> fingerprint cr der = Some fp"
  using assms unfolding verify_def by (auto simp: bind_eq_Some_conv split: if_splits)

lemma refund_counts:
  assumes "try_grant digest salt l q a b net now = (Inr g, q')"
  shows "count_of (tq_pairs (refund q' g)) k = count_of (tq_pairs (roll salt q now)) k"
    and "count_of (tq_networks (refund q' g)) k = count_of (tq_networks (roll salt q now)) k"
    and "tq_day (refund q' g) = tq_day (roll salt q now)"
proof -
  obtain nets where g: "g = \<lparr>g_day = tq_day (roll salt q now),
      g_pair = hashed digest (roll salt q now) (pair_label a b), g_networks = nets\<rparr>"
    and q': "q' = (roll salt q now)\<lparr>tq_pairs := bump_count (g_pair g) (tq_pairs (roll salt q now)),
      tq_networks := fold bump_count nets (tq_networks (roll salt q now))\<rparr>"
    using assms by (auto simp: try_grant_def Let_def split: if_splits option.splits)
  show "count_of (tq_pairs (refund q' g)) k = count_of (tq_pairs (roll salt q now)) k"
    "count_of (tq_networks (refund q' g)) k = count_of (tq_networks (roll salt q now)) k"
    "tq_day (refund q' g) = tq_day (roll salt q now)"
    by (simp_all add: refund_def q' g count_fold_bump count_fold_lower)
qed

lemma reply_shared: "reply ser m c sh = (x, c', sh') \<Longrightarrow> sh' = sh"
  by (auto simp: reply_def split: sum.splits)

subsection \<open>A run of the server\<close>

text \<open>
  An environment for evaluating the theorems: certificates are their own keys, a signature is
  the signed text without white space, and every client text is an answer to the challenge.
\<close>

definition demo_crypto :: "(string, string) crypto" where
  "demo_crypto =
     \<lparr>b64_decode = Some, b64url = id, sha256 = Some, x509_from_der = Some, x509_to_der = Some,
      x509_key = Some, key_id = (\<lambda>_. KeyRsa),
      verify_sha256 = (\<lambda>_ m s. Some (s = filter (\<lambda>c. \<not> is_ascii_whitespace c) m))\<rparr>"

definition demo_env :: "(string, string) env" where
  "demo_env =
     \<lparr>e_crypto = demo_crypto,
      e_ser = (\<lambda>m. case demo_ser m of Some t \<Rightarrow> Some t | None \<Rightarrow> Some ''x''),
      e_de = (\<lambda>t. Some (Auth 1 ''K'' t)), e_iter = demo_iter, e_post = (\<lambda>_ _ _. None),
      e_hmac = (\<lambda>_ _. None), e_digest = Some, e_salt = ''s''\<rparr>"

definition demo_config :: config where
  "demo_config = config_default\<lparr>public_host := ''h''\<rparr>"

definition demo_answer :: string where
  "demo_answer = ''desklink-relay-auth-v1nh''"

definition demo_start :: server_sys where
  "demo_start = \<lparr>sv_shared = shared_new demo_config turn_quota_default, sv_waiting = 0, sv_conns = [], sv_closing = []\<rparr>"

definition demo_accepted :: server_sys where
  "demo_accepted = demo_start\<lparr>sv_shared := snd (accept (sv_shared demo_start)), sv_waiting := 1\<rparr>"

definition demo_open :: "(exit option \<times> connection option) \<times> shared" where
  "demo_open = websocket_open demo_env (IpV4 9) None (Some ''n'') 0 (sv_shared demo_accepted)"

definition demo_connected :: server_sys where
  "demo_connected = demo_accepted\<lparr>sv_shared := snd demo_open, sv_waiting := 0,
     sv_conns := [the (snd (fst demo_open))]\<rparr>"

definition demo_turn :: handled where
  "demo_turn = serve_turn demo_env 1 (ReadMessage (InText demo_answer)) 1 0
     (hd (sv_conns demo_connected)) (sv_shared demo_connected)"

definition demo_authenticated :: server_sys where
  "demo_authenticated = demo_connected\<lparr>sv_shared := snd (snd demo_turn), sv_conns := [fst (snd demo_turn)]\<rparr>"


lemmas demo_net = open_global_def net_limits_new_def unauthenticated_cap_def limits_default_def
  demo_config_def config_default_def shared_new_def

lemma demo_accept: "accept (sv_shared demo_start) = (True, snd (accept (sv_shared demo_start)))"
  by (simp add: accept_def demo_start_def demo_net)

lemma demo_open_eq:
  "fst demo_open = (None, Some \<lparr>cn_ws = \<lparr>ws_sent = [WsText ''x''], ws_broken = False, ws_max_frame = PRE_AUTH_MAX_FRAME\<rparr>,
     cn_net = V4 9, cn_conn = 1, cn_nonce = ''n'', cn_fp = None, cn_outbox = 0,
     cn_limits = conn_limits_new limits_default 0, cn_started = 0, cn_last_heard = 0, cn_last_ping = 0\<rparr>)"
  by (simp add: demo_open_def websocket_open_def demo_accepted_def accept_def demo_start_def demo_net open_network_def
    client_net_def net_key_of_def count_of_def Let_def hub_default_def outbox_def send_def demo_env_def ws_write_def)


lemma demo_open_shared:
  "sh_hub (snd demo_open) = hub_default\<lparr>h_next := 1\<rparr>"
  "sh_net (snd demo_open) = (net_limits_new limits_default)\<lparr>nl_total := 1, nl_unauthenticated := 1, nl_connections := [V4 9 \<mapsto> 1]\<rparr>"
  "sh_config (snd demo_open) = demo_config"
  by (simp_all add: demo_open_def websocket_open_def demo_accepted_def accept_def demo_start_def demo_net open_network_def
    client_net_def net_key_of_def count_of_def bump_count_def Let_def hub_default_def outbox_def send_def demo_env_def ws_write_def fun_eq_iff)

lemma demo_verify: "verify demo_crypto ''K'' demo_answer ''n'' ''h'' = Some ''K''"
  by (simp add: verify_def decode_b64_def demo_crypto_def demo_answer_def fingerprint_def auth_sign_input_def
    AUTH_CONTEXT_def is_ascii_whitespace_def newline_def)

lemma demo_drain:
  "drain (hd (sv_conns demo_connected)) (sv_shared demo_connected) = (None, hd (sv_conns demo_connected), sv_shared demo_connected)"
  by (subst drain.simps) (simp add: demo_connected_def demo_open_shared demo_open_eq try_recv_def chan_try_recv_def
    hub_default_def new_chan_def)

lemma demo_turn_eq:
  "fst demo_turn = None" "cn_fp (fst (snd demo_turn)) = Some ''K''"
  "h_peers (sh_hub (snd (snd demo_turn))) ''K'' = Some \<lparr>p_conn = 1, p_outbox = 0, p_allow = {}\<rparr>"
proof -
  note dr = demo_drain
  have al: "fst (allow_frame (conn_limits_new limits_default 0) (length demo_answer) 1)"
    by (simp add: allow_frame_def conn_limits_new_def take_tokens_def refill_def bucket_new_def limits_default_def
       secs_f64_def demo_answer_def Let_def)
  have au: "fst (allow_auth (sh_net (snd demo_open)) (V4 9) 1)"
    by (simp add: demo_open_shared allow_auth_def charge_auth_def auth_bucket_def net_limits_new_def take_tokens_def
      refill_def bucket_new_def limits_default_def secs_f64_def Let_def)
  have "fst demo_turn = None \<and> cn_fp (fst (snd demo_turn)) = Some ''K'' \<and> 
    h_peers (sh_hub (snd (snd demo_turn))) ''K'' = Some \<lparr>p_conn = 1, p_outbox = 0, p_allow = {}\<rparr>"
    unfolding demo_turn_def serve_turn_def dr
    using al au demo_verify
    by (auto simp: demo_connected_def demo_open_eq demo_open_shared check_timers_def on_read_def case_prod_beta Let_def
      AUTH_TIMEOUT_def SILENCE_LIMIT_def PING_INTERVAL_def on_text_def authenticate_def demo_env_def MIN_PROTOCOL_VERSION_def
      demo_config_def send_def ws_write_def register_peers)
  then show "fst demo_turn = None" "cn_fp (fst (snd demo_turn)) = Some ''K''"
  "h_peers (sh_hub (snd (snd demo_turn))) ''K'' = Some \<lparr>p_conn = 1, p_outbox = 0, p_allow = {}\<rparr>" by auto
qed

lemma demo_connected_reachable: "reachable (server_init demo_config) (server_step demo_env) demo_connected"
proof -
  have "reachable (server_init demo_config) (server_step demo_env) demo_start"
    by (rule reach_init) (auto simp: server_init_def demo_start_def)
  moreover have "server_step demo_env demo_start demo_accepted"
    using sv_accept [OF demo_accept] by (simp add: demo_accepted_def demo_start_def)
  moreover have "server_step demo_env demo_accepted demo_connected"
  proof -
    have "websocket_open demo_env (IpV4 9) None (Some ''n'') 0 (sv_shared demo_accepted)
        = ((None, Some (the (snd (fst demo_open)))), snd demo_open)"
      unfolding demo_open_def [symmetric] by (simp add: prod_eq_iff demo_open_eq)
    from sv_open [OF _ this] show ?thesis by (simp add: demo_connected_def demo_accepted_def demo_start_def)
  qed
  ultimately show ?thesis by (blast intro: reach_step)
qed

lemma demo_authenticated_reachable:
  "reachable (server_init demo_config) (server_step demo_env) demo_authenticated"
proof -
  have "serve_turn demo_env 1 (ReadMessage (InText demo_answer)) 1 0
      (hd (sv_conns demo_connected)) (sv_shared demo_connected) = (None, fst (snd demo_turn), snd (snd demo_turn))"
    unfolding demo_turn_def [symmetric] by (simp add: prod_eq_iff demo_turn_eq)
  moreover have "sv_conns demo_connected = [] @ hd (sv_conns demo_connected) # []"
    by (simp add: demo_connected_def)
  ultimately have "server_step demo_env demo_connected demo_authenticated"
    using sv_turn by (fastforce simp: demo_authenticated_def)
  then show ?thesis by (rule reach_step [OF demo_connected_reachable])
qed

subsection \<open>Properties\<close>

text \<open>
  C25. Nobody is registered without proof: in every reachable state of the server, each
  fingerprint in the hub belongs to one open connection that was shown a certificate with that
  fingerprint and a signature of its key over this connection's own nonce and this relay's host.
\<close>

theorem registered_means_proven:
  assumes "reachable (server_init cfg) (server_step e) s"
    and "h_peers (sh_hub (sv_shared s)) fp = Some p"
  shows "\<exists>c \<in> set (sv_conns s). cn_conn c = p_conn p \<and> cn_outbox c = p_outbox p \<and> cn_fp c = Some fp
    \<and> (\<exists>cert key sg der. x509_to_der (e_crypto e) cert = Some der \<and> x509_key (e_crypto e) cert = Some key
         \<and> verify_sha256 (e_crypto e) key (auth_sign_input (cn_nonce c) (public_host cfg)) sg = Some True
         \<and> fingerprint (e_crypto e) der = Some fp)"
proof -
  have "ident e cfg (sv_shared s) (sv_conns s)"
    using server_sys.reachable_inv [OF assms(1)] by (simp add: server_inv_def)
  then obtain c where c: "c \<in> set (sv_conns s)" "owns c fp p" "proven e cfg c"
    using assms(2) by (force simp: ident_def)
  then obtain cert sig where "verify (e_crypto e) cert sig (cn_nonce c) (public_host cfg) = Some fp"
    by (auto simp: proven_def owns_def)
  from verify_sound [OF this] show ?thesis using c unfolding owns_def by blast
qed

theorem registered_means_proven_witness:
  "\<exists>c \<in> set (sv_conns demo_authenticated). cn_conn c = 1 \<and> cn_outbox c = 0 \<and> cn_fp c = Some ''K''
    \<and> (\<exists>cert key sg der. x509_to_der (e_crypto demo_env) cert = Some der \<and> x509_key (e_crypto demo_env) cert = Some key
         \<and> verify_sha256 (e_crypto demo_env) key (auth_sign_input (cn_nonce c) (public_host demo_config)) sg = Some True
         \<and> fingerprint (e_crypto demo_env) der = Some ''K'')"
  using registered_means_proven [OF demo_authenticated_reachable,
      of "''K''" "\<lparr>p_conn = 1, p_outbox = 0, p_allow = {}\<rparr>"] demo_turn_eq(3)
  by (simp add: demo_authenticated_def)

text \<open>
  C28. The server's books are exact: in every reachable state the global count is the number of
  sockets that hold a slot (waiting, open or closing), the unauthenticated count those of them
  not authenticated, and the count of every address, /64 and /48 the open and closing connections
  under it, with no entry kept for a network that has none; each is within its cap. No path
  through a connection leaks a slot.
\<close>

theorem server_slots_exact:
  assumes "reachable (server_init cfg) (server_step e) s"
  shows "nl_total (sh_net (sv_shared s)) = sv_waiting s + length (held s)
    \<and> nl_unauthenticated (sh_net (sv_shared s)) = sv_waiting s + length (filter (\<lambda>c. cn_fp c = None) (held s))
    \<and> nl_total (sh_net (sv_shared s)) \<le> global_connections (cfg_limits cfg)
    \<and> nl_unauthenticated (sh_net (sv_shared s)) \<le> unauthenticated_cap (cfg_limits cfg)
    \<and> nl_connections (sh_net (sv_shared s)) tier
        = (case tier_load tier (map cn_net (held s)) of 0 \<Rightarrow> None | Suc n \<Rightarrow> Some (Suc n))
    \<and> tier_load tier (map cn_net (held s)) \<le> connection_cap (cfg_limits cfg) tier"
proof -
  have inv: "slots_inv (cfg_limits cfg) (server_slots s)" by (rule server_slot_sys.reachable_inv [OF assms])
  then have "count_of (nl_connections (sh_net (sv_shared s))) tier = tier_load tier (map cn_net (held s))"
    "nl_connections (sh_net (sv_shared s)) tier \<noteq> Some 0"
    by (simp_all add: slots_inv_def server_slots_def slots_of_def)
  then have counted: "nl_connections (sh_net (sv_shared s)) tier
      = (case tier_load tier (map cn_net (held s)) of 0 \<Rightarrow> None | Suc n \<Rightarrow> Some (Suc n))"
    by (cases "nl_connections (sh_net (sv_shared s)) tier") (auto simp: count_of_def split: nat.split)
  have "length (filter (\<lambda>c. cn_fp c = None) (held s)) + length (filter (\<lambda>c. cn_fp c \<noteq> None) (held s)) = length (held s)"
    using sum_length_filter_compl [of "\<lambda>c. cn_fp c = None" "held s"] by simp
  then show ?thesis
    using inv counted by (simp add: slots_inv_def server_slots_def slots_of_def)
qed

theorem server_slots_exact_witness:
  "nl_total (sh_net (sv_shared demo_authenticated)) = 1
   \<and> nl_unauthenticated (sh_net (sv_shared demo_authenticated)) = 0"
  using server_slots_exact [OF demo_authenticated_reachable, of "V4 9"] demo_turn_eq(2)
  by (simp add: demo_authenticated_def demo_connected_def held_def demo_accepted_def demo_start_def)

text \<open>
  C30. The server uses its hub as the hub is meant to be used: whatever the connections do, the
  hub inside every reachable server is a reachable state of the hub's own system, so everything
  proved of that system holds in the server; here, that its queues are bounded.
\<close>

theorem server_hub_refines:
  assumes "reachable (server_init cfg) (server_step e) s"
  shows "\<exists>hs. reachable hub_init (hub_step (e_ser e) (e_iter e)) hs \<and> hs_hub hs = sh_hub (sv_shared s)
    \<and> (\<forall>a. ch_alive (h_chans (sh_hub (sv_shared s)) a) \<longrightarrow>
         frame_bytes (ch_queue (h_chans (sh_hub (sv_shared s)) a)) \<le> MAX_QUEUED_BYTES + CONTROL_HEADROOM)"
proof -
  obtain hs where hs: "reachable hub_init (hub_step (e_ser e) (e_iter e)) hs" "hs_hub hs = sh_hub (sv_shared s)"
    using server_sys.reachable_inv [OF assms] by (auto simp: server_inv_def hub_ok_def)
  then have "chans_ok (sh_hub (sv_shared s))" using queue_run.reachable_inv [OF hs(1)] by simp
  then have "frame_bytes (ch_queue (h_chans (sh_hub (sv_shared s)) a)) \<le> MAX_QUEUED_BYTES + CONTROL_HEADROOM"
    if "ch_alive (h_chans (sh_hub (sv_shared s)) a)" for a
    using that unfolding chans_ok_def chan_ok_def by metis
  then show ?thesis using hs by blast
qed

theorem server_hub_refines_witness:
  "\<exists>hs. reachable hub_init (hub_step (e_ser demo_env) (e_iter demo_env)) hs
    \<and> hs_hub hs = sh_hub (sv_shared demo_authenticated)"
  using server_hub_refines [OF demo_authenticated_reachable] by blast

text \<open>
  The loop of one connection over what it reads, with the clocks at each turn, and what it leaves
  alone of the shared state: everything but its own queue, the rate of its network's attempts to
  authenticate and the count of those that failed.
\<close>

fun serve_run ::
  "('c, 'k) env \<Rightarrow> (instant \<times> ws_read \<times> instant \<times> u64) list \<Rightarrow> connection \<Rightarrow> shared \<Rightarrow> handled" where
  "serve_run e [] c sh = (None, c, sh)"
| "serve_run e ((now, ev, now', unix) # reads) c sh =
     (case serve_turn e now ev now' unix c sh of
        (Some x, c', sh') \<Rightarrow> (Some x, c', sh')
      | (None, c', sh') \<Rightarrow> serve_run e reads c' sh')"

definition untouched :: "addr \<Rightarrow> shared \<Rightarrow> shared \<Rightarrow> bool" where
  "untouched a sh sh' \<longleftrightarrow>
     h_peers (sh_hub sh') = h_peers (sh_hub sh)
     \<and> (\<forall>b. b \<noteq> a \<longrightarrow> h_chans (sh_hub sh') b = h_chans (sh_hub sh) b)
     \<and> sh_quota sh' = sh_quota sh \<and> sh_config sh' = sh_config sh
     \<and> nl_total (sh_net sh') = nl_total (sh_net sh) \<and> nl_unauthenticated (sh_net sh') = nl_unauthenticated (sh_net sh)
     \<and> nl_connections (sh_net sh') = nl_connections (sh_net sh)
     \<and> auth_ok (sh_metrics sh') = auth_ok (sh_metrics sh)
     \<and> messages_forwarded (sh_metrics sh') = messages_forwarded (sh_metrics sh)
     \<and> turn_grants (sh_metrics sh') = turn_grants (sh_metrics sh) \<and> turn_denials (sh_metrics sh') = turn_denials (sh_metrics sh)"

lemma untouched_refl [simp]: "untouched a sh sh"
  by (simp add: untouched_def)

lemma untouched_trans: "untouched a sh sh' \<Longrightarrow> untouched a sh' sh'' \<Longrightarrow> untouched a sh sh''"
  by (simp add: untouched_def)

lemma drain_untouched:
  "drain c sh = (x, c', sh') \<Longrightarrow> untouched (cn_outbox c) sh sh' \<and> cn_outbox c' = cn_outbox c \<and> cn_fp c' = cn_fp c"
proof (induction c sh rule: drain.induct)
  case (1 c sh)
  obtain y h where r: "try_recv (sh_hub sh) (cn_outbox c) = (y, h)" by fastforce
  have one: "untouched (cn_outbox c) sh (sh\<lparr>sh_hub := h\<rparr>)"
    using r by (auto simp: untouched_def try_recv_def Let_def split: prod.splits)
  show ?case
  proof (cases y)
    case None
    then show ?thesis using 1(2) r by (simp add: drain.simps [of c sh])
  next
    case (Some m)
    show ?thesis
    proof (cases m)
      case (Close code reason)
      then show ?thesis using 1(2) r Some one by (simp add: drain.simps [of c sh])
    next
      case (Frame t)
      show ?thesis
      proof (cases "ws_write (WsText t) c")
        case (Inl z)
        then show ?thesis using 1(2) r Some Frame one by (simp add: drain.simps [of c sh])
      next
        case (Inr c1)
        have "cn_outbox c1 = cn_outbox c" "cn_fp c1 = cn_fp c" using Inr by (auto simp: ws_write_def split: if_splits)
        moreover have "untouched (cn_outbox c1) (sh\<lparr>sh_hub := h\<rparr>) sh' \<and> cn_outbox c' = cn_outbox c1 \<and> cn_fp c' = cn_fp c1"
          using 1(1) [OF r [symmetric] Some Frame Inr] 1(2) r Some Frame Inr by (simp add: drain.simps [of c sh])
        ultimately show ?thesis using untouched_trans [OF one] by simp
      qed
    qed
  qed
qed

lemma authenticate_untouched:
  assumes "authenticate e v cert sig now c sh = (x, c', sh')" "cn_fp c = None" "cn_fp c' = None"
  shows "untouched a sh sh' \<and> cn_outbox c' = cn_outbox c"
proof -
  obtain ok n where al: "allow_auth (sh_net sh) (cn_net c) now = (ok, n)" by fastforce
  note keeps = allow_auth_keeps [OF al]
  have sent: "cn_fp d' = cn_fp d" if "send ser m d = Inr d'" for ser m d d'
    using that by (auto simp: send_def ws_write_def split: option.splits if_splits)
  show ?thesis
    using assms keeps by (auto simp: authenticate_def al Let_def untouched_def dest!: sent split: if_splits option.splits sum.splits)
qed

lemma serve_turn_untouched:
  assumes "serve_turn e now ev now' unix c sh = (x, c', sh')" "cn_fp c = None" "cn_fp c' = None"
  shows "untouched (cn_outbox c) sh sh' \<and> cn_outbox c' = cn_outbox c"
proof -
  obtain x1 c1 sh1 where d: "drain c sh = (x1, c1, sh1)" by (cases "drain c sh")
  note one = drain_untouched [OF d]
  show ?thesis
  proof (cases "\<exists>c2. x1 = None \<and> check_timers now c1 = Inr c2")
    case False
    then show ?thesis using assms(1) d one by (auto simp: serve_turn_def split: option.splits sum.splits)
  next
    case True
    then obtain c2 where c2: "x1 = None" "check_timers now c1 = Inr c2" by blast
    then have same: "cn_outbox c2 = cn_outbox c" "cn_fp c2 = None"
      using one assms(2) by (auto simp: check_timers_def ws_write_def split: if_splits)
    have read: "on_read e ev now' unix c2 sh1 = (x, c', sh')" using assms(1) d c2 by (simp add: serve_turn_def)
    have on_text: "untouched b sh1 sh' \<and> cn_outbox c' = cn_outbox c3"
      if "on_text e t now' unix c3 sh1 = (x, c', sh')" "cn_fp c3 = None" for t c3 b
      using that by (auto simp: on_text_def split: option.splits client_message.splits
          dest: authenticate_untouched [OF _ that(2) assms(3)])
    have "untouched (cn_outbox c) sh1 sh' \<and> cn_outbox c' = cn_outbox c"
      using read same on_text [of _ "c2\<lparr>cn_last_heard := now', cn_limits := l\<rparr>" "cn_outbox c" for l]
      by (auto simp: on_read_def Let_def split: ws_read.splits ws_in.splits if_splits prod.splits)
    then show ?thesis using untouched_trans one by blast
  qed
qed

lemma fp_stays:
  assumes "acts e p q" "cn_fp (fst p) \<noteq> None"
  shows "cn_fp (fst q) \<noteq> None"
  using assms by (induction rule: rtranclp_induct) (auto elim!: act.cases)

lemma serve_run_acts: "serve_run e reads c sh = (x, c', sh') \<Longrightarrow> acts e (c, sh) (c', sh')"
proof (induction reads arbitrary: c sh)
  case (Cons r reads)
  obtain now ev now' unix where r: "r = (now, ev, now', unix)" by (cases r)
  obtain y c1 sh1 where t: "serve_turn e now ev now' unix c sh = (y, c1, sh1)" by (cases "serve_turn e now ev now' unix c sh")
  have "acts e (c1, sh1) (c', sh')" if "y = None" using Cons that by (simp add: r t)
  then show ?case using Cons.prems serve_turn_acts [OF t] acts_trans by (cases y) (auto simp: r t)
qed simp

text \<open>
  C31. A stranger leaves no trace. Whatever a connection reads from \<open>accept\<close> on, over any number of
  turns, and however it ends: if it never proved a key, then nobody was registered or unregistered
  and no allow-list changed, nothing was put into the queue of any other connection, no message was
  forwarded and no TURN credential granted, refused or charged, and no slot moved; leaving, it takes
  nobody off the hub either.
\<close>

theorem stranger_leaves_no_trace:
  assumes "serve_run e reads c sh = (x, c', sh')" and "cn_fp c = None" and "cn_fp c' = None"
  shows "untouched (cn_outbox c) sh sh' \<and> untouched (cn_outbox c) sh (snd (websocket_leave e y c' sh'))"
proof -
  have run: "untouched (cn_outbox c) sh sh' \<and> cn_outbox c' = cn_outbox c"
    using assms(1,2)
  proof (induction reads arbitrary: c sh)
    case (Cons r reads)
    obtain now ev now' unix where r: "r = (now, ev, now', unix)" by (cases r)
    obtain y c1 sh1 where t: "serve_turn e now ev now' unix c sh = (y, c1, sh1)" by (cases "serve_turn e now ev now' unix c sh")
    have "acts e (c1, sh1) (c', sh')" using Cons.prems(1) serve_run_acts by (cases y) (auto simp: r t)
    then have none: "cn_fp c1 = None" using fp_stays assms(3) by force
    note one = serve_turn_untouched [OF t Cons.prems(2) none]
    show ?case using Cons.prems(1) one Cons.IH [OF _ none] untouched_trans by (cases y) (force simp: r t)+
  qed simp
  moreover have "untouched (cn_outbox c) sh' (snd (websocket_leave e y c' sh'))"
    using assms(3) by (simp add: websocket_leave_def untouched_def Let_def split: exit.split)
  ultimately show ?thesis using untouched_trans by blast
qed

definition demo_stranger :: handled where
  "demo_stranger = serve_run (demo_env\<lparr>e_de := (\<lambda>_. Some (Turn ''P''))\<rparr>) [(1, ReadMessage (InText ''t''), 1, 0)]
     (hd (sv_conns demo_connected)) (sv_shared demo_connected)"

lemma demo_stranger_eq:
  "fst demo_stranger = Some (ExitClose CLOSE_UNAUTHORIZED ''authenticate first'')" "cn_fp (fst (snd demo_stranger)) = None"
proof -
  have "fst (allow_frame (conn_limits_new limits_default 0) 1 1)"
    by (simp add: allow_frame_def conn_limits_new_def take_tokens_def refill_def bucket_new_def limits_default_def secs_f64_def Let_def)
  then have "fst demo_stranger = Some (ExitClose CLOSE_UNAUTHORIZED ''authenticate first'') \<and> cn_fp (fst (snd demo_stranger)) = None"
    unfolding demo_stranger_def serve_run.simps serve_turn_def demo_drain
    by (auto simp: demo_connected_def demo_open_eq demo_open_shared check_timers_def on_read_def case_prod_beta Let_def AUTH_TIMEOUT_def SILENCE_LIMIT_def PING_INTERVAL_def on_text_def demo_config_def)
  then show "fst demo_stranger = Some (ExitClose CLOSE_UNAUTHORIZED ''authenticate first'')" "cn_fp (fst (snd demo_stranger)) = None"
    by blast+
qed

theorem stranger_leaves_no_trace_witness:
  "fst demo_stranger = Some (ExitClose CLOSE_UNAUTHORIZED ''authenticate first'')
    \<and> untouched 0 (sv_shared demo_connected) (snd (snd demo_stranger))"
proof -
  obtain x c' sh' where run: "demo_stranger = (x, c', sh')" by (cases demo_stranger)
  have "cn_outbox (hd (sv_conns demo_connected)) = 0" "cn_fp (hd (sv_conns demo_connected)) = None"
    by (simp_all add: demo_connected_def demo_open_eq)
  moreover have "cn_fp c' = None" using demo_stranger_eq(2) unfolding run by simp
  ultimately have "untouched 0 (sv_shared demo_connected) sh'"
    using stranger_leaves_no_trace [OF run [unfolded demo_stranger_def]] by simp
  then show ?thesis using demo_stranger_eq(1) unfolding run by simp
qed

text \<open>
  TURN is granted and charged together: the grant counter moves only for a mutual peer and
  with an enabled backend, and when it does not move (not mutual, quota used up, or the backend
  failed after the charge) every count of the quota is what it was on that day.
\<close>

lemma turn_charges_only_grants:
  assumes "turn e fp peer now c sh = (x, c', sh')"
  shows "if turn_grants (sh_metrics sh') = turn_grants (sh_metrics sh)
    then \<forall>k. \<exists>q \<in> {sh_quota sh, roll (e_salt e) (sh_quota sh) (unat now)}.
      count_of (tq_pairs (sh_quota sh')) k = count_of (tq_pairs q) k
      \<and> count_of (tq_networks (sh_quota sh')) k = count_of (tq_networks q) k
    else can_turn (sh_hub sh) fp (cn_conn c) peer \<and> is_enabled (turn_from_config (sh_config sh))
      \<and> (\<exists>g. try_grant (e_digest e) (e_salt e) (cfg_limits (sh_config sh)) (sh_quota sh) fp peer (cn_net c) (unat now)
            = (Inr g, sh_quota sh'))"
proof -
  obtain r q where tg: "try_grant (e_digest e) (e_salt e) (cfg_limits (sh_config sh)) (sh_quota sh) fp peer
      (cn_net c) (unat now) = (r, q)" by fastforce
  have refused: "q = roll (e_salt e) (sh_quota sh) (unat now)" if "r = Inl z" for z
    using tg that by (auto simp: try_grant_def Let_def split: if_splits option.splits)
  show ?thesis
  proof (cases "is_enabled (turn_from_config (sh_config sh)) \<and> can_turn (sh_hub sh) fp (cn_conn c) peer")
    case False
    then show ?thesis using assms by (auto simp: turn_def refuse_turn_def Let_def dest!: reply_shared)
  next
    case on: True
    show ?thesis
    proof (cases r)
      case (Inl z)
      then show ?thesis
        using assms on tg refused [OF Inl]
        by (auto simp: turn_def refuse_turn_def Let_def dest!: reply_shared)
    next
      case (Inr g)
      show ?thesis
      proof (cases "credentials (e_post e) (e_hmac e) (turn_from_config (sh_config sh)) fp now")
        case None
        then show ?thesis
          using assms on tg Inr refund_counts [OF tg [unfolded Inr]]
          by (auto simp: turn_def refuse_turn_def Let_def dest!: reply_shared)
      next
        case (Some cr)
        then show ?thesis
          using assms on tg Inr
          by (cases cr) (auto simp: turn_def refuse_turn_def Let_def dest!: reply_shared)
      qed
    qed
  qed
qed

end
