(* ===== verification/Packet.thy ===== *)
theory Packet
  imports Prelude
begin

section \<open>Packets and identities\<close>

text \<open>
  \<open>src/device_links/packet.rs\<close> and \<open>device_info.rs\<close>: the packet every DeskLink message
  travels in, its JSON form with the fallbacks of its reader, and the identity a device
  announces, checked and cleaned when it is received.

  Parameters: \<open>print\<close> and \<open>parse\<close> are \<open>serde_json\<close>'s text of a value and its reader; the clock of
  \<open>now_millis\<close>, the random \<open>instance_id\<close> and the product version are arguments. A device name
  is UTF-8: \<open>chars()\<close> counts the bytes that start a character.
\<close>

subsection \<open>Packet types\<close>

definition DESKLINK_PROTOCOL_VERSION :: int where "DESKLINK_PROTOCOL_VERSION = 9"
definition PACKET_TYPE_IDENTITY :: string where "PACKET_TYPE_IDENTITY = ''desklink.identity''"
definition PACKET_TYPE_PAIR :: string where "PACKET_TYPE_PAIR = ''desklink.pair''"
definition PACKET_TYPE_PAIR_QR :: string where "PACKET_TYPE_PAIR_QR = ''desklink.pair.qr''"
definition PACKET_TYPE_HEARTBEAT :: string where "PACKET_TYPE_HEARTBEAT = ''desklink.heartbeat''"
definition PACKET_TYPE_PING :: string where "PACKET_TYPE_PING = ''desklink.ping''"
definition PACKET_TYPE_MOUSEPAD_REQUEST :: string where "PACKET_TYPE_MOUSEPAD_REQUEST = ''desklink.mousepad.request''"
definition PACKET_TYPE_SHARE_REQUEST :: string where "PACKET_TYPE_SHARE_REQUEST = ''desklink.share.request''"
definition PACKET_TYPE_CLIPBOARD :: string where "PACKET_TYPE_CLIPBOARD = ''desklink.clipboard''"
definition PACKET_TYPE_CLIPBOARD_CONNECT :: string where "PACKET_TYPE_CLIPBOARD_CONNECT = ''desklink.clipboard.connect''"
definition PACKET_TYPE_LOCK :: string where "PACKET_TYPE_LOCK = ''desklink.lock''"
definition PACKET_TYPE_LOCK_REQUEST :: string where "PACKET_TYPE_LOCK_REQUEST = ''desklink.lock.request''"
definition PACKET_TYPE_FINDMYPHONE_REQUEST :: string where "PACKET_TYPE_FINDMYPHONE_REQUEST = ''desklink.findmyphone.request''"
definition PACKET_TYPE_MPRIS :: string where "PACKET_TYPE_MPRIS = ''desklink.mpris''"
definition PACKET_TYPE_MPRIS_REQUEST :: string where "PACKET_TYPE_MPRIS_REQUEST = ''desklink.mpris.request''"
definition PACKET_TYPE_BATTERY :: string where "PACKET_TYPE_BATTERY = ''desklink.battery''"
definition PACKET_TYPE_NOTIFICATION :: string where "PACKET_TYPE_NOTIFICATION = ''desklink.notification''"
definition PACKET_TYPE_NOTIFICATION_REQUEST :: string where "PACKET_TYPE_NOTIFICATION_REQUEST = ''desklink.notification.request''"
definition PACKET_TYPE_NOTIFICATION_REPLY :: string where "PACKET_TYPE_NOTIFICATION_REPLY = ''desklink.notification.reply''"
definition PACKET_TYPE_NOTIFICATION_ACTION :: string where "PACKET_TYPE_NOTIFICATION_ACTION = ''desklink.notification.action''"
definition PACKET_TYPE_SETTINGS :: string where "PACKET_TYPE_SETTINGS = ''desklink.settings''"
definition PACKET_TYPE_ACTIVITY :: string where "PACKET_TYPE_ACTIVITY = ''desklink.activity''"
definition PACKET_TYPE_FILE_LANE :: string where "PACKET_TYPE_FILE_LANE = ''desklink.filelane.v1''"
definition PACKET_TYPE_SYNC_HAVE :: string where "PACKET_TYPE_SYNC_HAVE = ''desklink.sync.have''"
definition PACKET_TYPE_SETTINGS_REQUEST :: string where "PACKET_TYPE_SETTINGS_REQUEST = ''desklink.settings.request''"
definition PACKET_TYPE_UNLOCK_REQUEST :: string where "PACKET_TYPE_UNLOCK_REQUEST = ''desklink.unlock.request''"
definition PACKET_TYPE_HANDOFF :: string where "PACKET_TYPE_HANDOFF = ''desklink.handoff''"
definition PACKET_TYPE_SCREEN_REQUEST :: string where "PACKET_TYPE_SCREEN_REQUEST = ''desklink.screen.request''"
definition PACKET_TYPE_SCREEN_READY :: string where "PACKET_TYPE_SCREEN_READY = ''desklink.screen.ready''"
definition PACKET_TYPE_SCREEN_STOP :: string where "PACKET_TYPE_SCREEN_STOP = ''desklink.screen.stop''"
definition PACKET_TYPE_SCREEN_ERROR :: string where "PACKET_TYPE_SCREEN_ERROR = ''desklink.screen.error''"
definition PACKET_TYPE_CONTACTS_REQUEST_ALL_UIDS_TIMESTAMPS :: string where "PACKET_TYPE_CONTACTS_REQUEST_ALL_UIDS_TIMESTAMPS = ''desklink.contacts.request_all_uids_timestamps''"
definition PACKET_TYPE_CONTACTS_REQUEST_VCARDS_BY_UID :: string where "PACKET_TYPE_CONTACTS_REQUEST_VCARDS_BY_UID = ''desklink.contacts.request_vcards_by_uid''"
definition PACKET_TYPE_CONTACTS_RESPONSE_UIDS_TIMESTAMPS :: string where "PACKET_TYPE_CONTACTS_RESPONSE_UIDS_TIMESTAMPS = ''desklink.contacts.response_uids_timestamps''"
definition PACKET_TYPE_CONTACTS_RESPONSE_VCARDS :: string where "PACKET_TYPE_CONTACTS_RESPONSE_VCARDS = ''desklink.contacts.response_vcards''"
definition PACKET_TYPE_SNIPPETS :: string where "PACKET_TYPE_SNIPPETS = ''desklink.snippets''"
definition PACKET_TYPE_NOTES :: string where "PACKET_TYPE_NOTES = ''desklink.notes''"
definition PACKET_TYPE_FOLDERS :: string where "PACKET_TYPE_FOLDERS = ''desklink.folders''"
definition PACKET_TYPE_SHARE_INPUT_DEVICES_REQUEST :: string where "PACKET_TYPE_SHARE_INPUT_DEVICES_REQUEST = ''desklink.shareinputdevices.request''"
definition PACKET_TYPE_SHARE_INPUT_DEVICES :: string where "PACKET_TYPE_SHARE_INPUT_DEVICES = ''desklink.shareinputdevices''"
definition PACKET_TYPE_TELEPHONY :: string where "PACKET_TYPE_TELEPHONY = ''desklink.telephony''"
definition PACKET_TYPE_TELEPHONY_REQUEST :: string where "PACKET_TYPE_TELEPHONY_REQUEST = ''desklink.telephony.request''"
definition PACKET_TYPE_WEBRTC_SIGNAL_V1 :: string where "PACKET_TYPE_WEBRTC_SIGNAL_V1 = ''desklink.webrtc.signal.v1''"

subsection \<open>Packets\<close>

record network_packet =
  pk_id :: int
  packet_type :: string
  body :: jobject
  payload_size :: "int option"
  payload_transfer_info :: "jobject option"

definition packet_new :: "int \<Rightarrow> string \<Rightarrow> network_packet" where
  "packet_new now ty =
     \<lparr>pk_id = now, packet_type = ty, body = [], payload_size = None, payload_transfer_info = None\<rparr>"

definition with_body :: "int \<Rightarrow> string \<Rightarrow> jobject \<Rightarrow> network_packet" where
  "with_body now ty b = (packet_new now ty)\<lparr>body := b\<rparr>"

definition get_str :: "network_packet \<Rightarrow> string \<Rightarrow> string option" where
  "get_str p k = Option.bind (obj_get (body p) k) as_str"

definition get_i64 :: "network_packet \<Rightarrow> string \<Rightarrow> int option" where
  "get_i64 p k = Option.bind (obj_get (body p) k) as_i64"

definition get_bool :: "network_packet \<Rightarrow> string \<Rightarrow> bool option" where
  "get_bool p k = Option.bind (obj_get (body p) k) as_bool"

definition pk_set :: "string \<Rightarrow> json \<Rightarrow> network_packet \<Rightarrow> network_packet" where
  "pk_set k v p = p\<lparr>body := obj_insert k v (body p)\<rparr>"

text \<open>The object \<open>serialize_line\<close> builds, and the packet \<open>deserialize\<close> reads out of a value.\<close>

definition packet_to_json :: "network_packet \<Rightarrow> json" where
  "packet_to_json p =
     (let root = obj_insert ''body'' (JObj (body p))
                   (obj_insert ''type'' (JStr (packet_type p)) (obj_insert ''id'' (JInt (pk_id p)) []));
          root = (case payload_size p of Some n \<Rightarrow> obj_insert ''payloadSize'' (JInt n) root | None \<Rightarrow> root);
          root = (case payload_transfer_info p of
                    Some i \<Rightarrow> obj_insert ''payloadTransferInfo'' (JObj i) root | None \<Rightarrow> root)
      in JObj root)"

definition unwrap_or :: "'a \<Rightarrow> 'a option \<Rightarrow> 'a" where
  "unwrap_or d o' = (case o' of Some x \<Rightarrow> x | None \<Rightarrow> d)"

definition packet_of_json :: "json \<Rightarrow> network_packet" where
  "packet_of_json v =
     (let object = unwrap_or [] (as_object v) in
      \<lparr>pk_id = unwrap_or 0 (Option.bind (obj_get object ''id'') as_i64),
       packet_type = unwrap_or [] (Option.bind (obj_get object ''type'') as_str),
       body = unwrap_or [] (Option.bind (obj_get object ''body'') as_object),
       payload_size = Option.bind (obj_get object ''payloadSize'') as_i64,
       payload_transfer_info = Option.bind (obj_get object ''payloadTransferInfo'') as_object\<rparr>)"

definition serialize_line :: "(json \<Rightarrow> string option) \<Rightarrow> network_packet \<Rightarrow> string option" where
  "serialize_line print p = map_option (\<lambda>bytes. bytes @ [newline]) (print (packet_to_json p))"

definition serialize :: "(json \<Rightarrow> string option) \<Rightarrow> network_packet \<Rightarrow> string option" where
  "serialize print p = map_option butlast (serialize_line print p)"

definition deserialize :: "(string \<Rightarrow> json option) \<Rightarrow> string \<Rightarrow> network_packet option" where
  "deserialize parse input = map_option packet_of_json (parse input)"

subsection \<open>Identities\<close>

record device_info =
  di_id :: string
  di_name :: string
  device_type :: string
  protocol_version :: int
  incoming_capabilities :: "string list"
  outgoing_capabilities :: "string list"
  instance_id :: "string option"
  app_version :: "string option"

text \<open>\<open>sort\<close> and \<open>dedup\<close> of the registry's lists with the signaling type added.\<close>

definition local_capabilities :: "string list \<Rightarrow> string list \<Rightarrow> string list \<times> string list" where
  "local_capabilities reg_incoming reg_outgoing =
     (remdups_adj (sort (reg_incoming @ [PACKET_TYPE_WEBRTC_SIGNAL_V1])),
      remdups_adj (sort (reg_outgoing @ [PACKET_TYPE_WEBRTC_SIGNAL_V1])))"

definition device_type_for_chassis :: "nat \<Rightarrow> string" where
  "device_type_for_chassis chassis =
     (if chassis \<in> {8, 9, 10, 11, 14, 30, 31, 32} then ''laptop'' else ''desktop'')"

definition device_local ::
  "string list \<Rightarrow> string list \<Rightarrow> nat \<Rightarrow> string \<Rightarrow> string \<Rightarrow> string \<Rightarrow> string \<Rightarrow> device_info" where
  "device_local reg_in reg_out chassis instance_uuid version did name =
     (let (incoming, outgoing) = local_capabilities reg_in reg_out in
      \<lparr>di_id = did, di_name = name, device_type = device_type_for_chassis chassis,
       protocol_version = DESKLINK_PROTOCOL_VERSION, incoming_capabilities = incoming,
       outgoing_capabilities = outgoing, instance_id = Some instance_uuid, app_version = Some version\<rparr>)"

definition to_identity_packet :: "int \<Rightarrow> device_info \<Rightarrow> nat \<Rightarrow> network_packet" where
  "to_identity_packet now d tcp_port =
     (let p = packet_new now PACKET_TYPE_IDENTITY;
          p = pk_set ''deviceId'' (JStr (di_id d)) p;
          p = pk_set ''deviceName'' (JStr (di_name d)) p;
          p = pk_set ''deviceType'' (JStr (device_type d)) p;
          p = pk_set ''protocolVersion'' (JInt (protocol_version d)) p;
          p = pk_set ''incomingCapabilities'' (JArr (map JStr (incoming_capabilities d))) p;
          p = pk_set ''outgoingCapabilities'' (JArr (map JStr (outgoing_capabilities d))) p;
          p = pk_set ''tcpPort'' (JInt (int tcp_port)) p;
          p = (case instance_id d of Some i \<Rightarrow> pk_set ''instanceId'' (JStr i) p | None \<Rightarrow> p)
      in (case app_version d of Some v \<Rightarrow> pk_set ''appVersion'' (JStr v) p | None \<Rightarrow> p))"

definition string_array :: "json option \<Rightarrow> string list" where
  "string_array v = unwrap_or [] (map_option (List.map_filter as_str) (Option.bind v as_array))"

text \<open>A byte that continues a UTF-8 character, and the first \<open>n\<close> characters of a text.\<close>

definition is_continuation :: "char \<Rightarrow> bool" where
  "is_continuation c \<longleftrightarrow> 128 \<le> (of_char c :: nat) \<and> (of_char c :: nat) < 192"

fun take_chars :: "nat \<Rightarrow> string \<Rightarrow> string" where
  "take_chars n [] = []"
| "take_chars n (c # cs) =
     (if is_continuation c then c # take_chars n cs
      else (case n of 0 \<Rightarrow> [] | Suc m \<Rightarrow> c # take_chars m cs))"

definition count_chars :: "string \<Rightarrow> nat" where
  "count_chars s = length (filter (\<lambda>c. \<not> is_continuation c) s)"

definition name_punctuation :: string where
  "name_punctuation = [CHR 0x22, CHR 0x27] @ '',;:.!?()[]<>''"

definition filter_name :: "string \<Rightarrow> string" where
  "filter_name input = take_chars 32 (filter (\<lambda>c. c \<notin> set name_punctuation) input)"

definition is_ascii_alphanumeric :: "char \<Rightarrow> bool" where
  "is_ascii_alphanumeric c \<longleftrightarrow>
     (CHR ''0'' \<le> c \<and> c \<le> CHR ''9'') \<or> (CHR ''A'' \<le> c \<and> c \<le> CHR ''Z'') \<or> (CHR ''a'' \<le> c \<and> c \<le> CHR ''z'')"

definition is_valid_device_id :: "string \<Rightarrow> bool" where
  "is_valid_device_id i \<longleftrightarrow>
     32 \<le> length i \<and> length i \<le> 38
     \<and> list_all (\<lambda>c. is_ascii_alphanumeric c \<or> c = CHR ''_'' \<or> c = CHR ''-'') i"

definition keep_if :: "('a \<Rightarrow> bool) \<Rightarrow> 'a option \<Rightarrow> 'a option" where
  "keep_if P o' = (case o' of Some x \<Rightarrow> if P x then Some x else None | None \<Rightarrow> None)"

definition from_identity_packet :: "network_packet \<Rightarrow> device_info option" where
  "from_identity_packet p =
     (if packet_type p \<noteq> PACKET_TYPE_IDENTITY then None
      else (case (get_str p ''deviceId'', get_str p ''deviceName'') of
          (Some did, Some raw) \<Rightarrow>
            (let name = filter_name raw in
             if \<not> is_valid_device_id did \<or> name = [] then None
             else Some
               \<lparr>di_id = did, di_name = name,
                device_type = unwrap_or ''unknown'' (get_str p ''deviceType''),
                protocol_version = unwrap_or (- 1) (get_i64 p ''protocolVersion''),
                incoming_capabilities = string_array (obj_get (body p) ''incomingCapabilities''),
                outgoing_capabilities = string_array (obj_get (body p) ''outgoingCapabilities''),
                instance_id = keep_if (\<lambda>i. i \<noteq> [] \<and> length i \<le> 64) (get_str p ''instanceId''),
                app_version = keep_if (\<lambda>v. v \<noteq> [] \<and> length v \<le> 32) (get_str p ''appVersion'')\<rparr>)
        | _ \<Rightarrow> None))"

text \<open>\<open>device_links/mod.rs\<close>: who goes first, computed by both sides from the two ids.\<close>

definition local_goes_first :: "string \<Rightarrow> string \<Rightarrow> bool" where
  "local_goes_first local_device_id peer_device_id \<longleftrightarrow> local_device_id < peer_device_id"

subsection \<open>Lemmas\<close>

text \<open>What a set field reads back as; later fields do not disturb earlier ones.\<close>

lemma pk_set_fields [simp]:
  "packet_type (pk_set k v p) = packet_type p" "pk_id (pk_set k v p) = pk_id p"
  "payload_size (pk_set k v p) = payload_size p"
  "payload_transfer_info (pk_set k v p) = payload_transfer_info p"
  "obj_get (body (pk_set k v p)) k' = (if k' = k then Some v else obj_get (body p) k')"
  by (simp_all add: pk_set_def)

lemma packet_new_fields [simp]:
  "packet_type (packet_new now ty) = ty" "pk_id (packet_new now ty) = now" "body (packet_new now ty) = []"
  "payload_size (packet_new now ty) = None" "payload_transfer_info (packet_new now ty) = None"
  by (simp_all add: packet_new_def)

lemmas packet_reads = get_str_def get_i64_def get_bool_def

definition packet_ok :: "network_packet \<Rightarrow> bool" where
  "packet_ok p \<longleftrightarrow> is_i64 (pk_id p) \<and> (\<forall>n. payload_size p = Some n \<longrightarrow> is_i64 n)"

lemma packet_json_roundtrip: "packet_ok p \<Longrightarrow> packet_of_json (packet_to_json p) = p"
  by (cases p) (auto simp: packet_ok_def packet_of_json_def packet_to_json_def Let_def unwrap_or_def
      split: option.splits)

interpretation packet_wire: codec packet_to_json "\<lambda>j. Some (packet_of_json j)" packet_ok
  by unfold_locales (simp add: packet_json_roundtrip)

lemma take_chars_le: "count_chars s \<le> n \<Longrightarrow> take_chars n s = s"
  by (induction n s rule: take_chars.induct) (auto simp: count_chars_def split: nat.splits if_splits)

lemma count_take_chars: "count_chars (take_chars n s) \<le> n"
  by (induction n s rule: take_chars.induct) (auto simp: count_chars_def split: nat.splits)

lemma set_take_chars: "set (take_chars n s) \<subseteq> set s"
  by (induction n s rule: take_chars.induct) (auto split: nat.splits)

lemma filter_name_clean: "c \<in> set (filter_name s) \<Longrightarrow> c \<notin> set name_punctuation"
  using set_take_chars unfolding filter_name_def by fastforce

lemma string_array_strs: "string_array (Some (JArr (map JStr xs))) = xs"
  by (induction xs) (simp_all add: string_array_def unwrap_or_def List.map_filter_def)

text \<open>The identities a well-behaved device announces.\<close>

definition device_ok :: "device_info \<Rightarrow> bool" where
  "device_ok d \<longleftrightarrow>
     is_valid_device_id (di_id d) \<and> di_name d \<noteq> [] \<and> filter_name (di_name d) = di_name d
     \<and> is_i64 (protocol_version d)
     \<and> (\<forall>i. instance_id d = Some i \<longrightarrow> i \<noteq> [] \<and> length i \<le> 64)
     \<and> (\<forall>v. app_version d = Some v \<longrightarrow> v \<noteq> [] \<and> length v \<le> 32)"

lemma identity_roundtrip:
  assumes "device_ok d"
  shows "from_identity_packet (to_identity_packet now d port) = Some d"
  using assms
  by (cases d)
    (auto simp: device_ok_def from_identity_packet_def to_identity_packet_def Let_def packet_reads
      unwrap_or_def keep_if_def string_array_strs split: option.splits)

interpretation identity_wire: codec "\<lambda>d. to_identity_packet now d port" from_identity_packet device_ok
  for now :: int and port :: nat
  by unfold_locales (rule identity_roundtrip)

lemma keep_if_Some: "keep_if P o' = Some x \<Longrightarrow> P x"
  by (auto simp: keep_if_def split: option.splits if_splits)

lemma received_identity:
  assumes "from_identity_packet p = Some e"
  shows "is_valid_device_id (di_id e) \<and> di_name e \<noteq> [] \<and> count_chars (di_name e) \<le> 32
    \<and> set (di_name e) \<inter> set name_punctuation = {}
    \<and> (\<forall>i. instance_id e = Some i \<longrightarrow> i \<noteq> [] \<and> length i \<le> 64)
    \<and> (\<forall>v. app_version e = Some v \<longrightarrow> v \<noteq> [] \<and> length v \<le> 32)"
proof -
  obtain did raw where "get_str p ''deviceId'' = Some did" and "get_str p ''deviceName'' = Some raw"
    using assms by (auto simp: from_identity_packet_def split: if_splits option.splits)
  then have e: "is_valid_device_id (di_id e)" "di_name e = filter_name raw" "di_name e \<noteq> []"
    "instance_id e = keep_if (\<lambda>i. i \<noteq> [] \<and> length i \<le> 64) (get_str p ''instanceId'')"
    "app_version e = keep_if (\<lambda>v. v \<noteq> [] \<and> length v \<le> 32) (get_str p ''appVersion'')"
    using assms by (auto simp: from_identity_packet_def Let_def split: if_splits)
  have "count_chars (di_name e) \<le> 32" by (simp add: e(2) filter_name_def count_take_chars)
  moreover have "set (di_name e) \<inter> set name_punctuation = {}" using filter_name_clean by (auto simp only: e(2))
  moreover have "\<forall>i. instance_id e = Some i \<longrightarrow> i \<noteq> [] \<and> length i \<le> 64"
    unfolding e(4) by (intro allI impI) (erule keep_if_Some)
  moreover have "\<forall>v. app_version e = Some v \<longrightarrow> v \<noteq> [] \<and> length v \<le> 32"
    unfolding e(5) by (intro allI impI) (erule keep_if_Some)
  ultimately show ?thesis using e(1,3) by blast
qed

subsection \<open>Properties\<close>

text \<open>
  A packet survives the wire: if the JSON library reads back what it printed, every packet
  whose id and payload size are 64-bit integers is read back as it was, with its newline taken
  off, and the line sent is the packet's bytes and one newline.
\<close>

lemma packet_survives_wire:
  assumes "\<And>j t. print j = Some t \<Longrightarrow> parse t = Some j" and "packet_ok p" and "serialize print p = Some bytes"
  shows "deserialize parse bytes = Some p \<and> serialize_line print p = Some (bytes @ [newline])"
  using assms packet_json_roundtrip [OF assms(2)]
  by (auto simp: serialize_def serialize_line_def deserialize_def)

text \<open>What becomes of an identity on its way: the name without punctuation, and texts that are too long left out.\<close>

definition as_read :: "device_info \<Rightarrow> device_info" where
  "as_read d = d\<lparr>di_name := filter_name (di_name d),
     instance_id := keep_if (\<lambda>i. i \<noteq> [] \<and> length i \<le> 64) (instance_id d),
     app_version := keep_if (\<lambda>v. v \<noteq> [] \<and> length v \<le> 32) (app_version d)\<rparr>"

lemma filter_name_again: "filter_name (filter_name s) = filter_name s"
proof -
  have "filter (\<lambda>c. c \<notin> set name_punctuation) (filter_name s) = filter_name s"
    using filter_name_clean by (auto simp: filter_id_conv)
  then show ?thesis using take_chars_le [OF count_take_chars] by (metis filter_name_def)
qed

lemma announced_is_read:
  assumes "is_i64 (protocol_version d)"
  shows "from_identity_packet (to_identity_packet now d port) =
    (if is_valid_device_id (di_id d) \<and> filter_name (di_name d) \<noteq> [] then Some (as_read d) else None)"
  using assms
  by (cases d)
    (auto simp: as_read_def from_identity_packet_def to_identity_packet_def Let_def packet_reads
      unwrap_or_def keep_if_def string_array_strs split: option.splits)

lemma received_again:
  assumes "from_identity_packet p = Some e"
  shows "device_ok e"
proof -
  obtain raw where "di_name e = filter_name raw"
    using assms by (auto simp: from_identity_packet_def Let_def split: if_splits option.splits)
  moreover have "is_i64 (protocol_version e)"
    using assms
    by (auto simp: from_identity_packet_def Let_def unwrap_or_def get_i64_def is_i64_def bind_eq_Some_conv
        elim!: as_i64.elims split: if_splits option.splits)
  ultimately show ?thesis using received_identity [OF assms] by (simp add: device_ok_def filter_name_again)
qed

text \<open>
  C38. What a peer reads of an announced identity is exactly its id, type, version of the protocol and
  capabilities as they were announced, its name without punctuation and cut to 32 characters, and its
  instance and version texts where they are short; nothing, if the id is not valid or no name is left.
  And whatever anybody sends, an accepted identity has an id of 32 to 38 letters, digits, hyphens and
  underscores, a name of 1 to 32 characters without punctuation, and short instance and version texts;
  announced again, it is read as it is.
\<close>

theorem identity_is_clean:
  "(is_i64 (protocol_version d) \<longrightarrow>
      from_identity_packet (to_identity_packet now d port) =
        (if is_valid_device_id (di_id d) \<and> filter_name (di_name d) \<noteq> [] then Some (as_read d) else None))
   \<and> (from_identity_packet p = Some e \<longrightarrow>
        is_valid_device_id (di_id e) \<and> di_name e \<noteq> [] \<and> count_chars (di_name e) \<le> 32
        \<and> set (di_name e) \<inter> set name_punctuation = {}
        \<and> (\<forall>i. instance_id e = Some i \<longrightarrow> i \<noteq> [] \<and> length i \<le> 64)
        \<and> (\<forall>v. app_version e = Some v \<longrightarrow> v \<noteq> [] \<and> length v \<le> 32)
        \<and> from_identity_packet (to_identity_packet now e port) = Some e)"
  using announced_is_read received_identity identity_roundtrip [OF received_again] by blast

theorem identity_is_clean_witness:
  "let d = \<lparr>di_id = replicate 32 CHR ''a'', di_name = ''desk.lan'', device_type = ''desktop'', protocol_version = 8,
            incoming_capabilities = [''x''], outgoing_capabilities = [], instance_id = None, app_version = Some ''1''\<rparr>
   in from_identity_packet (to_identity_packet 1 d 1716) = Some (d\<lparr>di_name := ''desklan''\<rparr>)
    \<and> from_identity_packet (to_identity_packet 1 (d\<lparr>di_name := ''desklan''\<rparr>) 1716) = Some (d\<lparr>di_name := ''desklan''\<rparr>)"
proof -
  let ?d = "\<lparr>di_id = replicate 32 CHR ''a'', di_name = ''desk.lan'', device_type = ''desktop'', protocol_version = 8,
            incoming_capabilities = [''x''], outgoing_capabilities = [], instance_id = None, app_version = Some ''1''\<rparr>"
  have "is_valid_device_id (di_id ?d)" "is_i64 (protocol_version ?d)" "filter_name (di_name ?d) = ''desklan''"
    by (simp_all add: is_valid_device_id_def is_ascii_alphanumeric_def list_all_iff less_eq_char_def is_i64_def
        filter_name_def name_punctuation_def take_chars_le count_chars_def)
  moreover have "as_read ?d = ?d\<lparr>di_name := ''desklan''\<rparr>"
    using calculation(3) by (simp add: as_read_def keep_if_def)
  ultimately have "from_identity_packet (to_identity_packet 1 ?d 1716) = Some (?d\<lparr>di_name := ''desklan''\<rparr>)"
    using identity_is_clean [of ?d 1 1716] by simp
  then show ?thesis
    using identity_is_clean [of ?d 1 1716 "to_identity_packet 1 ?d 1716" "?d\<lparr>di_name := ''desklan''\<rparr>"] by (simp add: Let_def)
qed

end
