(* ===== verification/Pairing.thy ===== *)
theory Pairing
  imports Packet
begin

section \<open>Pairing two devices\<close>

text \<open>
  \<open>src/device_links/pairing.rs\<close> and \<open>pairing_transport.rs\<close>: the state machine each side runs
  for a peer, the code both users compare, and the rule that keeps pairing on the local network; and
  of \<open>daemon/packet_handler.rs\<close> what a pair packet and the proof of a scanned code do to it.

  The clock is an argument (\<open>now\<close> seconds for \<open>unix_secs()\<close>, \<open>ms\<close> for the packet id); within
  one call it is read once. Timestamps are \<open>i64\<close> read as \<^typ>\<open>int\<close>. \<open>sha256\<close> is the parameter
  for \<open>openssl\<close>'s digest, of which a length of at least four bytes is used.
\<close>

definition ALLOWED_TIMESTAMP_DIFFERENCE_SECONDS :: int where
  "ALLOWED_TIMESTAMP_DIFFERENCE_SECONDS = 5 * 60"

definition PAIR_TIMEOUT_SECS :: int where
  "PAIR_TIMEOUT_SECS = 30"

datatype pair_state = NotPaired | Requested | RequestedByPeer | Paired

record pairing_handler =
  ph_state :: pair_state
  ph_timestamp :: int
  ph_deadline :: "int option"

datatype pairing_error = AlreadyPaired | NoRequestToAccept

definition handler_new :: "bool \<Rightarrow> pairing_handler" where
  "handler_new is_paired =
     \<lparr>ph_state = (if is_paired then Paired else NotPaired), ph_timestamp = 0, ph_deadline = None\<rparr>"

definition accept_packet ::
  "int \<Rightarrow> pairing_handler \<Rightarrow> (pairing_error, network_packet) result \<times> pairing_handler" where
  "accept_packet ms h =
     (if ph_state h \<noteq> RequestedByPeer then (Inl NoRequestToAccept, h)
      else (Inr (pk_set ''pair'' (JBool True) (packet_new ms PACKET_TYPE_PAIR)),
            h\<lparr>ph_state := Paired, ph_deadline := None\<rparr>))"

definition request_packet ::
  "int \<Rightarrow> int \<Rightarrow> pairing_handler \<Rightarrow> (pairing_error, network_packet) result \<times> pairing_handler" where
  "request_packet now ms h =
     (if ph_state h = Paired then (Inl AlreadyPaired, h)
      else if ph_state h = RequestedByPeer then accept_packet ms h
      else
        (let h = (if ph_state h \<noteq> Requested then h\<lparr>ph_timestamp := now\<rparr> else h);
             h = h\<lparr>ph_state := Requested, ph_deadline := Some (now + PAIR_TIMEOUT_SECS)\<rparr>
         in (Inr (pk_set ''timestamp'' (JInt (ph_timestamp h))
                    (pk_set ''pair'' (JBool True) (packet_new ms PACKET_TYPE_PAIR))), h)))"

definition reject_packet :: "int \<Rightarrow> pairing_handler \<Rightarrow> network_packet \<times> pairing_handler" where
  "reject_packet ms h =
     (pk_set ''pair'' (JBool False) (packet_new ms PACKET_TYPE_PAIR),
      h\<lparr>ph_state := NotPaired, ph_deadline := None\<rparr>)"

definition timestamp_is_plausible :: "int \<Rightarrow> int \<Rightarrow> bool" where
  "timestamp_is_plausible now timestamp \<longleftrightarrow>
     abs_diff timestamp now \<le> nat \<bar>ALLOWED_TIMESTAMP_DIFFERENCE_SECONDS\<bar>"

definition receive :: "int \<Rightarrow> network_packet \<Rightarrow> bool \<Rightarrow> pairing_handler \<Rightarrow> pairing_handler" where
  "receive now p goes_first h =
     (if packet_type p \<noteq> PACKET_TYPE_PAIR then h
      else if get_bool p ''pair'' = Some True then
        (case ph_state h of
           Requested \<Rightarrow>
             (case get_i64 p ''timestamp'' of
                None \<Rightarrow> h\<lparr>ph_state := Paired, ph_deadline := None\<rparr>
              | Some t \<Rightarrow>
                  if \<not> goes_first \<and> timestamp_is_plausible now t
                  then h\<lparr>ph_timestamp := t, ph_state := RequestedByPeer,
                         ph_deadline := Some (now + PAIR_TIMEOUT_SECS)\<rparr>
                  else h)
         | Paired \<Rightarrow> h
         | NotPaired \<Rightarrow>
             (case get_i64 p ''timestamp'' of
                None \<Rightarrow> h\<lparr>ph_state := NotPaired\<rparr>
              | Some t \<Rightarrow>
                  if \<not> timestamp_is_plausible now t then h\<lparr>ph_state := NotPaired\<rparr>
                  else h\<lparr>ph_timestamp := t, ph_state := RequestedByPeer,
                         ph_deadline := Some (now + PAIR_TIMEOUT_SECS)\<rparr>)
         | RequestedByPeer \<Rightarrow> h)
      else h\<lparr>ph_state := NotPaired, ph_deadline := None\<rparr>)"

definition expire_if_due :: "int \<Rightarrow> pairing_handler \<Rightarrow> bool \<times> pairing_handler" where
  "expire_if_due now_secs h =
     (case ph_deadline h of
        None \<Rightarrow> (False, h)
      | Some deadline \<Rightarrow>
          if now_secs < deadline then (False, h)
          else if ph_state h \<noteq> Requested \<and> ph_state h \<noteq> RequestedByPeer
          then (False, h\<lparr>ph_deadline := None\<rparr>)
          else (True, h\<lparr>ph_state := NotPaired, ph_deadline := None\<rparr>))"

subsection \<open>The code the users compare\<close>

text \<open>\<open>u32::from_be_bytes\<close> of the first four bytes, and \<open>format!("{:06}")\<close>.\<close>

definition be_u32 :: "byte list \<Rightarrow> nat" where
  "be_u32 d = ((unat (d ! 0) * 256 + unat (d ! 1)) * 256 + unat (d ! 2)) * 256 + unat (d ! 3)"

definition pad_zeros :: "nat \<Rightarrow> string \<Rightarrow> string" where
  "pad_zeros width s = replicate (width - length s) (CHR ''0'') @ s"

definition six_digits :: "byte list \<Rightarrow> string" where
  "six_digits digest = pad_zeros 6 (show_nat (be_u32 digest mod 1000000))"

definition ascii_bytes :: "string \<Rightarrow> byte list" where
  "ascii_bytes s = map (\<lambda>c. word_of_nat (of_char c)) s"

definition verification_key :: "(byte list \<Rightarrow> byte list) \<Rightarrow> byte list \<Rightarrow> byte list \<Rightarrow> int \<Rightarrow> string" where
  "verification_key sha256 local_der remote_der timestamp =
     (let (first, second) = (if local_der < remote_der then (remote_der, local_der) else (local_der, remote_der))
      in six_digits (sha256 (first @ second @ ascii_bytes (show_int timestamp))))"

subsection \<open>Answers around the state machine\<close>

definition needs_pair_reconfirmation :: "pair_state \<Rightarrow> pair_state \<Rightarrow> network_packet \<Rightarrow> bool" where
  "needs_pair_reconfirmation previous now p \<longleftrightarrow>
     previous = Paired \<and> now = Paired \<and> get_bool p ''pair'' = Some True
     \<and> get_i64 p ''timestamp'' \<noteq> None"

definition request_refused_for_clock :: "pair_state \<Rightarrow> pair_state \<Rightarrow> network_packet \<Rightarrow> bool" where
  "request_refused_for_clock previous now p \<longleftrightarrow>
     previous = NotPaired \<and> now = NotPaired \<and> get_bool p ''pair'' = Some True
     \<and> get_i64 p ''timestamp'' \<noteq> None"

text \<open>
  The pair packet in \<open>daemon/packet_handler.rs\<close>: the handler's transition and the answers sent
  back on the link, a refusal for a clock that is off and a confirmation for a trusted peer.
\<close>

definition on_pair_packet ::
  "int \<Rightarrow> int \<Rightarrow> network_packet \<Rightarrow> bool \<Rightarrow> pairing_handler \<Rightarrow> network_packet list \<times> pairing_handler" where
  "on_pair_packet now ms p goes_first h =
     (let h' = receive now p goes_first h;
          refusal = (if request_refused_for_clock (ph_state h) (ph_state h') p
                     then [pk_set ''pair'' (JBool False) (packet_new ms PACKET_TYPE_PAIR)] else []);
          acknowledgement = (if needs_pair_reconfirmation (ph_state h) (ph_state h') p
                     then [pk_set ''pair'' (JBool True) (packet_new ms PACKET_TYPE_PAIR)] else [])
      in (refusal @ acknowledgement, h'))"

text \<open>
  \<open>handle_qr_pairing_proof\<close>: a proof of the QR code pairs at once. \<open>verified\<close> is what \<open>check_qr_proof\<close>
  (\<open>pairing_qr::verify\<close>) answered, \<open>trusted\<close> whether the trust could be stored.
\<close>

definition on_qr_proof :: "bool \<Rightarrow> bool \<Rightarrow> int \<Rightarrow> pairing_handler \<Rightarrow> network_packet list \<times> pairing_handler" where
  "on_qr_proof verified trusted ms h =
     (let h' = (if verified then (if trusted then handler_new True else handler_new False) else h);
          ok = (verified \<and> trusted);
          already_paired = (ph_state h' = Paired)
      in (if ok \<or> \<not> already_paired
          then [pk_set ''pair'' (JBool ok) (packet_new ms PACKET_TYPE_PAIR)] else [], h'))"

subsection \<open>Which link may carry what\<close>

definition OFF_LAN_PAIRING_COMPILED :: bool where
  "OFF_LAN_PAIRING_COMPILED = False"

definition OFF_LAN_SETTING :: string where
  "OFF_LAN_SETTING = ''offLanPairing''"

datatype pairing_transport_kind = Lan | Relay

definition flag_open :: "bool \<Rightarrow> bool \<Rightarrow> bool" where
  "flag_open compiled requested = (compiled \<and> requested)"

text \<open>\<open>extra\<close> is \<open>app_settings().extra\<close>.\<close>

definition off_lan_pairing_enabled :: "jobject \<Rightarrow> bool" where
  "off_lan_pairing_enabled extra =
     (OFF_LAN_PAIRING_COMPILED
      \<and> flag_open True (unwrap_or False (Option.bind (obj_get extra OFF_LAN_SETTING) as_bool)))"

definition packet_may_cross :: "pairing_transport_kind \<Rightarrow> network_packet \<Rightarrow> bool \<Rightarrow> bool" where
  "packet_may_cross kind p off_lan =
     (case kind of
        Lan \<Rightarrow> True
      | Relay \<Rightarrow>
          if packet_type p = PACKET_TYPE_WEBRTC_SIGNAL_V1 \<or> packet_type p = PACKET_TYPE_HEARTBEAT then True
          else if packet_type p = PACKET_TYPE_PAIR
          then off_lan \<or> Option.bind (obj_get (body p) ''pair'') as_bool = Some False
          else if packet_type p = PACKET_TYPE_PAIR_QR then off_lan
          else False)"

definition admits :: "jobject \<Rightarrow> pairing_transport_kind \<Rightarrow> network_packet \<Rightarrow> bool" where
  "admits extra kind p = packet_may_cross kind p (off_lan_pairing_enabled extra)"

subsection \<open>The handler keeps its deadline\<close>

text \<open>A deadline is set exactly while a negotiation is open.\<close>

definition handler_ok :: "pairing_handler \<Rightarrow> bool" where
  "handler_ok h \<longleftrightarrow> (ph_deadline h \<noteq> None \<longleftrightarrow> ph_state h = Requested \<or> ph_state h = RequestedByPeer)"

lemma handler_ok_new [wf_intros]: "handler_ok (handler_new b)"
  by (simp add: handler_ok_def handler_new_def)

lemma handler_ok_request [wf_intros]: "handler_ok h \<Longrightarrow> handler_ok (snd (request_packet now ms h))"
  by (auto simp: handler_ok_def request_packet_def accept_packet_def Let_def)

lemma handler_ok_accept [wf_intros]: "handler_ok h \<Longrightarrow> handler_ok (snd (accept_packet ms h))"
  by (auto simp: handler_ok_def accept_packet_def)

lemma handler_ok_reject [wf_intros]: "handler_ok (snd (reject_packet ms h))"
  by (simp add: handler_ok_def reject_packet_def)

lemma handler_ok_receive [wf_intros]: "handler_ok h \<Longrightarrow> handler_ok (receive now p g h)"
  by (auto simp: handler_ok_def receive_def split: pair_state.splits option.splits)

lemma handler_ok_expire [wf_intros]: "handler_ok h \<Longrightarrow> handler_ok (snd (expire_if_due now h))"
  by (auto simp: handler_ok_def expire_if_due_def split: option.splits)

lemma local_goes_first_one:
  "a \<noteq> b \<Longrightarrow> local_goes_first a b = (\<not> local_goes_first b a)"
  by (auto simp: local_goes_first_def)

lemma verification_key_sym: "verification_key sha256 a b t = verification_key sha256 b a t"
  by (cases "a < b"; cases "b < a") (auto simp: verification_key_def Let_def)

lemma length_show_nat: "n < 10 ^ k \<Longrightarrow> 0 < k \<Longrightarrow> length (show_nat n) \<le> k"
proof (induction k arbitrary: n)
  case (Suc k)
  show ?case
  proof (cases "n < 10")
    case True
    then show ?thesis by (simp add: show_nat.simps [of n])
  next
    case False
    then have "0 < k" using Suc.prems by (cases k) auto
    moreover have "n div 10 < 10 ^ k" using Suc.prems by (simp add: div_less_iff_less_mult mult.commute)
    ultimately show ?thesis using Suc.IH [of "n div 10"] False by (simp add: show_nat.simps [of n])
  qed
qed simp

lemma six_digits_shape: "length (six_digits d) = 6" "set (six_digits d) \<subseteq> digit_char ` {..<10}"
proof -
  have "length (show_nat (be_u32 d mod 1000000)) \<le> 6" by (rule length_show_nat) simp_all
  then show "length (six_digits d) = 6" by (simp add: six_digits_def pad_zeros_def)
  have "CHR ''0'' = digit_char 0" by code_simp
  then show "set (six_digits d) \<subseteq> digit_char ` {..<10}"
    using set_show_nat by (auto simp: six_digits_def pad_zeros_def)
qed


subsection \<open>Two sides and their packets\<close>

text \<open>
  Two devices, side \<open>True\<close> and side \<open>False\<close>, both running this code, with the packets on their
  way from each side, over the life of a link. A step is labelled with the consent a person gave in
  it: accepting a request, by the button or by asking for pairing while the other's request was on
  screen; or scanning the code on this side's screen, which a verified proof shows.
\<close>

record pair_sys =
  ps_handler :: "bool \<Rightarrow> pairing_handler"
  ps_sent :: "bool \<Rightarrow> network_packet list"

datatype consent = NoConsent | Accepted bool | Scanned bool

definition pair_init :: "pair_sys \<Rightarrow> bool" where
  "pair_init s \<longleftrightarrow> s = \<lparr>ps_handler = (\<lambda>_. handler_new False), ps_sent = (\<lambda>_. [])\<rparr>"

inductive pair_step :: "(bool \<Rightarrow> bool) \<Rightarrow> consent \<Rightarrow> pair_sys \<Rightarrow> pair_sys \<Rightarrow> bool" for first :: "bool \<Rightarrow> bool" where
  ask: "is_i64 now \<Longrightarrow> request_packet now ms (ps_handler s d) = (Inr p, h) \<Longrightarrow>
    pair_step first (if ph_state (ps_handler s d) = RequestedByPeer then Accepted d else NoConsent) s
      (s\<lparr>ps_handler := (ps_handler s)(d := h), ps_sent := (ps_sent s)(d := ps_sent s d @ [p])\<rparr>)"
| take: "accept_packet ms (ps_handler s d) = (Inr p, h) \<Longrightarrow>
    pair_step first (Accepted d) s
      (s\<lparr>ps_handler := (ps_handler s)(d := h), ps_sent := (ps_sent s)(d := ps_sent s d @ [p])\<rparr>)"
| scan: "on_qr_proof verified trusted ms (ps_handler s d) = (replies, h) \<Longrightarrow>
    pair_step first (if verified then Scanned d else NoConsent) s
      (s\<lparr>ps_handler := (ps_handler s)(d := h), ps_sent := (ps_sent s)(d := ps_sent s d @ replies)\<rparr>)"
| decline: "reject_packet ms (ps_handler s d) = (p, h) \<Longrightarrow>
    pair_step first NoConsent s
      (s\<lparr>ps_handler := (ps_handler s)(d := h), ps_sent := (ps_sent s)(d := ps_sent s d @ [p])\<rparr>)"
| deliver: "is_i64 now \<Longrightarrow> ps_sent s (\<not> d) = p # ps \<Longrightarrow>
    on_pair_packet now ms p (first d) (ps_handler s d) = (replies, h) \<Longrightarrow>
    pair_step first NoConsent s (s\<lparr>ps_handler := (ps_handler s)(d := h),
      ps_sent := (ps_sent s)((\<not> d) := ps, d := ps_sent s d @ replies)\<rparr>)"
| expire: "expire_if_due now (ps_handler s d) = (True, h) \<Longrightarrow> reject_packet ms h = (p, h') \<Longrightarrow>
    pair_step first NoConsent s
      (s\<lparr>ps_handler := (ps_handler s)(d := h'), ps_sent := (ps_sent s)(d := ps_sent s d @ [p])\<rparr>)"
| lose: "pair_step first NoConsent s (s\<lparr>ps_sent := (ps_sent s)(d := ps)\<rparr>)" if "set ps \<subseteq> set (ps_sent s d)"

text \<open>A run from a state, with the consents of its steps in their order.\<close>

inductive pair_run :: "(bool \<Rightarrow> bool) \<Rightarrow> pair_sys \<Rightarrow> consent list \<Rightarrow> pair_sys \<Rightarrow> bool" for first s where
  run_start: "pair_run first s [] s"
| run_more: "pair_run first s cs t \<Longrightarrow> pair_step first c t u \<Longrightarrow> pair_run first s (cs @ [c]) u"

text \<open>Neither side is paired and no confirmation is on its way: every \<open>pair: true\<close> there is a request.\<close>

definition is_request :: "network_packet \<Rightarrow> bool" where
  "is_request p \<longleftrightarrow> get_bool p ''pair'' = Some True \<longrightarrow> get_i64 p ''timestamp'' \<noteq> None"

definition unpaired :: "pair_sys \<Rightarrow> bool" where
  "unpaired s \<longleftrightarrow> list_all (\<lambda>d. ph_state (ps_handler s d) \<noteq> Paired \<and> list_all is_request (ps_sent s d)) [True, False]"

lemma unpaired_all: "unpaired s \<longleftrightarrow> (\<forall>d. ph_state (ps_handler s d) \<noteq> Paired \<and> list_all is_request (ps_sent s d))"
  by (simp add: unpaired_def all_bool_eq)

definition pair_inv :: "pair_sys \<Rightarrow> bool" where
  "pair_inv s \<longleftrightarrow> (\<forall>d. is_i64 (ph_timestamp (ps_handler s d)) \<and> handler_ok (ps_handler s d))"

lemma get_i64_is [simp]: "get_i64 p k = Some t \<Longrightarrow> is_i64 t"
  by (auto simp: get_i64_def bind_eq_Some_conv elim!: as_i64.elims split: if_splits)

lemma receive_timestamp: "is_i64 (ph_timestamp h) \<Longrightarrow> is_i64 (ph_timestamp (receive now p g h))"
  by (auto simp: receive_def split: pair_state.splits option.splits)

lemma receive_not_paired:
  "is_request p \<Longrightarrow> ph_state h \<noteq> Paired \<Longrightarrow> ph_state (receive now p g h) \<noteq> Paired"
  by (auto simp: receive_def is_request_def split: pair_state.splits option.splits)

lemma replies_requests:
  "ph_state h \<noteq> Paired \<Longrightarrow> list_all is_request (fst (on_pair_packet now ms p g h))"
  by (simp add: on_pair_packet_def Let_def needs_pair_reconfirmation_def is_request_def packet_reads)

lemma request_packet_inv:
  assumes "request_packet now ms h = (Inr p, h')" and "is_i64 now" and "is_i64 (ph_timestamp h)"
    and "ph_state h \<noteq> RequestedByPeer"
  shows "is_i64 (ph_timestamp h')" and "is_request p" and "ph_state h' \<noteq> Paired"
  using assms by (auto simp: request_packet_def Let_def is_request_def packet_reads split: if_splits)

lemma pair_inv_step:
  assumes inv: "pair_inv s" and "pair_step first c s t"
  shows "pair_inv t"
  using assms(2)
proof cases
  case (ask now ms d p h)
  have "is_i64 (ph_timestamp h)"
  proof (cases "ph_state (ps_handler s d) = RequestedByPeer")
    case True
    then have "ph_timestamp h = ph_timestamp (ps_handler s d)" using ask by (auto simp: request_packet_def accept_packet_def)
    then show ?thesis using inv by (simp add: pair_inv_def)
  next
    case False
    then show ?thesis using request_packet_inv(1) [OF ask(4,3) _ False] inv by (simp add: pair_inv_def)
  qed
  moreover have "handler_ok h" using handler_ok_request [of "ps_handler s d" now ms] inv ask by (simp add: pair_inv_def)
  ultimately show ?thesis using inv ask by (simp add: pair_inv_def)
next
  case (take ms d p h)
  then show ?thesis
    using inv handler_ok_accept [of "ps_handler s d" ms] by (auto simp: pair_inv_def accept_packet_def split: if_splits)
next
  case (scan verified trusted ms d replies h)
  then have "h = ps_handler s d \<or> h = handler_new True \<or> h = handler_new False" by (auto simp: on_qr_proof_def Let_def)
  moreover have "is_i64 (ph_timestamp (handler_new b))" for b by (simp add: handler_new_def is_i64_def)
  ultimately show ?thesis using inv scan by (auto simp: pair_inv_def handler_ok_new)
next
  case (decline ms d p h)
  then show ?thesis
    using inv handler_ok_reject [of ms "ps_handler s d"] by (auto simp: pair_inv_def reject_packet_def)
next
  case (deliver now d p ps ms replies h)
  then have "h = receive now p (first d) (ps_handler s d)" by (auto simp: on_pair_packet_def Let_def)
  then show ?thesis using inv deliver by (simp add: receive_timestamp handler_ok_receive pair_inv_def)
next
  case (expire now d h ms p h')
  have "handler_ok h'" "is_i64 (ph_timestamp h')"
    using expire inv by (auto simp: reject_packet_def expire_if_due_def pair_inv_def handler_ok_def split: option.splits if_splits)
  then show ?thesis using inv expire by (simp add: pair_inv_def)
next
  case (lose ps d)
  then show ?thesis using inv by (simp add: pair_inv_def)
qed

interpretation pair_system: invariant_system pair_init "\<lambda>s t. \<exists>c. pair_step first c s t" pair_inv for first :: "bool \<Rightarrow> bool"
proof (unfold_locales, goal_cases)
  case (1 s)
  then show ?case by (simp add: pair_init_def pair_inv_def handler_new_def handler_ok_def is_i64_def)
qed (use pair_inv_step in blast)

lemma unpaired_step:
  assumes inv: "pair_inv s" and un: "unpaired s" and step: "pair_step first NoConsent s t"
  shows "unpaired t"
  using step
proof cases
  case (ask now ms d p h)
  then have "ph_state (ps_handler s d) \<noteq> RequestedByPeer" by (auto split: if_splits)
  then show ?thesis using un inv ask request_packet_inv [OF ask(4,3)] by (simp add: unpaired_all pair_inv_def)
next
  case (scan verified trusted ms d replies h)
  then have "h = ps_handler s d" "list_all is_request replies"
    by (auto simp: on_qr_proof_def Let_def is_request_def packet_reads split: if_splits)
  then show ?thesis using un scan by (auto simp: unpaired_all)
next
  case (decline ms d p h)
  then show ?thesis using un by (auto simp: unpaired_all reject_packet_def is_request_def packet_reads)
next
  case (deliver now d p ps ms replies h)
  have "is_request p" "list_all is_request ps" "ph_state (ps_handler s d) \<noteq> Paired"
    using un deliver(3) unfolding unpaired_all by (metis list.pred_inject(2))+
  moreover have "h = receive now p (first d) (ps_handler s d)" "replies = fst (on_pair_packet now ms p (first d) (ps_handler s d))"
    using deliver by (auto simp: on_pair_packet_def Let_def)
  ultimately show ?thesis using un deliver(1) receive_not_paired replies_requests by (auto simp: unpaired_all)
next
  case (expire now d h ms p h')
  then have "ph_state h' = NotPaired" "is_request p"
    by (auto simp: reject_packet_def is_request_def packet_reads)
  then show ?thesis using un expire by (auto simp: unpaired_all)
next
  case (lose ps d)
  then show ?thesis using un by (auto simp: unpaired_all list_all_iff)
qed

lemma unpaired_run:
  assumes "pair_run first s cs t" "pair_inv s" "unpaired s" "\<forall>c \<in> set cs. c = NoConsent"
  shows "unpaired t"
proof -
  have "pair_inv t \<and> ((\<forall>c \<in> set cs. c = NoConsent) \<longrightarrow> unpaired t)"
    using assms(1)
  proof induction
    case (run_more cs t c u)
    then show ?case using pair_inv_step [OF _ run_more(2)] unpaired_step by auto
  qed (use assms(2,3) in simp)
  then show ?thesis using assms(4) by blast
qed

subsection \<open>Properties\<close>

text \<open>
  C34. Nobody is paired without a person's consent, and consent does not outlive the pairing it was
  given for. Whatever was asked, lost, expired, repeated or scanned between two devices running this
  code: from any moment when neither is paired and no confirmation is on its way, a device is paired
  again only after the user of one of them accepted a request, or a proof of the code on the screen of
  one of them was verified.
\<close>

theorem paired_means_accepted:
  assumes "reachable pair_init (\<lambda>s t. \<exists>c. pair_step first c s t) s" and "unpaired s"
    and "pair_run first s cs t" and "ph_state (ps_handler t d) = Paired"
  shows "\<exists>d'. Accepted d' \<in> set cs \<or> Scanned d' \<in> set cs"
proof (rule ccontr)
  assume "\<nexists>d'. Accepted d' \<in> set cs \<or> Scanned d' \<in> set cs"
  then have "\<forall>c \<in> set cs. c = NoConsent" by (metis consent.exhaust)
  from unpaired_run [OF assms(3) pair_system.reachable_inv [OF assms(1)] assms(2) this] show False
    using assms(4) by (simp add: unpaired_all)
qed

lemma demo_pairing:
  "\<exists>s t. reachable pair_init (\<lambda>s t. \<exists>c. pair_step (\<lambda>d. d) c s t) s \<and> unpaired s
    \<and> pair_run (\<lambda>d. d) s [NoConsent, NoConsent, Accepted False] t \<and> ph_state (ps_handler t False) = Paired"
proof -
  let ?h0 = "handler_new False"
  let ?req = "pk_set ''timestamp'' (JInt 100) (pk_set ''pair'' (JBool True) (packet_new 1 PACKET_TYPE_PAIR))"
  let ?asked = "\<lparr>ph_state = Requested, ph_timestamp = 100, ph_deadline = Some 130\<rparr>"
  let ?shown = "\<lparr>ph_state = RequestedByPeer, ph_timestamp = 100, ph_deadline = Some 131\<rparr>"
  let ?a = "\<lparr>ps_handler = (\<lambda>_. ?h0), ps_sent = (\<lambda>_. [])\<rparr>"
  let ?b = "\<lparr>ps_handler = (\<lambda>_. ?h0)(True := ?asked), ps_sent = (\<lambda>_. [])(True := [?req])\<rparr>"
  let ?c = "\<lparr>ps_handler = (\<lambda>_. ?h0)(True := ?asked, False := ?shown), ps_sent = (\<lambda>_. [])(True := [], False := [])\<rparr>"
  have init: "reachable pair_init (\<lambda>s t. \<exists>c. pair_step (\<lambda>d. d) c s t) ?a" by (rule reach_init) (simp add: pair_init_def)
  have un: "unpaired ?a" by (simp add: unpaired_def handler_new_def)
  have "pair_step (\<lambda>d. d) NoConsent ?a ?b"
    using ask [of 100 1 ?a True ?req ?asked "\<lambda>d. d"]
    by (simp add: is_i64_def request_packet_def handler_new_def PAIR_TIMEOUT_SECS_def)
  note run = run_more [OF run_more [OF run_start this]]
  have "pair_step (\<lambda>d. d) NoConsent ?b ?c"
    using deliver [of 101 ?b False ?req "[]" 2 "\<lambda>d. d" "[]" ?shown]
    by (simp add: is_i64_def on_pair_packet_def receive_def handler_new_def packet_reads timestamp_is_plausible_def
        abs_diff_def ALLOWED_TIMESTAMP_DIFFERENCE_SECONDS_def PAIR_TIMEOUT_SECS_def request_refused_for_clock_def
        needs_pair_reconfirmation_def fun_upd_twist fun_upd_idem_iff)
  note run = run_more [OF run [OF this]]
  obtain t where "pair_step (\<lambda>d. d) (Accepted False) ?c t" "ph_state (ps_handler t False) = Paired"
    using pair_step.take [of 3 ?c False _ _ "\<lambda>d. d"] by (simp add: accept_packet_def)
  then show ?thesis using run init un by fastforce
qed

theorem paired_means_accepted_witness:
  "\<exists>s t. pair_run (\<lambda>d. d) s [NoConsent, NoConsent, Accepted False] t \<and> ph_state (ps_handler t False) = Paired
    \<and> (\<exists>d'. Accepted d' \<in> set [NoConsent, NoConsent, Accepted False] \<or> Scanned d' \<in> set [NoConsent, NoConsent, Accepted False])"
proof -
  obtain s t where run: "reachable pair_init (\<lambda>s t. \<exists>c. pair_step (\<lambda>d. d) c s t) s" "unpaired s"
    "pair_run (\<lambda>d. d) s [NoConsent, NoConsent, Accepted False] t" "ph_state (ps_handler t False) = Paired"
    using demo_pairing by blast
  from paired_means_accepted [OF run] run(3,4) show ?thesis by blast
qed

text \<open>
  Requests that cross end in one prompt and one code: if both sides ask at once and each
  receives the other's request with clocks less than five minutes apart, exactly the side whose
  id is greater shows the prompt, the other keeps its request, both hold the same timestamp, and
  the two screens show the same code.
\<close>

lemma crossing_requests_agree:
  assumes "a \<noteq> b" and "is_i64 ta" and "is_i64 tb"
    and "request_packet ta ms (handler_new False) = (Inr pa, ha)"
    and "request_packet tb ms' (handler_new False) = (Inr pb, hb)"
    and "\<bar>tb - now\<bar> \<le> 300" and "\<bar>ta - now'\<bar> \<le> 300"
  shows "let ha' = receive now pb (local_goes_first a b) ha;
             hb' = receive now' pa (local_goes_first b a) hb
    in {ph_state ha', ph_state hb'} = {Requested, RequestedByPeer}
      \<and> ph_timestamp ha' = ph_timestamp hb'
      \<and> (ph_state ha' = RequestedByPeer \<longleftrightarrow> b < a)
      \<and> verification_key sha256 ka kb (ph_timestamp ha') = verification_key sha256 kb ka (ph_timestamp hb')"
proof -
  have p: "get_i64 pa ''timestamp'' = Some ta" "get_i64 pb ''timestamp'' = Some tb"
    "get_bool pa ''pair'' = Some True" "get_bool pb ''pair'' = Some True"
    "packet_type pa = PACKET_TYPE_PAIR" "packet_type pb = PACKET_TYPE_PAIR"
    and h: "ph_state ha = Requested" "ph_timestamp ha = ta" "ph_state hb = Requested" "ph_timestamp hb = tb"
    using assms(2-5) by (auto simp: request_packet_def handler_new_def Let_def packet_reads)
  have pl: "timestamp_is_plausible now tb" "timestamp_is_plausible now' ta"
    using assms(6,7) by (simp_all add: timestamp_is_plausible_def abs_diff_def ALLOWED_TIMESTAMP_DIFFERENCE_SECONDS_def)
  show ?thesis
    using assms(1) local_goes_first_one [OF assms(1)] verification_key_sym [of sha256 ka kb]
    by (cases "local_goes_first a b") (auto simp: receive_def p h pl Let_def local_goes_first_def)
qed

text \<open>
  Pairing does not travel through the relay: in a shipped build, whatever the settings say,
  a packet admitted on a relay link can end a pairing but never start, answer or complete one.
\<close>

lemma relay_link_never_pairs:
  assumes "admits extra Relay p"
  shows "packet_type p \<noteq> PACKET_TYPE_PAIR_QR
    \<and> ph_state (receive now p goes_first h) \<in> {ph_state h, NotPaired}"
proof -
  have "packet_type p \<noteq> PACKET_TYPE_PAIR \<or> get_bool p ''pair'' = Some False"
    using assms
    by (auto simp: admits_def packet_may_cross_def off_lan_pairing_enabled_def OFF_LAN_PAIRING_COMPILED_def
        get_bool_def PACKET_TYPE_PAIR_def PACKET_TYPE_WEBRTC_SIGNAL_V1_def PACKET_TYPE_HEARTBEAT_def split: if_splits)
  moreover have "packet_type p \<noteq> PACKET_TYPE_PAIR_QR"
    using assms
    by (auto simp: admits_def packet_may_cross_def off_lan_pairing_enabled_def OFF_LAN_PAIRING_COMPILED_def
        PACKET_TYPE_PAIR_QR_def PACKET_TYPE_PAIR_def PACKET_TYPE_WEBRTC_SIGNAL_V1_def PACKET_TYPE_HEARTBEAT_def
        split: if_splits)
  ultimately show ?thesis by (auto simp: receive_def)
qed

text \<open>
  Every open negotiation ends: in every reachable state an open negotiation has a deadline,
  and the first check at or after it returns the handler to \<open>NotPaired\<close> and says so.
\<close>

lemma negotiation_expires:
  assumes "reachable pair_init (\<lambda>s t. \<exists>c. pair_step first c s t) s" and "h = ps_handler s d"
    and "ph_state h = Requested \<or> ph_state h = RequestedByPeer"
  shows "\<exists>deadline. ph_deadline h = Some deadline
    \<and> (\<forall>now. deadline \<le> now \<longrightarrow>
         expire_if_due now h = (True, h\<lparr>ph_state := NotPaired, ph_deadline := None\<rparr>))"
proof -
  have "handler_ok h" using pair_system.reachable_inv [OF assms(1)] assms(2) by (simp add: pair_inv_def)
  then obtain deadline where "ph_deadline h = Some deadline" using assms(3) by (auto simp: handler_ok_def)
  then show ?thesis using assms(3) by (auto simp: expire_if_due_def)
qed

text \<open>
  C35. Answers are not answered: whatever a device replies to a pair packet, the device that
  receives the reply sends nothing back, so two devices never confirm each other forever.
\<close>

theorem replies_are_not_answered:
  assumes "q \<in> set (fst (on_pair_packet now ms p g h))"
  shows "fst (on_pair_packet now' ms' q g' h') = []"
  using assms
  by (auto simp: on_pair_packet_def Let_def request_refused_for_clock_def needs_pair_reconfirmation_def packet_reads
      split: if_splits)

theorem replies_are_not_answered_witness:
  "fst (on_pair_packet 3 4 (pk_set ''pair'' (JBool True) (packet_new 2 PACKET_TYPE_PAIR)) True (handler_new True)) = []"
proof -
  let ?req = "pk_set ''timestamp'' (JInt 100) (pk_set ''pair'' (JBool True) (packet_new 1 PACKET_TYPE_PAIR))"
  have "pk_set ''pair'' (JBool True) (packet_new 2 PACKET_TYPE_PAIR) \<in> set (fst (on_pair_packet 1 2 ?req True (handler_new True)))"
    by (simp add: on_pair_packet_def receive_def handler_new_def packet_reads needs_pair_reconfirmation_def
        request_refused_for_clock_def is_i64_def)
  from replies_are_not_answered [OF this] show ?thesis .
qed

text \<open>
  The comparison code is six decimal digits and the same on both screens, whichever side
  computes it.
\<close>

lemma verification_key_agrees:
  "length (verification_key sha256 a b t) = 6
   \<and> set (verification_key sha256 a b t) \<subseteq> digit_char ` {..<10}
   \<and> verification_key sha256 a b t = verification_key sha256 b a t"
  using verification_key_sym [of sha256 a b t] six_digits_shape
  by (auto simp: verification_key_def Let_def)

end
