(* ===== verification/Pairing_QR.thy ===== *)
theory Pairing_QR
  imports Pairing
begin

section \<open>Pairing by a scanned code\<close>

text \<open>
  \<open>src/device_links/pairing_qr.rs\<close>: the one live code, its replacement, withdrawal and expiry,
  and the check of a phone's proof with its two limits on wrong ones. The process-wide
  \<open>PENDING\<close>, \<open>GENERATION\<close>, \<open>RETIRED\<close> and \<open>EXPIRED_SCANS\<close> are the fields of one record.

  Parameters: \<open>mac key message\<close> is the HMAC-SHA256 (\<open>None\<close> where \<open>openssl\<close> fails), \<open>b64\<close> and
  \<open>unb64\<close> are base64url without padding, \<open>sha256\<close> the digest; the random secret and the clock
  are arguments. Generations count in \<open>u64\<close> and are \<^typ>\<open>nat\<close> here. The mutexes are not
  poisoned: no code that holds one panics.
\<close>

definition LIFETIME :: nat where "LIFETIME = 300 * 10 ^ 9"
definition MAX_FAILURES :: nat where "MAX_FAILURES = 3"
definition MAX_TOTAL_FAILURES :: nat where "MAX_TOTAL_FAILURES = 30"
definition MAC_LABEL :: string where "MAC_LABEL = ''desklink-qr-v1''"

record pending =
  qp_secret :: "byte list"
  qp_expires_at :: nat
  qp_failures :: "byte list \<rightharpoonup> nat"
  qp_total_failures :: nat
  qp_uri :: string
  qp_desktop_id :: string
  qp_fp :: "byte list"
  qp_generation :: nat

record qr_state =
  qr_pending :: "pending option"
  qr_gen_count :: nat
  qr_retired :: "byte list option"
  qr_expired_scans :: nat

definition qr_init_state :: qr_state where
  "qr_init_state = \<lparr>qr_pending = None, qr_gen_count = 0, qr_retired = None, qr_expired_scans = 0\<rparr>"

datatype qr_error = QrMalformed | QrExpired | QrNoCode | QrTooMany | QrInvalid | QrCrypto

definition retire :: "byte list \<Rightarrow> qr_state \<Rightarrow> qr_state" where
  "retire secret s = s\<lparr>qr_retired := Some secret\<rparr>"

definition next_generation :: "qr_state \<Rightarrow> nat \<times> qr_state" where
  "next_generation s = (qr_gen_count s + 1, s\<lparr>qr_gen_count := qr_gen_count s + 1\<rparr>)"

definition take_expired_notice :: "qr_state \<Rightarrow> bool \<times> qr_state" where
  "take_expired_notice s = (0 < qr_expired_scans s, s\<lparr>qr_expired_scans := 0\<rparr>)"

text \<open>\<open>Vec::join(",")\<close>.\<close>

fun join_comma :: "string list \<Rightarrow> string" where
  "join_comma [] = []"
| "join_comma [x] = x"
| "join_comma (x # y # zs) = x @ '','' @ join_comma (y # zs)"

text \<open>\<open>addresses\<close> are the dotted texts of the IPv4 addresses.\<close>

definition build_uri ::
  "(byte list \<Rightarrow> string) \<Rightarrow> string \<Rightarrow> byte list \<Rightarrow> byte list \<Rightarrow> string option \<Rightarrow> string list \<Rightarrow> nat \<Rightarrow> string" where
  "build_uri b64 desktop_id fp secret host addresses port =
     (let uri = ''desklink://pair?v=1&id='' @ desktop_id @ ''&fp='' @ b64 fp @ ''&s='' @ b64 secret;
          uri = (case host of Some h \<Rightarrow> uri @ ''&h='' @ h | None \<Rightarrow> uri)
      in if addresses = [] then uri
         else uri @ ''&a='' @ join_comma addresses @ ''&p='' @ show_nat port)"

definition qr_start ::
  "(byte list \<Rightarrow> string) \<Rightarrow> byte list \<Rightarrow> nat \<Rightarrow> string \<Rightarrow> byte list \<Rightarrow> string option \<Rightarrow> string list \<Rightarrow> nat
     \<Rightarrow> qr_state \<Rightarrow> string \<times> qr_state" where
  "qr_start b64 secret now desktop_id fp host addresses port s =
     (let uri = build_uri b64 desktop_id fp secret host addresses port;
          s = (case qr_pending s of Some old \<Rightarrow> retire (qp_secret old) s | None \<Rightarrow> s);
          (g, s) = next_generation s
      in (uri, s\<lparr>qr_pending := Some
            \<lparr>qp_secret = secret, qp_expires_at = now + LIFETIME, qp_failures = Map.empty,
             qp_total_failures = 0, qp_uri = uri, qp_desktop_id = desktop_id, qp_fp = fp,
             qp_generation = g\<rparr>\<rparr>))"

definition refresh_addresses ::
  "(byte list \<Rightarrow> string) \<Rightarrow> nat \<Rightarrow> string option \<Rightarrow> string list \<Rightarrow> nat \<Rightarrow> qr_state \<Rightarrow> bool \<times> qr_state" where
  "refresh_addresses b64 now host addresses port s =
     (case qr_pending s of
        None \<Rightarrow> (False, s)
      | Some l \<Rightarrow>
          if \<not> now < qp_expires_at l then (False, s)
          else (let uri = build_uri b64 (qp_desktop_id l) (qp_fp l) (qp_secret l) host addresses port
                in if uri = qp_uri l then (False, s)
                   else (True, s\<lparr>qr_pending := Some (l\<lparr>qp_uri := uri\<rparr>)\<rparr>)))"

definition qr_cancel :: "qr_state \<Rightarrow> qr_state" where
  "qr_cancel s =
     (let s = (case qr_pending s of Some old \<Rightarrow> retire (qp_secret old) s | None \<Rightarrow> s)
      in snd (next_generation (s\<lparr>qr_pending := None\<rparr>)))"

definition live_code :: "nat \<Rightarrow> qr_state \<Rightarrow> pending option" where
  "live_code now s =
     (case qr_pending s of Some l \<Rightarrow> if now < qp_expires_at l then Some l else None | None \<Rightarrow> None)"

definition live_generation :: "nat \<Rightarrow> qr_state \<Rightarrow> nat option" where
  "live_generation now s = map_option qp_generation (live_code now s)"

definition current_uri :: "nat \<Rightarrow> qr_state \<Rightarrow> string option" where
  "current_uri now s = map_option qp_uri (live_code now s)"

subsection \<open>Proofs\<close>

definition proof_message :: "string \<Rightarrow> string \<Rightarrow> byte list \<Rightarrow> byte list \<Rightarrow> string" where
  "proof_message desktop_id phone_id desktop_fp phone_fp =
     MAC_LABEL @ [newline] @ desktop_id @ [newline] @ phone_id @ [newline]
     @ hex desktop_fp @ [newline] @ hex phone_fp"

definition qr_proof ::
  "(byte list \<Rightarrow> string \<Rightarrow> byte list option) \<Rightarrow> byte list \<Rightarrow> string \<Rightarrow> string \<Rightarrow> byte list \<Rightarrow> byte list
     \<Rightarrow> byte list option" where
  "qr_proof mac secret desktop_id phone_id desktop_fp phone_fp =
     mac secret (proof_message desktop_id phone_id desktop_fp phone_fp)"

definition matches_retired ::
  "(byte list \<Rightarrow> string \<Rightarrow> byte list option) \<Rightarrow> byte list \<Rightarrow> string \<Rightarrow> string \<Rightarrow> byte list \<Rightarrow> byte list
     \<Rightarrow> qr_state \<Rightarrow> bool" where
  "matches_retired mac received desktop_id phone_id desktop_fp phone_fp s =
     (case qr_retired s of
        None \<Rightarrow> False
      | Some secret \<Rightarrow> qr_proof mac secret desktop_id phone_id desktop_fp phone_fp = Some received)"

definition qr_expired :: "qr_state \<Rightarrow> (qr_error, unit) result \<times> qr_state" where
  "qr_expired s = (Inl QrExpired, s\<lparr>qr_expired_scans := qr_expired_scans s + 1\<rparr>)"

definition trim_equals :: "string \<Rightarrow> string" where
  "trim_equals s = rev (dropWhile (\<lambda>c. c = CHR ''='') (rev s))"

definition failures_of :: "pending \<Rightarrow> byte list \<Rightarrow> nat" where
  "failures_of l fp = (case qp_failures l fp of Some n \<Rightarrow> n | None \<Rightarrow> 0)"

text \<open>A wrong proof is counted for its device (in a saturating \<open>u8\<close>) and for the code.\<close>

definition count_failure :: "byte list \<Rightarrow> pending \<Rightarrow> pending" where
  "count_failure phone_fp l =
     l\<lparr>qp_failures := (qp_failures l)(phone_fp \<mapsto> min 255 (failures_of l phone_fp + 1)),
       qp_total_failures := qp_total_failures l + 1\<rparr>"

definition qr_verify ::
  "(byte list \<Rightarrow> string \<Rightarrow> byte list option) \<Rightarrow> (string \<Rightarrow> byte list option) \<Rightarrow> nat \<Rightarrow> string \<Rightarrow> string
     \<Rightarrow> byte list \<Rightarrow> byte list \<Rightarrow> string \<Rightarrow> qr_state \<Rightarrow> (qr_error, unit) result \<times> qr_state" where
  "qr_verify mac unb64 now desktop_id phone_id desktop_fp phone_fp mac_b64 s =
     (case unb64 (trim_equals mac_b64) of
        None \<Rightarrow> (Inl QrMalformed, s)
      | Some received \<Rightarrow>
          (case qr_pending s of
             None \<Rightarrow>
               if matches_retired mac received desktop_id phone_id desktop_fp phone_fp s then qr_expired s
               else (Inl QrNoCode, s)
           | Some l \<Rightarrow>
               if qp_expires_at l \<le> now
               then qr_expired ((retire (qp_secret l) s)\<lparr>qr_pending := None\<rparr>)
               else if MAX_FAILURES \<le> failures_of l phone_fp then (Inl QrTooMany, s)
               else (case qr_proof mac (qp_secret l) desktop_id phone_id desktop_fp phone_fp of
                   None \<Rightarrow> (Inl QrCrypto, s)
                 | Some expected \<Rightarrow>
                     if received = expected then (Inr (), s\<lparr>qr_pending := None\<rparr>)
                     else if matches_retired mac received desktop_id phone_id desktop_fp phone_fp s
                     then qr_expired s
                     else (let l = count_failure phone_fp l in
                           (Inl QrInvalid,
                            s\<lparr>qr_pending := (if MAX_TOTAL_FAILURES \<le> qp_total_failures l then None else Some l)\<rparr>)))))"

subsection \<open>The code over time\<close>

text \<open>
  Everything that happens to the codes of one process, in any order and at any times. The scans
  records each proof the live code judged: the code's generation, the device and the verdict.
\<close>

record qr_sys =
  qs_state :: qr_state
  qs_log :: "(nat \<times> byte list \<times> bool) list"

definition qr_sys_init :: "qr_sys \<Rightarrow> bool" where
  "qr_sys_init s \<longleftrightarrow> s = \<lparr>qs_state = qr_init_state, qs_log = []\<rparr>"

definition judged :: "qr_state \<Rightarrow> byte list \<Rightarrow> (qr_error, unit) result \<Rightarrow> (nat \<times> byte list \<times> bool) list" where
  "judged s fp r =
     (case qr_pending s of
        None \<Rightarrow> []
      | Some l \<Rightarrow> if r = Inr () then [(qp_generation l, fp, True)]
                  else if r = Inl QrInvalid then [(qp_generation l, fp, False)] else [])"

inductive qr_step ::
  "(byte list \<Rightarrow> string) \<Rightarrow> (string \<Rightarrow> byte list option) \<Rightarrow> (byte list \<Rightarrow> string \<Rightarrow> byte list option)
     \<Rightarrow> qr_sys \<Rightarrow> qr_sys \<Rightarrow> bool"
  for b64 unb64 mac where
  start: "qr_step b64 unb64 mac s
      (s\<lparr>qs_state := snd (qr_start b64 secret now desktop_id fp host addresses port (qs_state s))\<rparr>)"
| refresh: "qr_step b64 unb64 mac s
      (s\<lparr>qs_state := snd (refresh_addresses b64 now host addresses port (qs_state s))\<rparr>)"
| cancel: "qr_step b64 unb64 mac s (s\<lparr>qs_state := qr_cancel (qs_state s)\<rparr>)"
| notice: "qr_step b64 unb64 mac s (s\<lparr>qs_state := snd (take_expired_notice (qs_state s))\<rparr>)"
| scan: "qr_verify mac unb64 now desktop_id phone_id desktop_fp phone_fp mac_b64 (qs_state s) = (r, q) \<Longrightarrow>
    qr_step b64 unb64 mac s \<lparr>qs_state = q, qs_log = judged (qs_state s) phone_fp r @ qs_log s\<rparr>"

inductive_cases qr_stepE: "qr_step b64 unb64 mac s t"

definition accepted_scans :: "nat \<Rightarrow> (nat \<times> byte list \<times> bool) list \<Rightarrow> nat" where
  "accepted_scans g scans = length (filter (\<lambda>(g', _, ok). g' = g \<and> ok) scans)"

definition wrong_scans :: "nat \<Rightarrow> (nat \<times> byte list \<times> bool) list \<Rightarrow> nat" where
  "wrong_scans g scans = length (filter (\<lambda>(g', _, ok). g' = g \<and> \<not> ok) scans)"

definition wrong_scans_of :: "nat \<Rightarrow> byte list \<Rightarrow> (nat \<times> byte list \<times> bool) list \<Rightarrow> nat" where
  "wrong_scans_of g fp scans = length (filter (\<lambda>(g', fp', ok). g' = g \<and> fp' = fp \<and> \<not> ok) scans)"

text \<open>
  What the log says of the live code is what the code counts, and no code that is gone has
  exceeded its limits.
\<close>

definition live_inv :: "nat \<Rightarrow> (nat \<times> byte list \<times> bool) list \<Rightarrow> pending \<Rightarrow> bool" where
  "live_inv count scans l \<longleftrightarrow>
     qp_generation l = count \<and> accepted_scans count scans = 0
     \<and> wrong_scans count scans = qp_total_failures l \<and> qp_total_failures l < MAX_TOTAL_FAILURES
     \<and> (\<forall>fp. wrong_scans_of count fp scans = failures_of l fp)"

definition log_inv :: "nat \<Rightarrow> (nat \<times> byte list \<times> bool) list \<Rightarrow> bool" where
  "log_inv count scans \<longleftrightarrow>
     (\<forall>e \<in> set scans. fst e \<le> count)
     \<and> (\<forall>g. accepted_scans g scans \<le> 1 \<and> wrong_scans g scans \<le> MAX_TOTAL_FAILURES
            \<and> (\<forall>fp. wrong_scans_of g fp scans \<le> MAX_FAILURES))"

definition qr_inv :: "qr_sys \<Rightarrow> bool" where
  "qr_inv s \<longleftrightarrow>
     log_inv (qr_gen_count (qs_state s)) (qs_log s)
     \<and> pred_option (live_inv (qr_gen_count (qs_state s)) (qs_log s)) (qr_pending (qs_state s))"

lemmas scan_counts = accepted_scans_def wrong_scans_def wrong_scans_of_def

lemma scans_Nil [simp]: "accepted_scans g [] = 0" "wrong_scans g [] = 0" "wrong_scans_of g fp [] = 0"
  by (simp_all add: scan_counts)

lemma scans_Cons [simp]:
  "accepted_scans g ((g', fp', ok) # es) = (if g' = g \<and> ok then 1 else 0) + accepted_scans g es"
  "wrong_scans g ((g', fp', ok) # es) = (if g' = g \<and> \<not> ok then 1 else 0) + wrong_scans g es"
  "wrong_scans_of g fp ((g', fp', ok) # es) = (if g' = g \<and> fp' = fp \<and> \<not> ok then 1 else 0) + wrong_scans_of g fp es"
  by (simp_all add: scan_counts)

lemma log_inv_mono: "log_inv n scans \<Longrightarrow> n \<le> m \<Longrightarrow> log_inv m scans"
  by (auto simp: log_inv_def)

lemma no_scans_yet:
  assumes "log_inv n scans" and "n < g"
  shows "accepted_scans g scans = 0" "wrong_scans g scans = 0" "wrong_scans_of g fp scans = 0"
  using assms by (auto simp: log_inv_def scan_counts filter_empty_conv)

lemma failures_of_count:
  "failures_of (count_failure fp l) fp' = (if fp' = fp then min 255 (failures_of l fp + 1) else failures_of l fp')"
  by (simp add: failures_of_def count_failure_def)

lemma qr_inv_start:
  assumes "qr_inv s"
  shows "qr_inv (s\<lparr>qs_state := snd (qr_start b64 secret now desktop_id fp host addresses port (qs_state s))\<rparr>)"
proof -
  let ?n = "qr_gen_count (qs_state s)"
  have scans: "log_inv ?n (qs_log s)" using assms by (simp add: qr_inv_def)
  show ?thesis
    using log_inv_mono [OF scans] no_scans_yet [OF scans, of "Suc ?n"]
    by (simp add: qr_start_def Let_def next_generation_def retire_def qr_inv_def live_inv_def failures_of_def
        MAX_TOTAL_FAILURES_def split: option.splits)
qed

lemma qr_inv_cancel: "qr_inv s \<Longrightarrow> qr_inv (s\<lparr>qs_state := qr_cancel (qs_state s)\<rparr>)"
  by (auto simp: qr_cancel_def Let_def next_generation_def retire_def qr_inv_def log_inv_mono split: option.splits)

lemma qr_inv_refresh:
  "qr_inv s \<Longrightarrow> qr_inv (s\<lparr>qs_state := snd (refresh_addresses b64 now host addresses port (qs_state s))\<rparr>)"
  by (auto simp: refresh_addresses_def Let_def qr_inv_def live_inv_def failures_of_def split: option.splits)

text \<open>A proof the live code accepts, and one it counts as wrong.\<close>

lemma log_inv_accept:
  assumes "log_inv n scans" and "live_inv n scans l"
  shows "log_inv n ((qp_generation l, fp, True) # scans)"
  using assms by (auto simp: log_inv_def live_inv_def)

lemma log_inv_wrong:
  assumes "log_inv n scans" and "live_inv n scans l" and "failures_of l fp < MAX_FAILURES"
  shows "log_inv n ((qp_generation l, fp, False) # scans)"
proof -
  have "wrong_scans_of n fp' scans \<le> MAX_FAILURES" for fp' using assms(1) by (simp add: log_inv_def)
  then show ?thesis
    using assms by (auto simp: log_inv_def live_inv_def MAX_FAILURES_def)
qed

lemma live_inv_wrong:
  assumes "live_inv n scans l" and "failures_of l fp < MAX_FAILURES"
    and "qp_total_failures (count_failure fp l) < MAX_TOTAL_FAILURES"
  shows "live_inv n ((qp_generation l, fp, False) # scans) (count_failure fp l)"
proof -
  have same: "qp_generation (count_failure fp l) = qp_generation l"
    "qp_total_failures (count_failure fp l) = Suc (qp_total_failures l)"
    by (simp_all add: count_failure_def)
  show ?thesis
    using assms by (auto simp: live_inv_def failures_of_count same MAX_FAILURES_def)
qed

lemma qr_inv_scan:
  assumes "qr_inv s"
    and v: "qr_verify mac unb64 now desktop_id phone_id desktop_fp phone_fp mac_b64 (qs_state s) = (r, q)"
  shows "qr_inv \<lparr>qs_state = q, qs_log = judged (qs_state s) phone_fp r @ qs_log s\<rparr>"
proof -
  let ?n = "qr_gen_count (qs_state s)"
  have scans: "log_inv ?n (qs_log s)"
    and live: "\<And>l. qr_pending (qs_state s) = Some l \<Longrightarrow> live_inv ?n (qs_log s) l"
    using assms by (auto simp: qr_inv_def)
  show ?thesis
    using v scans live log_inv_accept [OF scans live] log_inv_wrong [OF scans live] live_inv_wrong [OF live]
    by (auto simp: qr_verify_def qr_expired_def retire_def qr_inv_def judged_def Let_def not_le
        split: option.splits if_splits)
qed

interpretation qr_system: invariant_system qr_sys_init "qr_step b64 unb64 mac" qr_inv for b64 unb64 mac
proof (unfold_locales, goal_cases)
  case (1 s)
  then show ?case by (simp add: qr_sys_init_def qr_init_state_def qr_inv_def log_inv_def)
next
  case (2 s t)
  from 2(2) show ?case
  proof (rule qr_stepE, goal_cases)
    case 4
    then show ?case using 2(1) by (simp add: take_expired_notice_def qr_inv_def)
  qed (use 2(1) in \<open>simp_all add: qr_inv_start qr_inv_refresh qr_inv_cancel qr_inv_scan\<close>)
qed

subsection \<open>What a proof binds\<close>

lemma valid_id_no_newline: "is_valid_device_id i \<Longrightarrow> newline \<notin> set i"
  by (auto simp: is_valid_device_id_def newline_def list_all_iff is_ascii_alphanumeric_def less_eq_char_def dest!: bspec)

lemma proof_message_inj:
  assumes ids: "newline \<notin> set d" "newline \<notin> set d'" "newline \<notin> set p" "newline \<notin> set p'"
    and eq: "proof_message d p dfp pfp = proof_message d' p' dfp' pfp'"
  shows "d = d' \<and> p = p' \<and> dfp = dfp' \<and> pfp = pfp'"
proof -
  have e: "d @ newline # p @ newline # hex dfp @ newline # hex pfp
         = d' @ newline # p' @ newline # hex dfp' @ newline # hex pfp'"
    using eq by (simp add: proof_message_def)
  note e1 = split_at_first [OF e ids(1,2)]
  note e2 = split_at_first [OF conjunct2 [OF e1] ids(3,4)]
  note e3 = split_at_first [OF conjunct2 [OF e2] hex_no_newline hex_no_newline]
  show ?thesis using e1 e2 e3 hex_inj by blast
qed

subsection \<open>Properties\<close>

text \<open>
  C36. The limits of a code hold over any history of the process: each code shown pairs at most
  one phone, judges at most thirty wrong proofs before it is withdrawn, and at most three of them
  from the same device.
\<close>

theorem qr_code_limits:
  assumes "reachable qr_sys_init (qr_step b64 unb64 mac) s"
  shows "accepted_scans g (qs_log s) \<le> 1 \<and> wrong_scans g (qs_log s) \<le> 30 \<and> wrong_scans_of g fp (qs_log s) \<le> 3"
  using qr_system.reachable_inv [OF assms]
  by (auto simp: qr_inv_def log_inv_def MAX_FAILURES_def MAX_TOTAL_FAILURES_def)

lemma demo_scan:
  "\<exists>s. reachable qr_sys_init (qr_step (\<lambda>_. []) (\<lambda>_. Some [7]) (\<lambda>k _. Some k)) s \<and> accepted_scans 1 (qs_log s) = 1"
proof -
  let ?a = "\<lparr>qs_state = qr_init_state, qs_log = []\<rparr>"
  let ?b = "?a\<lparr>qs_state := snd (qr_start (\<lambda>_. []) [7] 0 ''d'' [1] None [] 0 (qs_state ?a))\<rparr>"
  have b: "reachable qr_sys_init (qr_step (\<lambda>_. []) (\<lambda>_. Some [7]) (\<lambda>k _. Some k)) ?b"
    by (rule reach_step [of _ _ ?a]) (rule reach_init, simp add: qr_sys_init_def, rule start)
  obtain r q where v: "qr_verify (\<lambda>k _. Some k) (\<lambda>_. Some [7]) 1 ''d'' ''p'' [1] [2] [] (qs_state ?b) = (r, q)"
    by fastforce
  have j: "judged (qs_state ?b) [2] r = [(1, [2], True)]"
    using v by (auto simp: qr_verify_def qr_start_def qr_init_state_def next_generation_def LIFETIME_def failures_of_def
        MAX_FAILURES_def qr_proof_def judged_def Let_def)
  let ?c = "\<lparr>qs_state = q, qs_log = judged (qs_state ?b) [2] r @ qs_log ?b\<rparr>"
  have "qr_step (\<lambda>_. []) (\<lambda>_. Some [7]) (\<lambda>k _. Some k) ?b ?c" by (rule scan [OF v])
  then have "reachable qr_sys_init (qr_step (\<lambda>_. []) (\<lambda>_. Some [7]) (\<lambda>k _. Some k)) ?c" by (rule reach_step [rotated]) (rule b)
  moreover have "accepted_scans 1 (qs_log ?c) = 1" by (simp only: j) simp
  ultimately show ?thesis by (intro exI conjI)
qed

theorem qr_code_limits_witness:
  "\<exists>s. reachable qr_sys_init (qr_step (\<lambda>_. []) (\<lambda>_. Some [7]) (\<lambda>k _. Some k)) s
     \<and> accepted_scans 1 (qs_log s) = 1 \<and> wrong_scans 1 (qs_log s) \<le> 30"
  using demo_scan qr_code_limits by blast

text \<open>
  C37. A proof is accepted only against the code on screen: it is live and unexpired, the device has
  offered fewer than three wrong proofs for it, and the bytes are its MAC over exactly these two
  ids and certificates. Accepting it consumes it: no later proof is accepted, not even the same
  one, until a new code is shown.
\<close>

theorem qr_success_is_scan:
  assumes "qr_verify mac unb64 now desktop_id phone_id desktop_fp phone_fp mac_b64 s = (Inr (), s')"
  shows "(\<exists>l received. live_code now s = Some l \<and> unb64 (trim_equals mac_b64) = Some received
            \<and> failures_of l phone_fp < 3
            \<and> qr_proof mac (qp_secret l) desktop_id phone_id desktop_fp phone_fp = Some received)
    \<and> s' = s\<lparr>qr_pending := None\<rparr>
    \<and> fst (qr_verify mac unb64 now' desktop_id' phone_id' desktop_fp' phone_fp' mac_b64' s') \<noteq> Inr ()"
  using assms
  by (auto simp: qr_verify_def qr_expired_def live_code_def Let_def MAX_FAILURES_def split: option.splits if_splits)

theorem qr_success_is_scan_witness:
  "let s = snd (qr_start (\<lambda>_. []) [7] 0 ''d'' [1] None [] 0 qr_init_state)
   in fst (qr_verify (\<lambda>k _. Some k) (\<lambda>_. Some [7]) 9 ''d'' ''p'' [1] [2] [] (s\<lparr>qr_pending := None\<rparr>)) \<noteq> Inr ()"
proof -
  let ?s = "snd (qr_start (\<lambda>_. []) [7] 0 ''d'' [1] None [] 0 qr_init_state)"
  have "qr_verify (\<lambda>k _. Some k) (\<lambda>_. Some [7]) 1 ''d'' ''p'' [1] [2] [] ?s = (Inr (), ?s\<lparr>qr_pending := None\<rparr>)"
    by (simp add: qr_verify_def qr_start_def qr_init_state_def next_generation_def LIFETIME_def failures_of_def
        MAX_FAILURES_def qr_proof_def Let_def)
  from qr_success_is_scan [OF this, of 9] show ?thesis by (simp add: Let_def)
qed

text \<open>
  What a proof signs determines both ids and both certificates: two runs of the protocol that
  differ in any of them sign different texts, so a proof cannot be moved to another pair.
\<close>

lemma qr_proof_binds:
  assumes "is_valid_device_id d" and "is_valid_device_id d'" and "is_valid_device_id p" and "is_valid_device_id p'"
    and "proof_message d p dfp pfp = proof_message d' p' dfp' pfp'"
  shows "d = d' \<and> p = p' \<and> dfp = dfp' \<and> pfp = pfp'"
  using assms by (intro proof_message_inj valid_id_no_newline)

text \<open>
  A phone that scanned the code just replaced is told it expired: the proof costs it nothing,
  the new code stays live and untouched, and the pairing page is told once.
\<close>

lemma qr_replaced_is_expired:
  assumes "qr_pending s = Some old"
    and "qr_proof mac (qp_secret old) d p dfp pfp = Some received"
    and "qr_proof mac secret d p dfp pfp = Some expected" and "expected \<noteq> received"
    and "unb64 (trim_equals mac_b64) = Some received" and "now < start + LIFETIME"
  shows "let s1 = snd (qr_start b64 secret start d dfp host addresses port s);
             (r, s2) = qr_verify mac unb64 now d p dfp pfp mac_b64 s1;
             (told, s3) = take_expired_notice s2
    in r = Inl QrExpired \<and> qr_pending s2 = qr_pending s1 \<and> live_generation now s2 = Some (qr_gen_count s + 1)
       \<and> told \<and> \<not> fst (take_expired_notice s3)"
  using assms
  by (simp add: qr_verify_def qr_start_def Let_def next_generation_def retire_def matches_retired_def qr_expired_def
      failures_of_def MAX_FAILURES_def take_expired_notice_def live_generation_def live_code_def)

end
