(* ===== verification/Signaling.thy ===== *)
theory Signaling
  imports Packet
begin

section \<open>Signed WebRTC signaling\<close>

text \<open>
  \<open>src/device_links/webrtc/signaling.rs\<close>: the messages with which two paired devices set up
  a direct connection, the text each signs, the checks of a received one and its packet.

  Parameters: \<open>sign_bytes\<close> is \<open>openssl\<close>'s signer with the device's key (\<open>None\<close> on failure),
  \<open>check_bytes\<close> its verifier with the peer's key (false on failure too), \<open>b64\<close> and \<open>unb64\<close> are
  standard base64; the request id of a new message and the packet's clock are arguments.
\<close>

definition SIGNALING_VERSION :: int where "SIGNALING_VERSION = 1"
definition MAX_AGE_MILLIS :: int where "MAX_AGE_MILLIS = 5 * 60 * 1000"
definition MAX_SDP_BYTES :: nat where "MAX_SDP_BYTES = 256 * 1024"
definition MAX_CANDIDATE_BYTES :: nat where "MAX_CANDIDATE_BYTES = 16 * 1024"

datatype signaling_message_type =
  Offer | Answer | IceCandidate | EndOfCandidates | IceRestart | RestartRequest | SigClose

fun wire_name :: "signaling_message_type \<Rightarrow> string" where
  "wire_name Offer = ''offer''"
| "wire_name Answer = ''answer''"
| "wire_name IceCandidate = ''ice_candidate''"
| "wire_name EndOfCandidates = ''end_of_candidates''"
| "wire_name IceRestart = ''ice_restart''"
| "wire_name RestartRequest = ''restart_request''"
| "wire_name SigClose = ''close''"

datatype sig_error =
    SigUnknownType | SigVersion | SigDestination | SigSender | SigMalformed | SigExpired
  | SigWrongPacket | SigMissing string | SigInvalid string
  | SigPayloadMissing string | SigPayloadTooLarge string | SigCrypto

definition parse_message_type :: "string \<Rightarrow> (sig_error, signaling_message_type) result" where
  "parse_message_type v =
     (if v = ''offer'' then Inr Offer
      else if v = ''answer'' then Inr Answer
      else if v = ''ice_candidate'' then Inr IceCandidate
      else if v = ''end_of_candidates'' then Inr EndOfCandidates
      else if v = ''ice_restart'' then Inr IceRestart
      else if v = ''restart_request'' then Inr RestartRequest
      else if v = ''close'' then Inr SigClose
      else Inl SigUnknownType)"

record signaling_message =
  signaling_version :: int
  request_id :: string
  session_attempt_id :: string
  from_device_id :: string
  to_device_id :: string
  sig_timestamp :: int
  message_type :: signaling_message_type
  sig_payload :: jobject
  signature :: string

definition unsigned_message ::
  "string \<Rightarrow> string \<Rightarrow> string \<Rightarrow> string \<Rightarrow> int \<Rightarrow> signaling_message_type \<Rightarrow> jobject \<Rightarrow> signaling_message" where
  "unsigned_message uuid attempt sender receiver timestamp ty payload =
     \<lparr>signaling_version = SIGNALING_VERSION, request_id = uuid, session_attempt_id = attempt,
      from_device_id = sender, to_device_id = receiver, sig_timestamp = timestamp,
      message_type = ty, sig_payload = payload, signature = []\<rparr>"

definition required_string :: "jobject \<Rightarrow> string \<Rightarrow> nat \<Rightarrow> (sig_error, string) result" where
  "required_string payload key maximum =
     res_bind (ok_or (SigPayloadMissing key) (Option.bind (obj_get payload key) as_str))
       (\<lambda>v. if maximum < length v then Inl (SigPayloadTooLarge key) else Inr v)"

definition canonical_payload :: "signaling_message \<Rightarrow> (sig_error, string) result" where
  "canonical_payload m =
     (case message_type m of
        Offer \<Rightarrow> map_res (\<lambda>v. ''sdp='' @ v) (required_string (sig_payload m) ''sdp'' MAX_SDP_BYTES)
      | Answer \<Rightarrow> map_res (\<lambda>v. ''sdp='' @ v) (required_string (sig_payload m) ''sdp'' MAX_SDP_BYTES)
      | IceCandidate \<Rightarrow>
          res_bind (ok_or (SigPayloadMissing ''sdpMLineIndex'')
              (Option.bind (obj_get (sig_payload m) ''sdpMLineIndex'') as_i64))
            (\<lambda>index. map_res (\<lambda>v. ''sdpMLineIndex='' @ show_int index @ [newline] @ ''candidate='' @ v)
               (required_string (sig_payload m) ''candidate'' MAX_CANDIDATE_BYTES))
      | _ \<Rightarrow> Inr [])"

text \<open>\<open>format!("{}:{value}", value.len())\<close> of each value, run together.\<close>

definition len_prefixed :: "string \<Rightarrow> string" where
  "len_prefixed v = show_nat (length v) @ CHR '':'' # v"

definition canonical_bytes :: "signaling_message \<Rightarrow> (sig_error, string) result" where
  "canonical_bytes m =
     map_res (\<lambda>payload. concat (map len_prefixed
         [show_int (signaling_version m), request_id m, session_attempt_id m, from_device_id m,
          to_device_id m, show_int (sig_timestamp m), wire_name (message_type m), payload]))
       (canonical_payload m)"

definition sign_message ::
  "(string \<Rightarrow> byte list option) \<Rightarrow> (byte list \<Rightarrow> string) \<Rightarrow> signaling_message
     \<Rightarrow> (sig_error, signaling_message) result" where
  "sign_message sign_bytes b64 m =
     res_bind (canonical_bytes m) (\<lambda>canonical.
       res_bind (ok_or SigCrypto (sign_bytes canonical)) (\<lambda>bytes.
         Inr (m\<lparr>signature := b64 bytes\<rparr>)))"

definition verify_message ::
  "(string \<Rightarrow> byte list \<Rightarrow> bool) \<Rightarrow> (string \<Rightarrow> byte list option) \<Rightarrow> signaling_message \<Rightarrow> bool" where
  "verify_message check_bytes unb64 m =
     (case unb64 (signature m) of
        None \<Rightarrow> False
      | Some bytes \<Rightarrow>
          (case canonical_bytes m of
             Inl _ \<Rightarrow> False
           | Inr canonical \<Rightarrow> check_bytes canonical bytes))"

definition validate_for :: "signaling_message \<Rightarrow> string \<Rightarrow> int \<Rightarrow> (sig_error, unit) result" where
  "validate_for m local_device_id now =
     (if signaling_version m \<noteq> SIGNALING_VERSION then Inl SigVersion
      else if to_device_id m \<noteq> local_device_id then Inl SigDestination
      else if from_device_id m = [] \<or> from_device_id m = local_device_id then Inl SigSender
      else if request_id m = [] \<or> session_attempt_id m = [] \<or> signature m = [] then Inl SigMalformed
      else if nat MAX_AGE_MILLIS < abs_diff now (sig_timestamp m) then Inl SigExpired
      else map_res (\<lambda>_. ()) (canonical_payload m))"

definition message_to_packet :: "int \<Rightarrow> signaling_message \<Rightarrow> network_packet" where
  "message_to_packet ms m =
     (let p = packet_new ms PACKET_TYPE_WEBRTC_SIGNAL_V1;
          p = pk_set ''signalingVersion'' (JInt (signaling_version m)) p;
          p = pk_set ''requestId'' (JStr (request_id m)) p;
          p = pk_set ''sessionAttemptId'' (JStr (session_attempt_id m)) p;
          p = pk_set ''fromDeviceId'' (JStr (from_device_id m)) p;
          p = pk_set ''toDeviceId'' (JStr (to_device_id m)) p;
          p = pk_set ''timestamp'' (JInt (sig_timestamp m)) p;
          p = pk_set ''messageType'' (JStr (wire_name (message_type m))) p;
          p = pk_set ''payload'' (JObj (sig_payload m)) p
      in pk_set ''signature'' (JStr (signature m)) p)"

definition sig_field :: "network_packet \<Rightarrow> string \<Rightarrow> (json \<Rightarrow> 'a option) \<Rightarrow> (sig_error, 'a) result" where
  "sig_field p key read =
     res_bind (ok_or (SigMissing key) (obj_get (body p) key)) (\<lambda>v. ok_or (SigInvalid key) (read v))"

definition message_of_packet :: "network_packet \<Rightarrow> (sig_error, signaling_message) result" where
  "message_of_packet p =
     (if packet_type p \<noteq> PACKET_TYPE_WEBRTC_SIGNAL_V1 then Inl SigWrongPacket
      else
        res_bind (sig_field p ''signalingVersion'' as_i64) (\<lambda>version.
        res_bind (sig_field p ''requestId'' as_str) (\<lambda>rid.
        res_bind (sig_field p ''sessionAttemptId'' as_str) (\<lambda>attempt.
        res_bind (sig_field p ''fromDeviceId'' as_str) (\<lambda>sender.
        res_bind (sig_field p ''toDeviceId'' as_str) (\<lambda>receiver.
        res_bind (sig_field p ''timestamp'' as_i64) (\<lambda>timestamp.
        res_bind (sig_field p ''messageType'' as_str) (\<lambda>name.
        res_bind (parse_message_type name) (\<lambda>ty.
        res_bind (sig_field p ''payload'' as_object) (\<lambda>payload.
        res_bind (sig_field p ''signature'' as_str) (\<lambda>sg.
          Inr \<lparr>signaling_version = version, request_id = rid, session_attempt_id = attempt,
               from_device_id = sender, to_device_id = receiver, sig_timestamp = timestamp,
               message_type = ty, sig_payload = payload, signature = sg\<rparr>)))))))))))"

subsection \<open>Lemmas\<close>

lemma len_prefixed_split:
  assumes "len_prefixed v @ r = len_prefixed v' @ r'"
  shows "v = v' \<and> r = r'"
proof -
  have colon: "CHR '':'' \<notin> set (show_nat n)" for n using show_nat_range [of "CHR '':''" n] by auto
  have "show_nat (length v) @ CHR '':'' # (v @ r) = show_nat (length v') @ CHR '':'' # (v' @ r')"
    using assms by (simp add: len_prefixed_def)
  from split_at_first [OF this colon colon] show ?thesis using show_nat_inj by fastforce
qed

interpretation len_prefixed: self_delimiting len_prefixed
  by unfold_locales (rule len_prefixed_split, assumption, simp add: len_prefixed_def)

lemma parse_wire_name [simp]: "parse_message_type (wire_name t) = Inr t"
  by (cases t) (simp_all add: parse_message_type_def)

lemma wire_name_inj: "wire_name t = wire_name u \<Longrightarrow> t = u"
  by (metis parse_wire_name Inr_inject)

text \<open>The part of a payload that a message of each type is about.\<close>

definition essential_payload :: "signaling_message \<Rightarrow> int option \<times> string option" where
  "essential_payload m =
     (case message_type m of
        Offer \<Rightarrow> (None, Option.bind (obj_get (sig_payload m) ''sdp'') as_str)
      | Answer \<Rightarrow> (None, Option.bind (obj_get (sig_payload m) ''sdp'') as_str)
      | IceCandidate \<Rightarrow> (Option.bind (obj_get (sig_payload m) ''sdpMLineIndex'') as_i64,
                        Option.bind (obj_get (sig_payload m) ''candidate'') as_str)
      | _ \<Rightarrow> (None, None))"

lemma candidate_split:
  assumes "show_int i @ newline # c = show_int j @ newline # d"
  shows "i = j \<and> c = d"
  using split_at_first [OF assms show_int_no_newline show_int_no_newline] show_int_inj by blast

lemma canonical_payload_determines:
  assumes "canonical_payload m = Inr b" and "canonical_payload m' = Inr b" and "message_type m = message_type m'"
  shows "essential_payload m = essential_payload m'"
  using assms
  by (auto simp: canonical_payload_def essential_payload_def required_string_def res_Inr_iff
      split: signaling_message_type.splits if_splits dest!: candidate_split)

text \<open>What the signature covers.\<close>

definition signed_part where
  "signed_part m =
     (signaling_version m, request_id m, session_attempt_id m, from_device_id m, to_device_id m,
      sig_timestamp m, message_type m, essential_payload m)"

lemma canonical_bytes_inj:
  assumes "canonical_bytes m = Inr b" and "canonical_bytes m' = Inr b"
  shows "signed_part m = signed_part m'"
proof -
  obtain q q' where q: "canonical_payload m = Inr q" "canonical_payload m' = Inr q'"
    using assms by (auto simp: canonical_bytes_def res_Inr_iff)
  have "concat (map len_prefixed [show_int (signaling_version m), request_id m, session_attempt_id m, from_device_id m,
          to_device_id m, show_int (sig_timestamp m), wire_name (message_type m), q])
      = concat (map len_prefixed [show_int (signaling_version m'), request_id m', session_attempt_id m', from_device_id m',
          to_device_id m', show_int (sig_timestamp m'), wire_name (message_type m'), q'])"
    using assms q by (simp add: canonical_bytes_def)
  from len_prefixed.concat_enc_inj [OF this] show ?thesis
    using canonical_payload_determines [of m q m'] q show_int_inj wire_name_inj by (simp add: signed_part_def)
qed

definition message_ok :: "signaling_message \<Rightarrow> bool" where
  "message_ok m \<longleftrightarrow> is_i64 (signaling_version m) \<and> is_i64 (sig_timestamp m)"

lemma message_packet_roundtrip:
  "message_ok m \<Longrightarrow> message_of_packet (message_to_packet ms m) = Inr m"
  by (simp add: message_of_packet_def message_to_packet_def Let_def sig_field_def message_ok_def)

interpretation signaling_wire: codec "message_to_packet ms"
    "\<lambda>p. case message_of_packet p of Inr m \<Rightarrow> Some m | Inl _ \<Rightarrow> None" message_ok for ms :: int
  by unfold_locales (simp add: message_packet_roundtrip)

lemma signature_not_signed: "canonical_bytes (m\<lparr>signature := sg\<rparr>) = canonical_bytes m"
  by (simp add: canonical_bytes_def canonical_payload_def cong: signaling_message_type.case_cong)

subsection \<open>Properties\<close>

text \<open>
  A signature binds every field that matters: two messages with the same canonical bytes
  agree in version, ids, sender, receiver, timestamp, type and the part of the payload their type
  uses, however the payload's keys are ordered and whatever else it holds.
\<close>

lemma signaling_signature_binds:
  assumes "canonical_bytes m = Inr b" and "canonical_bytes m' = Inr b"
  shows "signed_part m = signed_part m'"
  using assms by (rule canonical_bytes_inj)

text \<open>
  A signed message verifies at the other end: if the verifier accepts what the signer made,
  signatures are not empty, and base64 is undone by its decoder and not empty on bytes, a message signed, put in a packet and read back is the
  message that was sent, verifies, and is accepted by its addressee within five minutes.
\<close>

lemma signed_message_arrives:
  assumes "\<And>t s. sign_bytes t = Some s \<Longrightarrow> check_bytes t s \<and> s \<noteq> []" and "\<And>s. unb64 (b64 s) = Some s"
    and "\<And>s. s \<noteq> [] \<Longrightarrow> b64 s \<noteq> []"
    and "sign_message sign_bytes b64 (unsigned_message uuid attempt sender receiver t ty payload) = Inr m"
    and "uuid \<noteq> []" and "attempt \<noteq> []" and "sender \<noteq> []" and "sender \<noteq> receiver"
    and "is_i64 t" and "\<bar>now - t\<bar> \<le> 300000"
  shows "message_of_packet (message_to_packet ms m) = Inr m \<and> verify_message check_bytes unb64 m
    \<and> validate_for m receiver now = Inr ()"
proof -
  let ?u = "unsigned_message uuid attempt sender receiver t ty payload"
  obtain c s where c: "canonical_bytes ?u = Inr c" "sign_bytes c = Some s" and m: "m = ?u\<lparr>signature := b64 s\<rparr>"
    using assms(4) by (auto simp: sign_message_def res_Inr_iff)
  have "canonical_bytes m = Inr c" using c(1) by (simp add: m signature_not_signed)
  then have "verify_message check_bytes unb64 m" and "\<exists>q. canonical_payload m = Inr q"
    using assms(1) [OF c(2)] assms(2) [of s] by (auto simp: verify_message_def m canonical_bytes_def res_Inr_iff)
  moreover have "message_of_packet (message_to_packet ms m) = Inr m"
    using assms(9) by (intro message_packet_roundtrip)
      (simp add: message_ok_def m unsigned_message_def SIGNALING_VERSION_def is_i64_def)
  ultimately show ?thesis
    using assms(3) [of s] assms(1) [OF c(2)] assms(5-8,10)
    by (auto simp: validate_for_def m unsigned_message_def abs_diff_def MAX_AGE_MILLIS_def)
qed

end
