(* ===== verification/Envelope.thy ===== *)
theory Envelope
  imports Packet Relay_Protocol
begin

section \<open>Packets on data channels\<close>

text \<open>
  \<open>src/device_links/webrtc/mod.rs\<close>: the data channels of a direct connection, the envelope a
  packet travels in, its binding to one session and generation, and the bridge that decides
  which packets may use which channel.

  Parameters: \<open>uuid_ok\<close> and \<open>uuid_simple\<close> are \<open>Uuid::parse_str\<close> and \<open>simple()\<close> of the \<open>uuid\<close>
  crate, \<open>b64\<close> and \<open>unb64\<close> standard base64, \<open>print\<close> and \<open>parse\<close> \<open>serde_json\<close>; the message id of
  a new envelope is an argument. Bytes are a \<^typ>\<open>string\<close>.
\<close>

definition ENVELOPE_VERSION :: "32 word" where "ENVELOPE_VERSION = 1"
definition NETWORK_PACKET_MESSAGE_TYPE :: string where "NETWORK_PACKET_MESSAGE_TYPE = ''desklink.packet.v1''"
definition MAX_PAYLOAD_BYTES :: nat where "MAX_PAYLOAD_BYTES = 128 * 1024"
definition MAX_ENVELOPE_BYTES :: nat where "MAX_ENVELOPE_BYTES = 256 * 1024"
definition MAX_WIRE_MESSAGE_BYTES :: nat where "MAX_WIRE_MESSAGE_BYTES = 64 * 1024"
definition MAX_LIVENESS_ENVELOPE_BYTES :: nat where "MAX_LIVENESS_ENVELOPE_BYTES = 2048"

datatype web_rtc_channel =
  Control | Events | InputReliable | InputRealtime | FileControl | FileData | Terminal | Liveness

definition ALL_CHANNELS :: "web_rtc_channel list" where
  "ALL_CHANNELS = [Control, Events, InputReliable, InputRealtime, FileControl, FileData, Terminal, Liveness]"

definition REQUIRED_CHANNELS :: "web_rtc_channel list" where
  "REQUIRED_CHANNELS = [Control, Events, Liveness]"

datatype channel_priority = PriorityLow | PriorityMedium | PriorityHigh

fun channel_priority_of :: "web_rtc_channel \<Rightarrow> channel_priority" where
  "channel_priority_of Control = PriorityHigh"
| "channel_priority_of Liveness = PriorityHigh"
| "channel_priority_of InputRealtime = PriorityHigh"
| "channel_priority_of InputReliable = PriorityHigh"
| "channel_priority_of Events = PriorityMedium"
| "channel_priority_of Terminal = PriorityMedium"
| "channel_priority_of FileControl = PriorityMedium"
| "channel_priority_of FileData = PriorityLow"

fun channel_label :: "web_rtc_channel \<Rightarrow> string" where
  "channel_label Control = ''desklink-control-v1''"
| "channel_label Events = ''desklink-events-v1''"
| "channel_label InputReliable = ''desklink-input-reliable-v1''"
| "channel_label InputRealtime = ''desklink-input-realtime-v1''"
| "channel_label FileControl = ''desklink-file-control-v1''"
| "channel_label FileData = ''desklink-file-data-v2''"
| "channel_label Terminal = ''desklink-terminal-v1''"
| "channel_label Liveness = ''desklink-liveness-v1''"

definition max_inbound_bytes :: "web_rtc_channel \<Rightarrow> nat" where
  "max_inbound_bytes c = (if c = Liveness then MAX_LIVENESS_ENVELOPE_BYTES else MAX_ENVELOPE_BYTES)"

definition channel_ordered :: "web_rtc_channel \<Rightarrow> bool" where
  "channel_ordered c \<longleftrightarrow> c \<noteq> InputRealtime"

definition max_retransmits :: "web_rtc_channel \<Rightarrow> nat option" where
  "max_retransmits c = (if c = InputRealtime then Some 0 else None)"

datatype env_error =
    EnvTooLarge | EnvVersion | EnvDevice | EnvStale | EnvMalformed | EnvChannel | EnvPayload | EnvLength
  | EnvMessageType | EnvWrongChannel | EnvPayloadPacket | EnvHandshake | EnvJson | EnvAttempt

definition parse_channel :: "string \<Rightarrow> (env_error, web_rtc_channel) result" where
  "parse_channel v =
     (if v = ''desklink-control-v1'' then Inr Control
      else if v = ''desklink-events-v1'' then Inr Events
      else if v = ''desklink-input-reliable-v1'' then Inr InputReliable
      else if v = ''desklink-input-realtime-v1'' then Inr InputRealtime
      else if v = ''desklink-file-control-v1'' then Inr FileControl
      else if v = ''desklink-file-data-v2'' then Inr FileData
      else if v = ''desklink-terminal-v1'' then Inr Terminal
      else if v = ''desklink-liveness-v1'' then Inr Liveness
      else Inl EnvChannel)"

subsection \<open>Bindings\<close>

record wire_binding =
  sender_device_id :: string
  peer_device_id :: string
  wb_session_id :: u64
  wb_generation :: u64

text \<open>\<open>u64::from_str_radix(_, 16)\<close> on at most fifteen characters, none a sign: a \<open>simple()\<close> UUID has none.\<close>

definition hex_digit :: "char \<Rightarrow> nat option" where
  "hex_digit c =
     (let n = of_char c :: nat in
      if 48 \<le> n \<and> n < 58 then Some (n - 48)
      else if 97 \<le> n \<and> n < 103 then Some (n - 87)
      else if 65 \<le> n \<and> n < 71 then Some (n - 55)
      else None)"

fun read_hex :: "nat \<Rightarrow> string \<Rightarrow> nat option" where
  "read_hex acc [] = Some acc"
| "read_hex acc (c # cs) = (case hex_digit c of None \<Rightarrow> None | Some d \<Rightarrow> read_hex (16 * acc + d) cs)"

definition session_id_from_attempt :: "(string \<Rightarrow> string option) \<Rightarrow> string \<Rightarrow> (env_error, u64) result" where
  "session_id_from_attempt uuid_simple attempt =
     res_bind (ok_or EnvAttempt (uuid_simple attempt)) (\<lambda>compact.
       res_bind (ok_or EnvAttempt (read_hex 0 (take 15 compact))) (\<lambda>n. Inr (word_of_nat n)))"

definition binding_from_attempt ::
  "(string \<Rightarrow> string option) \<Rightarrow> string \<Rightarrow> string \<Rightarrow> string \<Rightarrow> (env_error, wire_binding) result" where
  "binding_from_attempt uuid_simple sender peer attempt =
     map_res (\<lambda>sid. \<lparr>sender_device_id = sender, peer_device_id = peer, wb_session_id = sid, wb_generation = 1\<rparr>)
       (session_id_from_attempt uuid_simple attempt)"

subsection \<open>Envelopes\<close>

record envelope =
  env_version :: "32 word"
  env_message_id :: string
  env_device_id :: string
  env_session_id :: u64
  env_generation :: u64
  env_channel :: string
  env_message_type :: string
  env_timestamp :: "64 word"
  env_flags :: "32 word"
  env_payload_length :: u64
  env_payload_base64 :: string

definition envelope_create ::
  "(string \<Rightarrow> string) \<Rightarrow> string \<Rightarrow> wire_binding \<Rightarrow> web_rtc_channel \<Rightarrow> string \<Rightarrow> string \<Rightarrow> 64 word
     \<Rightarrow> (env_error, envelope) result" where
  "envelope_create b64 uuid b channel ty payload timestamp =
     (if MAX_PAYLOAD_BYTES < length payload then Inl EnvTooLarge
      else Inr
        \<lparr>env_version = ENVELOPE_VERSION, env_message_id = uuid, env_device_id = sender_device_id b,
         env_session_id = wb_session_id b, env_generation = wb_generation b,
         env_channel = channel_label channel, env_message_type = ty, env_timestamp = timestamp,
         env_flags = 0, env_payload_length = word_of_nat (length payload),
         env_payload_base64 = b64 payload\<rparr>)"

definition envelope_validate ::
  "(string \<Rightarrow> bool) \<Rightarrow> (string \<Rightarrow> string option) \<Rightarrow> envelope \<Rightarrow> wire_binding \<Rightarrow> (env_error, string) result" where
  "envelope_validate uuid_ok unb64 e b =
     (if env_version e \<noteq> ENVELOPE_VERSION then Inl EnvVersion
      else if env_device_id e \<noteq> peer_device_id b then Inl EnvDevice
      else if env_session_id e \<noteq> wb_session_id b \<or> env_generation e \<noteq> wb_generation b then Inl EnvStale
      else if env_message_id e = [] \<or> \<not> uuid_ok (env_message_id e) \<or> env_message_type e = [] then Inl EnvMalformed
      else
        res_bind (parse_channel (env_channel e)) (\<lambda>_.
        res_bind (ok_or EnvPayload (unb64 (env_payload_base64 e))) (\<lambda>bytes.
          if length bytes \<noteq> unat (env_payload_length e) then Inl EnvLength
          else if MAX_PAYLOAD_BYTES < length bytes then Inl EnvTooLarge
          else Inr bytes)))"

text \<open>The derived JSON form (camel-case names); \<open>timestamp\<close> is an \<open>i64\<close>.\<close>

definition envelope_to_json :: "envelope \<Rightarrow> json" where
  "envelope_to_json e =
     JObj [(''protocolVersion'', JInt (uint (env_version e))), (''messageId'', JStr (env_message_id e)),
       (''deviceId'', JStr (env_device_id e)), (''sessionId'', JInt (uint (env_session_id e))),
       (''connectionGeneration'', JInt (uint (env_generation e))), (''channel'', JStr (env_channel e)),
       (''messageType'', JStr (env_message_type e)), (''timestamp'', JInt (sint (env_timestamp e))),
       (''flags'', JInt (uint (env_flags e))), (''payloadLength'', JInt (uint (env_payload_length e))),
       (''payloadBase64'', JStr (env_payload_base64 e))]"

definition i64_field :: "json \<Rightarrow> string \<Rightarrow> 64 word option" where
  "i64_field v k = map_option word_of_int (Option.bind (json_get v k) as_i64)"

definition envelope_of_json :: "json \<Rightarrow> envelope option" where
  "envelope_of_json v =
     Option.bind (u32_field v ''protocolVersion'') (\<lambda>version.
     Option.bind (str_field v ''messageId'') (\<lambda>mid.
     Option.bind (str_field v ''deviceId'') (\<lambda>did.
     Option.bind (u64_field v ''sessionId'') (\<lambda>sid.
     Option.bind (u64_field v ''connectionGeneration'') (\<lambda>gen.
     Option.bind (str_field v ''channel'') (\<lambda>channel.
     Option.bind (str_field v ''messageType'') (\<lambda>ty.
     Option.bind (i64_field v ''timestamp'') (\<lambda>timestamp.
     Option.bind (u32_field v ''flags'') (\<lambda>flags.
     Option.bind (u64_field v ''payloadLength'') (\<lambda>len.
     Option.bind (str_field v ''payloadBase64'') (\<lambda>payload.
       Some \<lparr>env_version = version, env_message_id = mid, env_device_id = did, env_session_id = sid,
             env_generation = gen, env_channel = channel, env_message_type = ty,
             env_timestamp = timestamp, env_flags = flags, env_payload_length = len,
             env_payload_base64 = payload\<rparr>)))))))))))"

definition envelope_print :: "(json \<Rightarrow> string option) \<Rightarrow> envelope \<Rightarrow> (env_error, string) result" where
  "envelope_print print e = ok_or EnvJson (print (envelope_to_json e))"

definition envelope_read :: "(string \<Rightarrow> json option) \<Rightarrow> string \<Rightarrow> (env_error, envelope) result" where
  "envelope_read parse bytes =
     (if MAX_ENVELOPE_BYTES < length bytes then Inl EnvTooLarge
      else ok_or EnvJson (Option.bind (parse bytes) envelope_of_json))"

subsection \<open>The packet bridge\<close>

definition has_key :: "network_packet \<Rightarrow> string \<Rightarrow> bool" where
  "has_key p k \<longleftrightarrow> obj_get (body p) k \<noteq> None"

definition is_replaceable_pointer_motion :: "network_packet \<Rightarrow> bool" where
  "is_replaceable_pointer_motion p \<longleftrightarrow>
     list_ex (has_key p) [''dx'', ''dy'', ''x'', ''y'']
     \<and> packet_type p = PACKET_TYPE_MOUSEPAD_REQUEST
     \<and> \<not> list_ex (\<lambda>k. get_bool p k = Some True)
         [''singleclick'', ''doubleclick'', ''middleclick'', ''rightclick'', ''singlehold'', ''singlerelease'', ''scroll'']
     \<and> get_str p ''key'' = None \<and> get_i64 p ''specialKey'' = None"

definition channel_for :: "network_packet \<Rightarrow> web_rtc_channel" where
  "channel_for p =
     (if packet_type p = PACKET_TYPE_HEARTBEAT then Liveness
      else if is_replaceable_pointer_motion p then InputRealtime
      else if packet_type p = PACKET_TYPE_MOUSEPAD_REQUEST then InputReliable
      else Events)"

definition ensure_feature_packet :: "network_packet \<Rightarrow> (env_error, unit) result" where
  "ensure_feature_packet p =
     (if payload_size p \<noteq> None \<or> payload_transfer_info p \<noteq> None then Inl EnvPayloadPacket
      else if packet_type p \<in> {PACKET_TYPE_IDENTITY, PACKET_TYPE_PAIR, PACKET_TYPE_WEBRTC_SIGNAL_V1}
      then Inl EnvHandshake
      else Inr ())"

definition bridge_encode ::
  "(json \<Rightarrow> string option) \<Rightarrow> (string \<Rightarrow> string) \<Rightarrow> string \<Rightarrow> wire_binding \<Rightarrow> network_packet \<Rightarrow> 64 word
     \<Rightarrow> (env_error, envelope) result" where
  "bridge_encode print b64 uuid b p timestamp =
     res_bind (ensure_feature_packet p) (\<lambda>_.
     res_bind (ok_or EnvJson (serialize print p)) (\<lambda>payload.
       envelope_create b64 uuid b (channel_for p) NETWORK_PACKET_MESSAGE_TYPE payload timestamp))"

definition bridge_decode ::
  "(string \<Rightarrow> json option) \<Rightarrow> (string \<Rightarrow> bool) \<Rightarrow> (string \<Rightarrow> string option) \<Rightarrow> wire_binding \<Rightarrow> envelope
     \<Rightarrow> (env_error, network_packet) result" where
  "bridge_decode parse uuid_ok unb64 b e =
     (if env_message_type e \<noteq> NETWORK_PACKET_MESSAGE_TYPE then Inl EnvMessageType
      else
        res_bind (envelope_validate uuid_ok unb64 e b) (\<lambda>payload.
        res_bind (ok_or EnvJson (deserialize parse payload)) (\<lambda>p.
        res_bind (ensure_feature_packet p) (\<lambda>_.
          let lenient_heartbeat =
                packet_type p = PACKET_TYPE_HEARTBEAT \<and> env_channel e = channel_label Events
          in if env_channel e \<noteq> channel_label (channel_for p) \<and> \<not> lenient_heartbeat
             then Inl EnvWrongChannel
             else Inr p))))"

text \<open>The length on the wire, with the longest ids a binding has.\<close>

definition enveloped_len ::
  "(json \<Rightarrow> string option) \<Rightarrow> (string \<Rightarrow> string) \<Rightarrow> string \<Rightarrow> network_packet \<Rightarrow> (env_error, nat) result" where
  "enveloped_len print b64 uuid p =
     (let b = \<lparr>sender_device_id = replicate 64 (CHR ''d''), peer_device_id = replicate 64 (CHR ''p''),
               wb_session_id = - 1, wb_generation = - 1\<rparr>
      in map_res length
           (res_bind (bridge_encode print b64 uuid b p (word_of_int (2 ^ 63 - 1))) (envelope_print print)))"

definition fits_on_wire ::
  "(json \<Rightarrow> string option) \<Rightarrow> (string \<Rightarrow> string) \<Rightarrow> string \<Rightarrow> network_packet \<Rightarrow> bool" where
  "fits_on_wire print b64 uuid p \<longleftrightarrow>
     (case enveloped_len print b64 uuid p of Inr n \<Rightarrow> n \<le> MAX_WIRE_MESSAGE_BYTES | Inl _ \<Rightarrow> False)"

subsection \<open>Lemmas\<close>

lemma parse_channel_label [simp]: "parse_channel (channel_label c) = Inr c"
  by (cases c) (simp_all add: parse_channel_def)

lemma channel_label_inj [simp]: "channel_label c = channel_label d \<longleftrightarrow> c = d"
  by (metis parse_channel_label Inr_inject)

lemma in_ALL_CHANNELS: "c \<in> set ALL_CHANNELS" "distinct ALL_CHANNELS"
  by (cases c) (simp_all add: ALL_CHANNELS_def)

lemma as_i64_sint [simp]: "as_i64 (JInt (sint (w :: 64 word))) = Some (sint w)"
  using sint_greater_eq [of w] sint_less [of w] by (simp add: is_i64_def)

lemma envelope_json_roundtrip: "envelope_of_json (envelope_to_json e) = Some e"
  by (cases e)
    (simp add: envelope_of_json_def envelope_to_json_def u32_field_def u64_field_def str_field_def i64_field_def
      obj_get_def is_u64_def uint_lt2p [where 'a = 32, simplified] uint_lt2p [where 'a = 64, simplified] del: as_i64.simps)

interpretation envelope_wire: codec envelope_to_json envelope_of_json "\<lambda>_. True"
  by unfold_locales (rule envelope_json_roundtrip)

text \<open>The two ends of one connection.\<close>

definition mirrored :: "wire_binding \<Rightarrow> wire_binding \<Rightarrow> bool" where
  "mirrored b b' \<longleftrightarrow>
     peer_device_id b' = sender_device_id b \<and> wb_session_id b' = wb_session_id b \<and> wb_generation b' = wb_generation b"

lemma envelope_accepted:
  assumes "envelope_create b64 uuid b channel ty payload t = Inr e" and "mirrored b b'"
    and "uuid \<noteq> []" and "uuid_ok uuid" and "ty \<noteq> []" and "unb64 (b64 payload) = Some payload"
  shows "envelope_validate uuid_ok unb64 e b' = Inr payload"
proof -
  have "length payload \<le> 131072" using assms(1) by (simp add: envelope_create_def MAX_PAYLOAD_BYTES_def split: if_splits)
  then have "unat (word_of_nat (length payload) :: u64) = length payload" by (simp add: unat_of_nat)
  then show ?thesis
    using assms by (auto simp: envelope_create_def envelope_validate_def mirrored_def split: if_splits)
qed

text \<open>What an envelope that passes validation is bound to.\<close>

lemma envelope_validated:
  assumes "envelope_validate uuid_ok unb64 e b = Inr payload"
  shows "env_device_id e = peer_device_id b \<and> env_session_id e = wb_session_id b
    \<and> env_generation e = wb_generation b \<and> (\<exists>c. env_channel e = channel_label c)
    \<and> length payload = unat (env_payload_length e) \<and> length payload \<le> MAX_PAYLOAD_BYTES"
  using assms
  by (auto simp: envelope_validate_def res_Inr_iff parse_channel_def split: if_splits intro: channel_label.simps [symmetric])

subsection \<open>Properties\<close>

text \<open>
  A feature packet crosses the connection: if the JSON library and base64 undo themselves and
  the message id is a UUID, a packet that may use the bridge and serializes to at most 128 KiB is
  enveloped, and the other end of the same session and generation reads exactly it, from the
  envelope or from the envelope's JSON.
\<close>

lemma envelope_carries_packet:
  assumes "\<And>j t. print j = Some t \<Longrightarrow> parse t = Some j" and "\<And>s. unb64 (b64 s) = Some s"
    and "uuid \<noteq> []" and "uuid_ok uuid"
    and "packet_ok p" and "ensure_feature_packet p = Inr ()"
    and "serialize print p = Some bytes" and "length bytes \<le> 131072" and "mirrored b b'"
  shows "\<exists>e. bridge_encode print b64 uuid b p t = Inr e \<and> bridge_decode parse uuid_ok unb64 b' e = Inr p
    \<and> envelope_of_json (envelope_to_json e) = Some e"
proof -
  obtain e where e: "envelope_create b64 uuid b (channel_for p) NETWORK_PACKET_MESSAGE_TYPE bytes t = Inr e"
    using assms(8) by (simp add: envelope_create_def MAX_PAYLOAD_BYTES_def)
  then have fields: "env_message_type e = NETWORK_PACKET_MESSAGE_TYPE" "env_channel e = channel_label (channel_for p)"
    by (auto simp: envelope_create_def split: if_splits)
  have "envelope_validate uuid_ok unb64 e b' = Inr bytes"
    using envelope_accepted [of b64 uuid b "channel_for p" NETWORK_PACKET_MESSAGE_TYPE bytes t e b' uuid_ok unb64]
      e assms(2-4,9) by (simp add: NETWORK_PACKET_MESSAGE_TYPE_def)
  moreover have "deserialize parse bytes = Some p"
    using assms(1,7) packet_json_roundtrip [OF assms(5)] by (auto simp: serialize_def serialize_line_def deserialize_def)
  ultimately have "bridge_decode parse uuid_ok unb64 b' e = Inr p"
    using assms(6) fields by (simp add: bridge_decode_def)
  moreover have "bridge_encode print b64 uuid b p t = Inr e" using assms(6,7) e by (simp add: bridge_encode_def)
  ultimately show ?thesis using envelope_json_roundtrip by blast
qed

text \<open>
  Nothing but feature packets comes out of the bridge, and only of this connection: an
  envelope that decodes came from the bound peer in this very session and generation, on the
  channel its packet belongs to (a heartbeat may also come on the events channel), and its packet
  announces no payload and is no identity, pairing or signaling packet.
\<close>

lemma envelope_decode_sound:
  assumes "bridge_decode parse uuid_ok unb64 b e = Inr p"
  shows "env_device_id e = peer_device_id b \<and> env_session_id e = wb_session_id b \<and> env_generation e = wb_generation b
    \<and> (env_channel e = channel_label (channel_for p)
       \<or> packet_type p = PACKET_TYPE_HEARTBEAT \<and> env_channel e = channel_label Events)
    \<and> payload_size p = None \<and> payload_transfer_info p = None
    \<and> packet_type p \<notin> {PACKET_TYPE_IDENTITY, PACKET_TYPE_PAIR, PACKET_TYPE_WEBRTC_SIGNAL_V1}
    \<and> unat (env_payload_length e) \<le> 131072"
proof -
  obtain bytes where v: "envelope_validate uuid_ok unb64 e b = Inr bytes" and f: "ensure_feature_packet p = Inr ()"
    and c: "env_channel e = channel_label (channel_for p)
       \<or> packet_type p = PACKET_TYPE_HEARTBEAT \<and> env_channel e = channel_label Events"
    using assms by (auto simp: bridge_decode_def res_Inr_iff Let_def split: if_splits)
  show ?thesis
    using envelope_validated [OF v] f c by (auto simp: ensure_feature_packet_def MAX_PAYLOAD_BYTES_def split: if_splits)
qed

end
