(* ===== verification/Handover.thy ===== *)
theory Handover
  imports Signaling Envelope
begin

section \<open>The handover after the DTLS handshake\<close>

text \<open>
  \<open>src/device_links/webrtc/handover.rs\<close>: what a direct connection must have gone through before
  features may use it, the control messages of that negotiation, and the transcript both devices
  sign.

  Parameters: \<open>jstr\<close> is \<open>serde_json::to_string\<close> on a text, and the signer, verifier and base64
  are those of the signaling messages.
\<close>

definition HANDOVER_VERSION :: int where "HANDOVER_VERSION = 1"
definition HANDOVER_MESSAGE_TYPE :: string where "HANDOVER_MESSAGE_TYPE = ''desklink.handover.v1''"

datatype handover_state = Negotiating | Authenticated | CapabilitiesConfirmed | FeatureReady | Failed

definition features_allowed :: "handover_state \<Rightarrow> bool" where
  "features_allowed st \<longleftrightarrow> st = FeatureReady"

record handover_runtime =
  hr_attempt_id :: string
  hr_wire_binding :: wire_binding
  hr_state :: handover_state
  offer_sdp :: "string option"
  answer_sdp :: "string option"
  local_nonce :: "string option"
  remote_nonce :: "string option"
  authentication_timestamp :: "int option"
  local_authenticated :: bool
  remote_authenticated :: bool
  local_capabilities_confirmed :: bool
  remote_capabilities_confirmed :: bool
  local_feature_ready :: bool
  remote_feature_ready :: bool

definition handover_new :: "string \<Rightarrow> wire_binding \<Rightarrow> handover_runtime" where
  "handover_new attempt b =
     \<lparr>hr_attempt_id = attempt, hr_wire_binding = b, hr_state = Negotiating, offer_sdp = None,
      answer_sdp = None, local_nonce = None, remote_nonce = None, authentication_timestamp = None,
      local_authenticated = False, remote_authenticated = False,
      local_capabilities_confirmed = False, remote_capabilities_confirmed = False,
      local_feature_ready = False, remote_feature_ready = False\<rparr>"

datatype handover_error =
    HoEmpty | HoChanged | HoTimestamp | HoFailed | HoNoSdp | HoNotAuthenticated | HoNoCapabilities
  | HoVersion | HoBinding | HoExpired | HoTooLarge | HoBase64 | HoCrypto

text \<open>A value that is written once; the same value again is no error.\<close>

definition record_once :: "string option \<Rightarrow> string \<Rightarrow> (handover_error, string option) result" where
  "record_once slot value =
     (if value = [] then Inl HoEmpty
      else (case slot of
              Some existing \<Rightarrow> if existing \<noteq> value then Inl HoChanged else Inr slot
            | None \<Rightarrow> Inr (Some value)))"

type_synonym handover_op = "handover_runtime \<Rightarrow> (handover_error, handover_runtime) result"

definition record_offer :: "string \<Rightarrow> handover_op" where
  "record_offer sdp h = map_res (\<lambda>v. h\<lparr>offer_sdp := v\<rparr>) (record_once (offer_sdp h) sdp)"

definition record_answer :: "string \<Rightarrow> handover_op" where
  "record_answer sdp h = map_res (\<lambda>v. h\<lparr>answer_sdp := v\<rparr>) (record_once (answer_sdp h) sdp)"

definition record_local_nonce :: "string \<Rightarrow> handover_op" where
  "record_local_nonce nonce h = map_res (\<lambda>v. h\<lparr>local_nonce := v\<rparr>) (record_once (local_nonce h) nonce)"

definition record_remote_nonce :: "string \<Rightarrow> handover_op" where
  "record_remote_nonce nonce h = map_res (\<lambda>v. h\<lparr>remote_nonce := v\<rparr>) (record_once (remote_nonce h) nonce)"

definition record_authentication_timestamp :: "int \<Rightarrow> handover_op" where
  "record_authentication_timestamp t h =
     (if t \<le> 0 then Inl HoTimestamp
      else (case authentication_timestamp h of
              Some existing \<Rightarrow> if existing \<noteq> t then Inl HoChanged else Inr h
            | None \<Rightarrow> Inr (h\<lparr>authentication_timestamp := Some t\<rparr>)))"

definition ensure_negotiating :: "handover_runtime \<Rightarrow> (handover_error, unit) result" where
  "ensure_negotiating h =
     (if hr_state h = Failed then Inl HoFailed
      else if offer_sdp h = None \<or> answer_sdp h = None then Inl HoNoSdp
      else Inr ())"

definition ensure_authenticated :: "handover_runtime \<Rightarrow> (handover_error, unit) result" where
  "ensure_authenticated h =
     res_bind (ensure_negotiating h) (\<lambda>_.
       if \<not> (local_authenticated h \<and> remote_authenticated h) then Inl HoNotAuthenticated else Inr ())"

definition ensure_capabilities_confirmed :: "handover_runtime \<Rightarrow> (handover_error, unit) result" where
  "ensure_capabilities_confirmed h =
     res_bind (ensure_authenticated h) (\<lambda>_.
       if \<not> (local_capabilities_confirmed h \<and> remote_capabilities_confirmed h) then Inl HoNoCapabilities else Inr ())"

definition refresh_state :: "handover_runtime \<Rightarrow> handover_runtime" where
  "refresh_state h =
     (if hr_state h = Failed then h
      else h\<lparr>hr_state :=
        (if local_feature_ready h \<and> remote_feature_ready h then FeatureReady
         else if local_capabilities_confirmed h \<and> remote_capabilities_confirmed h then CapabilitiesConfirmed
         else if local_authenticated h \<and> remote_authenticated h then Authenticated
         else Negotiating)\<rparr>)"

definition mark_local_authenticated :: handover_op where
  "mark_local_authenticated h =
     map_res (\<lambda>_. refresh_state (h\<lparr>local_authenticated := True\<rparr>)) (ensure_negotiating h)"

definition mark_remote_authenticated :: handover_op where
  "mark_remote_authenticated h =
     map_res (\<lambda>_. refresh_state (h\<lparr>remote_authenticated := True\<rparr>)) (ensure_negotiating h)"

definition mark_local_capabilities_confirmed :: handover_op where
  "mark_local_capabilities_confirmed h =
     map_res (\<lambda>_. refresh_state (h\<lparr>local_capabilities_confirmed := True\<rparr>)) (ensure_authenticated h)"

definition mark_remote_capabilities_confirmed :: handover_op where
  "mark_remote_capabilities_confirmed h =
     map_res (\<lambda>_. refresh_state (h\<lparr>remote_capabilities_confirmed := True\<rparr>)) (ensure_authenticated h)"

definition mark_local_feature_ready :: handover_op where
  "mark_local_feature_ready h =
     map_res (\<lambda>_. refresh_state (h\<lparr>local_feature_ready := True\<rparr>)) (ensure_capabilities_confirmed h)"

definition mark_remote_feature_ready :: handover_op where
  "mark_remote_feature_ready h =
     map_res (\<lambda>_. refresh_state (h\<lparr>remote_feature_ready := True\<rparr>)) (ensure_capabilities_confirmed h)"

definition handover_fail :: "handover_runtime \<Rightarrow> handover_runtime" where
  "handover_fail h = h\<lparr>hr_state := Failed\<rparr>"

definition features_ready :: "handover_runtime \<Rightarrow> bool" where
  "features_ready h \<longleftrightarrow> local_feature_ready h \<and> remote_feature_ready h \<and> features_allowed (hr_state h)"

definition capabilities_confirmed :: "handover_runtime \<Rightarrow> bool" where
  "capabilities_confirmed h \<longleftrightarrow> local_capabilities_confirmed h \<and> remote_capabilities_confirmed h"

subsection \<open>Control messages\<close>

datatype control_kind = CkHello | CkChallenge | CkResponse | CkAuthenticated | CkCapabilities | CkFeatureReady | CkDegraded | CkClose

fun control_kind_name :: "control_kind \<Rightarrow> string" where
  "control_kind_name CkHello = ''hello''"
| "control_kind_name CkChallenge = ''challenge''"
| "control_kind_name CkResponse = ''response''"
| "control_kind_name CkAuthenticated = ''authenticated''"
| "control_kind_name CkCapabilities = ''capabilities''"
| "control_kind_name CkFeatureReady = ''feature-ready''"
| "control_kind_name CkDegraded = ''degraded''"
| "control_kind_name CkClose = ''close''"

definition ALL_KINDS :: "control_kind list" where
  "ALL_KINDS = [CkHello, CkChallenge, CkResponse, CkAuthenticated, CkCapabilities, CkFeatureReady, CkDegraded, CkClose]"

definition control_kind_of :: "string \<Rightarrow> control_kind option" where
  "control_kind_of name = find (\<lambda>k. control_kind_name k = name) ALL_KINDS"

record control_message =
  cm_version :: "64 word"
  cm_kind :: control_kind
  cm_attempt_id :: string
  cm_device_id :: string
  cm_session_id :: u64
  cm_generation :: u64
  cm_nonce :: "string option"
  cm_peer_nonce :: "string option"
  cm_timestamp :: "64 word"
  cm_signature :: "string option"
  cm_incoming :: "string list"
  cm_outgoing :: "string list"

definition control_new :: "control_kind \<Rightarrow> string \<Rightarrow> wire_binding \<Rightarrow> 64 word \<Rightarrow> control_message" where
  "control_new kind attempt b timestamp =
     \<lparr>cm_version = word_of_int HANDOVER_VERSION, cm_kind = kind, cm_attempt_id = attempt,
      cm_device_id = sender_device_id b, cm_session_id = wb_session_id b,
      cm_generation = wb_generation b, cm_nonce = None, cm_peer_nonce = None,
      cm_timestamp = timestamp, cm_signature = None, cm_incoming = [], cm_outgoing = []\<rparr>"

definition control_validate :: "control_message \<Rightarrow> wire_binding \<Rightarrow> string \<Rightarrow> int \<Rightarrow> (handover_error, unit) result" where
  "control_validate m b attempt now =
     (if sint (cm_version m) \<noteq> HANDOVER_VERSION then Inl HoVersion
      else if cm_attempt_id m \<noteq> attempt \<or> cm_device_id m \<noteq> peer_device_id b
        \<or> cm_session_id m \<noteq> wb_session_id b \<or> cm_generation m \<noteq> wb_generation b then Inl HoBinding
      else if nat MAX_AGE_MILLIS < abs_diff now (sint (cm_timestamp m)) then Inl HoExpired
      else Inr ())"

definition control_to_json :: "control_message \<Rightarrow> json" where
  "control_to_json m =
     JObj ([(''handoverVersion'', JInt (sint (cm_version m))), (''kind'', JStr (control_kind_name (cm_kind m))),
       (''sessionAttemptId'', JStr (cm_attempt_id m)), (''deviceId'', JStr (cm_device_id m)),
       (''sessionId'', JInt (uint (cm_session_id m))), (''connectionGeneration'', JInt (uint (cm_generation m)))]
     @ opt_str_field ''nonce'' (cm_nonce m) @ opt_str_field ''peerNonce'' (cm_peer_nonce m)
     @ [(''timestamp'', JInt (sint (cm_timestamp m)))]
     @ opt_str_field ''signatureBase64'' (cm_signature m)
     @ [(''incomingCapabilities'', JArr (map JStr (cm_incoming m))),
        (''outgoingCapabilities'', JArr (map JStr (cm_outgoing m)))])"

text \<open>\<open>#[serde(default)]\<close>: an absent list is empty, a present one must be a list of texts.\<close>

definition default_strs :: "json \<Rightarrow> string \<Rightarrow> string list option" where
  "default_strs v k = (case json_get v k of None \<Rightarrow> Some [] | Some _ \<Rightarrow> strs_field v k)"

definition control_of_json :: "json \<Rightarrow> control_message option" where
  "control_of_json v =
     Option.bind (i64_field v ''handoverVersion'') (\<lambda>version.
     Option.bind (Option.bind (str_field v ''kind'') control_kind_of) (\<lambda>kind.
     Option.bind (str_field v ''sessionAttemptId'') (\<lambda>attempt.
     Option.bind (str_field v ''deviceId'') (\<lambda>did.
     Option.bind (u64_field v ''sessionId'') (\<lambda>sid.
     Option.bind (u64_field v ''connectionGeneration'') (\<lambda>gen.
     Option.bind (opt_str v ''nonce'') (\<lambda>nonce.
     Option.bind (opt_str v ''peerNonce'') (\<lambda>peer_nonce.
     Option.bind (i64_field v ''timestamp'') (\<lambda>timestamp.
     Option.bind (opt_str v ''signatureBase64'') (\<lambda>sg.
     Option.bind (default_strs v ''incomingCapabilities'') (\<lambda>incoming.
     Option.bind (default_strs v ''outgoingCapabilities'') (\<lambda>outgoing.
       Some \<lparr>cm_version = version, cm_kind = kind, cm_attempt_id = attempt, cm_device_id = did,
             cm_session_id = sid, cm_generation = gen, cm_nonce = nonce, cm_peer_nonce = peer_nonce,
             cm_timestamp = timestamp, cm_signature = sg, cm_incoming = incoming,
             cm_outgoing = outgoing\<rparr>))))))))))))"

subsection \<open>The signed transcript\<close>

record authentication_transcript =
  at_attempt_id :: string
  at_initiator :: string
  at_responder :: string
  at_session_id :: u64
  at_generation :: u64
  at_initiator_nonce :: string
  at_responder_nonce :: string
  at_offer_sha256 :: string
  at_answer_sha256 :: string
  at_initiator_fp :: string
  at_responder_fp :: string
  at_protocol_version :: int
  at_timestamp :: int

text \<open>A member of the object: its name in quotes, a colon and the value's text.\<close>

definition quoted :: "string \<Rightarrow> string" where
  "quoted name = CHR 0x22 # name @ [CHR 0x22, CHR '':'']"

definition transcript_bytes :: "(string \<Rightarrow> string) \<Rightarrow> authentication_transcript \<Rightarrow> string" where
  "transcript_bytes jstr t =
     ''{'' @ quoted ''sessionAttemptId'' @ jstr (at_attempt_id t)
     @ '','' @ quoted ''initiatorDeviceId'' @ jstr (at_initiator t)
     @ '','' @ quoted ''responderDeviceId'' @ jstr (at_responder t)
     @ '','' @ quoted ''sessionId'' @ show_nat (unat (at_session_id t))
     @ '','' @ quoted ''connectionGeneration'' @ show_nat (unat (at_generation t))
     @ '','' @ quoted ''initiatorNonce'' @ jstr (at_initiator_nonce t)
     @ '','' @ quoted ''responderNonce'' @ jstr (at_responder_nonce t)
     @ '','' @ quoted ''offerSha256'' @ jstr (at_offer_sha256 t)
     @ '','' @ quoted ''answerSha256'' @ jstr (at_answer_sha256 t)
     @ '','' @ quoted ''initiatorDtlsFingerprint'' @ jstr (at_initiator_fp t)
     @ '','' @ quoted ''responderDtlsFingerprint'' @ jstr (at_responder_fp t)
     @ '','' @ quoted ''protocolVersion'' @ show_int (at_protocol_version t)
     @ '','' @ quoted ''timestamp'' @ show_int (at_timestamp t) @ ''}''"

definition transcript_sign ::
  "(string \<Rightarrow> string) \<Rightarrow> (string \<Rightarrow> byte list option) \<Rightarrow> authentication_transcript \<Rightarrow> (handover_error, byte list) result" where
  "transcript_sign jstr sign_bytes t = ok_or HoCrypto (sign_bytes (transcript_bytes jstr t))"

definition transcript_verify ::
  "(string \<Rightarrow> string) \<Rightarrow> (string \<Rightarrow> byte list \<Rightarrow> bool) \<Rightarrow> authentication_transcript \<Rightarrow> byte list \<Rightarrow> bool" where
  "transcript_verify jstr check_bytes t sg = check_bytes (transcript_bytes jstr t) sg"

definition signature_from_base64 :: "(string \<Rightarrow> byte list option) \<Rightarrow> string \<Rightarrow> (handover_error, byte list) result" where
  "signature_from_base64 unb64 encoded =
     (if 16 * 1024 < length encoded then Inl HoTooLarge else ok_or HoBase64 (unb64 encoded))"

subsection \<open>Runs\<close>

text \<open>One successful operation of a handover; a refused one changes nothing.\<close>

inductive handover_step :: "handover_runtime \<Rightarrow> handover_runtime \<Rightarrow> bool" where
  h_offer: "record_offer v h = Inr h' \<Longrightarrow> handover_step h h'"
| h_answer: "record_answer v h = Inr h' \<Longrightarrow> handover_step h h'"
| h_local_nonce: "record_local_nonce v h = Inr h' \<Longrightarrow> handover_step h h'"
| h_remote_nonce: "record_remote_nonce v h = Inr h' \<Longrightarrow> handover_step h h'"
| h_timestamp: "record_authentication_timestamp t h = Inr h' \<Longrightarrow> handover_step h h'"
| h_local_auth: "mark_local_authenticated h = Inr h' \<Longrightarrow> handover_step h h'"
| h_remote_auth: "mark_remote_authenticated h = Inr h' \<Longrightarrow> handover_step h h'"
| h_local_caps: "mark_local_capabilities_confirmed h = Inr h' \<Longrightarrow> handover_step h h'"
| h_remote_caps: "mark_remote_capabilities_confirmed h = Inr h' \<Longrightarrow> handover_step h h'"
| h_local_ready: "mark_local_feature_ready h = Inr h' \<Longrightarrow> handover_step h h'"
| h_remote_ready: "mark_remote_feature_ready h = Inr h' \<Longrightarrow> handover_step h h'"
| h_fail: "handover_step h (handover_fail h)"

definition handover_init :: "handover_runtime \<Rightarrow> bool" where
  "handover_init h \<longleftrightarrow> (\<exists>attempt b. h = handover_new attempt b)"

fun stage :: "handover_state \<Rightarrow> nat" where
  "stage Negotiating = 0"
| "stage Authenticated = 1"
| "stage CapabilitiesConfirmed = 2"
| "stage FeatureReady = 3"
| "stage Failed = 4"

text \<open>The state the flags call for.\<close>

definition state_of_flags :: "handover_runtime \<Rightarrow> handover_state" where
  "state_of_flags h =
     (if local_feature_ready h \<and> remote_feature_ready h then FeatureReady
      else if local_capabilities_confirmed h \<and> remote_capabilities_confirmed h then CapabilitiesConfirmed
      else if local_authenticated h \<and> remote_authenticated h then Authenticated
      else Negotiating)"

lemma refresh_state_alt:
  "refresh_state h = (if hr_state h = Failed then h else h\<lparr>hr_state := state_of_flags h\<rparr>)"
  by (simp add: refresh_state_def state_of_flags_def)

lemma state_of_flags_recorded [simp]:
  "state_of_flags (h\<lparr>offer_sdp := v\<rparr>) = state_of_flags h" "state_of_flags (h\<lparr>answer_sdp := v\<rparr>) = state_of_flags h"
  "state_of_flags (h\<lparr>local_nonce := v\<rparr>) = state_of_flags h" "state_of_flags (h\<lparr>remote_nonce := v\<rparr>) = state_of_flags h"
  "state_of_flags (h\<lparr>authentication_timestamp := t\<rparr>) = state_of_flags h"
  by (simp_all add: state_of_flags_def)

definition handover_inv :: "handover_runtime \<Rightarrow> bool" where
  "handover_inv h \<longleftrightarrow>
     (local_authenticated h \<or> remote_authenticated h \<longrightarrow> offer_sdp h \<noteq> None \<and> answer_sdp h \<noteq> None)
     \<and> (local_capabilities_confirmed h \<or> remote_capabilities_confirmed h \<longrightarrow>
          local_authenticated h \<and> remote_authenticated h)
     \<and> (local_feature_ready h \<or> remote_feature_ready h \<longrightarrow>
          local_capabilities_confirmed h \<and> remote_capabilities_confirmed h)
     \<and> (hr_state h = Failed \<or> hr_state h = state_of_flags h)"

lemmas handover_records =
  record_offer_def record_answer_def record_local_nonce_def record_remote_nonce_def

lemmas handover_marks =
  mark_local_authenticated_def mark_remote_authenticated_def mark_local_capabilities_confirmed_def
  mark_remote_capabilities_confirmed_def mark_local_feature_ready_def mark_remote_feature_ready_def
  ensure_negotiating_def ensure_authenticated_def ensure_capabilities_confirmed_def

text \<open>A value once recorded stays.\<close>

definition keeps :: "'a option \<Rightarrow> 'a option \<Rightarrow> bool" where
  "keeps a b \<longleftrightarrow> a = None \<or> b = a"

lemma keeps_refl [simp]: "keeps a a" by (simp add: keeps_def)

lemma keeps_trans: "keeps a b \<Longrightarrow> keeps b c \<Longrightarrow> keeps a c" by (auto simp: keeps_def)

text \<open>What a step keeps: recorded values, and the progress made.\<close>

definition later :: "handover_runtime \<Rightarrow> handover_runtime \<Rightarrow> bool" where
  "later h h' \<longleftrightarrow>
     keeps (offer_sdp h) (offer_sdp h')
     \<and> keeps (answer_sdp h) (answer_sdp h')
     \<and> keeps (local_nonce h) (local_nonce h')
     \<and> keeps (remote_nonce h) (remote_nonce h')
     \<and> keeps (authentication_timestamp h) (authentication_timestamp h')
     \<and> hr_wire_binding h' = hr_wire_binding h \<and> hr_attempt_id h' = hr_attempt_id h
     \<and> stage (hr_state h) \<le> stage (hr_state h')"

lemma record_once_keeps: "record_once slot v = Inr w \<Longrightarrow> w \<noteq> None \<and> keeps slot w"
  by (auto simp: record_once_def keeps_def split: if_splits option.splits)

lemma record_timestamp_keeps:
  "record_authentication_timestamp t h = Inr h' \<Longrightarrow>
     \<exists>w. h' = h\<lparr>authentication_timestamp := w\<rparr> \<and> keeps (authentication_timestamp h) w"
  by (cases h) (auto simp: record_authentication_timestamp_def keeps_def split: if_splits option.splits)

lemma handover_inv_recorded:
  assumes "handover_inv h"
  shows "v \<noteq> None \<Longrightarrow> handover_inv (h\<lparr>offer_sdp := v\<rparr>)" "v \<noteq> None \<Longrightarrow> handover_inv (h\<lparr>answer_sdp := v\<rparr>)"
    "handover_inv (h\<lparr>local_nonce := v\<rparr>)" "handover_inv (h\<lparr>remote_nonce := v\<rparr>)"
    "handover_inv (h\<lparr>authentication_timestamp := t\<rparr>)"
  using assms by (simp_all add: handover_inv_def)

lemma later_recorded:
  "keeps (offer_sdp h) v \<Longrightarrow> later h (h\<lparr>offer_sdp := v\<rparr>)" "keeps (answer_sdp h) v \<Longrightarrow> later h (h\<lparr>answer_sdp := v\<rparr>)"
  "keeps (local_nonce h) v \<Longrightarrow> later h (h\<lparr>local_nonce := v\<rparr>)" "keeps (remote_nonce h) v \<Longrightarrow> later h (h\<lparr>remote_nonce := v\<rparr>)"
  "keeps (authentication_timestamp h) t \<Longrightarrow> later h (h\<lparr>authentication_timestamp := t\<rparr>)"
  by (simp_all add: later_def)

lemma handover_records_step:
  assumes "handover_inv h"
    and "record_offer v h = Inr h' \<or> record_answer v h = Inr h' \<or> record_local_nonce v h = Inr h'
      \<or> record_remote_nonce v h = Inr h' \<or> record_authentication_timestamp t h = Inr h'"
  shows "handover_inv h' \<and> later h h'"
  using assms(2)
  by (elim disjE)
    (auto simp only: handover_records res_Inr_iff option.distinct simp_thms handover_inv_recorded [OF assms(1)] later_recorded
      dest!: record_once_keeps record_timestamp_keeps)

lemma handover_marks_step:
  assumes "handover_inv h"
    and "mark_local_authenticated h = Inr h' \<or> mark_remote_authenticated h = Inr h'
      \<or> mark_local_capabilities_confirmed h = Inr h' \<or> mark_remote_capabilities_confirmed h = Inr h'
      \<or> mark_local_feature_ready h = Inr h' \<or> mark_remote_feature_ready h = Inr h'"
  shows "handover_inv h' \<and> later h h'"
  using assms
  by (elim disjE) (auto simp: handover_marks handover_inv_def later_def refresh_state_alt state_of_flags_def res_Inr_iff
      split: if_splits)

lemma handover_step_inv: "handover_step h h' \<Longrightarrow> handover_inv h \<Longrightarrow> handover_inv h' \<and> later h h'"
proof (induction rule: handover_step.induct)
  case (h_fail h)
  then show ?case
    by (cases "hr_state h") (auto simp: handover_fail_def handover_inv_def later_def state_of_flags_def)
qed (use handover_records_step handover_marks_step in blast)+

interpretation handover: invariant_system handover_init handover_step handover_inv
proof (unfold_locales, goal_cases)
  case (1 h)
  then show ?case by (auto simp: handover_init_def handover_new_def handover_inv_def state_of_flags_def)
next
  case (2 h h')
  then show ?case using handover_step_inv by blast
qed

lemma later_trans: "later a b \<Longrightarrow> later b c \<Longrightarrow> later a c"
  by (auto simp: later_def elim: keeps_trans)

lemma later_refl: "later h h"
  by (simp add: later_def)

lemma handover_steps_later:
  assumes "handover_step\<^sup>*\<^sup>* h h'" and "handover_inv h"
  shows "later h h'"
  using assms
proof (induction rule: rtranclp_induct)
  case base
  show ?case by (rule later_refl)
next
  case (step y z)
  then show ?case using handover.steps_inv [OF step(1)] handover_step_inv later_trans by blast
qed

lemma control_kind_of_name [simp]: "control_kind_of (control_kind_name k) = Some k"
  by (cases k) (simp_all add: control_kind_of_def ALL_KINDS_def)

lemma control_json_roundtrip: "control_of_json (control_to_json m) = Some m"
  by (cases m)
    (simp add: control_of_json_def control_to_json_def u64_field_def str_field_def i64_field_def opt_str_def
      opt_str_field_def default_strs_def strs_field_def all_some_map obj_get_def is_u64_def
      uint_lt2p [where 'a = 64, simplified] del: as_i64.simps split: option.splits)

interpretation control_wire: codec control_to_json control_of_json "\<lambda>_. True"
  by unfold_locales (rule control_json_roundtrip)

subsection \<open>Transcripts\<close>

lemma number_split:
  assumes "show_nat m @ CHR '','' # r = show_nat n @ CHR '','' # s"
  shows "m = n \<and> r = s"
proof -
  have comma: "CHR '','' \<notin> set (show_nat k)" for k using show_nat_range [of "CHR '',''" k] by auto
  from split_at_first [OF assms comma comma] show ?thesis using show_nat_inj by blast
qed

lemma int_split:
  assumes "show_int i @ c # r = show_int j @ c # s" and "c = CHR '','' \<or> c = CHR ''}''"
  shows "i = j \<and> r = s"
proof -
  have "c \<notin> set (show_int k)" for k
    using assms(2) show_nat_range [of c "nat k"] show_nat_range [of c "nat (- k)"] by (auto simp: show_int_def)
  from split_at_first [OF assms(1) this this] show ?thesis using show_int_inj by blast
qed

lemma transcript_bytes_inj:
  assumes str: "\<And>s r s' r'. jstr s @ r = jstr s' @ r' \<Longrightarrow> s = s' \<and> r = r'"
    and eq: "transcript_bytes jstr t = transcript_bytes jstr t'"
  shows "t = t'"
proof -
  note drop = append_Cons append_Nil append_assoc list.inject same_append_eq quoted_def simp_thms
  have "at_attempt_id t = at_attempt_id t' \<and> at_initiator t = at_initiator t' \<and> at_responder t = at_responder t'
    \<and> at_session_id t = at_session_id t' \<and> at_generation t = at_generation t'
    \<and> at_initiator_nonce t = at_initiator_nonce t' \<and> at_responder_nonce t = at_responder_nonce t'
    \<and> at_offer_sha256 t = at_offer_sha256 t' \<and> at_answer_sha256 t = at_answer_sha256 t'
    \<and> at_initiator_fp t = at_initiator_fp t' \<and> at_responder_fp t = at_responder_fp t'
    \<and> at_protocol_version t = at_protocol_version t' \<and> at_timestamp t = at_timestamp t'"
    using eq unfolding transcript_bytes_def
    by (auto simp only: drop word_unat_eq_iff dest!: str number_split int_split [where c = "CHR '',''", OF _ disjI1 [OF refl]]
        int_split [where c = "CHR ''}''", OF _ disjI2 [OF refl]])
  then show ?thesis by (cases t; cases t') simp
qed

subsection \<open>Properties\<close>

text \<open>
  C39. Features wait for the whole handover: whatever order the operations come in, features are
  ready only when an offer and an answer are recorded, both sides are authenticated and have
  confirmed their capabilities, and no failure was recorded; what was once recorded, and the
  connection it is for, never changes afterwards, no step goes back to an earlier stage, and a
  failed handover stays failed.
\<close>

theorem handover_ready_is_complete:
  assumes "reachable handover_init handover_step h" and "handover_step\<^sup>*\<^sup>* h h'"
  shows "(features_ready h \<longrightarrow>
      offer_sdp h \<noteq> None \<and> answer_sdp h \<noteq> None \<and> local_authenticated h \<and> remote_authenticated h
      \<and> capabilities_confirmed h \<and> hr_state h \<noteq> Failed)
    \<and> later h h' \<and> (hr_state h = Failed \<longrightarrow> \<not> features_ready h')"
proof -
  have inv: "handover_inv h" using handover.reachable_inv [OF assms(1)] .
  have late: "later h h'" using handover_steps_later [OF assms(2) inv] .
  have "features_ready h \<Longrightarrow> offer_sdp h \<noteq> None \<and> answer_sdp h \<noteq> None \<and> local_authenticated h
      \<and> remote_authenticated h \<and> capabilities_confirmed h \<and> hr_state h \<noteq> Failed"
    using inv by (auto simp: features_ready_def features_allowed_def handover_inv_def capabilities_confirmed_def)
  moreover have "hr_state h = Failed \<Longrightarrow> \<not> features_ready h'"
    using late by (auto simp: later_def features_ready_def features_allowed_def)
  ultimately show ?thesis using late by blast
qed

lemma demo_handover:
  "\<exists>h. reachable handover_init handover_step h \<and> features_ready h"
proof -
  let ?b = "\<lparr>sender_device_id = ''d'', peer_device_id = ''p'', wb_session_id = 7, wb_generation = 1\<rparr>"
  let ?ops = "[record_offer ''o'', record_answer ''a'', mark_local_authenticated, mark_remote_authenticated,
    mark_local_capabilities_confirmed, mark_remote_capabilities_confirmed, mark_local_feature_ready, mark_remote_feature_ready]"
  let ?run = "\<lambda>ops h. fold (\<lambda>f r. res_bind r f) ops (Inr h)"
  have step: "f \<in> set ?ops \<Longrightarrow> f h = Inr h' \<Longrightarrow> handover_step h h'" for f h h'
    by (auto intro: handover_step.intros)
  have run: "set ops \<subseteq> set ?ops \<Longrightarrow> reachable handover_init handover_step h \<Longrightarrow> ?run ops h = Inr h' \<Longrightarrow>
      reachable handover_init handover_step h'" for ops h h'
  proof (induction ops arbitrary: h)
    case (Cons f ops)
    have stuck: "fold (\<lambda>f r. res_bind r f) ops (Inl e) = Inl e" for e by (induction ops) simp_all
    then obtain g where "f h = Inr g" using Cons.prems by (cases "f h") auto
    then show ?case using Cons reach_step [OF Cons.prems(2) step [of f h g]] by auto
  qed simp
  have run_ops: "?run ?ops (handover_new ''x'' ?b)
    = Inr ((handover_new ''x'' ?b)\<lparr>hr_state := FeatureReady, offer_sdp := Some ''o'', answer_sdp := Some ''a'',
        local_authenticated := True, remote_authenticated := True, local_capabilities_confirmed := True,
        remote_capabilities_confirmed := True, local_feature_ready := True, remote_feature_ready := True\<rparr>)"
    by (simp add: handover_records record_once_def handover_marks refresh_state_def handover_new_def)
  have "reachable handover_init handover_step (handover_new ''x'' ?b)"
    by (rule reach_init) (auto simp: handover_init_def)
  from run [OF subset_refl this run_ops] obtain h where "reachable handover_init handover_step h" and "features_ready h"
    by (simp add: features_ready_def features_allowed_def)
  then show ?thesis by blast
qed

theorem handover_ready_is_complete_witness:
  "\<exists>h. reachable handover_init handover_step h \<and> features_ready h \<and> remote_authenticated h"
  using demo_handover handover_ready_is_complete [OF _ rtranclp.rtrancl_refl] by blast

text \<open>
  A control message is read back from its JSON as it was sent, and the receiver takes it
  exactly if it has this version, speaks of this attempt, session and generation, comes from the
  bound peer and is at most five minutes old or early.
\<close>

lemma control_message_checked:
  "control_of_json (control_to_json m) = Some m
   \<and> (control_validate m b attempt now = Inr () \<longleftrightarrow>
        sint (cm_version m) = 1 \<and> cm_attempt_id m = attempt \<and> cm_device_id m = peer_device_id b
        \<and> cm_session_id m = wb_session_id b \<and> cm_generation m = wb_generation b
        \<and> \<bar>now - sint (cm_timestamp m)\<bar> \<le> 300000)"
  using control_json_roundtrip [of m]
  by (auto simp: control_validate_def HANDOVER_VERSION_def abs_diff_def MAX_AGE_MILLIS_def)

text \<open>
  C40. The signed transcript determines everything it names: since a JSON text ends itself, two
  transcripts with the same bytes are the same, so a signature for one attempt, role, nonce, SDP
  or certificate is none for another.
\<close>

theorem transcript_unambiguous:
  assumes "\<And>s r s' r'. jstr s @ r = jstr s' @ r' \<Longrightarrow> s = s' \<and> r = r'"
    and "transcript_bytes jstr t = transcript_bytes jstr t'"
  shows "t = t'"
  using assms by (rule transcript_bytes_inj)

theorem transcript_unambiguous_witness:
  "transcript_bytes len_prefixed \<lparr>at_attempt_id = ''a'', at_initiator = ''b'', at_responder = ''c'', at_session_id = 1,
     at_generation = 1, at_initiator_nonce = ''n'', at_responder_nonce = ''m'', at_offer_sha256 = [], at_answer_sha256 = [],
     at_initiator_fp = [], at_responder_fp = [], at_protocol_version = 9, at_timestamp = 5\<rparr>
   \<noteq> transcript_bytes len_prefixed \<lparr>at_attempt_id = ''a'', at_initiator = ''c'', at_responder = ''b'', at_session_id = 1,
     at_generation = 1, at_initiator_nonce = ''n'', at_responder_nonce = ''m'', at_offer_sha256 = [], at_answer_sha256 = [],
     at_initiator_fp = [], at_responder_fp = [], at_protocol_version = 9, at_timestamp = 5\<rparr>"
  using transcript_unambiguous [of len_prefixed, OF len_prefixed_split] by fastforce

end
