(* ===== verification/Session_Core.thy ===== *)
theory Session_Core
  imports Pairing Handover
begin

section \<open>Links and sessions\<close>

text \<open>
  \<open>src/device_links/core/session_link.rs\<close> and \<open>device_session.rs\<close>: the link to one peer, whose
  socket can be replaced in place, the rule for two links that cross, the replay cache, and the
  state one device's session keeps.

  An \<open>Arc\<close> is the number of its object: a link's number, a cancellation token's number, a
  peer's number. What the code asks of a \<open>LinkTransport\<close> (whether it is a relay, its local
  address) are fields of \<open>carrier\<close>; sending through one is I/O and only says which carrier the
  packet goes to. Instants are nanoseconds on a clock passed as \<open>now\<close>.
\<close>

record carrier =
  carrier_id :: nat
  carrier_kind :: pairing_transport_kind
  carrier_local_ip :: "string option"

record session_link =
  sl_carrier :: carrier
  certificate_pem :: string
  local_public_der :: "byte list"
  remote_public_der :: "byte list"
  sl_info :: device_info
  sl_closed :: bool
  sl_epoch :: nat
  sl_dialed_by_us :: bool
  sl_attached_at :: nat

definition LINK_RACE_WINDOW :: nat where "LINK_RACE_WINDOW = 1000 * 10 ^ 6"

datatype race_verdict = NotARace | KeepIncumbent | ReplaceIncumbent

definition link_race :: "bool \<Rightarrow> nat \<Rightarrow> bool \<Rightarrow> string \<Rightarrow> string \<Rightarrow> race_verdict" where
  "link_race incumbent_dialed_by_us incumbent_age new_dialed_by_us local_id peer_id =
     (if incumbent_dialed_by_us = new_dialed_by_us \<or> LINK_RACE_WINDOW \<le> incumbent_age then NotARace
      else (let lower_dialer_is_us = local_id < peer_id in
            if incumbent_dialed_by_us = lower_dialer_is_us then KeepIncumbent else ReplaceIncumbent))"

definition link_new :: "carrier \<Rightarrow> string \<Rightarrow> byte list \<Rightarrow> byte list \<Rightarrow> device_info \<Rightarrow> nat \<Rightarrow> session_link" where
  "link_new c cert local_der remote_der info now =
     \<lparr>sl_carrier = c, certificate_pem = cert, local_public_der = local_der,
      remote_public_der = remote_der, sl_info = info, sl_closed = False, sl_epoch = 0,
      sl_dialed_by_us = False, sl_attached_at = now\<rparr>"

definition dialed_by_us :: "bool \<Rightarrow> session_link \<Rightarrow> session_link" where
  "dialed_by_us yes l = l\<lparr>sl_dialed_by_us := yes\<rparr>"

definition link_age :: "nat \<Rightarrow> session_link \<Rightarrow> nat" where
  "link_age now l = now - sl_attached_at l"

definition note_attached :: "nat \<Rightarrow> bool \<Rightarrow> session_link \<Rightarrow> session_link" where
  "note_attached now yes l = l\<lparr>sl_dialed_by_us := yes, sl_attached_at := now\<rparr>"

datatype link_error = LinkClosed | LinkIO

definition link_transport :: "session_link \<Rightarrow> (link_error, carrier) result" where
  "link_transport l = (if sl_closed l then Inl LinkClosed else Inr (sl_carrier l))"

definition link_adopt :: "carrier \<Rightarrow> session_link \<Rightarrow> carrier \<times> session_link" where
  "link_adopt c l = (sl_carrier l, l\<lparr>sl_carrier := c, sl_epoch := sl_epoch l + 1, sl_closed := False\<rparr>)"

text \<open>What one read returns; \<open>read\<close> is the transport's own \<open>read_byte\<close>.\<close>

datatype read_outcome = ReadByte byte | ReadIdle | ReadClosed

definition read_byte_at ::
  "(carrier \<Rightarrow> (link_error, read_outcome) result) \<Rightarrow> nat \<Rightarrow> session_link \<Rightarrow> (link_error, read_outcome) result" where
  "read_byte_at read epoch l =
     (if sl_epoch l \<noteq> epoch then Inr ReadClosed
      else if sl_closed l then Inl LinkClosed
      else read (sl_carrier l))"

definition link_send_packet ::
  "(carrier \<Rightarrow> network_packet \<Rightarrow> (link_error, unit) result) \<Rightarrow> network_packet \<Rightarrow> session_link \<Rightarrow> (link_error, unit) result" where
  "link_send_packet send p l = res_bind (link_transport l) (\<lambda>c. send c p)"

definition link_local_ip :: "session_link \<Rightarrow> string option" where
  "link_local_ip l = (case link_transport l of Inl _ \<Rightarrow> None | Inr c \<Rightarrow> carrier_local_ip c)"

definition link_pairing_transport :: "session_link \<Rightarrow> pairing_transport_kind" where
  "link_pairing_transport l = carrier_kind (sl_carrier l)"

definition link_verification_key :: "(byte list \<Rightarrow> byte list) \<Rightarrow> int \<Rightarrow> session_link \<Rightarrow> string" where
  "link_verification_key sha256 t l = verification_key sha256 (local_public_der l) (remote_public_der l) t"

text \<open>Closing shuts the carrier down the first time only.\<close>

definition link_close :: "session_link \<Rightarrow> carrier list \<times> session_link" where
  "link_close l = (if sl_closed l then ([], l) else ([sl_carrier l], l\<lparr>sl_closed := True\<rparr>))"

subsection \<open>The replay cache\<close>

record replay_cache =
  rc_seen :: "string set"
  rc_order :: "string list"
  rc_capacity :: nat

definition rc_with_capacity :: "nat \<Rightarrow> replay_cache" where
  "rc_with_capacity capacity = \<lparr>rc_seen = {}, rc_order = [], rc_capacity = max capacity 1\<rparr>"

fun rc_evict :: "nat \<Rightarrow> string list \<Rightarrow> string set \<Rightarrow> string list \<times> string set" where
  "rc_evict capacity [] seen = ([], seen)"
| "rc_evict capacity (oldest # rest) seen =
     (if capacity < length (oldest # rest) then rc_evict capacity rest (seen - {oldest})
      else (oldest # rest, seen))"

definition rc_accept :: "string \<Rightarrow> replay_cache \<Rightarrow> bool \<times> replay_cache" where
  "rc_accept i c =
     (if i \<in> rc_seen c then (False, c)
      else (let (order, seen) = rc_evict (rc_capacity c) (rc_order c @ [i]) (insert i (rc_seen c))
            in (True, c\<lparr>rc_order := order, rc_seen := seen\<rparr>)))"

definition rc_clear :: "replay_cache \<Rightarrow> replay_cache" where
  "rc_clear c = c\<lparr>rc_seen := {}, rc_order := []\<rparr>"

subsection \<open>Sessions\<close>

datatype session_state =
  SsConnecting | SsAuthenticating | SsReady | SsDisconnecting | SsDisconnected | SsReconnecting | SsTerminated

definition PENDING_FEATURE_LIMIT :: nat where "PENDING_FEATURE_LIMIT = 64"
definition PENDING_FEATURE_MAX_AGE :: nat where "PENDING_FEATURE_MAX_AGE = 30 * 10 ^ 9"

record device_session =
  ds_session_id :: nat
  ds_generation :: nat
  ds_device_id :: string
  ds_pairing :: pairing_handler
  ds_state :: session_state
  ds_active_link :: "nat option"
  ds_active_webrtc :: "nat option"
  ds_transfer_manager :: "nat option"
  ds_attempt_id :: "string option"
  ds_recovery_attempt :: nat
  ds_handover :: "handover_runtime option"
  ds_seen_requests :: replay_cache
  ds_seen_signals :: replay_cache
  ds_seen_messages :: replay_cache
  ds_token :: nat
  ds_connected_at :: "nat option"
  ds_last_reason :: "string option"
  ds_reconnect_attempt :: nat
  ds_reconnect_scheduled :: bool
  ds_next_reconnect_at :: "nat option"
  ds_last_inbound_at :: nat
  ds_linked_at :: nat
  ds_last_notice :: "nat option"
  ds_pending :: "(nat \<times> network_packet) list"

record session_binding =
  sb_device_id :: string
  sb_session_id :: nat
  sb_generation :: nat
  sb_link :: nat
  sb_token :: nat

definition session_binding_of :: "device_session \<Rightarrow> session_binding option" where
  "session_binding_of x =
     map_option (\<lambda>l. \<lparr>sb_device_id = ds_device_id x, sb_session_id = ds_session_id x,
                      sb_generation = ds_generation x, sb_link = l, sb_token = ds_token x\<rparr>)
       (ds_active_link x)"

definition session_ready :: "device_session \<Rightarrow> bool" where
  "session_ready x = (case ds_handover x of Some h \<Rightarrow> features_ready h | None \<Rightarrow> False)"

definition clear_webrtc_state :: "device_session \<Rightarrow> nat option \<times> device_session" where
  "clear_webrtc_state x =
     (ds_active_webrtc x,
      x\<lparr>ds_attempt_id := None, ds_handover := None, ds_transfer_manager := None,
        ds_seen_requests := rc_clear (ds_seen_requests x),
        ds_seen_messages := rc_clear (ds_seen_messages x), ds_active_webrtc := None\<rparr>)"

subsection \<open>Lemmas on the replay cache\<close>

definition rc_ok :: "replay_cache \<Rightarrow> bool" where
  "rc_ok c \<longleftrightarrow> rc_seen c = set (rc_order c) \<and> distinct (rc_order c) \<and> length (rc_order c) \<le> rc_capacity c \<and> 1 \<le> rc_capacity c"

text \<open>The last \<open>n\<close> elements of a list.\<close>

definition last_n :: "nat \<Rightarrow> 'a list \<Rightarrow> 'a list" where
  "last_n n xs = drop (length xs - n) xs"

lemma rc_evict_last_n:
  "distinct xs \<Longrightarrow> rc_evict n xs (set xs) = (last_n n xs, set (last_n n xs))"
proof (induction xs)
  case (Cons x xs)
  have "set (x # xs) - {x} = set xs" using Cons.prems by auto
  then show ?case using Cons by (auto simp: last_n_def Suc_diff_le)
qed (simp add: last_n_def)

lemma rc_accept_fresh:
  assumes "rc_ok c" and "i \<notin> rc_seen c"
  shows "rc_accept i c = (True, c\<lparr>rc_order := last_n (rc_capacity c) (rc_order c @ [i]),
    rc_seen := set (last_n (rc_capacity c) (rc_order c @ [i]))\<rparr>)"
proof -
  have "insert i (rc_seen c) = set (rc_order c @ [i])" and d: "distinct (rc_order c @ [i])"
    using assms by (auto simp: rc_ok_def)
  then have "rc_evict (rc_capacity c) (rc_order c @ [i]) (insert i (rc_seen c))
      = (last_n (rc_capacity c) (rc_order c @ [i]), set (last_n (rc_capacity c) (rc_order c @ [i])))"
    using rc_evict_last_n [OF d] by (simp only:)
  then show ?thesis using assms(2) by (simp add: rc_accept_def)
qed

lemma rc_ok_accept [wf_intros]: "rc_ok c \<Longrightarrow> rc_ok (snd (rc_accept i c))"
proof (cases "i \<in> rc_seen c")
  case True
  then show "rc_ok c \<Longrightarrow> ?thesis" by (simp add: rc_accept_def)
next
  case False
  assume ok: "rc_ok c"
  then show ?thesis
    using False by (auto simp: rc_accept_fresh [OF ok False] rc_ok_def last_n_def distinct_drop
      simp del: set_append dest: in_set_dropD)
qed

lemma rc_ok_clear [wf_intros]: "rc_ok c \<Longrightarrow> rc_ok (rc_clear c)"
  by (simp add: rc_ok_def rc_clear_def)

lemma rc_ok_new [wf_intros]: "rc_ok (rc_with_capacity n)"
  by (simp add: rc_ok_def rc_with_capacity_def)

text \<open>
  The reference: remember everything accepted, and refuse what is among the last \<open>n\<close> of it.
\<close>

fun window_run :: "nat \<Rightarrow> string list \<Rightarrow> string list \<Rightarrow> bool list" where
  "window_run n hist [] = []"
| "window_run n hist (i # is) =
     (if i \<in> set (last_n n hist) then False # window_run n hist is else True # window_run n (hist @ [i]) is)"

fun rc_run :: "replay_cache \<Rightarrow> string list \<Rightarrow> bool list" where
  "rc_run c [] = []"
| "rc_run c (i # is) = (let (fresh, c') = rc_accept i c in fresh # rc_run c' is)"

lemma last_n_append: "last_n n (last_n n xs @ [x]) = last_n n (xs @ [x])" if "1 \<le> n"
  using that by (cases "length xs \<le> n") (auto simp: last_n_def Suc_diff_le)

lemma rc_run_window:
  assumes "rc_ok c" and "rc_order c = last_n (rc_capacity c) hist"
  shows "rc_run c is = window_run (rc_capacity c) hist is"
  using assms
proof (induction "is" arbitrary: c hist)
  case (Cons i "is")
  have seen: "i \<in> rc_seen c \<longleftrightarrow> i \<in> set (last_n (rc_capacity c) hist)"
    using Cons.prems by (simp add: rc_ok_def)
  show ?case
  proof (cases "i \<in> rc_seen c")
    case True
    then show ?thesis using Cons seen by (simp add: rc_accept_def)
  next
    case False
    let ?c = "snd (rc_accept i c)"
    have "rc_ok ?c" and "rc_order ?c = last_n (rc_capacity ?c) (hist @ [i])" and "rc_capacity ?c = rc_capacity c"
      using Cons.prems rc_ok_accept [of c i] rc_accept_fresh [OF Cons.prems(1) False]
      by (auto simp: last_n_append rc_ok_def)
    then show ?thesis
      using Cons.IH [of ?c "hist @ [i]"] False seen rc_accept_fresh [OF Cons.prems(1) False] by simp
  qed
qed simp

subsection \<open>Properties\<close>

text \<open>
  C3. The replay cache is exactly a window: over any sequence of identifiers it answers as if it
  remembered every identifier it ever accepted and refused precisely those among its last
  \<open>capacity\<close> accepted ones, so a replay is admitted only after that many newer identifiers.
\<close>

theorem replay_cache_is_window:
  "rc_run (rc_with_capacity n) is = window_run (max n 1) [] is"
  using rc_run_window [OF rc_ok_new, of n "[]"] by (simp add: rc_with_capacity_def last_n_def)

text \<open>
  Both ends keep the same link when two cross: if each side dialed one of two links made
  within a second, the side that keeps its incumbent and the side that replaces its own are
  talking of the same link, the one dialed by the device with the smaller id, whichever link each
  of them saw first.
\<close>

lemma crossing_links_agree:
  assumes "a \<noteq> b" and "age < LINK_RACE_WINDOW" and "age' < LINK_RACE_WINDOW"
  shows "let survives_at_a = (case link_race inc_a age (\<not> inc_a) a b of KeepIncumbent \<Rightarrow> inc_a | _ \<Rightarrow> \<not> inc_a);
             survives_at_b = (case link_race inc_b age' (\<not> inc_b) b a of KeepIncumbent \<Rightarrow> inc_b | _ \<Rightarrow> \<not> inc_b)
    in link_race inc_a age (\<not> inc_a) a b \<noteq> NotARace \<and> link_race inc_b age' (\<not> inc_b) b a \<noteq> NotARace
       \<and> survives_at_a = (a < b) \<and> survives_at_b = (b < a) \<and> survives_at_a = (\<not> survives_at_b)"
  using assms by (cases "a < b"; cases inc_a; cases inc_b) (auto simp: link_race_def Let_def)

end

