(* ===== verification/Device_Manager.thy ===== *)
theory Device_Manager
  imports Session_Core "HOL-Library.AList"
begin

section \<open>The device manager\<close>

text \<open>
  \<open>src/device_links/core/device_manager.rs\<close>: the sessions of all devices and every operation on
  them. The manager's state holds the sessions, the store of link objects and of cancellation
  tokens (a binding shares them with the session), and what was shut down or closed.

  A \<open>HashMap\<close> is an association list, and what the code collects from its values comes in that
  list's order, which the code leaves open. Each operation takes the lock once, so it is one
  step; \<open>bootstrap_disconnected\<close> takes it twice and is two steps, its check and a disconnect. No
  code that holds the lock panics, so it is never poisoned. The connection log
  (\<open>note_ready\<close>) and debug output are not modelled. Session ids and generations count in \<open>u64\<close>;
  generations saturate.
\<close>

definition REPLAY_CACHE_CAPACITY :: nat where "REPLAY_CACHE_CAPACITY = 4096"
definition GENERATION_MAX :: nat where "GENERATION_MAX = 2 ^ 64 - 1"

datatype session_error =
    UnknownSession | StaleBinding | TerminatedSession | AlreadyClaimed | NotEligibleForReconnect
  | SeNotPaired | ReplayDetected

record device_manager =
  dm_next_session_id :: nat
  dm_sessions :: "(string \<times> device_session) list"
  dm_links :: "session_link list"
  dm_tokens :: "bool list"
  dm_shut :: "carrier list"
  dm_closed_peers :: "nat list"

definition manager_new :: device_manager where
  "manager_new = \<lparr>dm_next_session_id = 1, dm_sessions = [], dm_links = [], dm_tokens = [], dm_shut = [], dm_closed_peers = []\<rparr>"

definition session_at :: "device_manager \<Rightarrow> string \<Rightarrow> device_session option" where
  "session_at m d = map_of (dm_sessions m) d"

definition put_session :: "string \<Rightarrow> device_session \<Rightarrow> device_manager \<Rightarrow> device_manager" where
  "put_session d x m = m\<lparr>dm_sessions := AList.update d x (dm_sessions m)\<rparr>"

definition cancel_token :: "nat \<Rightarrow> device_manager \<Rightarrow> device_manager" where
  "cancel_token t m = m\<lparr>dm_tokens := (dm_tokens m)[t := True]\<rparr>"

definition link_at :: "device_manager \<Rightarrow> nat \<Rightarrow> session_link" where
  "link_at m l = dm_links m ! l"

definition is_closed :: "device_manager \<Rightarrow> nat \<Rightarrow> bool" where
  "is_closed m l = sl_closed (link_at m l)"

definition close_link :: "nat \<Rightarrow> device_manager \<Rightarrow> device_manager" where
  "close_link l m =
     (let (shut, x) = link_close (link_at m l)
      in m\<lparr>dm_links := (dm_links m)[l := x], dm_shut := dm_shut m @ shut\<rparr>)"

subsection \<open>Bindings\<close>

definition binding_matches :: "session_binding \<Rightarrow> device_session \<Rightarrow> bool" where
  "binding_matches b x \<longleftrightarrow>
     ds_session_id x = sb_session_id b \<and> ds_generation x = sb_generation b
     \<and> ds_active_link x = Some (sb_link b) \<and> ds_token x = sb_token b"

definition cancelled :: "device_manager \<Rightarrow> session_binding \<Rightarrow> bool" where
  "cancelled m b = dm_tokens m ! sb_token b"

definition is_current :: "session_binding \<Rightarrow> device_manager \<Rightarrow> bool" where
  "is_current b m =
     (if cancelled m b then False
      else (case session_at m (sb_device_id b) of
              None \<Rightarrow> False
            | Some x \<Rightarrow> ds_state x \<noteq> SsTerminated \<and> binding_matches b x))"

definition with_session ::
  "session_binding \<Rightarrow> (device_session \<Rightarrow> 'r \<times> device_session) \<Rightarrow> device_manager
     \<Rightarrow> (session_error, 'r) result \<times> device_manager" where
  "with_session b f m =
     (case session_at m (sb_device_id b) of
        None \<Rightarrow> (Inl UnknownSession, m)
      | Some x \<Rightarrow>
          if ds_state x = SsTerminated then (Inl TerminatedSession, m)
          else if \<not> (binding_matches b x \<and> \<not> cancelled m b) then (Inl StaleBinding, m)
          else (let (r, x') = f x in (Inr r, put_session (sb_device_id b) x' m)))"

text \<open>An operation that is itself fallible: \<open>with_session(..)?\<close>.\<close>

definition flatten :: "(session_error, (session_error, 'r) result) result \<times> device_manager
    \<Rightarrow> (session_error, 'r) result \<times> device_manager" where
  "flatten r = (res_bind (fst r) (\<lambda>x. x), snd r)"

definition current_binding :: "string \<Rightarrow> device_manager \<Rightarrow> session_binding option" where
  "current_binding d m =
     (case session_at m d of
        None \<Rightarrow> None
      | Some x \<Rightarrow> if ds_state x = SsTerminated then None else session_binding_of x)"

definition current_bindings :: "device_manager \<Rightarrow> session_binding list" where
  "current_bindings m =
     List.map_filter session_binding_of (filter (\<lambda>x. ds_state x \<noteq> SsTerminated) (map snd (dm_sessions m)))"

subsection \<open>Attaching links\<close>

record registration_result =
  rr_binding :: session_binding
  replaced_link :: "nat option"
  replaced_generation :: "nat option"
  replaced_webrtc :: "nat option"

definition session_new :: "nat \<Rightarrow> string \<Rightarrow> bool \<Rightarrow> nat \<Rightarrow> nat \<Rightarrow> nat \<Rightarrow> device_session" where
  "session_new sid d initially_paired link token now =
     \<lparr>ds_session_id = sid, ds_generation = 1, ds_device_id = d,
      ds_pairing = handler_new initially_paired, ds_state = SsReady, ds_active_link = Some link,
      ds_active_webrtc = None, ds_transfer_manager = None, ds_attempt_id = None,
      ds_recovery_attempt = 0, ds_handover = None,
      ds_seen_requests = rc_with_capacity REPLAY_CACHE_CAPACITY,
      ds_seen_signals = rc_with_capacity REPLAY_CACHE_CAPACITY,
      ds_seen_messages = rc_with_capacity REPLAY_CACHE_CAPACITY, ds_token = token,
      ds_connected_at = Some now, ds_last_reason = None, ds_reconnect_attempt = 0,
      ds_reconnect_scheduled = False, ds_next_reconnect_at = None, ds_last_inbound_at = now,
      ds_linked_at = now, ds_last_notice = None, ds_pending = []\<rparr>"

definition register_pairing :: "bool \<Rightarrow> pairing_handler \<Rightarrow> pairing_handler" where
  "register_pairing initially_paired h =
     (let h = (if ph_state h \<in> {Requested, RequestedByPeer} then handler_new False else h);
          paired = (ph_state h = Paired)
      in if initially_paired \<noteq> paired \<and> ph_state h \<notin> {Requested, RequestedByPeer}
         then handler_new initially_paired else h)"

definition session_relink :: "nat \<Rightarrow> bool \<Rightarrow> nat \<Rightarrow> nat \<Rightarrow> device_session \<Rightarrow> device_session" where
  "session_relink now initially_paired link token x =
     (let x = x\<lparr>ds_active_link := Some link, ds_active_webrtc := None,
                ds_generation := min GENERATION_MAX (ds_generation x + 1), ds_token := token\<rparr>;
          x = snd (clear_webrtc_state x)
      in x\<lparr>ds_pairing := register_pairing initially_paired (ds_pairing x), ds_state := SsReady,
           ds_connected_at := Some now, ds_last_reason := None, ds_reconnect_attempt := 0,
           ds_recovery_attempt := 0, ds_reconnect_scheduled := False,
           ds_next_reconnect_at := None, ds_last_inbound_at := now, ds_linked_at := now\<rparr>)"

definition binding_for :: "device_session \<Rightarrow> nat \<Rightarrow> session_binding" where
  "binding_for x link =
     \<lparr>sb_device_id = ds_device_id x, sb_session_id = ds_session_id x,
      sb_generation = ds_generation x, sb_link = link, sb_token = ds_token x\<rparr>"

definition register_link ::
  "nat \<Rightarrow> string \<Rightarrow> session_link \<Rightarrow> bool \<Rightarrow> device_manager
     \<Rightarrow> (session_error, registration_result) result \<times> device_manager" where
  "register_link now d link initially_paired m =
     (let l = length (dm_links m); t = length (dm_tokens m);
          alloc = (\<lambda>m. m\<lparr>dm_links := dm_links m @ [link], dm_tokens := dm_tokens m @ [False]\<rparr>)
      in case session_at m d of
        Some x \<Rightarrow>
          if ds_state x = SsTerminated then (Inl TerminatedSession, m)
          else
            (let x' = session_relink now initially_paired l t x;
                 m = put_session d x' (alloc (cancel_token (ds_token x) m));
                 m = (case ds_active_link x of Some old \<Rightarrow> close_link old m | None \<Rightarrow> m)
             in (Inr \<lparr>rr_binding = binding_for x' l, replaced_link = ds_active_link x,
                      replaced_generation = Some (ds_generation x),
                      replaced_webrtc = ds_active_webrtc x\<rparr>, m))
      | None \<Rightarrow>
          (let x = session_new (dm_next_session_id m) d initially_paired l t now;
               m = put_session d x (alloc (m\<lparr>dm_next_session_id := dm_next_session_id m + 1\<rparr>))
           in (Inr \<lparr>rr_binding = binding_for x l, replaced_link = None,
                    replaced_generation = None, replaced_webrtc = None\<rparr>, m)))"

datatype adoption =
    AdKeep
  | AdAdopted session_binding carrier nat
  | AdRegister
  | AdRefuse

definition adopt_or_keep ::
  "nat \<Rightarrow> string \<Rightarrow> carrier \<Rightarrow> string \<Rightarrow> nat \<Rightarrow> device_manager \<Rightarrow> adoption \<times> device_manager" where
  "adopt_or_keep now d c cert answering_within m =
     (case session_at m d of
        None \<Rightarrow> (AdRegister, m)
      | Some x \<Rightarrow>
          if ds_state x = SsTerminated \<or> \<not> session_ready x then (AdRegister, m)
          else (case ds_active_link x of
              None \<Rightarrow> (AdRegister, m)
            | Some l \<Rightarrow>
                if certificate_pem (link_at m l) \<noteq> cert then (AdRefuse, m)
                else if \<not> is_closed m l \<and> now - ds_last_inbound_at x < answering_within then (AdKeep, m)
                else
                  (let (replaced, link) = link_adopt c (link_at m l);
                       x = x\<lparr>ds_state := SsReady, ds_recovery_attempt := 0, ds_last_reason := None,
                             ds_last_inbound_at := now\<rparr>;
                       m = put_session d x (m\<lparr>dm_links := (dm_links m)[l := link]\<rparr>)
                   in (AdAdopted (binding_for x l) replaced (sl_epoch link), m))))"

definition incumbent_link :: "nat \<Rightarrow> string \<Rightarrow> device_manager \<Rightarrow> (bool \<times> nat) option" where
  "incumbent_link now d m =
     Option.bind (session_at m d) (\<lambda>x.
       if ds_state x = SsTerminated then None
       else Option.bind (ds_active_link x) (\<lambda>l.
         if \<not> is_closed m l then Some (sl_dialed_by_us (link_at m l), link_age now (link_at m l)) else None))"

subsection \<open>Questions\<close>

definition silence :: "nat \<Rightarrow> string \<Rightarrow> device_manager \<Rightarrow> nat option" where
  "silence now d m = map_option (\<lambda>x. now - ds_last_inbound_at x) (session_at m d)"

record liveness_result =
  lt_probe :: "session_binding list"
  lt_dead :: "session_binding list"

definition liveness_of ::
  "device_manager \<Rightarrow> nat \<Rightarrow> nat \<Rightarrow> (string \<Rightarrow> nat) \<Rightarrow> liveness_result \<Rightarrow> device_session \<Rightarrow> liveness_result" where
  "liveness_of m now idle dead tick x =
     (if ds_state x = SsTerminated then tick
      else (case session_binding_of x of
          None \<Rightarrow> tick
        | Some b \<Rightarrow>
            if is_closed m (sb_link b) then tick
            else (let quiet = now - ds_last_inbound_at x in
                  if dead (sb_device_id b) \<le> quiet then tick\<lparr>lt_dead := lt_dead tick @ [b]\<rparr>
                  else if idle \<le> quiet then tick\<lparr>lt_probe := lt_probe tick @ [b]\<rparr>
                  else tick)))"

definition liveness_tick :: "nat \<Rightarrow> nat \<Rightarrow> (string \<Rightarrow> nat) \<Rightarrow> device_manager \<Rightarrow> liveness_result" where
  "liveness_tick now idle dead m =
     foldl (liveness_of m now idle dead) \<lparr>lt_probe = [], lt_dead = []\<rparr> (map snd (dm_sessions m))"

definition idle_unpaired_links :: "nat \<Rightarrow> nat \<Rightarrow> (string \<Rightarrow> bool) \<Rightarrow> device_manager \<Rightarrow> session_binding list" where
  "idle_unpaired_links now max_age is_trusted m =
     filter (\<lambda>b. \<not> is_closed m (sb_link b))
       (List.map_filter session_binding_of
         (filter (\<lambda>x. ds_state x \<noteq> SsTerminated \<and> \<not> is_trusted (ds_device_id x)
                      \<and> ph_state (ds_pairing x) = NotPaired \<and> max_age \<le> now - ds_linked_at x)
           (map snd (dm_sessions m))))"

definition holds_paired_transport :: "string \<Rightarrow> device_manager \<Rightarrow> bool" where
  "holds_paired_transport d m =
     (case session_at m d of
        None \<Rightarrow> False
      | Some x \<Rightarrow> ds_state x \<noteq> SsTerminated \<and> ph_state (ds_pairing x) = Paired \<and> session_ready x)"

definition peer_restarted :: "string \<Rightarrow> string option \<Rightarrow> device_manager \<Rightarrow> bool" where
  "peer_restarted d instance m =
     (case instance of
        None \<Rightarrow> False
      | Some i \<Rightarrow>
          (case Option.bind (session_at m d) (\<lambda>x. Option.bind (ds_active_link x) (\<lambda>l. instance_id (sl_info (link_at m l)))) of
             None \<Rightarrow> False
           | Some current \<Rightarrow> current \<noteq> i))"

definition has_live_bootstrap_link :: "string \<Rightarrow> device_manager \<Rightarrow> bool" where
  "has_live_bootstrap_link d m =
     (case session_at m d of
        None \<Rightarrow> False
      | Some x \<Rightarrow> ds_state x \<noteq> SsTerminated
          \<and> (case ds_active_link x of Some l \<Rightarrow> \<not> is_closed m l | None \<Rightarrow> False))"

definition wants_bootstrap_connection :: "string \<Rightarrow> device_manager \<Rightarrow> bool" where
  "wants_bootstrap_connection d m \<longleftrightarrow> \<not> has_live_bootstrap_link d m"

definition bootstrap_is_relay :: "string \<Rightarrow> device_manager \<Rightarrow> bool" where
  "bootstrap_is_relay d m =
     (case Option.bind (session_at m d) (\<lambda>x. map_option (Pair x) (ds_active_link x)) of
        None \<Rightarrow> False
      | Some (x, l) \<Rightarrow> ds_state x \<noteq> SsTerminated \<and> \<not> is_closed m l \<and> link_local_ip (link_at m l) = None)"

record device_connection =
  dc_device_id :: string
  dc_linked :: bool
  dc_paired :: bool
  dc_ready :: bool

definition is_reachable :: "device_connection \<Rightarrow> bool" where
  "is_reachable c \<longleftrightarrow> dc_linked c \<or> dc_ready c"

definition connection_snapshot :: "device_manager \<Rightarrow> device_connection list" where
  "connection_snapshot m =
     map (\<lambda>x. \<lparr>dc_device_id = ds_device_id x,
               dc_linked = (ds_state x \<noteq> SsTerminated
                 \<and> (case ds_active_link x of Some l \<Rightarrow> \<not> is_closed m l | None \<Rightarrow> False)),
               dc_paired = (ph_state (ds_pairing x) = Paired), dc_ready = session_ready x\<rparr>)
       (map snd (dm_sessions m))"

definition unpaired_session_ids :: "device_manager \<Rightarrow> string list" where
  "unpaired_session_ids m =
     map fst (filter (\<lambda>(_, x). ds_active_link x \<noteq> None \<and> ph_state (ds_pairing x) \<noteq> Paired) (dm_sessions m))"

record transport_snapshot =
  ts_binding :: session_binding
  ts_paired :: bool
  ts_peer :: "nat option"
  ts_transfer_manager :: "nat option"
  ts_wire :: "wire_binding option"
  ts_ready :: bool

definition feature_transport_snapshot ::
  "session_binding \<Rightarrow> device_manager \<Rightarrow> (session_error, transport_snapshot) result" where
  "feature_transport_snapshot b m =
     fst (with_session b (\<lambda>x.
       (let (peer, manager, wire, ready) =
              (case (ds_active_webrtc x, ds_handover x) of
                 (Some peer, Some h) \<Rightarrow> (Some peer, ds_transfer_manager x, Some (hr_wire_binding h), features_ready h)
               | _ \<Rightarrow> (None, None, None, False))
        in \<lparr>ts_binding = b, ts_paired = (ph_state (ds_pairing x) = Paired), ts_peer = peer,
            ts_transfer_manager = manager, ts_wire = wire, ts_ready = ready\<rparr>, x)) m)"

definition ready_peer :: "string \<Rightarrow> device_manager \<Rightarrow> (nat \<times> bool) option" where
  "ready_peer d m =
     Option.bind (session_at m d) (\<lambda>x.
       if \<not> session_ready x then None
       else map_option (\<lambda>peer. (peer,
              (case ds_active_link x of Some l \<Rightarrow> link_local_ip (link_at m l) = None | None \<Rightarrow> False)))
            (ds_active_webrtc x))"

definition active_webrtc_peer :: "session_binding \<Rightarrow> string \<Rightarrow> device_manager \<Rightarrow> (session_error, nat) result" where
  "active_webrtc_peer b attempt m =
     fst (flatten (with_session b (\<lambda>x.
       (if ds_attempt_id x \<noteq> Some attempt then Inl StaleBinding else ok_or UnknownSession (ds_active_webrtc x), x)) m))"

definition active_webrtc_attempt :: "session_binding \<Rightarrow> device_manager \<Rightarrow> (session_error, string option) result" where
  "active_webrtc_attempt b m = fst (flatten (with_session b (\<lambda>x. (Inr (ds_attempt_id x), x)) m))"

definition webrtc_features_ready :: "session_binding \<Rightarrow> string \<Rightarrow> device_manager \<Rightarrow> (session_error, bool) result" where
  "webrtc_features_ready b attempt m =
     fst (flatten (with_session b (\<lambda>x.
       (if ds_attempt_id x \<noteq> Some attempt then Inl StaleBinding else Inr (session_ready x), x)) m))"

subsection \<open>Changes to one session\<close>

definition note_inbound :: "nat \<Rightarrow> string \<Rightarrow> device_manager \<Rightarrow> device_manager" where
  "note_inbound now d m =
     (case session_at m d of None \<Rightarrow> m | Some x \<Rightarrow> put_session d (x\<lparr>ds_last_inbound_at := now\<rparr>) m)"

definition claim_not_paired_notice :: "nat \<Rightarrow> session_binding \<Rightarrow> nat \<Rightarrow> device_manager \<Rightarrow> bool \<times> device_manager" where
  "claim_not_paired_notice now b interval m =
     (case session_at m (sb_device_id b) of
        None \<Rightarrow> (False, m)
      | Some x \<Rightarrow>
          if ph_state (ds_pairing x) \<noteq> NotPaired then (False, m)
          else if (case ds_last_notice x of Some t \<Rightarrow> now - t < interval | None \<Rightarrow> False) then (False, m)
          else (True, put_session (sb_device_id b) (x\<lparr>ds_last_notice := Some now\<rparr>) m))"

record disconnect_result =
  was_current :: bool
  feature_transport_retained :: bool
  dr_link :: "nat option"
  dr_webrtc :: "nat option"

definition not_current :: disconnect_result where
  "not_current = \<lparr>was_current = False, feature_transport_retained = False, dr_link = None, dr_webrtc = None\<rparr>"

definition disconnect_if_current ::
  "session_binding \<Rightarrow> string \<Rightarrow> device_manager \<Rightarrow> disconnect_result \<times> device_manager" where
  "disconnect_if_current b reason m =
     (case session_at m (sb_device_id b) of
        None \<Rightarrow> (not_current, m)
      | Some x \<Rightarrow>
          if \<not> binding_matches b x \<or> ds_state x = SsTerminated then (not_current, m)
          else
            (let x' = x\<lparr>ds_state := SsDisconnected, ds_last_reason := Some reason, ds_connected_at := None,
                        ds_active_link := None\<rparr>;
                 (webrtc, x') = clear_webrtc_state x'
             in (\<lparr>was_current = True, feature_transport_retained = False, dr_link = ds_active_link x,
                  dr_webrtc = webrtc\<rparr>,
                 put_session (sb_device_id b) x' (cancel_token (ds_token x) m))))"

text \<open>
  \<open>bootstrap_disconnected\<close> takes the lock twice: \<open>bootstrap_check\<close> is what it does before \<open>drop(sessions)\<close>,
  and without an answer from it \<open>disconnect_if_current\<close> follows, which looks the session up again.
\<close>

definition bootstrap_check ::
  "session_binding \<Rightarrow> nat option \<Rightarrow> device_manager \<Rightarrow> disconnect_result option \<times> device_manager" where
  "bootstrap_check b epoch m =
     (case session_at m (sb_device_id b) of
        None \<Rightarrow> (Some not_current, m)
      | Some x \<Rightarrow>
          if \<not> (binding_matches b x
               \<and> (case epoch of None \<Rightarrow> True | Some e \<Rightarrow> sl_epoch (link_at m (sb_link b)) = e))
             \<or> ds_state x = SsTerminated then (Some not_current, m)
          else if session_ready x then
            (Some \<lparr>was_current = True, feature_transport_retained = True, dr_link = ds_active_link x, dr_webrtc = None\<rparr>,
             put_session (sb_device_id b) (x\<lparr>ds_state := SsReady, ds_last_reason := None\<rparr>) m)
          else (None, m))"

definition bootstrap_disconnected ::
  "session_binding \<Rightarrow> string \<Rightarrow> nat option \<Rightarrow> device_manager \<Rightarrow> disconnect_result \<times> device_manager" where
  "bootstrap_disconnected b reason epoch m =
     (case bootstrap_check b epoch m of
        (Some r, m) \<Rightarrow> (r, m)
      | (None, m) \<Rightarrow> disconnect_if_current b reason m)"

definition bootstrap_disconnected_if_current ::
  "session_binding \<Rightarrow> string \<Rightarrow> device_manager \<Rightarrow> disconnect_result \<times> device_manager" where
  "bootstrap_disconnected_if_current b reason m = bootstrap_disconnected b reason None m"

definition reader_disconnected ::
  "session_binding \<Rightarrow> nat \<Rightarrow> string \<Rightarrow> device_manager \<Rightarrow> disconnect_result \<times> device_manager" where
  "reader_disconnected b epoch reason m = bootstrap_disconnected b reason (Some epoch) m"

datatype installed = Replaced "nat option" | Occupied nat

definition install_webrtc_peer_with ::
  "session_binding \<Rightarrow> string \<Rightarrow> wire_binding \<Rightarrow> nat \<Rightarrow> nat \<Rightarrow> bool \<Rightarrow> device_manager
     \<Rightarrow> (session_error, installed) result \<times> device_manager" where
  "install_webrtc_peer_with b attempt wire peer manager only_if_none m =
     flatten (with_session b (\<lambda>x.
       if ph_state (ds_pairing x) \<noteq> Paired then (Inl SeNotPaired, x)
       else if only_if_none \<and> ds_active_webrtc x \<noteq> None then (Inr (Occupied peer), x)
       else (Inr (Replaced (ds_active_webrtc x)),
             x\<lparr>ds_active_webrtc := Some peer, ds_transfer_manager := Some manager,
               ds_handover := Some (handover_new attempt wire), ds_attempt_id := Some attempt,
               ds_seen_requests := rc_clear (ds_seen_requests x),
               ds_seen_messages := rc_clear (ds_seen_messages x)\<rparr>)) m)"

text \<open>\<open>install_webrtc_peer\<close> never meets \<open>Occupied\<close>: there is no such branch to take.\<close>

definition install_webrtc_peer ::
  "session_binding \<Rightarrow> string \<Rightarrow> wire_binding \<Rightarrow> nat \<Rightarrow> nat \<Rightarrow> device_manager
     \<Rightarrow> (session_error, nat option) result \<times> device_manager" where
  "install_webrtc_peer b attempt wire peer manager m =
     (let (r, m) = install_webrtc_peer_with b attempt wire peer manager False m
      in (map_res (\<lambda>i. case i of Replaced old \<Rightarrow> old | Occupied _ \<Rightarrow> None) r, m))"

definition install_webrtc_peer_if_none ::
  "session_binding \<Rightarrow> string \<Rightarrow> wire_binding \<Rightarrow> nat \<Rightarrow> nat \<Rightarrow> device_manager
     \<Rightarrow> (session_error, installed) result \<times> device_manager" where
  "install_webrtc_peer_if_none b attempt wire peer manager m =
     install_webrtc_peer_with b attempt wire peer manager True m"

definition clear_webrtc_if_current ::
  "session_binding \<Rightarrow> string \<Rightarrow> string \<Rightarrow> device_manager \<Rightarrow> (session_error, nat option) result \<times> device_manager" where
  "clear_webrtc_if_current b attempt reason m =
     flatten (with_session b (\<lambda>x.
       if ds_attempt_id x \<noteq> Some attempt then (Inl StaleBinding, x)
       else (let (peer, x) = clear_webrtc_state (x\<lparr>ds_last_reason := Some reason\<rparr>) in (Inr peer, x))) m)"

definition forget_pairing :: "string \<Rightarrow> device_manager \<Rightarrow> nat option \<times> device_manager" where
  "forget_pairing d m =
     (case session_at m d of
        None \<Rightarrow> (None, m)
      | Some x \<Rightarrow>
          (let (peer, x) = clear_webrtc_state (x\<lparr>ds_pairing := handler_new False, ds_pending := []\<rparr>)
           in (peer, put_session d x m)))"

definition queue_feature ::
  "nat \<Rightarrow> session_binding \<Rightarrow> network_packet \<Rightarrow> device_manager \<Rightarrow> (session_error, bool) result \<times> device_manager" where
  "queue_feature now b p m =
     with_session b (\<lambda>x.
       if session_ready x then (False, x)
       else (let waiting = (if PENDING_FEATURE_LIMIT \<le> length (ds_pending x) then tl (ds_pending x) else ds_pending x)
             in (True, x\<lparr>ds_pending := waiting @ [(now, p)]\<rparr>))) m"

definition take_pending_features ::
  "nat \<Rightarrow> session_binding \<Rightarrow> device_manager \<Rightarrow> network_packet list \<times> device_manager" where
  "take_pending_features now b m =
     (let (r, m) = with_session b (\<lambda>x.
            (map snd (filter (\<lambda>(t, _). now - t \<le> PENDING_FEATURE_MAX_AGE) (ds_pending x)),
             x\<lparr>ds_pending := []\<rparr>)) m
      in (case r of Inr ps \<Rightarrow> ps | Inl _ \<Rightarrow> [], m))"

definition revoke_pairing ::
  "int \<Rightarrow> session_binding \<Rightarrow> string \<Rightarrow> device_manager
     \<Rightarrow> (session_error, network_packet \<times> nat option) result \<times> device_manager" where
  "revoke_pairing ms b reason m =
     with_session b (\<lambda>x.
       let (packet, h) = reject_packet ms (ds_pairing x);
           (peer, x) = clear_webrtc_state (x\<lparr>ds_pairing := h, ds_last_reason := Some reason, ds_pending := []\<rparr>)
       in ((packet, peer), x)) m"

datatype handover_access = HaSession session_error | HaReplaced | HaNotInitialized | HaOperation handover_error

text \<open>The operation may change the handover whether it fails or not.\<close>

definition with_webrtc_handover ::
  "session_binding \<Rightarrow> string \<Rightarrow> (handover_runtime \<Rightarrow> (handover_error, 'r) result \<times> handover_runtime)
     \<Rightarrow> device_manager \<Rightarrow> (handover_access, 'r) result \<times> device_manager" where
  "with_webrtc_handover b attempt f m =
     (let (r, m) = with_session b (\<lambda>x.
            if ds_attempt_id x \<noteq> Some attempt then (Inl HaReplaced, x)
            else (case ds_handover x of
                None \<Rightarrow> (Inl HaNotInitialized, x)
              | Some h \<Rightarrow> (let (r, h') = f h
                           in (case r of Inl e \<Rightarrow> Inl (HaOperation e) | Inr v \<Rightarrow> Inr v, x\<lparr>ds_handover := Some h'\<rparr>)))) m
      in (case r of Inl e \<Rightarrow> Inl (HaSession e) | Inr r \<Rightarrow> r, m))"

definition accept_webrtc_signal ::
  "session_binding \<Rightarrow> string \<Rightarrow> string \<Rightarrow> device_manager \<Rightarrow> (session_error, nat) result \<times> device_manager" where
  "accept_webrtc_signal b attempt rid m =
     flatten (with_session b (\<lambda>x.
       if ph_state (ds_pairing x) \<noteq> Paired then (Inl SeNotPaired, x)
       else if ds_attempt_id x \<noteq> Some attempt then (Inl StaleBinding, x)
       else (let (fresh, c) = rc_accept rid (ds_seen_requests x); x = x\<lparr>ds_seen_requests := c\<rparr>
             in if \<not> fresh then (Inl ReplayDetected, x) else (ok_or UnknownSession (ds_active_webrtc x), x))) m)"

definition note_signal_request ::
  "session_binding \<Rightarrow> string \<Rightarrow> device_manager \<Rightarrow> (session_error, unit) result \<times> device_manager" where
  "note_signal_request b rid m =
     flatten (with_session b (\<lambda>x.
       if ph_state (ds_pairing x) \<noteq> Paired then (Inl SeNotPaired, x)
       else (let (fresh, c) = rc_accept rid (ds_seen_signals x); x = x\<lparr>ds_seen_signals := c\<rparr>
             in (if \<not> fresh then Inl ReplayDetected else Inr (), x))) m)"

definition accept_webrtc_envelope ::
  "session_binding \<Rightarrow> string \<Rightarrow> string \<Rightarrow> device_manager \<Rightarrow> (session_error, unit) result \<times> device_manager" where
  "accept_webrtc_envelope b attempt mid m =
     flatten (with_session b (\<lambda>x.
       if ds_attempt_id x \<noteq> Some attempt then (Inl StaleBinding, x)
       else (let (fresh, c) = rc_accept mid (ds_seen_messages x); x = x\<lparr>ds_seen_messages := c\<rparr>
             in (if \<not> fresh then Inl ReplayDetected else Inr (), x))) m)"

subsection \<open>Reconnecting, expiry and the end\<close>

record reconnect_lease =
  rl_device_id :: string
  rl_session_id :: nat
  rl_generation :: nat

definition claim_reconnect :: "nat \<Rightarrow> string \<Rightarrow> device_manager \<Rightarrow> reconnect_lease option \<times> device_manager" where
  "claim_reconnect now d m =
     (case session_at m d of
        None \<Rightarrow> (None, m)
      | Some x \<Rightarrow>
          if ds_state x = SsTerminated \<or> ph_state (ds_pairing x) \<noteq> Paired \<or> ds_reconnect_scheduled x
             \<or> (case ds_next_reconnect_at x of Some t \<Rightarrow> now < t | None \<Rightarrow> False) then (None, m)
          else (Some \<lparr>rl_device_id = d, rl_session_id = ds_session_id x, rl_generation = ds_generation x\<rparr>,
                put_session d (x\<lparr>ds_state := SsReconnecting, ds_reconnect_scheduled := True\<rparr>) m))"

definition lease_holds :: "reconnect_lease \<Rightarrow> device_session \<Rightarrow> bool" where
  "lease_holds r x \<longleftrightarrow>
     ds_session_id x = rl_session_id r \<and> ds_generation x = rl_generation r \<and> ds_state x \<noteq> SsTerminated"

definition reconnect_succeeded :: "reconnect_lease \<Rightarrow> device_manager \<Rightarrow> device_manager" where
  "reconnect_succeeded r m =
     (case session_at m (rl_device_id r) of
        None \<Rightarrow> m
      | Some x \<Rightarrow>
          if lease_holds r x
          then put_session (rl_device_id r)
                 (x\<lparr>ds_reconnect_scheduled := False, ds_reconnect_attempt := 0, ds_next_reconnect_at := None\<rparr>) m
          else m)"

definition reconnect_failed :: "reconnect_lease \<Rightarrow> string \<Rightarrow> device_manager \<Rightarrow> device_manager" where
  "reconnect_failed r reason m =
     (case session_at m (rl_device_id r) of
        None \<Rightarrow> m
      | Some x \<Rightarrow>
          if lease_holds r x
          then put_session (rl_device_id r)
                 (x\<lparr>ds_state := SsDisconnected, ds_reconnect_scheduled := False,
                    ds_reconnect_attempt := min (2 ^ 32 - 1) (ds_reconnect_attempt x + 1),
                    ds_last_reason := Some reason\<rparr>) m
          else m)"

definition terminate_session :: "device_session \<Rightarrow> device_session" where
  "terminate_session x =
     (snd (clear_webrtc_state
        (x\<lparr>ds_state := SsTerminated, ds_reconnect_scheduled := False, ds_next_reconnect_at := None\<rparr>)))\<lparr>ds_active_link := None\<rparr>"

definition terminate_all :: "device_manager \<Rightarrow> nat list \<times> device_manager" where
  "terminate_all m =
     (let xs = map snd (dm_sessions m) in
      (List.map_filter ds_active_link xs,
       m\<lparr>dm_sessions := map (\<lambda>(d, x). (d, terminate_session x)) (dm_sessions m),
         dm_tokens := foldl (\<lambda>ts x. ts[ds_token x := True]) (dm_tokens m) xs,
         dm_closed_peers := dm_closed_peers m @ List.map_filter ds_active_webrtc xs\<rparr>))"

definition expire_session :: "int \<Rightarrow> device_session \<Rightarrow> device_session" where
  "expire_session now_secs x = x\<lparr>ds_pairing := snd (expire_if_due now_secs (ds_pairing x))\<rparr>"

definition expire_pairing :: "int \<Rightarrow> device_manager \<Rightarrow> string list \<times> device_manager" where
  "expire_pairing now_secs m =
     (map ds_device_id (filter (\<lambda>x. fst (expire_if_due now_secs (ds_pairing x))) (map snd (dm_sessions m))),
      m\<lparr>dm_sessions := map (\<lambda>(d, x). (d, expire_session now_secs x)) (dm_sessions m)\<rparr>)"

subsection \<open>Invariant and evolution\<close>

lemma session_at_put [simp]: "session_at (put_session d x m) d' = (if d' = d then Some x else session_at m d')"
  by (simp add: session_at_def put_session_def update_conv')

lemma put_session_fields [simp]:
  "dm_tokens (put_session d x m) = dm_tokens m" "dm_links (put_session d x m) = dm_links m"
  "dm_next_session_id (put_session d x m) = dm_next_session_id m" "dm_shut (put_session d x m) = dm_shut m"
  by (simp_all add: put_session_def)

lemma session_at_other [simp]:
  "session_at (m\<lparr>dm_links := ls\<rparr>) d = session_at m d" "session_at (m\<lparr>dm_tokens := ts\<rparr>) d = session_at m d"
  "session_at (m\<lparr>dm_shut := cs\<rparr>) d = session_at m d" "session_at (m\<lparr>dm_next_session_id := n\<rparr>) d = session_at m d"
  "session_at (cancel_token t m) d = session_at m d" "session_at (close_link l m) d = session_at m d"
  by (simp_all add: session_at_def cancel_token_def close_link_def link_close_def)

lemma close_link_fields [simp]:
  "dm_tokens (close_link l m) = dm_tokens m" "length (dm_links (close_link l m)) = length (dm_links m)"
  by (simp_all add: close_link_def link_close_def)

lemma cancel_token_fields [simp]:
  "dm_tokens (cancel_token t m) = (dm_tokens m)[t := True]" "dm_links (cancel_token t m) = dm_links m"
  by (simp_all add: cancel_token_def)

text \<open>What a binding compares, and what every session keeps.\<close>

definition ident :: "device_session \<Rightarrow> string \<times> nat \<times> nat \<times> nat option \<times> nat" where
  "ident x = (ds_device_id x, ds_session_id x, ds_generation x, ds_active_link x, ds_token x)"

definition session_ok :: "device_session \<Rightarrow> bool" where
  "session_ok x \<longleftrightarrow> length (ds_pending x) \<le> PENDING_FEATURE_LIMIT
     \<and> rc_ok (ds_seen_requests x) \<and> rc_ok (ds_seen_signals x) \<and> rc_ok (ds_seen_messages x)"

definition session_wf :: "device_manager \<Rightarrow> string \<Rightarrow> device_session \<Rightarrow> bool" where
  "session_wf m d x \<longleftrightarrow> ds_device_id x = d \<and> ds_token x < length (dm_tokens m)
     \<and> (\<forall>l. ds_active_link x = Some l \<longrightarrow> l < length (dm_links m))
     \<and> (dm_tokens m ! ds_token x \<longrightarrow> ds_active_link x = None) \<and> session_ok x"

definition token_inj :: "device_manager \<Rightarrow> bool" where
  "token_inj m \<longleftrightarrow> (\<forall>d d' x x'. session_at m d = Some x \<longrightarrow> session_at m d' = Some x' \<longrightarrow>
     ds_token x = ds_token x' \<longrightarrow> d = d')"

definition sessions_wf :: "device_manager \<Rightarrow> bool" where
  "sessions_wf m \<longleftrightarrow> (\<forall>d x. session_at m d = Some x \<longrightarrow> session_wf m d x)"

definition dm_inv :: "device_manager \<Rightarrow> bool" where
  "dm_inv m \<longleftrightarrow> sessions_wf m \<and> token_inj m"

text \<open>
  Tokens are never taken back, and a session keeps what bindings compare unless it gets a new
  token or its token is cancelled.
\<close>

definition same_session :: "device_session \<Rightarrow> device_session \<Rightarrow> bool" where
  "same_session x y \<longleftrightarrow> ident y = ident x \<and> (ds_state x = SsTerminated \<longrightarrow> ds_state y = SsTerminated)"

definition evolves :: "device_manager \<Rightarrow> device_manager \<Rightarrow> bool" where
  "evolves m m' \<longleftrightarrow>
     length (dm_tokens m) \<le> length (dm_tokens m')
     \<and> (\<forall>t < length (dm_tokens m). dm_tokens m ! t \<longrightarrow> dm_tokens m' ! t)
     \<and> (\<forall>d y. session_at m' d = Some y \<longrightarrow>
          length (dm_tokens m) \<le> ds_token y \<or> dm_tokens m' ! ds_token y
          \<or> (\<exists>x. session_at m d = Some x \<and> same_session x y))"

definition good_step :: "device_manager \<Rightarrow> device_manager \<Rightarrow> bool" where
  "good_step m m' \<longleftrightarrow> (dm_inv m \<longrightarrow> dm_inv m' \<and> evolves m m')"

lemma same_session_refl [simp]: "same_session x x"
  by (simp add: same_session_def)

lemma good_step_refl [simp]: "good_step m m"
  by (auto simp: good_step_def evolves_def)

lemma good_step_put:
  assumes "session_at m d = Some x" and "same_session x y" and "session_ok x \<Longrightarrow> session_ok y"
  shows "good_step m (put_session d y m)"
proof -
  have i: "ds_token y = ds_token x" using assms(2) by (simp add: same_session_def ident_def)
  have "sessions_wf (put_session d y m)" if "sessions_wf m"
    using that assms by (auto simp: sessions_wf_def session_wf_def same_session_def ident_def)
  moreover have "token_inj (put_session d y m)" if "token_inj m"
    using that assms(1) i unfolding token_inj_def by (metis option.inject session_at_put)
  moreover have "evolves m (put_session d y m)"
    using assms(1,2) by (auto simp: evolves_def)
  ultimately show ?thesis by (simp add: good_step_def dm_inv_def)
qed

text \<open>A change through a binding: the operation keeps the session's identity.\<close>

lemma good_step_with:
  assumes "\<And>x. same_session x (snd (f x))" and "\<And>x. session_ok x \<Longrightarrow> session_ok (snd (f x))"
  shows "good_step m (snd (with_session b f m))"
proof (cases "session_at m (sb_device_id b)")
  case (Some x)
  show ?thesis
    using good_step_put [OF Some assms(1) assms(2)] Some by (auto simp: with_session_def split: prod.splits)
qed (simp add: with_session_def)

lemma snd_flatten [simp]: "snd (flatten r) = snd r"
  by (simp add: flatten_def)

lemma with_session_refused: "\<not> is_current b m \<Longrightarrow> \<exists>e. with_session b f m = (Inl e, m)"
  by (auto simp: is_current_def with_session_def split: option.splits if_splits)

lemmas session_unfold = same_session_def ident_def session_ok_def clear_webrtc_state_def

lemma pending_tl: "length ps \<le> PENDING_FEATURE_LIMIT \<Longrightarrow>
    length ((if PENDING_FEATURE_LIMIT \<le> length ps then tl ps else ps) @ [p]) \<le> PENDING_FEATURE_LIMIT"
  by (simp add: PENDING_FEATURE_LIMIT_def)

lemma good_note_inbound: "good_step m (note_inbound now d m)"
  by (auto simp: note_inbound_def session_unfold split: option.splits intro!: good_step_put)

lemma good_claim_notice: "good_step m (snd (claim_not_paired_notice now b i m))"
  by (auto simp: claim_not_paired_notice_def session_unfold split: option.splits intro!: good_step_put)

lemma good_install: "good_step m (snd (install_webrtc_peer_with b attempt wire peer manager only m))"
  unfolding install_webrtc_peer_with_def snd_flatten
  by (rule good_step_with) (auto simp: session_unfold intro: wf_intros)

lemma good_clear_webrtc: "good_step m (snd (clear_webrtc_if_current b attempt reason m))"
  unfolding clear_webrtc_if_current_def snd_flatten
  by (rule good_step_with) (auto simp: session_unfold intro: wf_intros)

lemma good_forget: "good_step m (snd (forget_pairing d m))"
  by (auto simp: forget_pairing_def session_unfold split: option.splits intro!: good_step_put intro: wf_intros)

lemma good_queue: "good_step m (snd (queue_feature now b p m))"
  unfolding queue_feature_def
  by (rule good_step_with) (auto simp: session_unfold Let_def PENDING_FEATURE_LIMIT_def)

lemma good_take: "good_step m (snd (take_pending_features now b m))"
proof -
  have "good_step m (snd (with_session b (\<lambda>x. (f x, x\<lparr>ds_pending := []\<rparr>)) m))" for f :: "device_session \<Rightarrow> network_packet list"
    by (rule good_step_with) (auto simp: session_unfold)
  then show ?thesis by (simp add: take_pending_features_def Let_def split_beta)
qed

lemma good_revoke: "good_step m (snd (revoke_pairing ms b reason m))"
  unfolding revoke_pairing_def
  by (rule good_step_with) (auto simp: session_unfold split_beta intro: wf_intros)

lemma good_handover: "good_step m (snd (with_webrtc_handover b attempt f m))"
  unfolding with_webrtc_handover_def Let_def split_beta snd_conv
  by (rule good_step_with) (auto simp: session_unfold split: option.splits prod.splits)

lemma good_accept_signal: "good_step m (snd (accept_webrtc_signal b attempt rid m))"
  unfolding accept_webrtc_signal_def snd_flatten
  by (rule good_step_with) (auto simp: session_unfold Let_def split_beta intro: wf_intros)

lemma good_note_signal: "good_step m (snd (note_signal_request b rid m))"
  unfolding note_signal_request_def snd_flatten
  by (rule good_step_with) (auto simp: session_unfold Let_def split_beta intro: wf_intros)

lemma good_accept_envelope: "good_step m (snd (accept_webrtc_envelope b attempt mid m))"
  unfolding accept_webrtc_envelope_def snd_flatten
  by (rule good_step_with) (auto simp: session_unfold Let_def split_beta intro: wf_intros)

lemma good_claim_reconnect: "good_step m (snd (claim_reconnect now d m))"
  by (auto simp: claim_reconnect_def session_unfold split: option.splits intro!: good_step_put)

lemma good_reconnect_succeeded: "good_step m (reconnect_succeeded r m)"
  by (auto simp: reconnect_succeeded_def session_unfold split: option.splits intro!: good_step_put)

lemma good_reconnect_failed: "good_step m (reconnect_failed r reason m)"
  by (auto simp: reconnect_failed_def lease_holds_def session_unfold split: option.splits intro!: good_step_put)

lemma good_close: "good_step m (close_link l m)"
  by (auto simp: good_step_def dm_inv_def sessions_wf_def token_inj_def evolves_def session_wf_def)

lemma set_token: "t < length ts \<Longrightarrow> ts ! t \<Longrightarrow> ts[k := True] ! t"
  by (cases "t = k") simp_all

text \<open>Cancelling the token of a session whose link goes, and giving it a new one.\<close>

lemma dm_inv_cancelled:
  assumes "dm_inv m" and "session_at m d = Some x" and "ds_token y = ds_token x" and "ds_device_id y = ds_device_id x"
    and "ds_active_link y = None" and "session_ok x \<Longrightarrow> session_ok y"
  shows "dm_inv (put_session d y (cancel_token (ds_token x) m))"
proof -
  have inj: "token_inj m" and wf: "\<And>d x. session_at m d = Some x \<Longrightarrow> session_wf m d x"
    using assms(1) by (auto simp: dm_inv_def sessions_wf_def)
  have "session_wf (put_session d y (cancel_token (ds_token x) m)) d' z" if "session_at m d' = Some z" and "d' \<noteq> d" for d' z
  proof -
    have "ds_token z \<noteq> ds_token x" using inj that assms(2) unfolding token_inj_def by blast
    then show ?thesis using wf [OF that(1)] by (simp add: session_wf_def)
  qed
  moreover have "session_wf (put_session d y (cancel_token (ds_token x) m)) d y"
    using wf [OF assms(2)] assms(3-6) by (simp add: session_wf_def)
  moreover have "token_inj (put_session d y (cancel_token (ds_token x) m))"
    using inj assms(2,3) unfolding token_inj_def by (auto split: if_splits)
  ultimately show ?thesis by (auto simp: dm_inv_def sessions_wf_def)
qed

lemma good_disconnect: "good_step m (snd (disconnect_if_current b reason m))"
proof (cases "session_at m (sb_device_id b)")
  case (Some x)
  show ?thesis
  proof (cases "\<not> binding_matches b x \<or> ds_state x = SsTerminated")
    case False
    let ?y = "snd (clear_webrtc_state (x\<lparr>ds_state := SsDisconnected, ds_last_reason := Some reason, ds_connected_at := None, ds_active_link := None\<rparr>))"
    let ?m' = "put_session (sb_device_id b) ?y (cancel_token (ds_token x) m)"
    have eq: "snd (disconnect_if_current b reason m) = ?m'"
      using False Some by (simp add: disconnect_if_current_def Let_def split_beta)
    have "dm_inv ?m' \<and> evolves m ?m'" if inv: "dm_inv m"
    proof
      have x: "session_wf m (sb_device_id b) x" using inv Some by (simp add: dm_inv_def sessions_wf_def)
      show "dm_inv ?m'" by (rule dm_inv_cancelled [OF inv Some]) (auto simp: session_unfold intro: wf_intros)
      have "dm_tokens ?m' ! ds_token ?y" using x by (simp add: session_wf_def clear_webrtc_state_def)
      then show "evolves m ?m'" by (auto simp: evolves_def set_token)
    qed
    then show ?thesis by (simp add: good_step_def eq)
  qed (simp add: disconnect_if_current_def Some)
qed (simp add: disconnect_if_current_def)

lemma good_bootstrap: "good_step m (snd (bootstrap_check b epoch m))"
  by (auto simp: bootstrap_check_def session_unfold split: option.splits intro!: good_step_put)

lemma good_adopt: "good_step m (snd (adopt_or_keep now d c cert quiet m))"
proof -
  have "good_step m (put_session d y (m\<lparr>dm_links := (dm_links m)[l := k]\<rparr>))"
    if "session_at m d = Some x" "same_session x y" "session_ok x \<Longrightarrow> session_ok y" for x y l k
  proof -
    let ?m = "m\<lparr>dm_links := (dm_links m)[l := k]\<rparr>"
    have "good_step ?m (put_session d y ?m)" by (rule good_step_put [of _ _ x]) (use that in simp_all)
    moreover have "dm_inv ?m = dm_inv m" by (simp add: dm_inv_def sessions_wf_def session_wf_def token_inj_def)
    moreover have "evolves ?m m' = evolves m m'" for m' by (simp add: evolves_def)
    ultimately show ?thesis by (simp add: good_step_def)
  qed
  then show ?thesis
    by (auto simp: adopt_or_keep_def Let_def split_beta session_unfold split: option.splits)
qed

lemma dm_inv_fresh:
  assumes inv: "dm_inv m" and at: "\<And>d'. session_at m' d' = (if d' = d then Some y else session_at m d')"
    and m': "dm_tokens m' = ts @ [False]" "length ts = length (dm_tokens m)" "dm_links m' = dm_links m @ [link]"
    and y: "ds_device_id y = d" "ds_token y = length ts" "ds_active_link y = Some (length (dm_links m))" "session_ok y"
    and same: "\<And>d' z. session_at m d' = Some z \<Longrightarrow> d' \<noteq> d \<Longrightarrow> ts ! ds_token z = dm_tokens m ! ds_token z"
  shows "dm_inv m'"
proof -
  have wf: "session_wf m d' z" if "session_at m d' = Some z" for d' z
    using inv that by (simp add: dm_inv_def sessions_wf_def)
  have lt: "ds_token z < length ts" if "session_at m d' = Some z" for d' z
    using wf [OF that] m'(2) by (simp add: session_wf_def)
  have "session_wf m' d' z" if "session_at m' d' = Some z" for d' z
  proof (cases "d' = d")
    case True
    then show ?thesis using that y m' by (simp add: at session_wf_def nth_append)
  next
    case False
    then have z: "session_at m d' = Some z" using that at by simp
    show ?thesis using wf [OF z] lt [OF z] same [OF z False] m' by (auto simp: session_wf_def nth_append)
  qed
  moreover have "token_inj m'"
    using inv lt y(2) unfolding dm_inv_def token_inj_def at by (metis less_irrefl option.inject)
  ultimately show ?thesis by (auto simp: dm_inv_def sessions_wf_def)
qed

lemma good_register_new:
  assumes "session_at m d = None"
  shows "good_step m (snd (register_link now d link paired m))"
proof -
  let ?y = "session_new (dm_next_session_id m) d paired (length (dm_links m)) (length (dm_tokens m)) now"
  let ?m' = "put_session d ?y (m\<lparr>dm_next_session_id := dm_next_session_id m + 1, dm_links := dm_links m @ [link],
    dm_tokens := dm_tokens m @ [False]\<rparr>)"
  have eq: "snd (register_link now d link paired m) = ?m'"
    by (simp add: register_link_def Let_def assms)
  have y: "ds_device_id ?y = d" "ds_token ?y = length (dm_tokens m)" "ds_active_link ?y = Some (length (dm_links m))" "session_ok ?y"
    by (auto simp: session_new_def session_ok_def intro: wf_intros)
  have "dm_inv ?m'" if "dm_inv m"
    by (rule dm_inv_fresh [OF that, where d = d and y = ?y and ts = "dm_tokens m" and link = link]) (use y in simp_all)
  moreover have "evolves m ?m'" using y(2) by (auto simp: evolves_def nth_append)
  ultimately show ?thesis by (simp add: eq good_step_def)
qed

lemma good_register_again:
  assumes "session_at m d = Some x" and "ds_state x \<noteq> SsTerminated"
  shows "good_step m (snd (register_link now d link paired m))"
proof -
  let ?y = "session_relink now paired (length (dm_links m)) (length (dm_tokens m)) x"
  let ?ts = "(dm_tokens m)[ds_token x := True]"
  let ?m' = "put_session d ?y ((cancel_token (ds_token x) m)\<lparr>dm_links := dm_links m @ [link], dm_tokens := ?ts @ [False]\<rparr>)"
  have eq: "snd (register_link now d link paired m) = (case ds_active_link x of Some old \<Rightarrow> close_link old ?m' | None \<Rightarrow> ?m')"
    using assms by (cases "ds_active_link x") (simp_all add: register_link_def Let_def)
  have y: "ds_device_id ?y = ds_device_id x" "ds_token ?y = length ?ts" "ds_active_link ?y = Some (length (dm_links m))"
    "session_ok x \<Longrightarrow> session_ok ?y"
    by (auto simp: session_relink_def Let_def clear_webrtc_state_def session_ok_def intro: wf_intros)
  have "dm_inv ?m'" if inv: "dm_inv m"
  proof (rule dm_inv_fresh [OF inv, where d = d and y = ?y and ts = ?ts and link = link])
    have "session_wf m d x" using inv assms(1) by (simp add: dm_inv_def sessions_wf_def)
    then show "ds_device_id ?y = d" "session_ok ?y" using y by (simp_all add: session_wf_def)
    show "?ts ! ds_token z = dm_tokens m ! ds_token z" if "session_at m d' = Some z" "d' \<noteq> d" for d' z
      using inv assms(1) that unfolding dm_inv_def token_inj_def by (metis nth_list_update_neq)
  qed (use y in simp_all)
  moreover have "evolves m ?m'" using y(2) by (auto simp: evolves_def nth_append set_token)
  ultimately have "good_step m ?m'" by (simp add: good_step_def)
  moreover have "good_step m (close_link old ?m')" if "good_step m ?m'" for old
    using that good_close [of ?m' old] by (auto simp: good_step_def evolves_def)
  ultimately show ?thesis unfolding eq by (auto split: option.splits)
qed

lemma good_register: "good_step m (snd (register_link now d link paired m))"
proof (cases "session_at m d")
  case (Some x)
  then show ?thesis
    using good_register_again by (cases "ds_state x = SsTerminated") (simp_all add: register_link_def)
qed (rule good_register_new)

text \<open>The operations on all sessions.\<close>

lemma session_at_map:
  "session_at (m\<lparr>dm_sessions := map (\<lambda>(d, x). (d, f x)) (dm_sessions m)\<rparr>) d = map_option f (session_at m d)"
  by (simp add: session_at_def map_of_map)

lemma good_expire: "good_step m (snd (expire_pairing now m))"
  by (auto simp: expire_pairing_def good_step_def dm_inv_def sessions_wf_def token_inj_def evolves_def session_wf_def
      session_at_map expire_session_def session_unfold)

lemma tokens_all:
  "length (foldl (\<lambda>ts x. ts[ds_token x := True]) ts xs) = length ts"
  "t < length ts \<Longrightarrow> ts ! t \<or> (\<exists>x \<in> set xs. ds_token x = t) \<Longrightarrow> foldl (\<lambda>ts x. ts[ds_token x := True]) ts xs ! t"
proof -
  show len: "length (foldl (\<lambda>ts x. ts[ds_token x := True]) ts xs) = length ts" for ts
    by (induction xs arbitrary: ts) simp_all
  show "t < length ts \<Longrightarrow> ts ! t \<or> (\<exists>x \<in> set xs. ds_token x = t) \<Longrightarrow> foldl (\<lambda>ts x. ts[ds_token x := True]) ts xs ! t"
  proof (induction xs arbitrary: ts)
    case (Cons a xs)
    have "(ts[ds_token a := True]) ! t \<or> (\<exists>x \<in> set xs. ds_token x = t)" using Cons.prems by (auto simp: set_token)
    then show ?case using Cons.IH [of "ts[ds_token a := True]"] Cons.prems(1) by simp
  qed simp
qed

lemma good_terminate: "good_step m (snd (terminate_all m))"
proof -
  let ?m' = "snd (terminate_all m)"
  have at: "session_at ?m' d = map_option terminate_session (session_at m d)" for d
    by (simp add: terminate_all_def Let_def session_at_def map_of_map)
  have len: "length (dm_tokens ?m') = length (dm_tokens m)" "dm_links ?m' = dm_links m"
    by (simp_all add: terminate_all_def Let_def tokens_all)
  have keep: "dm_tokens m ! t \<Longrightarrow> t < length (dm_tokens m) \<Longrightarrow> dm_tokens ?m' ! t" for t
    by (simp add: terminate_all_def Let_def tokens_all)
  have gone: "dm_tokens ?m' ! ds_token x" if "session_at m d = Some x" "ds_token x < length (dm_tokens m)" for d x
  proof -
    have "x \<in> set (map snd (dm_sessions m))" using that(1) by (force simp: session_at_def dest!: map_of_SomeD)
    then show ?thesis using that(2) by (simp add: terminate_all_def Let_def) (rule tokens_all(2), auto)
  qed
  have t: "ds_token (terminate_session x) = ds_token x" "ds_device_id (terminate_session x) = ds_device_id x"
    "ds_active_link (terminate_session x) = None" "session_ok x \<Longrightarrow> session_ok (terminate_session x)" for x
    by (auto simp: terminate_session_def clear_webrtc_state_def session_ok_def intro: wf_intros)
  show ?thesis
    using gone keep t
    by (auto simp: good_step_def dm_inv_def sessions_wf_def token_inj_def evolves_def session_wf_def at len)
qed

subsection \<open>Runs of the manager\<close>

text \<open>
  Every operation that changes the manager, in any order, with any bindings and clocks. What
  \<open>bootstrap_disconnected\<close> does is two steps, \<open>dm_bootstrap\<close> and \<open>dm_disconnect\<close>, with anything in
  between. The daemon changes a session's pairing through \<open>with_session\<close> (\<open>pairing\<close>), and closes links it
  was handed (\<open>close\<close>).
\<close>

inductive dm_step :: "device_manager \<Rightarrow> device_manager \<Rightarrow> bool" where
  dm_register: "dm_step m (snd (register_link now d link paired m))"
| dm_adopt: "dm_step m (snd (adopt_or_keep now d c cert quiet m))"
| dm_inbound: "dm_step m (note_inbound now d m)"
| dm_notice: "dm_step m (snd (claim_not_paired_notice now b interval m))"
| dm_disconnect: "dm_step m (snd (disconnect_if_current b reason m))"
| dm_bootstrap: "dm_step m (snd (bootstrap_check b epoch m))"
| dm_install: "dm_step m (snd (install_webrtc_peer_with b attempt wire peer manager only m))"
| dm_clear: "dm_step m (snd (clear_webrtc_if_current b attempt reason m))"
| dm_forget: "dm_step m (snd (forget_pairing d m))"
| dm_queue: "dm_step m (snd (queue_feature now b p m))"
| dm_take: "dm_step m (snd (take_pending_features now b m))"
| dm_revoke: "dm_step m (snd (revoke_pairing ms b reason m))"
| dm_handover: "dm_step m (snd (with_webrtc_handover b attempt (f :: handover_runtime \<Rightarrow> (handover_error, unit) result \<times> handover_runtime) m))"
| dm_signal: "dm_step m (snd (accept_webrtc_signal b attempt rid m))"
| dm_note_signal: "dm_step m (snd (note_signal_request b rid m))"
| dm_envelope: "dm_step m (snd (accept_webrtc_envelope b attempt mid m))"
| dm_claim: "dm_step m (snd (claim_reconnect now d m))"
| dm_succeeded: "dm_step m (reconnect_succeeded r m)"
| dm_failed: "dm_step m (reconnect_failed r reason m)"
| dm_terminate: "dm_step m (snd (terminate_all m))"
| dm_expire: "dm_step m (snd (expire_pairing secs m))"
| dm_pairing: "dm_step m (snd (with_session b (\<lambda>x. ((), x\<lparr>ds_pairing := g (ds_pairing x)\<rparr>)) m))"
| dm_close: "dm_step m (close_link l m)"

lemma good_pairing: "good_step m (snd (with_session b (\<lambda>x. ((), x\<lparr>ds_pairing := g (ds_pairing x)\<rparr>)) m))"
  by (rule good_step_with) (auto simp: session_unfold)

lemmas good_steps =
  good_register good_adopt good_note_inbound good_claim_notice good_disconnect good_bootstrap
  good_install good_clear_webrtc good_forget good_queue good_take good_revoke good_handover
  good_accept_signal good_note_signal good_accept_envelope good_claim_reconnect
  good_reconnect_succeeded good_reconnect_failed good_terminate good_expire good_pairing good_close

lemma dm_step_good: "dm_step m m' \<Longrightarrow> good_step m m'"
  by (induction rule: dm_step.induct) (rule good_steps)+

definition dm_init :: "device_manager \<Rightarrow> bool" where
  "dm_init m \<longleftrightarrow> m = manager_new"

interpretation manager: invariant_system dm_init dm_step dm_inv
proof (unfold_locales, goal_cases)
  case (1 m)
  then show ?case
    by (simp add: dm_init_def manager_new_def dm_inv_def sessions_wf_def token_inj_def session_at_def)
next
  case (2 m m')
  then show ?case using dm_step_good by (auto simp: good_step_def)
qed

text \<open>A binding that has stopped being current stays so.\<close>

lemma evolves_stale:
  assumes ev: "evolves m m'" and issued: "sb_token b < length (dm_tokens m)" and "\<not> is_current b m"
  shows "\<not> is_current b m'"
proof
  assume "is_current b m'"
  then obtain y where y: "session_at m' (sb_device_id b) = Some y" "ds_state y \<noteq> SsTerminated" "binding_matches b y"
    and live: "\<not> dm_tokens m' ! sb_token b"
    by (auto simp: is_current_def cancelled_def split: if_splits option.splits)
  have "ds_token y = sb_token b" using y(3) by (simp add: binding_matches_def)
  then obtain x where x: "session_at m (sb_device_id b) = Some x" "same_session x y"
    using ev y(1) live issued unfolding evolves_def by (metis not_le)
  have "binding_matches b x" "ds_state x \<noteq> SsTerminated"
    using y(2,3) x(2) by (auto simp: same_session_def ident_def binding_matches_def)
  moreover have "\<not> cancelled m b" using ev issued live by (auto simp: evolves_def cancelled_def)
  ultimately show False using assms(3) x(1) by (simp add: is_current_def)
qed

lemma steps_evolve:
  assumes "dm_step\<^sup>*\<^sup>* m m'" and "dm_inv m"
  shows "length (dm_tokens m) \<le> length (dm_tokens m')
    \<and> (\<forall>b. sb_token b < length (dm_tokens m) \<longrightarrow> \<not> is_current b m \<longrightarrow> \<not> is_current b m')"
  using assms
proof (induction rule: rtranclp_induct)
  case (step y z)
  have ev: "evolves y z" using dm_step_good [OF step(2)] manager.steps_inv [OF step(1) step.prems] by (simp add: good_step_def)
  then have "length (dm_tokens y) \<le> length (dm_tokens z)" by (simp add: evolves_def)
  moreover note step.IH [OF step.prems] evolves_stale [OF ev]
  ultimately show ?case by (meson le_trans order.strict_trans2)
qed simp

lemma current_issued: "dm_inv m \<Longrightarrow> is_current b m \<Longrightarrow> sb_token b < length (dm_tokens m)"
  unfolding is_current_def dm_inv_def sessions_wf_def session_wf_def binding_matches_def
  by (auto split: if_splits option.splits) metis

lemma stale_disconnect:
  assumes "dm_inv m" and "\<not> is_current b m"
  shows "disconnect_if_current b reason m = (not_current, m)" and "bootstrap_check b epoch m = (Some not_current, m)"
proof -
  have "\<not> binding_matches b x \<or> ds_state x = SsTerminated" if "session_at m (sb_device_id b) = Some x" for x
    using assms that
    by (auto simp: is_current_def dm_inv_def sessions_wf_def session_wf_def binding_matches_def cancelled_def split: if_splits)
  then show "disconnect_if_current b reason m = (not_current, m)" "bootstrap_check b epoch m = (Some not_current, m)"
    by (auto simp: disconnect_if_current_def bootstrap_check_def split: option.splits)
qed

text \<open>Whatever is asked for through a binding that is not current is refused.\<close>

lemma stale_flattened: "\<not> is_current b m \<Longrightarrow> \<exists>e. flatten (with_session b f m) = (Inl e, m)"
  using with_session_refused [of b m f] by (auto simp: flatten_def res_simps)

lemma stale_handover: "\<not> is_current b m \<Longrightarrow> \<exists>e. with_webrtc_handover b attempt g m = (Inl (HaSession e), m)"
  by (auto simp: with_webrtc_handover_def with_session_def is_current_def split: option.splits if_splits)

lemma stale_take: "\<not> is_current b m \<Longrightarrow> take_pending_features now b m = ([], m)"
  by (auto simp: take_pending_features_def with_session_def is_current_def split: option.splits if_splits)

lemmas stale_operations = with_session_refused stale_flattened stale_handover stale_take

lemma stale_notice:
  "snd (claim_not_paired_notice now b interval m) = m
   \<or> (\<exists>x. session_at m (sb_device_id b) = Some x
        \<and> snd (claim_not_paired_notice now b interval m) = put_session (sb_device_id b) (x\<lparr>ds_last_notice := Some now\<rparr>) m)"
  by (auto simp: claim_not_paired_notice_def split: option.splits)

subsection \<open>Properties\<close>

text \<open>
  C1. A replaced connection has no power over its successor: once a binding that was current is not,
  it never is again, whatever happens. Every operation that takes a binding is then refused and
  changes nothing: not through \<open>with_session\<close>, not on the peer, the handover, the pairing, the queue or
  the replay caches, and the end of its connection, however late it is noticed, disconnects nobody.
  The one exception is \<open>claim_not_paired_notice\<close>, which does not ask whether its binding is current:
  all it can change is when its device was last told that it is not paired.
\<close>

theorem stale_binding_stays_stale:
  assumes "reachable dm_init dm_step m0" and "is_current b m0" and "dm_step\<^sup>*\<^sup>* m0 m" and "\<not> is_current b m"
    and "dm_step\<^sup>*\<^sup>* m m'"
  shows "\<not> is_current b m' \<and> (\<exists>e. with_session b f m' = (Inl e, m'))
    \<and> (\<exists>e. install_webrtc_peer_with b attempt wire peer manager only m' = (Inl e, m'))
    \<and> (\<exists>e. clear_webrtc_if_current b attempt reason m' = (Inl e, m'))
    \<and> (\<exists>e. with_webrtc_handover b attempt g m' = (Inl (HaSession e), m'))
    \<and> (\<exists>e. revoke_pairing ms b reason m' = (Inl e, m'))
    \<and> (\<exists>e. queue_feature now b p m' = (Inl e, m')) \<and> take_pending_features now b m' = ([], m')
    \<and> (\<exists>e. accept_webrtc_signal b attempt rid m' = (Inl e, m')) \<and> (\<exists>e. note_signal_request b rid m' = (Inl e, m'))
    \<and> (\<exists>e. accept_webrtc_envelope b attempt rid m' = (Inl e, m'))
    \<and> disconnect_if_current b reason m' = (not_current, m')
    \<and> bootstrap_check b epoch m' = (Some not_current, m') \<and> bootstrap_disconnected b reason epoch m' = (not_current, m')
    \<and> (snd (claim_not_paired_notice now b interval m') = m'
       \<or> (\<exists>x. session_at m' (sb_device_id b) = Some x
            \<and> snd (claim_not_paired_notice now b interval m') = put_session (sb_device_id b) (x\<lparr>ds_last_notice := Some now\<rparr>) m'))"
proof -
  have i0: "dm_inv m0" using manager.reachable_inv [OF assms(1)] .
  have i: "dm_inv m" using manager.steps_inv [OF assms(3) i0] .
  have "sb_token b < length (dm_tokens m)"
    using current_issued [OF i0 assms(2)] steps_evolve [OF assms(3) i0] by linarith
  then have stale: "\<not> is_current b m'" using steps_evolve [OF assms(5) i] assms(4) by blast
  note ends = stale_disconnect [OF manager.steps_inv [OF assms(5) i] stale]
  have "bootstrap_disconnected b reason epoch m' = (not_current, m')"
    by (simp add: bootstrap_disconnected_def ends)
  then show ?thesis
    unfolding install_webrtc_peer_with_def clear_webrtc_if_current_def revoke_pairing_def queue_feature_def
      accept_webrtc_signal_def note_signal_request_def accept_webrtc_envelope_def
    by (intro conjI stale_operations [OF stale] stale_notice ends stale)
qed

lemma register_current:
  "session_at m d = None \<Longrightarrow> register_link now d link paired m = (Inr r, m') \<Longrightarrow> is_current (rr_binding r) m'"
  by (auto simp: register_link_def Let_def is_current_def cancelled_def session_new_def binding_for_def binding_matches_def)

theorem stale_binding_stays_stale_witness:
  "\<exists>b m. reachable dm_init dm_step m \<and> \<not> is_current b m \<and> disconnect_if_current b [] m = (not_current, m)"
proof -
  let ?link = "link_new \<lparr>carrier_id = 0, carrier_kind = Lan, carrier_local_ip = None\<rparr> [] [] []
    \<lparr>di_id = [], di_name = [], device_type = [], protocol_version = 9, incoming_capabilities = [],
     outgoing_capabilities = [], instance_id = None, app_version = None\<rparr> 0"
  have new: "reachable dm_init dm_step manager_new" by (rule reach_init) (simp add: dm_init_def)
  obtain r m0 where r: "register_link 1 ''d'' ?link True manager_new = (Inr r, m0)"
    by (simp add: register_link_def Let_def manager_new_def session_at_def)
  have m0: "reachable dm_init dm_step m0"
    using reach_step [OF new dm_register [of manager_new 1 "''d''" ?link True]] by (simp only: r snd_conv)
  have cur: "is_current (rr_binding r) m0"
    by (rule register_current [OF _ r]) (simp add: manager_new_def session_at_def)
  let ?m = "snd (disconnect_if_current (rr_binding r) [] m0)"
  have s: "dm_step m0 ?m" by (rule dm_disconnect)
  then have s': "dm_step\<^sup>*\<^sup>* m0 ?m" by blast
  have "sb_token (rr_binding r) < length (dm_tokens m0)"
    by (rule current_issued [OF manager.reachable_inv [OF m0] cur])
  then have stale: "\<not> is_current (rr_binding r) ?m"
    using cur
    by (auto simp: is_current_def disconnect_if_current_def Let_def split_beta cancelled_def clear_webrtc_state_def
        binding_matches_def split: option.splits if_splits)
  show ?thesis
    using stale_binding_stays_stale [OF m0 cur s' stale rtranclp.rtrancl_refl]
      stale reach_step [OF m0 s] by blast
qed

lemma register_pairing_state:
  "ph_state (register_pairing paired h) = (if paired then Paired else NotPaired)"
  by (cases "ph_state h") (auto simp: register_pairing_def handler_new_def Let_def)

text \<open>
  C2. A new link inherits no trust: after a link is registered its device is paired exactly if the
  trust store says so, no pairing negotiation and no WebRTC peer or handover of the earlier link is
  left, the new binding is current, the earlier link is closed, and no other device is touched.
\<close>

theorem new_link_inherits_nothing:
  assumes "reachable dm_init dm_step m" and "register_link now d link paired m = (Inr r, m')"
  shows "(\<exists>x. session_at m' d = Some x \<and> ph_state (ds_pairing x) = (if paired then Paired else NotPaired)
             \<and> ds_handover x = None \<and> ds_active_webrtc x = None \<and> ds_attempt_id x = None)
    \<and> is_current (rr_binding r) m'
    \<and> (\<forall>old. replaced_link r = Some old \<longrightarrow> is_closed m' old)
    \<and> (\<forall>d'. d' \<noteq> d \<longrightarrow> session_at m' d' = session_at m d')"
proof (cases "session_at m d")
  case None
  then show ?thesis
    using assms(2) register_current [OF None assms(2)]
    by (auto simp: register_link_def Let_def session_new_def handler_new_def)
next
  case (Some x)
  have wf: "session_wf m d x"
    using manager.reachable_inv [OF assms(1)] Some by (simp add: dm_inv_def sessions_wf_def)
  let ?y = "session_relink now paired (length (dm_links m)) (length (dm_tokens m)) x"
  let ?m1 = "put_session d ?y ((cancel_token (ds_token x) m)\<lparr>dm_links := dm_links m @ [link],
      dm_tokens := (dm_tokens m)[ds_token x := True] @ [False]\<rparr>)"
  have m': "m' = (case ds_active_link x of Some old \<Rightarrow> close_link old ?m1 | None \<Rightarrow> ?m1)"
    and r: "rr_binding r = binding_for ?y (length (dm_links m))" "replaced_link r = ds_active_link x"
    using assms(2) Some by (cases "ds_active_link x"; auto simp: register_link_def Let_def split: if_splits)+
  have at: "session_at m' d' = (if d' = d then Some ?y else session_at m d')" for d'
    by (cases "ds_active_link x") (simp_all add: m')
  have toks: "dm_tokens m' = (dm_tokens m)[ds_token x := True] @ [False]"
    by (cases "ds_active_link x") (simp_all add: m')
  have y: "ds_device_id ?y = d" "ds_token ?y = length (dm_tokens m)" "ds_active_link ?y = Some (length (dm_links m))"
    "ds_state ?y = SsReady" "ds_handover ?y = None" "ds_active_webrtc ?y = None" "ds_attempt_id ?y = None"
    "ds_pairing ?y = register_pairing paired (ds_pairing x)"
    using wf by (simp_all add: session_relink_def Let_def clear_webrtc_state_def session_wf_def)
  have "is_current (rr_binding r) m'"
    by (simp add: is_current_def cancelled_def r binding_for_def at toks y binding_matches_def nth_append)
  moreover have "is_closed m' old" if "replaced_link r = Some old" for old
  proof -
    have "ds_active_link x = Some old" using that r by simp
    then have "old < length (dm_links m)" "m' = close_link old ?m1" using wf m' by (simp_all add: session_wf_def)
    then show ?thesis by (simp add: is_closed_def link_at_def close_link_def link_close_def nth_append)
  qed
  ultimately show ?thesis using at y register_pairing_state by simp
qed

theorem new_link_inherits_nothing_witness:
  "\<forall>link. \<exists>r m'. register_link 1 ''d'' link False manager_new = (Inr r, m') \<and> is_current (rr_binding r) m'"
proof
  fix link
  have new: "reachable dm_init dm_step manager_new" by (rule reach_init) (simp add: dm_init_def)
  obtain r m' where "register_link 1 ''d'' link False manager_new = (Inr r, m')"
    by (simp add: register_link_def Let_def manager_new_def session_at_def)
  with new_link_inherits_nothing [OF new this]
  show "\<exists>r m'. register_link 1 ''d'' link False manager_new = (Inr r, m') \<and> is_current (rr_binding r) m'" by blast
qed

text \<open>
  Losing or refreshing the bootstrap socket does not cost a working connection: when a socket
  is adopted its device had a ready transport under the same certificate, and its peer, handover,
  generation, link and current bindings are what they were; the reader of the earlier socket can
  end without effect; and the loss of the socket of a ready session keeps all of that too.
\<close>

lemma adoption_keeps_transport:
  assumes "reachable dm_init dm_step m" and "session_at m d = Some x"
  shows "(\<forall>b old epoch m'. adopt_or_keep now d c cert quiet m = (AdAdopted b old epoch, m') \<longrightarrow>
        (\<exists>y. session_at m' d = Some y \<and> session_ready x \<and> ds_handover y = ds_handover x
           \<and> ds_active_webrtc y = ds_active_webrtc x \<and> ident y = ident x)
        \<and> certificate_pem (link_at m (sb_link b)) = cert \<and> sl_carrier (link_at m' (sb_link b)) = c
        \<and> (is_current b' m \<longrightarrow> is_current b' m')
        \<and> (\<forall>e reason. e < epoch \<longrightarrow> reader_disconnected b e reason m' = (not_current, m')))
    \<and> (session_ready x \<and> is_current b' m \<and> sb_device_id b' = d \<longrightarrow>
        (let (res, m'') = bootstrap_disconnected b' reason' None m
         in feature_transport_retained res \<and> is_current b' m'' \<and> ready_peer d m'' = ready_peer d m))"
proof -
  have wf: "session_wf m d x"
    using manager.reachable_inv [OF assms(1)] assms(2) by (simp add: dm_inv_def sessions_wf_def)
  have 1: "(\<exists>y. session_at m' d = Some y \<and> session_ready x \<and> ds_handover y = ds_handover x
           \<and> ds_active_webrtc y = ds_active_webrtc x \<and> ident y = ident x)
        \<and> certificate_pem (link_at m (sb_link b)) = cert \<and> sl_carrier (link_at m' (sb_link b)) = c
        \<and> (is_current b' m \<longrightarrow> is_current b' m')
        \<and> (\<forall>e reason. e < epoch \<longrightarrow> reader_disconnected b e reason m' = (not_current, m'))"
    if ad: "adopt_or_keep now d c cert quiet m = (AdAdopted b old epoch, m')" for b old epoch m'
  proof -
    let ?y = "x\<lparr>ds_state := SsReady, ds_recovery_attempt := 0, ds_last_reason := None, ds_last_inbound_at := now\<rparr>"
    obtain l where l: "ds_active_link x = Some l" "l < length (dm_links m)" using ad assms(2) wf
      by (auto simp: adopt_or_keep_def session_wf_def split: if_splits option.splits)
    have eq: "m' = put_session d ?y (m\<lparr>dm_links := (dm_links m)[l := snd (link_adopt c (link_at m l))]\<rparr>)"
      "b = binding_for ?y l" "epoch = sl_epoch (link_at m l) + 1" "certificate_pem (link_at m l) = cert"
      "session_ready x" "ds_state x \<noteq> SsTerminated"
      using ad assms(2) l by (auto simp: adopt_or_keep_def Let_def link_adopt_def split_beta split: if_splits)
    have b: "sb_link b = l" "sb_device_id b = d" using eq(2) wf by (simp_all add: binding_for_def session_wf_def)
    have link: "link_at m' l = (link_at m l)\<lparr>sl_carrier := c, sl_epoch := sl_epoch (link_at m l) + 1, sl_closed := False\<rparr>"
      using l(2) by (simp add: eq(1) link_at_def link_adopt_def)
    have "is_current b' m \<longrightarrow> is_current b' m'"
      using assms(2) by (auto simp: is_current_def eq(1) cancelled_def binding_matches_def split: if_splits option.splits)
    moreover have "reader_disconnected b e reason m' = (not_current, m')" if "e < epoch" for e reason
      using that eq(3) b link by (simp add: reader_disconnected_def bootstrap_disconnected_def bootstrap_check_def eq(1))
    ultimately show ?thesis using eq b link by (simp add: ident_def)
  qed
  have 2: "let (res, m'') = bootstrap_disconnected b' reason' None m
      in feature_transport_retained res \<and> is_current b' m'' \<and> ready_peer d m'' = ready_peer d m"
    if "session_ready x" "is_current b' m" "sb_device_id b' = d"
    using that assms(2)
    by (auto simp: bootstrap_disconnected_def bootstrap_check_def is_current_def cancelled_def binding_matches_def ready_peer_def
        session_ready_def link_at_def split: if_splits option.splits)
  show ?thesis using 1 2 by blast
qed

text \<open>A manager with one paired device whose transport is ready.\<close>

definition demo_carrier :: "nat \<Rightarrow> carrier" where
  "demo_carrier n = \<lparr>carrier_id = n, carrier_kind = Lan, carrier_local_ip = Some ''10.0.0.2''\<rparr>"

definition demo_link :: session_link where
  "demo_link = link_new (demo_carrier 1) ''cert'' [] []
     \<lparr>di_id = ''d'', di_name = ''d'', device_type = ''phone'', protocol_version = 9, incoming_capabilities = [],
      outgoing_capabilities = [], instance_id = None, app_version = None\<rparr> 0"

definition demo_linked :: device_manager where
  "demo_linked = snd (register_link 1 ''d'' demo_link True manager_new)"

definition demo_binding :: session_binding where
  "demo_binding = \<lparr>sb_device_id = ''d'', sb_session_id = 1, sb_generation = 1, sb_link = 0, sb_token = 0\<rparr>"

definition demo_ready :: device_manager where
  "demo_ready = snd (with_webrtc_handover demo_binding ''a''
     (\<lambda>h. (Inr (), h\<lparr>hr_state := FeatureReady, local_feature_ready := True, remote_feature_ready := True\<rparr>))
     (snd (install_webrtc_peer_with demo_binding ''a''
        \<lparr>sender_device_id = ''x'', peer_device_id = ''d'', wb_session_id = 1, wb_generation = 1\<rparr> 5 6 False demo_linked)))"

lemma reachable_demo: "reachable dm_init dm_step demo_linked" "reachable dm_init dm_step demo_ready"
proof -
  have "reachable dm_init dm_step manager_new" by (rule reach_init) (simp add: dm_init_def)
  then show l: "reachable dm_init dm_step demo_linked" unfolding demo_linked_def by (rule reach_step) (rule dm_register)
  show "reachable dm_init dm_step demo_ready"
    unfolding demo_ready_def by (rule reach_step [OF reach_step [OF l dm_install] dm_handover])
qed

lemma demo_linked_state:
  "session_at demo_linked ''d'' = Some (session_new 1 ''d'' True 0 0 1)" "dm_tokens demo_linked = [False]"
  "dm_links demo_linked = [demo_link]"
  by (simp_all add: demo_linked_def register_link_def Let_def manager_new_def session_at_def put_session_def)

lemma demo_ready_state:
  "\<exists>x. session_at demo_ready ''d'' = Some x \<and> session_ready x \<and> ds_active_link x = Some 0 \<and> ds_state x = SsReady"
  "is_current demo_binding demo_ready" "dm_links demo_ready = [demo_link]"
  by (simp_all add: demo_ready_def with_webrtc_handover_def install_webrtc_peer_with_def with_session_def flatten_def
      demo_binding_def demo_linked_state session_new_def binding_matches_def cancelled_def handler_new_def Let_def
      session_ready_def features_ready_def features_allowed_def is_current_def)

text \<open>
  A feature sent before its device is ready is not lost, reordered or late: it joins the end of
  a queue of at most 64 of which only the oldest is ever dropped, taking the queue gives what is
  at most 30 seconds old, in the order it was sent, and leaves nothing behind, and a session that
  is ready queues nothing.
\<close>

lemma pending_features_in_order:
  assumes "reachable dm_init dm_step m" and "is_current b m" and "session_at m (sb_device_id b) = Some x"
    and "queue_feature t b p m = (r, m1)" and "take_pending_features now b m1 = (ps, m2)"
  shows "(session_ready x \<longrightarrow> r = Inr False \<and> session_at m1 (sb_device_id b) = Some x)
    \<and> (\<not> session_ready x \<longrightarrow> r = Inr True
        \<and> (let waiting = (if length (ds_pending x) < 64 then ds_pending x else tl (ds_pending x)) @ [(t, p)]
           in map_option ds_pending (session_at m1 (sb_device_id b)) = Some waiting \<and> length waiting \<le> 64
              \<and> ps = map snd (filter (\<lambda>(s, _). now - s \<le> 30 * 10 ^ 9) waiting)))
    \<and> fst (take_pending_features now' b m2) = []"
proof -
  have ok: "session_ok x"
    using manager.reachable_inv [OF assms(1)] assms(3) by (auto simp: dm_inv_def sessions_wf_def session_wf_def)
  have cur: "ds_state x \<noteq> SsTerminated" "binding_matches b x" "\<not> cancelled m b"
    using assms(2,3) by (auto simp: is_current_def split: if_splits)
  define waiting where "waiting = (if length (ds_pending x) < 64 then ds_pending x else tl (ds_pending x)) @ [(t, p)]"
  define y where "y = (if session_ready x then x else x\<lparr>ds_pending := waiting\<rparr>)"
  have q: "r = Inr (\<not> session_ready x)" "m1 = put_session (sb_device_id b) y m"
    using assms(3,4) cur
    by (auto simp: queue_feature_def with_session_def y_def waiting_def PENDING_FEATURE_LIMIT_def Let_def split: if_splits)
  have y: "ds_state y \<noteq> SsTerminated" "binding_matches b y" "\<not> cancelled m1 b"
    using cur by (auto simp: y_def binding_matches_def q cancelled_def)
  have tk: "ps = map snd (filter (\<lambda>(s, _). now - s \<le> PENDING_FEATURE_MAX_AGE) (ds_pending y))"
    "m2 = put_session (sb_device_id b) (y\<lparr>ds_pending := []\<rparr>) m1"
    using assms(5) y q by (auto simp: take_pending_features_def with_session_def Let_def)
  have "fst (take_pending_features now' b m2) = []"
    using y by (simp add: take_pending_features_def with_session_def Let_def tk binding_matches_def cancelled_def)
  moreover have "length waiting \<le> 64"
    using ok by (auto simp: waiting_def session_ok_def PENDING_FEATURE_LIMIT_def)
  ultimately show ?thesis
    using q tk by (auto simp: y_def waiting_def [symmetric] PENDING_FEATURE_MAX_AGE_def)
qed

end

