(* ===== verification/Relay_Link.thy ===== *)
theory Relay_Link
  imports Pairing Signaling
begin

section \<open>The end-to-end link through the relay\<close>

text \<open>
  \<open>src/device_links/relay_link/crypto.rs\<close> and \<open>handshake.rs\<close>: the handshake with which two
  paired devices authenticate each other through a relay that neither trusts, the keys they
  derive, and the sealed frames that follow.

  Everything of \<open>openssl\<close> and base64 is in the parameter \<^term>\<open>c\<close> of type \<open>link_crypto\<close>; an
  ephemeral key pair and its nonce are arguments (\<open>None\<close> where generating one fails), and
  \<open>parse\<close> is \<open>serde_json\<close>'s. Frame numbers are \<open>u64\<close> and never reach its end.
\<close>

record link_crypto =
  lc_b64 :: "byte list \<Rightarrow> string"
  lc_unb64 :: "string \<Rightarrow> byte list option"
  lc_sha256 :: "string \<Rightarrow> byte list option"
  lc_sign :: "byte list \<Rightarrow> string \<Rightarrow> byte list option"
  lc_check :: "byte list \<Rightarrow> string \<Rightarrow> byte list \<Rightarrow> bool"
  lc_ecdh :: "byte list \<Rightarrow> byte list \<Rightarrow> byte list option"
  lc_hmac :: "byte list \<Rightarrow> byte list \<Rightarrow> byte list option"
  lc_encrypt :: "byte list \<Rightarrow> byte list \<Rightarrow> string \<Rightarrow> string \<Rightarrow> (byte list \<times> byte list) option"
  lc_decrypt :: "byte list \<Rightarrow> byte list \<Rightarrow> string \<Rightarrow> byte list \<Rightarrow> byte list \<Rightarrow> string option"

definition LINK_VERSION :: int where "LINK_VERSION = 1"
definition LINK_CONTEXT :: string where "LINK_CONTEXT = ''desklink-relay-link-v1''"
definition DATA_AAD :: string where "DATA_AAD = ''desklink-relay-link-v1 data''"
definition TAG_BYTES :: nat where "TAG_BYTES = 16"

datatype link_fail =
    LfNotEstablished | LfUnexpected | LfVersion | LfMissing string | LfBase64 string | LfIdentity
  | LfOtherDevice | LfProof | LfCrypto | LfTooLong | LfNoSeq | LfReplayed | LfFrame

definition link_is_initiator :: "string \<Rightarrow> string \<Rightarrow> bool" where
  "link_is_initiator local_fp remote_fp \<longleftrightarrow> local_fp < remote_fp"

record ephemeral =
  eph_key :: "byte list"
  eph_public :: "byte list"
  eph_nonce :: "byte list"

record link_transcript =
  lt_fp_initiator :: string
  lt_fp_responder :: string
  lt_eph_initiator :: "byte list"
  lt_eph_responder :: "byte list"
  lt_nonce_initiator :: "byte list"
  lt_nonce_responder :: "byte list"
  lt_identity_initiator :: string
  lt_identity_responder :: string

definition identity_hash :: "link_crypto \<Rightarrow> string \<Rightarrow> string" where
  "identity_hash c identity = (case lc_sha256 c identity of Some d \<Rightarrow> hex d | None \<Rightarrow> [])"

text \<open>\<open>join("\n")\<close>.\<close>

fun join_lines :: "string list \<Rightarrow> string" where
  "join_lines [] = []"
| "join_lines [x] = x"
| "join_lines (x # y # zs) = x @ newline # join_lines (y # zs)"

definition transcript_text :: "link_crypto \<Rightarrow> link_transcript \<Rightarrow> string" where
  "transcript_text c t = join_lines
     [LINK_CONTEXT, lt_fp_initiator t, lt_fp_responder t, lc_b64 c (lt_eph_initiator t),
      lc_b64 c (lt_eph_responder t), lc_b64 c (lt_nonce_initiator t), lc_b64 c (lt_nonce_responder t),
      identity_hash c (lt_identity_initiator t), identity_hash c (lt_identity_responder t)]"

datatype link_role = Initiator | Responder

fun role_label :: "link_role \<Rightarrow> string" where
  "role_label Initiator = ''initiator'' @ [newline]"
| "role_label Responder = ''responder'' @ [newline]"

definition link_sign :: "link_crypto \<Rightarrow> byte list \<Rightarrow> link_role \<Rightarrow> string \<Rightarrow> (link_fail, string) result" where
  "link_sign c key role transcript =
     map_res (lc_b64 c) (ok_or LfCrypto (lc_sign c key (role_label role @ transcript)))"

definition link_verify :: "link_crypto \<Rightarrow> byte list \<Rightarrow> link_role \<Rightarrow> string \<Rightarrow> string \<Rightarrow> bool" where
  "link_verify c key role transcript sg =
     (case lc_unb64 c sg of None \<Rightarrow> False | Some s \<Rightarrow> lc_check c key (role_label role @ transcript) s)"

subsection \<open>Keys and frames\<close>

text \<open>The counter is a \<open>u8\<close>: past 255 blocks the output is too long.\<close>

function hkdf_loop ::
  "link_crypto \<Rightarrow> byte list \<Rightarrow> byte list \<Rightarrow> nat \<Rightarrow> byte list \<Rightarrow> nat \<Rightarrow> byte list \<Rightarrow> (link_fail, byte list) result" where
  "hkdf_loop c prk info n block counter okm =
     (if n \<le> length okm then Inr (take n okm)
      else (case lc_hmac c prk (block @ info @ [word_of_nat counter]) of
          None \<Rightarrow> Inl LfCrypto
        | Some block \<Rightarrow>
            if 255 \<le> counter then Inl LfTooLong
            else hkdf_loop c prk info n block (counter + 1) (okm @ block)))"
  by pat_completeness auto
termination by (relation "measure (\<lambda>(_, _, _, _, _, counter, _). 255 - counter)") auto

declare hkdf_loop.simps [simp del]

definition hkdf_sha256 :: "link_crypto \<Rightarrow> byte list \<Rightarrow> byte list \<Rightarrow> byte list \<Rightarrow> nat \<Rightarrow> (link_fail, byte list) result" where
  "hkdf_sha256 c salt ikm info n =
     res_bind (ok_or LfCrypto (lc_hmac c salt ikm)) (\<lambda>prk. hkdf_loop c prk info n [] 1 [])"

record link_keys =
  lk_send :: "byte list"
  lk_receive :: "byte list"

definition derive_keys ::
  "link_crypto \<Rightarrow> ephemeral \<Rightarrow> byte list \<Rightarrow> link_role \<Rightarrow> string \<Rightarrow> string \<Rightarrow> byte list \<Rightarrow> byte list
     \<Rightarrow> (link_fail, link_keys) result" where
  "derive_keys c mine peer_public role fp_initiator fp_responder nonce_initiator nonce_responder =
     res_bind (ok_or LfCrypto (lc_ecdh c (eph_key mine) peer_public)) (\<lambda>secret.
     res_bind (hkdf_sha256 c (nonce_initiator @ nonce_responder) secret
         (ascii_bytes (LINK_CONTEXT @ '' keys'' @ [newline] @ fp_initiator @ [newline] @ fp_responder)) 64) (\<lambda>okm.
       Inr (case role of
              Initiator \<Rightarrow> \<lparr>lk_send = take 32 okm, lk_receive = drop 32 okm\<rparr>
            | Responder \<Rightarrow> \<lparr>lk_send = drop 32 okm, lk_receive = take 32 okm\<rparr>)))"

text \<open>Four zero bytes and the number as a big-endian \<open>u64\<close>.\<close>

definition frame_iv :: "nat \<Rightarrow> byte list" where
  "frame_iv n = replicate 4 0 @ map (\<lambda>i. word_of_nat (n div 256 ^ i)) [7, 6, 5, 4, 3, 2, 1, 0]"

definition seal_frame :: "link_crypto \<Rightarrow> byte list \<Rightarrow> nat \<Rightarrow> string \<Rightarrow> (link_fail, string) result" where
  "seal_frame c key n plaintext =
     map_res (\<lambda>(sealed, tag). lc_b64 c (sealed @ tag))
       (ok_or LfCrypto (lc_encrypt c key (frame_iv n) DATA_AAD plaintext))"

definition open_frame :: "link_crypto \<Rightarrow> byte list \<Rightarrow> nat \<Rightarrow> string \<Rightarrow> (link_fail, string) result" where
  "open_frame c key n sealed =
     res_bind (ok_or LfFrame (lc_unb64 c sealed)) (\<lambda>bytes.
       if length bytes < TAG_BYTES then Inl LfFrame
       else (let k = length bytes - TAG_BYTES
             in ok_or LfFrame (lc_decrypt c key (frame_iv n) DATA_AAD (take k bytes) (drop k bytes))))"

subsection \<open>One peer's link\<close>

datatype link_event = EvSend json | EvEstablished string | EvPacket string

record link_identities =
  li_local_fp :: string
  li_peer_fp :: string
  li_local_key :: "byte list"
  li_local_identity :: string
  li_peer_key :: "byte list"
  li_peer_device_id :: string

datatype link_state =
    LsIdle
  | LsAwaitingH2 ephemeral
  | LsAwaitingFin link_keys string string
  | LsEstablished link_keys

record peer_link =
  pl_ids :: link_identities
  pl_role :: link_role
  pl_state :: link_state
  pl_send_seq :: nat
  pl_receive_seq :: nat

definition peer_link_new :: "link_identities \<Rightarrow> peer_link" where
  "peer_link_new ids =
     \<lparr>pl_ids = ids, pl_role = (if link_is_initiator (li_local_fp ids) (li_peer_fp ids) then Initiator else Responder),
      pl_state = LsIdle, pl_send_seq = 0, pl_receive_seq = 0\<rparr>"

definition link_is_established :: "peer_link \<Rightarrow> bool" where
  "link_is_established l = (case pl_state l of LsEstablished _ \<Rightarrow> True | _ \<Rightarrow> False)"

definition link_reset :: "peer_link \<Rightarrow> peer_link" where
  "link_reset l = l\<lparr>pl_state := LsIdle, pl_send_seq := 0, pl_receive_seq := 0\<rparr>"

text \<open>\<open>json!({...})\<close>: a map with its keys sorted.\<close>

definition json_object :: "(string \<times> json) list \<Rightarrow> json" where
  "json_object kvs = JObj (foldl (\<lambda>obj (k, v). obj_insert k v obj) [] kvs)"

definition link_start :: "link_crypto \<Rightarrow> ephemeral option \<Rightarrow> peer_link \<Rightarrow> (link_fail, json) result \<times> peer_link" where
  "link_start c gen l =
     (let l = link_reset l in
      if pl_role l = Responder then (Inr (json_object [(''k'', JStr ''kick'')]), l)
      else (case gen of
          None \<Rightarrow> (Inl LfCrypto, l)
        | Some mine \<Rightarrow>
            (Inr (json_object [(''k'', JStr ''h1''), (''lv'', JInt LINK_VERSION),
                (''eph'', JStr (lc_b64 c (eph_public mine))), (''nonce'', JStr (lc_b64 c (eph_nonce mine))),
                (''identity'', JStr (li_local_identity (pl_ids l)))]),
             l\<lparr>pl_state := LsAwaitingH2 mine\<rparr>)))"

definition link_seal :: "link_crypto \<Rightarrow> string \<Rightarrow> peer_link \<Rightarrow> (link_fail, json) result \<times> peer_link" where
  "link_seal c plaintext l =
     (case pl_state l of
        LsEstablished keys \<Rightarrow>
          (let n = pl_send_seq l + 1; l = l\<lparr>pl_send_seq := n\<rparr>
           in (map_res (\<lambda>ct. json_object [(''k'', JStr ''d''), (''seq'', JInt (int n)), (''ct'', JStr ct)])
                 (seal_frame c (lk_send keys) n plaintext), l))
      | _ \<Rightarrow> (Inl LfNotEstablished, l))"

definition link_text :: "json \<Rightarrow> string \<Rightarrow> (link_fail, string) result" where
  "link_text m k = ok_or (LfMissing k) (Option.bind (json_get m k) as_str)"

definition link_decode :: "link_crypto \<Rightarrow> json \<Rightarrow> string \<Rightarrow> (link_fail, byte list) result" where
  "link_decode c m k = res_bind (link_text m k) (\<lambda>t. ok_or (LfBase64 k) (lc_unb64 c t))"

definition check_version :: "json \<Rightarrow> (link_fail, unit) result" where
  "check_version m =
     (case Option.bind (json_get m ''lv'') as_u64 of
        Some v \<Rightarrow> if v = LINK_VERSION then Inr () else Inl LfVersion
      | None \<Rightarrow> Inl LfVersion)"

definition checked_identity :: "(string \<Rightarrow> json option) \<Rightarrow> link_identities \<Rightarrow> json \<Rightarrow> (link_fail, string) result" where
  "checked_identity parse ids m =
     res_bind (link_text m ''identity'') (\<lambda>identity.
     res_bind (ok_or LfIdentity (deserialize parse identity)) (\<lambda>p.
     res_bind (ok_or LfIdentity (from_identity_packet p)) (\<lambda>info.
       if di_id info \<noteq> li_peer_device_id ids then Inl LfOtherDevice else Inr identity)))"

definition transcript_as_responder :: "link_identities \<Rightarrow> ephemeral \<Rightarrow> byte list \<Rightarrow> byte list \<Rightarrow> string \<Rightarrow> link_transcript" where
  "transcript_as_responder ids mine peer_eph peer_nonce identity =
     \<lparr>lt_fp_initiator = li_peer_fp ids, lt_fp_responder = li_local_fp ids, lt_eph_initiator = peer_eph,
      lt_eph_responder = eph_public mine, lt_nonce_initiator = peer_nonce, lt_nonce_responder = eph_nonce mine,
      lt_identity_initiator = identity, lt_identity_responder = li_local_identity ids\<rparr>"

definition transcript_as_initiator :: "link_identities \<Rightarrow> ephemeral \<Rightarrow> byte list \<Rightarrow> byte list \<Rightarrow> string \<Rightarrow> link_transcript" where
  "transcript_as_initiator ids mine peer_eph peer_nonce identity =
     \<lparr>lt_fp_initiator = li_local_fp ids, lt_fp_responder = li_peer_fp ids, lt_eph_initiator = eph_public mine,
      lt_eph_responder = peer_eph, lt_nonce_initiator = eph_nonce mine, lt_nonce_responder = peer_nonce,
      lt_identity_initiator = li_local_identity ids, lt_identity_responder = identity\<rparr>"

definition on_h1 ::
  "link_crypto \<Rightarrow> (string \<Rightarrow> json option) \<Rightarrow> ephemeral option \<Rightarrow> json \<Rightarrow> peer_link
     \<Rightarrow> (link_fail, link_event list) result \<times> peer_link" where
  "on_h1 c parse gen m l =
     (let l = link_reset l; ids = pl_ids l;
          r = res_bind (check_version m) (\<lambda>_.
              res_bind (link_decode c m ''eph'') (\<lambda>peer_eph.
              res_bind (link_decode c m ''nonce'') (\<lambda>peer_nonce.
              res_bind (checked_identity parse ids m) (\<lambda>identity.
              res_bind (ok_or LfCrypto gen) (\<lambda>mine.
              res_bind (derive_keys c mine peer_eph Responder (li_peer_fp ids) (li_local_fp ids) peer_nonce (eph_nonce mine)) (\<lambda>keys.
              let transcript = transcript_text c (transcript_as_responder ids mine peer_eph peer_nonce identity) in
              res_bind (link_sign c (li_local_key ids) Responder transcript) (\<lambda>sg.
                Inr (json_object [(''k'', JStr ''h2''), (''lv'', JInt LINK_VERSION),
                       (''eph'', JStr (lc_b64 c (eph_public mine))), (''nonce'', JStr (lc_b64 c (eph_nonce mine))),
                       (''identity'', JStr (li_local_identity ids)), (''sig'', JStr sg)],
                     LsAwaitingFin keys transcript identity))))))))
      in (case r of
            Inl e \<Rightarrow> (Inl e, l)
          | Inr (h2, st) \<Rightarrow> (Inr [EvSend h2], l\<lparr>pl_state := st\<rparr>)))"

definition on_h2 ::
  "link_crypto \<Rightarrow> (string \<Rightarrow> json option) \<Rightarrow> json \<Rightarrow> peer_link \<Rightarrow> (link_fail, link_event list) result \<times> peer_link" where
  "on_h2 c parse m l =
     (let idle = l\<lparr>pl_state := LsIdle\<rparr>; ids = pl_ids l in
      case pl_state l of
        LsAwaitingH2 mine \<Rightarrow>
          (case res_bind (check_version m) (\<lambda>_.
                res_bind (link_decode c m ''eph'') (\<lambda>peer_eph.
                res_bind (link_decode c m ''nonce'') (\<lambda>peer_nonce.
                res_bind (checked_identity parse ids m) (\<lambda>identity.
                let transcript = transcript_text c (transcript_as_initiator ids mine peer_eph peer_nonce identity) in
                res_bind (link_text m ''sig'') (\<lambda>sg.
                if \<not> link_verify c (li_peer_key ids) Responder transcript sg then Inl LfProof
                else
                  res_bind (derive_keys c mine peer_eph Initiator (li_local_fp ids) (li_peer_fp ids) (eph_nonce mine) peer_nonce) (\<lambda>keys.
                  res_bind (link_sign c (li_local_key ids) Initiator transcript) (\<lambda>mysig.
                    Inr (json_object [(''k'', JStr ''fin''), (''sig'', JStr mysig)], keys, identity)))))))) of
             Inl e \<Rightarrow> (Inl e, idle)
           | Inr (fin, keys, identity) \<Rightarrow>
               (Inr [EvSend fin, EvEstablished identity], l\<lparr>pl_state := LsEstablished keys\<rparr>))
      | _ \<Rightarrow> (Inl LfUnexpected, idle))"

definition on_fin :: "link_crypto \<Rightarrow> json \<Rightarrow> peer_link \<Rightarrow> (link_fail, link_event list) result \<times> peer_link" where
  "on_fin c m l =
     (let idle = l\<lparr>pl_state := LsIdle\<rparr> in
      case pl_state l of
        LsAwaitingFin keys transcript identity \<Rightarrow>
          (case link_text m ''sig'' of
             Inl e \<Rightarrow> (Inl e, idle)
           | Inr sg \<Rightarrow>
               if \<not> link_verify c (li_peer_key (pl_ids l)) Initiator transcript sg then (Inl LfProof, idle)
               else (Inr [EvEstablished identity], l\<lparr>pl_state := LsEstablished keys\<rparr>))
      | _ \<Rightarrow> (Inl LfUnexpected, idle))"

definition on_data :: "link_crypto \<Rightarrow> json \<Rightarrow> peer_link \<Rightarrow> (link_fail, link_event list) result \<times> peer_link" where
  "on_data c m l =
     (case pl_state l of
        LsEstablished keys \<Rightarrow>
          (case Option.bind (json_get m ''seq'') as_u64 of
             None \<Rightarrow> (Inl LfNoSeq, l)
           | Some n \<Rightarrow>
               if nat n \<le> pl_receive_seq l then (Inl LfReplayed, l)
               else (case res_bind (link_text m ''ct'') (open_frame c (lk_receive keys) (nat n)) of
                   Inl e \<Rightarrow> (Inl e, l)
                 | Inr plaintext \<Rightarrow> (Inr [EvPacket plaintext], l\<lparr>pl_receive_seq := nat n\<rparr>)))
      | _ \<Rightarrow> (Inl LfUnexpected, l))"

definition link_receive ::
  "link_crypto \<Rightarrow> (string \<Rightarrow> json option) \<Rightarrow> ephemeral option \<Rightarrow> json \<Rightarrow> peer_link
     \<Rightarrow> (link_fail, link_event list) result \<times> peer_link" where
  "link_receive c parse gen m l =
     (let kind = unwrap_or [] (Option.bind (json_get m ''k'') as_str) in
      if kind = ''kick'' \<and> pl_role l = Initiator then
        (case pl_state l of
           LsAwaitingH2 _ \<Rightarrow> (Inr [], l)
         | _ \<Rightarrow> (let (r, l) = link_start c gen l in (map_res (\<lambda>h1. [EvSend h1]) r, l)))
      else if kind = ''h1'' \<and> pl_role l = Responder then on_h1 c parse gen m l
      else if kind = ''h2'' \<and> pl_role l = Initiator then on_h2 c parse m l
      else if kind = ''fin'' \<and> pl_role l = Responder then on_fin c m l
      else if kind = ''d'' then on_data c m l
      else (Inl LfUnexpected, l))"

subsection \<open>Runs of one link\<close>

text \<open>
  Everything that can happen to a link whose messages an untrusted relay chooses. Beside the link
  a run remembers the ephemeral keys generated, and for the session that is up the frames that went
  out and the frames that were taken, as the messages they are, each with its packet.
\<close>

record link_run =
  lr_link :: peer_link
  lr_gens :: "ephemeral list"
  lr_sent :: "(json \<times> string) list"
  lr_frames :: "(json \<times> string) list"

definition session_of :: "peer_link \<Rightarrow> link_keys option" where
  "session_of l = (case pl_state l of LsEstablished k \<Rightarrow> Some k | _ \<Rightarrow> None)"

fun packets_of :: "link_event list \<Rightarrow> string list" where
  "packets_of [] = []"
| "packets_of (EvPacket p # es) = p # packets_of es"
| "packets_of (_ # es) = packets_of es"

definition opened :: "json \<Rightarrow> (link_fail, link_event list) result \<Rightarrow> (json \<times> string) list" where
  "opened m r = (case r of Inl _ \<Rightarrow> [] | Inr es \<Rightarrow> map (Pair m) (packets_of es))"

definition sealed :: "string \<Rightarrow> (link_fail, json) result \<Rightarrow> (json \<times> string) list" where
  "sealed p r = (case r of Inl _ \<Rightarrow> [] | Inr m \<Rightarrow> [(m, p)])"

text \<open>The number a frame carries, and what the cipher did for it under that number's nonce.\<close>

definition frame_number :: "json \<Rightarrow> nat" where
  "frame_number m = (case json_get m ''seq'' of Some (JInt i) \<Rightarrow> nat i | _ \<Rightarrow> 0)"

definition sealed_with :: "link_crypto \<Rightarrow> byte list \<Rightarrow> json \<Rightarrow> string \<Rightarrow> bool" where
  "sealed_with c key m p \<longleftrightarrow>
     (\<exists>ct tag. lc_encrypt c key (frame_iv (frame_number m)) DATA_AAD p = Some (ct, tag)
        \<and> json_get m ''ct'' = Some (JStr (lc_b64 c (ct @ tag))))"

definition opened_with :: "link_crypto \<Rightarrow> byte list \<Rightarrow> json \<Rightarrow> string \<Rightarrow> bool" where
  "opened_with c key m p \<longleftrightarrow>
     (\<exists>text ct tag. json_get m ''ct'' = Some (JStr text) \<and> lc_unb64 c text = Some (ct @ tag) \<and> length tag = TAG_BYTES
        \<and> lc_decrypt c key (frame_iv (frame_number m)) DATA_AAD ct tag = Some p)"

text \<open>The run after the link became \<open>l'\<close>: the record of a session ends with it.\<close>

definition advance :: "peer_link \<Rightarrow> ephemeral option \<Rightarrow> (json \<times> string) list \<Rightarrow> (json \<times> string) list \<Rightarrow> link_run \<Rightarrow> link_run" where
  "advance l' gen sent frames s =
     (let same = (session_of l' = session_of (lr_link s)) in
      \<lparr>lr_link = l', lr_gens = (case gen of Some g \<Rightarrow> g # lr_gens s | None \<Rightarrow> lr_gens s),
       lr_sent = (if same then lr_sent s @ sent else []), lr_frames = (if same then lr_frames s @ frames else [])\<rparr>)"

inductive link_step ::
  "link_crypto \<Rightarrow> (string \<Rightarrow> json option) \<Rightarrow> link_run \<Rightarrow> link_run \<Rightarrow> bool" for c parse where
  lk_receive: "link_receive c parse gen m (lr_link s) = (r, l') \<Longrightarrow>
    link_step c parse s (advance l' gen [] (opened m r) s)"
| lk_start: "link_start c gen (lr_link s) = (r, l') \<Longrightarrow> link_step c parse s (advance l' gen [] [] s)"
| lk_reset: "link_step c parse s (advance (link_reset (lr_link s)) None [] [] s)"
| lk_seal: "link_is_established (lr_link s) \<Longrightarrow> link_seal c p (lr_link s) = (r, l') \<Longrightarrow>
    link_step c parse s (advance l' None (sealed p r) [] s)"

definition link_init :: "link_identities \<Rightarrow> link_run \<Rightarrow> bool" where
  "link_init ids s \<longleftrightarrow> s = \<lparr>lr_link = peer_link_new ids, lr_gens = [], lr_sent = [], lr_frames = []\<rparr>"

definition names_peer :: "(string \<Rightarrow> json option) \<Rightarrow> link_identities \<Rightarrow> string \<Rightarrow> bool" where
  "names_peer parse ids identity \<longleftrightarrow>
     (\<exists>p info. deserialize parse identity = Some p \<and> from_identity_packet p = Some info \<and> di_id info = li_peer_device_id ids)"

text \<open>The transcript, as the side with the given role has it, and the keys that go with it.\<close>

definition own_transcript :: "link_role \<Rightarrow> link_identities \<Rightarrow> ephemeral \<Rightarrow> byte list \<Rightarrow> byte list \<Rightarrow> string \<Rightarrow> link_transcript" where
  "own_transcript role = (case role of Initiator \<Rightarrow> transcript_as_initiator | Responder \<Rightarrow> transcript_as_responder)"

definition own_keys ::
  "link_crypto \<Rightarrow> link_role \<Rightarrow> link_identities \<Rightarrow> ephemeral \<Rightarrow> byte list \<Rightarrow> byte list \<Rightarrow> (link_fail, link_keys) result" where
  "own_keys c role ids mine peer_eph peer_nonce =
     (case role of
        Initiator \<Rightarrow> derive_keys c mine peer_eph Initiator (li_local_fp ids) (li_peer_fp ids) (eph_nonce mine) peer_nonce
      | Responder \<Rightarrow> derive_keys c mine peer_eph Responder (li_peer_fp ids) (li_local_fp ids) peer_nonce (eph_nonce mine))"

fun other_role :: "link_role \<Rightarrow> link_role" where
  "other_role Initiator = Responder"
| "other_role Responder = Initiator"

text \<open>
  The peer has proved the key of its stored pairing certificate for this session: a signature that
  verifies, over a transcript with an ephemeral key and nonce of ours.
\<close>

definition proven ::
  "link_crypto \<Rightarrow> (string \<Rightarrow> json option) \<Rightarrow> link_identities \<Rightarrow> link_role \<Rightarrow> ephemeral list \<Rightarrow> link_keys \<Rightarrow> bool" where
  "proven c parse ids role gens keys \<longleftrightarrow>
     (\<exists>mine \<in> set gens. \<exists>peer_eph peer_nonce identity sg.
        names_peer parse ids identity
        \<and> link_verify c (li_peer_key ids) (other_role role)
            (transcript_text c (own_transcript role ids mine peer_eph peer_nonce identity)) sg
        \<and> own_keys c role ids mine peer_eph peer_nonce = Inr keys)"

definition state_inv ::
  "link_crypto \<Rightarrow> (string \<Rightarrow> json option) \<Rightarrow> link_identities \<Rightarrow> ephemeral list \<Rightarrow> peer_link \<Rightarrow> bool" where
  "state_inv c parse ids gens l \<longleftrightarrow>
     pl_ids l = ids \<and>
     (case pl_state l of
        LsIdle \<Rightarrow> True
      | LsAwaitingH2 mine \<Rightarrow> pl_role l = Initiator \<and> mine \<in> set gens
      | LsAwaitingFin keys transcript identity \<Rightarrow> pl_role l = Responder
          \<and> (\<exists>mine \<in> set gens. \<exists>peer_eph peer_nonce. names_peer parse ids identity
               \<and> transcript = transcript_text c (transcript_as_responder ids mine peer_eph peer_nonce identity)
               \<and> own_keys c Responder ids mine peer_eph peer_nonce = Inr keys)
      | LsEstablished keys \<Rightarrow> proven c parse ids (pl_role l) gens keys)"

definition numbered :: "nat \<Rightarrow> (json \<times> string) list \<Rightarrow> bool" where
  "numbered k fs \<longleftrightarrow> sorted_wrt (<) (map (frame_number \<circ> fst) fs) \<and> (\<forall>f \<in> set fs. frame_number (fst f) \<le> k)"

definition frames_inv :: "link_crypto \<Rightarrow> link_run \<Rightarrow> bool" where
  "frames_inv c s \<longleftrightarrow>
     (case session_of (lr_link s) of
        None \<Rightarrow> lr_sent s = [] \<and> lr_frames s = []
      | Some keys \<Rightarrow>
          numbered (pl_send_seq (lr_link s)) (lr_sent s) \<and> numbered (pl_receive_seq (lr_link s)) (lr_frames s)
          \<and> (\<forall>(m, p) \<in> set (lr_sent s). sealed_with c (lk_send keys) m p)
          \<and> (\<forall>(m, p) \<in> set (lr_frames s). opened_with c (lk_receive keys) m p))"

definition link_inv :: "link_crypto \<Rightarrow> (string \<Rightarrow> json option) \<Rightarrow> link_identities \<Rightarrow> link_run \<Rightarrow> bool" where
  "link_inv c parse ids s \<longleftrightarrow> state_inv c parse ids (lr_gens s) (lr_link s) \<and> frames_inv c s"

subsection \<open>Each message keeps the invariant\<close>

lemma checked_identity_names: "checked_identity parse ids m = Inr identity \<Longrightarrow> names_peer parse ids identity"
  by (auto simp: checked_identity_def names_peer_def res_Inr_iff split: if_splits)

lemma proven_mono: "proven c parse ids role gens keys \<Longrightarrow> set gens \<subseteq> set gens' \<Longrightarrow> proven c parse ids role gens' keys"
  unfolding proven_def by blast

lemma state_inv_mono:
  "state_inv c parse ids gens l \<Longrightarrow> set gens \<subseteq> set gens' \<Longrightarrow> state_inv c parse ids gens' l"
  unfolding state_inv_def by (auto split: link_state.splits dest: proven_mono)

lemma state_inv_idle: "pl_ids l = ids \<Longrightarrow> pl_state l = LsIdle \<Longrightarrow> state_inv c parse ids gens l"
  by (simp add: state_inv_def)

lemma link_reset_simps [simp]:
  "pl_ids (link_reset l) = pl_ids l" "pl_role (link_reset l) = pl_role l" "pl_state (link_reset l) = LsIdle"
  by (simp_all add: link_reset_def)

lemma start_state_inv:
  assumes "state_inv c parse ids gens l" and "link_start c gen l = (r, l')"
    and "\<And>g. gen = Some g \<Longrightarrow> g \<in> set gens'"
  shows "state_inv c parse ids gens' l'"
  using assms
  by (auto simp: link_start_def Let_def state_inv_def split: if_splits option.splits) (cases "pl_role l", auto)

lemma h1_state_inv:
  assumes "state_inv c parse ids gens l" and "on_h1 c parse gen m l = (r, l')" and "pl_role l = Responder"
    and "\<And>g. gen = Some g \<Longrightarrow> g \<in> set gens'"
  shows "state_inv c parse ids gens' l'"
proof -
  have ids: "pl_ids l = ids" using assms(1) by (simp add: state_inv_def)
  show ?thesis
  proof (cases r)
    case (Inl e)
    then have "l' = link_reset l" using assms(2) by (auto simp: on_h1_def Let_def split: sum.splits)
    then show ?thesis using ids by (simp add: state_inv_idle)
  next
    case (Inr es)
    then obtain keys tr identity mine peer_eph peer_nonce where
      l': "l' = (link_reset l)\<lparr>pl_state := LsAwaitingFin keys tr identity\<rparr>"
      and "checked_identity parse ids m = Inr identity" and gen: "gen = Some mine"
      and "tr = transcript_text c (transcript_as_responder ids mine peer_eph peer_nonce identity)"
      and "own_keys c Responder ids mine peer_eph peer_nonce = Inr keys"
      using assms(2) ids by (auto simp: on_h1_def Let_def res_Inr_iff own_keys_def split: sum.splits)
    then show ?thesis
      using assms(3) assms(4) [OF gen] ids checked_identity_names by (fastforce simp: state_inv_def)
  qed
qed

lemma h2_state_inv:
  assumes "state_inv c parse ids gens l" and "on_h2 c parse m l = (r, l')" and "pl_role l = Initiator"
  shows "state_inv c parse ids gens l'"
proof -
  have ids: "pl_ids l = ids" using assms(1) by (simp add: state_inv_def)
  show ?thesis
  proof (cases r)
    case (Inl e)
    then have "l' = l\<lparr>pl_state := LsIdle\<rparr>"
      using assms(2) by (auto simp: on_h2_def Let_def split: sum.splits link_state.splits)
    then show ?thesis using ids by (simp add: state_inv_idle)
  next
    case (Inr es)
    then obtain mine where mine: "pl_state l = LsAwaitingH2 mine"
      using assms(2) by (auto simp: on_h2_def Let_def split: link_state.splits)
    then obtain keys identity peer_eph peer_nonce sg where
      l': "l' = l\<lparr>pl_state := LsEstablished keys\<rparr>" and "checked_identity parse ids m = Inr identity"
      and "link_verify c (li_peer_key ids) Responder (transcript_text c (transcript_as_initiator ids mine peer_eph peer_nonce identity)) sg"
      and "own_keys c Initiator ids mine peer_eph peer_nonce = Inr keys"
      using assms(2) ids Inr by (auto simp: on_h2_def Let_def res_Inr_iff own_keys_def split: sum.splits if_splits)
    moreover have "mine \<in> set gens" using assms(1) mine by (simp add: state_inv_def)
    ultimately have "proven c parse ids Initiator gens keys"
      using checked_identity_names unfolding proven_def own_transcript_def by fastforce
    then show ?thesis using ids l' assms(3) by (simp add: state_inv_def)
  qed
qed

lemma fin_state_inv:
  assumes "state_inv c parse ids gens l" and "on_fin c m l = (r, l')"
  shows "state_inv c parse ids gens l'"
proof (cases "\<exists>keys tr identity. pl_state l = LsAwaitingFin keys tr identity \<and> l' = l\<lparr>pl_state := LsEstablished keys\<rparr>")
  case True
  then obtain keys tr identity where st: "pl_state l = LsAwaitingFin keys tr identity" and l': "l' = l\<lparr>pl_state := LsEstablished keys\<rparr>"
    by blast
  have ids: "pl_ids l = ids" using assms(1) by (simp add: state_inv_def)
  obtain sg where "link_verify c (li_peer_key ids) Initiator tr sg"
    using assms(2) st l' ids by (cases l) (auto simp: on_fin_def Let_def split: sum.splits if_splits)
  then have "proven c parse ids Responder gens keys" "pl_role l = Responder"
    using assms(1) st unfolding state_inv_def proven_def own_transcript_def by fastforce+
  then show ?thesis using ids l' by (simp add: state_inv_def)
next
  case False
  then have "l' = l\<lparr>pl_state := LsIdle\<rparr>"
    using assms(2) by (auto simp: on_fin_def Let_def split: link_state.splits sum.splits if_splits)
  then show ?thesis using assms(1) by (simp add: state_inv_def)
qed

lemma session_of_Some: "session_of l = Some keys \<longleftrightarrow> pl_state l = LsEstablished keys"
  by (simp add: session_of_def split: link_state.splits)

text \<open>A handshake message ends the session that was up, or finds none; and it opens no frame.\<close>

definition renews :: "peer_link \<Rightarrow> (link_fail, link_event list) result \<Rightarrow> peer_link \<Rightarrow> bool" where
  "renews l r l' \<longleftrightarrow> (session_of l = None \<or> session_of l' = None) \<and> (\<forall>m. opened m r = [])"

lemma start_renews: "link_start c gen l = (r, l') \<Longrightarrow> session_of l' = None"
  by (auto simp: link_start_def Let_def session_of_def split: if_splits option.splits)

lemma h1_renews: "on_h1 c parse gen m l = (r, l') \<Longrightarrow> renews l r l'"
  by (auto simp: on_h1_def Let_def renews_def session_of_def opened_def res_Inr_iff split: sum.splits)

lemma h2_renews: "on_h2 c parse m l = (r, l') \<Longrightarrow> renews l r l'"
  by (cases "pl_state l") (auto simp: on_h2_def Let_def renews_def session_of_def opened_def split: sum.splits)

lemma fin_renews: "on_fin c m l = (r, l') \<Longrightarrow> renews l r l'"
  by (cases "pl_state l") (auto simp: on_fin_def Let_def renews_def session_of_def opened_def split: sum.splits if_splits)

text \<open>A data frame leaves the link as it was or is opened, under a number higher than any before.\<close>

lemma as_str_Some: "as_str v = Some t \<longleftrightarrow> v = JStr t"
  by (cases v) auto

lemma open_frame_opens:
  assumes "link_text m ''ct'' = Inr sealed_text" and "open_frame c key (frame_number m) sealed_text = Inr p"
  shows "opened_with c key m p"
proof -
  obtain bytes where bytes: "lc_unb64 c sealed_text = Some bytes" "TAG_BYTES \<le> length bytes"
    "lc_decrypt c key (frame_iv (frame_number m)) DATA_AAD (take (length bytes - TAG_BYTES) bytes)
       (drop (length bytes - TAG_BYTES) bytes) = Some p"
    using assms(2) by (auto simp: open_frame_def res_Inr_iff ok_or_def Let_def split: option.splits if_splits)
  moreover have "json_get m ''ct'' = Some (JStr sealed_text)"
    using assms(1) by (auto simp: link_text_def ok_or_def bind_eq_Some_conv as_str_Some split: option.splits)
  ultimately show ?thesis
    unfolding opened_with_def
    by (intro exI [of _ sealed_text] exI [of _ "take (length bytes - TAG_BYTES) bytes"] exI [of _ "drop (length bytes - TAG_BYTES) bytes"]) simp
qed

lemma data_cases:
  assumes "on_data c m l = (r, l')"
  obtains (refused) e where "l' = l" "r = Inl e"
  | (taken) keys p where "pl_state l = LsEstablished keys" "l' = l\<lparr>pl_receive_seq := frame_number m\<rparr>" "r = Inr [EvPacket p]"
      "pl_receive_seq l < frame_number m" "opened_with c (lk_receive keys) m p"
proof -
  consider (1) e where "l' = l" "r = Inl e"
    | (2) keys n b p where "pl_state l = LsEstablished keys" "l' = l\<lparr>pl_receive_seq := nat n\<rparr>" "r = Inr [EvPacket p]"
      "pl_receive_seq l < nat n" "Option.bind (json_get m ''seq'') as_u64 = Some n" "link_text m ''ct'' = Inr b"
      "open_frame c (lk_receive keys) (nat n) b = Inr p"
    using assms by (auto simp: on_data_def res_Inr_iff not_le split: link_state.splits option.splits if_splits sum.splits)
  then show thesis
  proof cases
    case 2
    then have "frame_number m = nat n"
      by (auto simp: frame_number_def bind_eq_Some_conv elim!: as_u64.elims split: if_splits)
    then show ?thesis using 2 taken open_frame_opens by simp
  qed (rule refused)
qed

lemma receive_cases:
  assumes "link_receive c parse gen m l = (r, l')"
  obtains (ignored) "l' = l" "opened m r = []"
  | (start) r' where "link_start c gen l = (r', l')" "opened m r = []"
  | (h1) "on_h1 c parse gen m l = (r, l')" "pl_role l = Responder"
  | (h2) "on_h2 c parse m l = (r, l')" "pl_role l = Initiator"
  | (fin) "on_fin c m l = (r, l')"
  | (data) "on_data c m l = (r, l')"
proof -
  let ?kind = "unwrap_or [] (Option.bind (json_get m ''k'') as_str)"
  consider (1) "?kind = ''kick'' \<and> pl_role l = Initiator" | (2) "?kind = ''h1'' \<and> pl_role l = Responder"
    | (3) "?kind = ''h2'' \<and> pl_role l = Initiator" | (4) "?kind = ''fin'' \<and> pl_role l = Responder" | (5) "?kind = ''d''"
    | (6) "\<not> (?kind = ''kick'' \<and> pl_role l = Initiator)" "\<not> (?kind = ''h1'' \<and> pl_role l = Responder)"
       "\<not> (?kind = ''h2'' \<and> pl_role l = Initiator)" "\<not> (?kind = ''fin'' \<and> pl_role l = Responder)" "?kind \<noteq> ''d''"
    by argo
  then show thesis
  proof cases
    case 1
    show ?thesis
    proof (cases "\<exists>e. pl_state l = LsAwaitingH2 e")
      case True
      then have "l' = l" "r = Inr []" using 1 assms by (auto simp: link_receive_def)
      then show ?thesis using ignored by (simp add: opened_def)
    next
      case False
      then have "link_receive c parse gen m l = (let (r, l) = link_start c gen l in (map_res (\<lambda>h1. [EvSend h1]) r, l))"
        using 1 by (simp add: link_receive_def split: link_state.splits)
      then show ?thesis using assms start [of "fst (link_start c gen l)"]
        by (cases "link_start c gen l") (auto simp: opened_def map_res_def split: sum.splits)
    qed
  next
    case 2
    then show ?thesis using assms h1 by (simp add: link_receive_def)
  next
    case 3
    then show ?thesis using assms h2 by (simp add: link_receive_def)
  next
    case 4
    then show ?thesis using assms fin by (simp add: link_receive_def)
  next
    case 5
    then show ?thesis using assms data by (simp add: link_receive_def)
  next
    case 6
    then have "link_receive c parse gen m l = (Inl LfUnexpected, l)"
      unfolding link_receive_def Let_def by (simp only: if_False)
    then show ?thesis using assms ignored by (simp add: opened_def)
  qed
qed

lemma data_state_inv: "state_inv c parse ids gens l \<Longrightarrow> on_data c m l = (r, l') \<Longrightarrow> state_inv c parse ids gens l'"
  by (erule data_cases) (auto simp: state_inv_def)

lemma receive_state_inv:
  assumes "state_inv c parse ids gens l" and "link_receive c parse gen m l = (r, l')"
    and "set gens \<subseteq> set gens'" and "\<And>g. gen = Some g \<Longrightarrow> g \<in> set gens'"
  shows "state_inv c parse ids gens' l'"
proof -
  note inv = state_inv_mono [OF assms(1,3)]
  from assms(2) show ?thesis
  proof (cases rule: receive_cases)
    case ignored
    then show ?thesis using inv by simp
  next
    case (start r')
    then show ?thesis using start_state_inv [OF inv] assms(4) by blast
  next
    case h1
    then show ?thesis using h1_state_inv [OF inv] assms(4) by blast
  next
    case h2
    then show ?thesis using h2_state_inv [OF inv] by blast
  next
    case fin
    then show ?thesis using fin_state_inv [OF inv] by blast
  next
    case data
    then show ?thesis by (rule data_state_inv [OF inv])
  qed
qed

lemma advance_simps [simp]:
  "lr_link (advance l' gen sent frames s) = l'"
  "lr_gens (advance l' gen sent frames s) = (case gen of Some g \<Rightarrow> g # lr_gens s | None \<Rightarrow> lr_gens s)"
  by (simp_all add: advance_def Let_def)

lemma numbered_Nil [simp]: "numbered k []"
  by (simp add: numbered_def)

lemma frames_inv_same: "frames_inv c s \<Longrightarrow> frames_inv c (advance (lr_link s) gen [] [] s)"
  by (cases "session_of (lr_link s)") (simp_all add: frames_inv_def advance_def Let_def)

lemma frames_inv_changed: "session_of l' \<noteq> session_of (lr_link s) \<Longrightarrow> frames_inv c (advance l' gen sent frames s)"
  by (simp add: frames_inv_def advance_def split: option.splits)

lemma frames_inv_renewed:
  assumes "frames_inv c s" and "session_of (lr_link s) = None \<or> session_of l' = None"
  shows "frames_inv c (advance l' gen [] [] s)"
proof (cases "session_of l' = session_of (lr_link s)")
  case True
  then show ?thesis using assms by (auto simp: frames_inv_def advance_def)
qed (rule frames_inv_changed)

lemma numbered_snoc: "numbered k fs \<Longrightarrow> k < frame_number m \<Longrightarrow> frame_number m \<le> k' \<Longrightarrow> numbered k' (fs @ [(m, p)])"
  by (fastforce simp: numbered_def sorted_wrt_append)

lemma numbered_mono: "numbered k fs \<Longrightarrow> k \<le> k' \<Longrightarrow> numbered k' fs"
  by (auto simp: numbered_def)

lemma frames_inv_data:
  assumes "frames_inv c s" and "on_data c m (lr_link s) = (r, l')"
  shows "frames_inv c (advance l' gen [] (opened m r) s)"
  using assms(2)
proof (cases rule: data_cases)
  case (refused e)
  then show ?thesis using frames_inv_same [OF assms(1)] by (simp add: opened_def)
next
  case (taken keys p)
  then have "session_of l' = Some keys" "session_of (lr_link s) = Some keys" by (simp_all add: session_of_Some)
  then show ?thesis
    using assms(1) taken(2-5)
    by (auto simp: frames_inv_def advance_def opened_def intro!: numbered_snoc)
qed

lemma json_get_object: "json_get (json_object kvs) k = map_of (rev kvs) k"
  by (induction kvs rule: rev_induct) (auto simp: json_object_def obj_get_def [of "[]"])

text \<open>A frame that goes out carries the next number, and was sealed under the nonce of that number.\<close>

lemma seal_frame_seals:
  assumes "pl_state l = LsEstablished keys" and "link_seal c p l = (Inr m, l')"
  shows "frame_number m = pl_send_seq l + 1" and "sealed_with c (lk_send keys) m p"
proof -
  obtain ct where ct: "seal_frame c (lk_send keys) (pl_send_seq l + 1) p = Inr ct"
    and m: "m = json_object [(''k'', JStr ''d''), (''seq'', JInt (int (pl_send_seq l + 1))), (''ct'', JStr ct)]"
    using assms by (auto simp: link_seal_def Let_def map_res_def split: sum.splits)
  show "frame_number m = pl_send_seq l + 1" using m by (simp add: frame_number_def json_get_object)
  then show "sealed_with c (lk_send keys) m p"
    using ct m by (auto simp: sealed_with_def seal_frame_def json_get_object map_res_def ok_or_def split: option.splits)
qed

lemma frames_inv_seal:
  assumes "frames_inv c s" and "link_is_established (lr_link s)" and "link_seal c p (lr_link s) = (r, l')"
  shows "frames_inv c (advance l' None (sealed p r) [] s)"
proof -
  from assms(2) obtain keys where keys: "pl_state (lr_link s) = LsEstablished keys"
    by (auto simp: link_is_established_def split: link_state.splits)
  then have l': "l' = (lr_link s)\<lparr>pl_send_seq := pl_send_seq (lr_link s) + 1\<rparr>"
    using assms(3) by (auto simp: link_seal_def Let_def)
  then have session: "session_of l' = Some keys" "session_of (lr_link s) = Some keys" using keys by (simp_all add: session_of_Some)
  show ?thesis
  proof (cases r)
    case (Inl e)
    then show ?thesis
      using assms(1) session l' by (auto simp: frames_inv_def advance_def sealed_def elim: numbered_mono)
  next
    case (Inr m)
    then show ?thesis
      using assms(1) session l' seal_frame_seals [OF keys assms(3) [unfolded Inr]]
      by (auto simp: frames_inv_def advance_def sealed_def intro!: numbered_snoc)
  qed
qed

lemma frames_inv_receive:
  assumes "frames_inv c s" and "link_receive c parse gen m (lr_link s) = (r, l')"
  shows "frames_inv c (advance l' gen [] (opened m r) s)"
  using assms(2)
proof (cases rule: receive_cases)
  case ignored
  then show ?thesis using frames_inv_same [OF assms(1)] by simp
next
  case data
  then show ?thesis by (rule frames_inv_data [OF assms(1)])
qed (use frames_inv_renewed [OF assms(1)] start_renews h1_renews h2_renews fin_renews in \<open>auto simp: renews_def\<close>)

lemma link_step_inv:
  assumes "link_inv c parse ids s" and "link_step c parse s t"
  shows "link_inv c parse ids t"
  using assms(2,1)
proof cases
  case (lk_receive gen m r l')
  have "state_inv c parse ids (lr_gens t) (lr_link t)"
    unfolding lk_receive(1) using assms(1) lk_receive(2)
    by (auto simp: link_inv_def intro: receive_state_inv split: option.splits)
  then show ?thesis using assms(1) lk_receive frames_inv_receive by (simp add: link_inv_def)
next
  case (lk_start gen r l')
  have "state_inv c parse ids (lr_gens t) (lr_link t)"
    unfolding lk_start(1) using assms(1) lk_start(2)
    by (auto simp: link_inv_def intro: start_state_inv split: option.splits)
  then show ?thesis using assms(1) lk_start frames_inv_renewed start_renews by (simp add: link_inv_def)
next
  case lk_reset
  have "session_of (link_reset (lr_link s)) = None" by (simp add: session_of_def)
  then show ?thesis using assms(1) lk_reset frames_inv_renewed by (simp add: link_inv_def state_inv_def)
next
  case (lk_seal p r l')
  have "state_inv c parse ids (lr_gens t) (lr_link t)"
    unfolding lk_seal(1) using assms(1) lk_seal(2,3)
    by (auto simp: link_inv_def Let_def link_seal_def state_inv_def link_is_established_def split: link_state.splits)
  then show ?thesis using assms(1) lk_seal frames_inv_seal by (simp add: link_inv_def)
qed

interpretation link: invariant_system "link_init ids" "link_step c parse" "link_inv c parse ids"
proof
  show "link_inv c parse ids s" if "link_init ids s" for s
    using that by (simp add: link_inv_def link_init_def peer_link_new_def state_inv_def frames_inv_def session_of_def)
  show "link_inv c parse ids t" if "link_inv c parse ids s" "link_step c parse s t" for s t
    using link_step_inv that .
qed

subsection \<open>Two honest ends\<close>

lemma names_peer_checked:
  "link_text m ''identity'' = Inr identity \<Longrightarrow> names_peer parse ids identity \<Longrightarrow> checked_identity parse ids m = Inr identity"
  by (auto simp: names_peer_def checked_identity_def ok_or_def res_simps)

text \<open>A key of the length asked for, so that splitting it in two halves cannot panic.\<close>

lemma hkdf_loop_length: "hkdf_loop c prk info n block counter okm = Inr out \<Longrightarrow> length out = n"
proof (induction c prk info n block counter okm rule: hkdf_loop.induct)
  case (1 c prk info n block counter okm)
  show ?case
    by (rule 1(2) [unfolded hkdf_loop.simps [of c prk info n block], THEN rev_mp])
      (use 1(1) in \<open>auto split: option.splits\<close>)
qed

lemma hkdf_length: "hkdf_sha256 c salt ikm info n = Inr okm \<Longrightarrow> length okm = n"
  by (auto simp: hkdf_sha256_def res_Inr_iff hkdf_loop_length)

lemma hkdf_64:
  assumes "\<And>k d. \<exists>h. lc_hmac c k d = Some h \<and> length h = 32"
  obtains okm where "hkdf_sha256 c salt ikm info 64 = Inr okm" "length okm = 64"
proof -
  obtain prk where prk: "lc_hmac c salt ikm = Some prk" using assms by blast
  obtain b where b: "lc_hmac c prk (info @ [1]) = Some b" "length b = 32" using assms by blast
  obtain b' where b': "lc_hmac c prk (b @ info @ [2]) = Some b'" "length b' = 32" using assms by blast
  have "hkdf_loop c prk info 64 [] 1 [] = hkdf_loop c prk info 64 b 2 b"
    using b by (simp add: hkdf_loop.simps [of c prk info 64 "[]"] numeral_2_eq_2)
  also have "\<dots> = hkdf_loop c prk info 64 b' 3 (b @ b')"
    using b b' by (simp add: hkdf_loop.simps [of c prk info 64 b])
  also have "\<dots> = Inr (b @ b')" using b b' by (simp add: hkdf_loop.simps)
  finally show thesis using that [of "b @ b'"] b b' prk by (simp add: hkdf_sha256_def ok_or_def res_simps)
qed

text \<open>Both ends derive the same 64 bytes, and take opposite halves for sending and receiving.\<close>

lemma derive_keys_mirror:
  assumes "\<And>k d. \<exists>h. lc_hmac c k d = Some h \<and> length h = 32"
    and "lc_ecdh c (eph_key ea) (eph_public eb) = Some z" and "lc_ecdh c (eph_key eb) (eph_public ea) = Some z"
  obtains keys where "derive_keys c ea (eph_public eb) Initiator fi fr ni nr = Inr keys"
    "derive_keys c eb (eph_public ea) Responder fi fr ni nr = Inr \<lparr>lk_send = lk_receive keys, lk_receive = lk_send keys\<rparr>"
    "length (lk_send keys) = 32" "length (lk_receive keys) = 32"
proof -
  obtain okm where okm: "hkdf_sha256 c (ni @ nr) z
      (ascii_bytes (LINK_CONTEXT @ '' keys'' @ [newline] @ fi @ [newline] @ fr)) 64 = Inr okm" and len: "length okm = 64"
    using hkdf_64 [OF assms(1)] .
  let ?keys = "\<lparr>lk_send = take 32 okm, lk_receive = drop 32 okm\<rparr>"
  show thesis
    by (rule that [of ?keys]) (use okm len assms(2,3) in \<open>simp_all add: derive_keys_def ok_or_def res_simps\<close>)
qed

lemma transcripts_agree:
  assumes "li_local_fp b = li_peer_fp a" and "li_peer_fp b = li_local_fp a"
  shows "transcript_as_responder b eb (eph_public ea) (eph_nonce ea) (li_local_identity a)
    = transcript_as_initiator a ea (eph_public eb) (eph_nonce eb) (li_local_identity b)"
  by (simp add: transcript_as_responder_def transcript_as_initiator_def assms)

lemmas message_reads = link_text_def link_decode_def json_get_object check_version_def LINK_VERSION_def is_u64_def
  ok_or_def res_simps unwrap_or_def link_receive_def

definition h1_message :: "link_crypto \<Rightarrow> link_identities \<Rightarrow> ephemeral \<Rightarrow> json" where
  "h1_message c ids mine = json_object [(''k'', JStr ''h1''), (''lv'', JInt LINK_VERSION),
     (''eph'', JStr (lc_b64 c (eph_public mine))), (''nonce'', JStr (lc_b64 c (eph_nonce mine))),
     (''identity'', JStr (li_local_identity ids))]"

definition fin_message :: "string \<Rightarrow> json" where
  "fin_message mysig = json_object [(''k'', JStr ''fin''), (''sig'', JStr mysig)]"

definition h2_message :: "link_crypto \<Rightarrow> link_identities \<Rightarrow> ephemeral \<Rightarrow> string \<Rightarrow> json" where
  "h2_message c ids mine sg = json_object [(''k'', JStr ''h2''), (''lv'', JInt LINK_VERSION),
     (''eph'', JStr (lc_b64 c (eph_public mine))), (''nonce'', JStr (lc_b64 c (eph_nonce mine))),
     (''identity'', JStr (li_local_identity ids)), (''sig'', JStr sg)]"

lemma honest_h1:
  assumes "pl_ids lb = b" "pl_role lb = Responder" "\<And>x. lc_unb64 c (lc_b64 c x) = Some x"
    and "names_peer parse b (li_local_identity a)"
    and "derive_keys c eb (eph_public ea) Responder (li_peer_fp b) (li_local_fp b) (eph_nonce ea) (eph_nonce eb) = Inr keys"
    and "tr = transcript_text c (transcript_as_responder b eb (eph_public ea) (eph_nonce ea) (li_local_identity a))"
    and "link_sign c (li_local_key b) Responder tr = Inr sg"
  shows "link_receive c parse (Some eb) (h1_message c a ea) lb
    = (Inr [EvSend (h2_message c b eb sg)], (link_reset lb)\<lparr>pl_state := LsAwaitingFin keys tr (li_local_identity a)\<rparr>)"
proof -
  have "checked_identity parse b (h1_message c a ea) = Inr (li_local_identity a)"
    by (rule names_peer_checked [OF _ assms(4)]) (simp add: h1_message_def message_reads)
  then show ?thesis using assms by (simp add: on_h1_def Let_def h1_message_def h2_message_def message_reads)
qed

lemma honest_h2:
  assumes "pl_ids la = a" "pl_role la = Initiator" "pl_state la = LsAwaitingH2 ea" "\<And>x. lc_unb64 c (lc_b64 c x) = Some x"
    and "names_peer parse a (li_local_identity b)"
    and "derive_keys c ea (eph_public eb) Initiator (li_local_fp a) (li_peer_fp a) (eph_nonce ea) (eph_nonce eb) = Inr keys"
    and "tr = transcript_text c (transcript_as_initiator a ea (eph_public eb) (eph_nonce eb) (li_local_identity b))"
    and "link_verify c (li_peer_key a) Responder tr sg"
    and "link_sign c (li_local_key a) Initiator tr = Inr mysig"
  shows "link_receive c parse gen (h2_message c b eb sg) la
    = (Inr [EvSend (fin_message mysig), EvEstablished (li_local_identity b)],
       la\<lparr>pl_state := LsEstablished keys\<rparr>)"
proof -
  have "checked_identity parse a (h2_message c b eb sg) = Inr (li_local_identity b)"
    by (rule names_peer_checked [OF _ assms(5)]) (simp add: h2_message_def message_reads)
  then show ?thesis using assms by (simp add: on_h2_def Let_def h2_message_def fin_message_def message_reads)
qed

lemma honest_fin:
  assumes "pl_role lb = Responder" "pl_state lb = LsAwaitingFin keys tr identity"
    and "link_verify c (li_peer_key (pl_ids lb)) Initiator tr mysig"
  shows "link_receive c parse gen (fin_message mysig) lb
    = (Inr [EvEstablished identity], lb\<lparr>pl_state := LsEstablished keys\<rparr>)"
  using assms by (simp add: on_fin_def fin_message_def message_reads)

text \<open>A signature made with a key is accepted with the certificate of that key.\<close>

definition key_pair :: "link_crypto \<Rightarrow> byte list \<Rightarrow> byte list \<Rightarrow> bool" where
  "key_pair c private public \<longleftrightarrow> (\<forall>t. \<exists>s. lc_sign c private t = Some s \<and> lc_check c public t s)"

lemma key_pair_signs:
  assumes "key_pair c private public" and "\<And>x. lc_unb64 c (lc_b64 c x) = Some x"
  obtains sg where "link_sign c private role t = Inr sg" "link_verify c public role t sg"
  using assms unfolding key_pair_def link_sign_def link_verify_def
  by (metis (no_types, lifting) map_res_def ok_or_def option.simps(5) sum.case(2))

subsection \<open>Numbers, nonces and transcripts\<close>

lemma mod_digits:
  "(\<And>i. i < k \<Longrightarrow> n div 256 ^ i mod 256 = m div 256 ^ i mod (256 :: nat)) \<Longrightarrow> n mod 256 ^ k = m mod 256 ^ k"
proof (induction k)
  case (Suc k)
  then have "n mod 256 ^ k = m mod 256 ^ k" "n div 256 ^ k mod 256 = m div 256 ^ k mod 256" by simp_all
  then show ?case by (simp add: mod_mult2_eq mult.commute [of 256])
qed simp

lemma byte_of_nat_eq: "(word_of_nat a :: byte) = word_of_nat b \<longleftrightarrow> a mod 256 = b mod 256"
  by (simp add: word_of_nat_eq_iff take_bit_eq_mod)

lemma frame_iv_inj:
  assumes "frame_iv n = frame_iv m" and "n < 2 ^ 64" and "m < 2 ^ 64"
  shows "n = m"
proof -
  have eq: "map (\<lambda>i. word_of_nat (n div 256 ^ i) :: byte) [7, 6, 5, 4, 3, 2, 1, 0]
      = map (\<lambda>i. word_of_nat (m div 256 ^ i)) [7, 6, 5, 4, 3, 2, 1, 0]"
    using assms(1) unfolding frame_iv_def by (simp only: same_append_eq)
  have "i \<in> set [7, 6, 5, 4, 3, 2, 1, 0]" if "i < 8" for i :: nat using that by auto
  with eq have "(word_of_nat (n div 256 ^ i) :: byte) = word_of_nat (m div 256 ^ i)" if "i < 8" for i
    using that unfolding map_eq_conv by blast
  then have "n div 256 ^ i mod 256 = m div 256 ^ i mod 256" if "i < 8" for i
    using that byte_of_nat_eq by blast
  then have "n mod 256 ^ 8 = m mod 256 ^ 8" by (rule mod_digits)
  then show ?thesis using assms(2,3) by simp
qed

lemma frame_iv_distinct: "distinct ns \<Longrightarrow> \<forall>n \<in> set ns. n < 2 ^ 64 \<Longrightarrow> distinct (map frame_iv ns)"
  by (simp add: distinct_map inj_on_def frame_iv_inj)

lemma join_lines_Cons: "xs \<noteq> [] \<Longrightarrow> join_lines (x # xs) = x @ newline # join_lines xs"
  by (cases xs) auto

lemma join_lines_inj:
  "length xs = length ys \<Longrightarrow> \<forall>x \<in> set xs \<union> set ys. newline \<notin> set x \<Longrightarrow> join_lines xs = join_lines ys \<Longrightarrow> xs = ys"
proof (induction xs ys rule: list_induct2)
  case (Cons x xs y ys)
  show ?case
  proof (cases "xs = []")
    case False
    then have "ys \<noteq> []" using Cons.hyps by auto
    then have "x @ newline # join_lines xs = y @ newline # join_lines ys"
      using Cons.prems False by (simp add: join_lines_Cons)
    moreover have "newline \<notin> set x" "newline \<notin> set y" using Cons.prems by simp_all
    ultimately have "x = y" "join_lines xs = join_lines ys" using split_at_first by fastforce+
    then show ?thesis using Cons by simp
  qed (use Cons in simp)
qed simp

lemma honest_run:
  assumes "pl_ids la = a" and "pl_role la = Initiator" and "pl_ids lb = b" and "pl_role lb = Responder"
    and "li_local_fp b = li_peer_fp a" and "li_peer_fp b = li_local_fp a"
    and "names_peer parse b (li_local_identity a)" and "names_peer parse a (li_local_identity b)"
    and "key_pair c (li_local_key a) (li_peer_key b)" and "key_pair c (li_local_key b) (li_peer_key a)"
    and "\<And>x. lc_unb64 c (lc_b64 c x) = Some x"
    and "\<And>k d. \<exists>h. lc_hmac c k d = Some h \<and> length h = 32"
    and "lc_ecdh c (eph_key ea) (eph_public eb) = Some z" and "lc_ecdh c (eph_key eb) (eph_public ea) = Some z"
  obtains keys sg mysig tr where "link_start c (Some ea) la = (Inr (h1_message c a ea), (link_reset la)\<lparr>pl_state := LsAwaitingH2 ea\<rparr>)"
    "link_receive c parse (Some eb) (h1_message c a ea) lb = (Inr [EvSend (h2_message c b eb sg)],
       (link_reset lb)\<lparr>pl_state := LsAwaitingFin \<lparr>lk_send = lk_receive keys, lk_receive = lk_send keys\<rparr> tr (li_local_identity a)\<rparr>)"
    "link_receive c parse None (h2_message c b eb sg) ((link_reset la)\<lparr>pl_state := LsAwaitingH2 ea\<rparr>)
       = (Inr [EvSend (fin_message mysig), EvEstablished (li_local_identity b)], (link_reset la)\<lparr>pl_state := LsEstablished keys\<rparr>)"
    "link_receive c parse None (fin_message mysig)
       ((link_reset lb)\<lparr>pl_state := LsAwaitingFin \<lparr>lk_send = lk_receive keys, lk_receive = lk_send keys\<rparr> tr (li_local_identity a)\<rparr>)
       = (Inr [EvEstablished (li_local_identity a)],
          (link_reset lb)\<lparr>pl_state := LsEstablished \<lparr>lk_send = lk_receive keys, lk_receive = lk_send keys\<rparr>\<rparr>)"
proof -
  let ?tr = "transcript_text c (transcript_as_initiator a ea (eph_public eb) (eph_nonce eb) (li_local_identity b))"
  have tr: "?tr = transcript_text c (transcript_as_responder b eb (eph_public ea) (eph_nonce ea) (li_local_identity a))"
    using transcripts_agree [OF assms(5,6)] by simp
  obtain sg where sg: "link_sign c (li_local_key b) Responder ?tr = Inr sg" "link_verify c (li_peer_key a) Responder ?tr sg"
    using key_pair_signs [OF assms(10,11)] .
  obtain mysig where mysig: "link_sign c (li_local_key a) Initiator ?tr = Inr mysig"
      "link_verify c (li_peer_key b) Initiator ?tr mysig"
    using key_pair_signs [OF assms(9,11)] .
  obtain keys where keys: "derive_keys c ea (eph_public eb) Initiator (li_local_fp a) (li_peer_fp a) (eph_nonce ea) (eph_nonce eb) = Inr keys"
      "derive_keys c eb (eph_public ea) Responder (li_peer_fp b) (li_local_fp b) (eph_nonce ea) (eph_nonce eb)
        = Inr \<lparr>lk_send = lk_receive keys, lk_receive = lk_send keys\<rparr>"
    using derive_keys_mirror [OF assms(12-14)] assms(5,6) by metis
  show thesis
  proof (rule that [of sg keys ?tr mysig])
    show "link_start c (Some ea) la = (Inr (h1_message c a ea), (link_reset la)\<lparr>pl_state := LsAwaitingH2 ea\<rparr>)"
      using assms(1,2) by (simp add: link_start_def h1_message_def)
  next
    show "link_receive c parse None (h2_message c b eb sg) ((link_reset la)\<lparr>pl_state := LsAwaitingH2 ea\<rparr>)
       = (Inr [EvSend (fin_message mysig), EvEstablished (li_local_identity b)], (link_reset la)\<lparr>pl_state := LsEstablished keys\<rparr>)"
      using honest_h2 [OF _ _ _ assms(11,8) keys(1) refl sg(2) mysig(1), where la = "(link_reset la)\<lparr>pl_state := LsAwaitingH2 ea\<rparr>"]
      by (simp add: assms)
  qed (use honest_h1 [OF assms(3,4,11,7) keys(2) tr sg(1)] honest_fin assms(3,4) mysig(2) in simp_all)
qed

subsection \<open>Properties\<close>

text \<open>
  C22. Whatever an untrusted relay delivers, in any order, a link comes up only with proof: the
  keys in use were derived from an ephemeral key generated on this side, and the peer's stored
  pairing certificate verified a signature, with the peer's role in it, over the transcript that
  holds both ephemeral keys, both nonces and an identity naming the paired device.
\<close>

theorem link_established_is_proven:
  assumes "reachable (link_init ids) (link_step c parse) s" and "pl_state (lr_link s) = LsEstablished keys"
  shows "\<exists>mine \<in> set (lr_gens s). \<exists>peer_eph peer_nonce identity sg.
     names_peer parse ids identity
     \<and> link_verify c (li_peer_key ids) (other_role (pl_role (lr_link s)))
         (transcript_text c (own_transcript (pl_role (lr_link s)) ids mine peer_eph peer_nonce identity)) sg
     \<and> own_keys c (pl_role (lr_link s)) ids mine peer_eph peer_nonce = Inr keys"
  using link.reachable_inv [OF assms(1)] assms(2) by (simp add: link_inv_def state_inv_def proven_def)

text \<open>
  C23. Within a session the frames that go out carry strictly increasing numbers, and each was
  encrypted with the session's sending key under the nonce of the number it carries, so below 2^64
  frames no nonce of the cipher repeats; and the frames taken carry strictly increasing numbers,
  each decrypted with the session's receiving key under the nonce of its number: a relay can
  neither replay a frame nor reorder two.
\<close>

theorem link_frames_once:
  assumes "reachable (link_init ids) (link_step c parse) s" and "pl_state (lr_link s) = LsEstablished keys"
  shows "sorted_wrt (<) (map (frame_number \<circ> fst) (lr_sent s))
    \<and> (\<forall>(m, p) \<in> set (lr_sent s). sealed_with c (lk_send keys) m p)
    \<and> (pl_send_seq (lr_link s) < 2 ^ 64 \<longrightarrow> distinct (map (frame_iv \<circ> frame_number \<circ> fst) (lr_sent s)))
    \<and> sorted_wrt (<) (map (frame_number \<circ> fst) (lr_frames s))
    \<and> (\<forall>(m, p) \<in> set (lr_frames s). opened_with c (lk_receive keys) m p)"
proof -
  have inv: "frames_inv c s" using link.reachable_inv [OF assms(1)] by (simp add: link_inv_def)
  have session: "session_of (lr_link s) = Some keys" using assms(2) by (simp add: session_of_Some)
  note facts = inv [unfolded frames_inv_def session option.case]
  have "distinct (map (frame_number \<circ> fst) (lr_sent s))"
    using facts by (simp add: numbered_def strict_sorted_iff)
  moreover have "\<forall>n \<in> set (map (frame_number \<circ> fst) (lr_sent s)). n \<le> pl_send_seq (lr_link s)"
    using facts by (auto simp: numbered_def)
  ultimately have "pl_send_seq (lr_link s) < 2 ^ 64 \<Longrightarrow> distinct (map frame_iv (map (frame_number \<circ> fst) (lr_sent s)))"
    by (intro frame_iv_distinct) fastforce+
  then show ?thesis using facts by (simp add: numbered_def comp_assoc)
qed

text \<open>
  C24. The handshake completes between two honest ends, from any states they were in: the initiator's
  hello, the answer, and the closing proof bring both up, each with the other's identity, and what
  one sends with is what the other receives with.
\<close>

theorem link_handshake_completes:
  assumes "pl_ids la = a" and "pl_role la = Initiator" and "pl_ids lb = b" and "pl_role lb = Responder"
    and "li_local_fp b = li_peer_fp a" and "li_peer_fp b = li_local_fp a"
    and "names_peer parse b (li_local_identity a)" and "names_peer parse a (li_local_identity b)"
    and "key_pair c (li_local_key a) (li_peer_key b)" and "key_pair c (li_local_key b) (li_peer_key a)"
    and "\<And>x. lc_unb64 c (lc_b64 c x) = Some x"
    and "\<And>k d. \<exists>h. lc_hmac c k d = Some h \<and> length h = 32"
    and "lc_ecdh c (eph_key ea) (eph_public eb) = Some z" and "lc_ecdh c (eph_key eb) (eph_public ea) = Some z"
  shows "\<exists>h1 la1 h2 lb1 fin la2 lb2 keys.
     link_start c (Some ea) la = (Inr h1, la1)
     \<and> link_receive c parse (Some eb) h1 lb = (Inr [EvSend h2], lb1)
     \<and> link_receive c parse None h2 la1 = (Inr [EvSend fin, EvEstablished (li_local_identity b)], la2)
     \<and> link_receive c parse None fin lb1 = (Inr [EvEstablished (li_local_identity a)], lb2)
     \<and> pl_state la2 = LsEstablished keys
     \<and> pl_state lb2 = LsEstablished \<lparr>lk_send = lk_receive keys, lk_receive = lk_send keys\<rparr>
     \<and> pl_send_seq la2 = pl_receive_seq lb2 \<and> pl_send_seq lb2 = pl_receive_seq la2"
proof -
  obtain keys sg mysig tr where "link_start c (Some ea) la = (Inr (h1_message c a ea), (link_reset la)\<lparr>pl_state := LsAwaitingH2 ea\<rparr>)"
    and rest: "link_receive c parse (Some eb) (h1_message c a ea) lb = (Inr [EvSend (h2_message c b eb sg)],
       (link_reset lb)\<lparr>pl_state := LsAwaitingFin \<lparr>lk_send = lk_receive keys, lk_receive = lk_send keys\<rparr> tr (li_local_identity a)\<rparr>)"
    "link_receive c parse None (h2_message c b eb sg) ((link_reset la)\<lparr>pl_state := LsAwaitingH2 ea\<rparr>)
       = (Inr [EvSend (fin_message mysig), EvEstablished (li_local_identity b)], (link_reset la)\<lparr>pl_state := LsEstablished keys\<rparr>)"
    "link_receive c parse None (fin_message mysig)
       ((link_reset lb)\<lparr>pl_state := LsAwaitingFin \<lparr>lk_send = lk_receive keys, lk_receive = lk_send keys\<rparr> tr (li_local_identity a)\<rparr>)
       = (Inr [EvEstablished (li_local_identity a)],
          (link_reset lb)\<lparr>pl_state := LsEstablished \<lparr>lk_send = lk_receive keys, lk_receive = lk_send keys\<rparr>\<rparr>)"
    using honest_run [OF assms] .
  then show ?thesis by (intro exI conjI) (assumption | simp add: link_reset_def)+
qed

text \<open>
  What one end of a session seals, the other opens: as long as the receiver has not gone past
  the sender's count, the next packet arrives unchanged, and both counts agree after it.
\<close>

lemma link_frame_delivered:
  assumes "pl_state la = LsEstablished keys" and "pl_state lb = LsEstablished keys'" and "lk_receive keys' = lk_send keys"
    and "pl_receive_seq lb \<le> pl_send_seq la" and "pl_send_seq la + 1 < 2 ^ 64"
    and "\<And>x. lc_unb64 c (lc_b64 c x) = Some x"
    and "\<And>k iv aad p. \<exists>ct tag. lc_encrypt c k iv aad p = Some (ct, tag) \<and> length tag = TAG_BYTES
            \<and> lc_decrypt c k iv aad ct tag = Some p"
  shows "\<exists>m la' lb'. link_seal c p la = (Inr m, la') \<and> link_receive c parse gen m lb = (Inr [EvPacket p], lb')
     \<and> pl_state la' = LsEstablished keys \<and> pl_state lb' = LsEstablished keys'
     \<and> pl_receive_seq lb' = pl_send_seq la' \<and> pl_send_seq la' = pl_send_seq la + 1"
proof -
  define n where "n = pl_send_seq la + 1"
  obtain ct tag where enc: "lc_encrypt c (lk_send keys) (frame_iv n) DATA_AAD p = Some (ct, tag)" "length tag = TAG_BYTES"
      "lc_decrypt c (lk_send keys) (frame_iv n) DATA_AAD ct tag = Some p"
    using assms(7) by blast
  let ?text = "lc_b64 c (ct @ tag)"
  let ?m = "json_object [(''k'', JStr ''d''), (''seq'', JInt (int n)), (''ct'', JStr ?text)]"
  have sealed: "link_seal c p la = (Inr ?m, la\<lparr>pl_send_seq := n\<rparr>)"
    using assms(1) enc(1) by (simp add: link_seal_def n_def seal_frame_def ok_or_def res_simps Let_def)
  have "open_frame c (lk_receive keys') n ?text = Inr p"
    using assms(3,6) enc by (simp add: open_frame_def ok_or_def res_simps)
  moreover have "as_u64 (JInt (int n)) = Some (int n)" using assms(5) by (simp add: is_u64_def n_def)
  moreover have "pl_receive_seq lb < n" using assms(4) by (simp add: n_def)
  ultimately have "on_data c ?m lb = (Inr [EvPacket p], lb\<lparr>pl_receive_seq := n\<rparr>)"
    using assms(2) by (simp add: on_data_def json_get_object link_text_def ok_or_def res_simps del: as_u64.simps)
  then have "link_receive c parse gen ?m lb = (Inr [EvPacket p], lb\<lparr>pl_receive_seq := n\<rparr>)"
    by (simp add: link_receive_def json_get_object unwrap_or_def)
  with sealed show ?thesis using assms(1,2) by (intro exI conjI) (assumption | simp add: n_def)+
qed

text \<open>
  A signed transcript names one session: two transcripts with the same text have the same
  fingerprints, ephemeral keys, nonces and identity hashes, since none of the lines joined can
  hold a line break.
\<close>

lemma link_transcript_binds:
  assumes "transcript_text c t = transcript_text c u"
    and "\<And>x y. lc_b64 c x = lc_b64 c y \<Longrightarrow> x = y" and "\<And>x. newline \<notin> set (lc_b64 c x)"
    and "newline \<notin> set (lt_fp_initiator t @ lt_fp_responder t @ lt_fp_initiator u @ lt_fp_responder u)"
  shows "lt_fp_initiator t = lt_fp_initiator u \<and> lt_fp_responder t = lt_fp_responder u
    \<and> lt_eph_initiator t = lt_eph_initiator u \<and> lt_eph_responder t = lt_eph_responder u
    \<and> lt_nonce_initiator t = lt_nonce_initiator u \<and> lt_nonce_responder t = lt_nonce_responder u
    \<and> identity_hash c (lt_identity_initiator t) = identity_hash c (lt_identity_initiator u)
    \<and> identity_hash c (lt_identity_responder t) = identity_hash c (lt_identity_responder u)"
proof -
  have hash: "newline \<notin> set (identity_hash c i)" for i
    by (simp add: identity_hash_def hex_no_newline split: option.splits)
  have "newline \<notin> set LINK_CONTEXT" by (simp add: LINK_CONTEXT_def newline_def)
  note eq = join_lines_inj [OF _ _ assms(1) [unfolded transcript_text_def]]
  then show ?thesis using assms(2,3,4) hash \<open>newline \<notin> set LINK_CONTEXT\<close> by auto
qed

subsection \<open>A concrete pair of ends\<close>

definition demo_device :: "char \<Rightarrow> device_info" where
  "demo_device ch = \<lparr>di_id = replicate 32 ch, di_name = ''Phone'', device_type = ''phone'', protocol_version = 8,
     incoming_capabilities = [], outgoing_capabilities = [], instance_id = None, app_version = None\<rparr>"

definition demo_parse :: "string \<Rightarrow> json option" where
  "demo_parse s = Some (packet_to_json (to_identity_packet 1 (demo_device (hd s)) 1716))"

definition demo_crypto :: link_crypto where
  "demo_crypto = \<lparr>lc_b64 = map (\<lambda>b. char_of (unat b)), lc_unb64 = (\<lambda>s. Some (ascii_bytes s)),
     lc_sha256 = (\<lambda>s. Some (ascii_bytes s)), lc_sign = (\<lambda>k t. Some (k @ ascii_bytes t)),
     lc_check = (\<lambda>k t s. s = k @ ascii_bytes t), lc_ecdh = (\<lambda>_ _. Some [7]), lc_hmac = (\<lambda>_ _. Some (replicate 32 9)),
     lc_encrypt = (\<lambda>_ _ _ p. Some (ascii_bytes p, replicate 16 0)),
     lc_decrypt = (\<lambda>_ _ _ ct _. Some (map (\<lambda>b. char_of (unat b)) ct))\<rparr>"

definition demo_ids :: "char \<Rightarrow> char \<Rightarrow> link_identities" where
  "demo_ids me peer = \<lparr>li_local_fp = [me], li_peer_fp = [peer], li_local_key = [1], li_local_identity = [me],
     li_peer_key = [1], li_peer_device_id = replicate 32 peer\<rparr>"

definition demo_eph :: "byte \<Rightarrow> ephemeral" where
  "demo_eph n = \<lparr>eph_key = [n], eph_public = [n], eph_nonce = [n]\<rparr>"

lemma bytes_of_chars: "ascii_bytes (map (\<lambda>b. char_of (unat b)) bs) = bs"
proof -
  have "word_of_nat (unat b mod 256) = b" for b :: byte
    using unsigned_less [of b, where 'a = nat] by simp
  then show ?thesis by (induction bs) (simp_all add: ascii_bytes_def)
qed

lemma chars_of_bytes: "map (\<lambda>b. char_of (unat b)) (ascii_bytes s) = s"
proof -
  have "char_of (of_char ch mod 256 :: nat) = ch" for ch :: char
    by simp
  then show ?thesis by (induction s) (simp_all add: ascii_bytes_def unsigned_of_nat take_bit_eq_mod)
qed

lemma demo_device_ok: "ch \<in> {CHR ''a'', CHR ''b''} \<Longrightarrow> device_ok (demo_device ch)"
  by (auto simp: demo_device_def device_ok_def is_valid_device_id_def is_ascii_alphanumeric_def list_all_iff less_eq_char_def
      is_i64_def filter_name_def name_punctuation_def take_chars_le count_chars_def)

lemma demo_names_peer:
  assumes "peer \<in> {CHR ''a'', CHR ''b''}"
  shows "names_peer demo_parse (demo_ids me peer) [peer]"
proof -
  have "packet_ok (to_identity_packet 1 (demo_device peer) 1716)"
    by (simp add: packet_ok_def to_identity_packet_def is_i64_def Let_def demo_device_def)
  then have "deserialize demo_parse [peer] = Some (to_identity_packet 1 (demo_device peer) 1716)"
    by (simp add: deserialize_def demo_parse_def packet_json_roundtrip)
  moreover have "from_identity_packet (to_identity_packet 1 (demo_device peer) 1716) = Some (demo_device peer)"
    using assms by (intro identity_roundtrip demo_device_ok)
  ultimately show ?thesis by (auto simp: names_peer_def demo_ids_def demo_device_def)
qed

lemmas demo_laws =
  demo_names_peer [of "CHR ''a''" "CHR ''b''", simplified] demo_names_peer [of "CHR ''b''" "CHR ''a''", simplified]

lemma demo_b64: "lc_unb64 demo_crypto (lc_b64 demo_crypto x) = Some x"
  by (simp add: demo_crypto_def bytes_of_chars)

lemma demo_hmac: "\<exists>h. lc_hmac demo_crypto k d = Some h \<and> length h = 32"
  by (simp add: demo_crypto_def)

lemma demo_key_pair: "key_pair demo_crypto [1] [1]"
  by (simp add: key_pair_def demo_crypto_def)

lemma demo_established:
  obtains s keys where "reachable (link_init (demo_ids CHR ''a'' CHR ''b'')) (link_step demo_crypto demo_parse) s"
    "pl_state (lr_link s) = LsEstablished keys" "pl_send_seq (lr_link s) = 0"
proof -
  let ?a = "demo_ids CHR ''a'' CHR ''b''" and ?b = "demo_ids CHR ''b'' CHR ''a''"
  let ?s = "\<lparr>lr_link = peer_link_new ?a, lr_gens = [], lr_sent = [], lr_frames = []\<rparr>"
  obtain keys sg mysig tr where run:
    "link_start demo_crypto (Some (demo_eph 1)) (peer_link_new ?a)
       = (Inr (h1_message demo_crypto ?a (demo_eph 1)), (link_reset (peer_link_new ?a))\<lparr>pl_state := LsAwaitingH2 (demo_eph 1)\<rparr>)"
    "link_receive demo_crypto demo_parse None (h2_message demo_crypto ?b (demo_eph 2) sg)
         ((link_reset (peer_link_new ?a))\<lparr>pl_state := LsAwaitingH2 (demo_eph 1)\<rparr>)
       = (Inr [EvSend (fin_message mysig), EvEstablished (li_local_identity ?b)],
          (link_reset (peer_link_new ?a))\<lparr>pl_state := LsEstablished keys\<rparr>)"
    by (rule honest_run [of "peer_link_new ?a" ?a "peer_link_new ?b" ?b demo_parse demo_crypto "demo_eph 1" "demo_eph 2" "[7]"])
      (use demo_laws demo_b64 demo_hmac demo_key_pair in
        \<open>auto simp: peer_link_new_def demo_ids_def link_is_initiator_def demo_crypto_def less_char_def\<close>)
  have "reachable (link_init ?a) (link_step demo_crypto demo_parse) ?s" by (rule reach_init) (simp add: link_init_def)
  note reach_step [OF this lk_start, simplified, OF run(1)]
  note reach_step [OF this lk_receive, simplified, OF run(2)]
  then show thesis by (rule that) (simp_all add: link_reset_def)
qed

theorem link_established_is_proven_witness:
  "\<exists>s keys. reachable (link_init (demo_ids CHR ''a'' CHR ''b'')) (link_step demo_crypto demo_parse) s
     \<and> pl_state (lr_link s) = LsEstablished keys
     \<and> (\<exists>mine \<in> set (lr_gens s). \<exists>peer_eph peer_nonce.
          own_keys demo_crypto (pl_role (lr_link s)) (demo_ids CHR ''a'' CHR ''b'') mine peer_eph peer_nonce = Inr keys)"
  by (rule demo_established) (use link_established_is_proven in blast)

theorem link_frames_once_witness:
  "\<exists>s keys. reachable (link_init (demo_ids CHR ''a'' CHR ''b'')) (link_step demo_crypto demo_parse) s
     \<and> pl_state (lr_link s) = LsEstablished keys \<and> lr_sent s \<noteq> []
     \<and> distinct (map (frame_iv \<circ> frame_number \<circ> fst) (lr_sent s))"
proof -
  obtain s keys where s: "reachable (link_init (demo_ids CHR ''a'' CHR ''b'')) (link_step demo_crypto demo_parse) s"
    "pl_state (lr_link s) = LsEstablished keys" "pl_send_seq (lr_link s) = 0"
    by (rule demo_established)
  obtain m l' where sealed: "link_seal demo_crypto ''hi'' (lr_link s) = (Inr m, l')" and l': "l' = (lr_link s)\<lparr>pl_send_seq := 1\<rparr>"
    using s(2,3) by (auto simp: link_seal_def seal_frame_def demo_crypto_def ok_or_def res_simps Let_def)
  define t where "t = advance l' None [(m, ''hi'')] [] s"
  have t: "reachable (link_init (demo_ids CHR ''a'' CHR ''b'')) (link_step demo_crypto demo_parse) t"
    using reach_step [OF s(1) lk_seal [OF _ sealed]] s(2) by (simp add: t_def sealed_def link_is_established_def)
  have "pl_state (lr_link t) = LsEstablished keys" "lr_sent t \<noteq> []" "pl_send_seq (lr_link t) < 2 ^ 64"
    using s(2) l' by (simp_all add: t_def advance_def session_of_def)
  moreover from link_frames_once [OF t this(1)]
  have "pl_send_seq (lr_link t) < 2 ^ 64 \<longrightarrow> distinct (map (frame_iv \<circ> frame_number \<circ> fst) (lr_sent t))"
    by (elim conjE)
  ultimately show ?thesis using t by blast
qed

theorem link_handshake_completes_witness:
  "\<exists>h1 la1 h2 lb1. link_start demo_crypto (Some (demo_eph 1)) (peer_link_new (demo_ids CHR ''a'' CHR ''b'')) = (Inr h1, la1)
     \<and> link_receive demo_crypto demo_parse (Some (demo_eph 2)) h1 (peer_link_new (demo_ids CHR ''b'' CHR ''a'')) = (Inr [EvSend h2], lb1)"
proof -
  let ?a = "demo_ids CHR ''a'' CHR ''b''" and ?b = "demo_ids CHR ''b'' CHR ''a''"
  have "pl_role (peer_link_new ?a) = Initiator" "pl_role (peer_link_new ?b) = Responder"
    by (simp_all add: peer_link_new_def demo_ids_def link_is_initiator_def less_char_def)
  then show ?thesis
    using link_handshake_completes [of "peer_link_new ?a" ?a "peer_link_new ?b" ?b demo_parse demo_crypto "demo_eph 1" "demo_eph 2" "[7]"]
      demo_laws demo_b64 demo_hmac demo_key_pair
    by (simp add: peer_link_new_def demo_ids_def demo_crypto_def) blast
qed

end

