(* ===== verification/Texts.thy ===== *)
theory Texts
  imports Packet
begin

section \<open>Texts\<close>

text \<open>
  What the components use of Rust's \<open>str\<close>: a text is its UTF-8 bytes, a character the bytes from one
  that starts a character up to the next.
\<close>

text \<open>\<open>chars()\<close>: the UTF-8 characters of a text, and \<open>char::is_control\<close> of one.\<close>

function utf8_chars :: "string \<Rightarrow> string list" where
  "utf8_chars [] = []"
| "utf8_chars (c # cs) = (c # takeWhile is_continuation cs) # utf8_chars (dropWhile is_continuation cs)"
  by pat_completeness auto
termination by (relation "measure length") (auto simp: le_imp_less_Suc length_dropWhile_le)

fun is_control :: "string \<Rightarrow> bool" where
  "is_control [c] \<longleftrightarrow> (of_char c :: nat) < 32 \<or> (of_char c :: nat) = 127"
| "is_control [c, d] \<longleftrightarrow> (of_char c :: nat) = 194 \<and> (of_char d :: nat) < 160"
| "is_control _ \<longleftrightarrow> False"

text \<open>\<open>split(c)\<close> and \<open>rsplit_once(c)\<close>.\<close>

fun split_on :: "char \<Rightarrow> string \<Rightarrow> string list" where
  "split_on c [] = [[]]"
| "split_on c (x # xs) =
     (if x = c then [] # split_on c xs
      else (case split_on c xs of seg # segs \<Rightarrow> (x # seg) # segs | [] \<Rightarrow> [[x]]))"

definition rsplit_once :: "char \<Rightarrow> string \<Rightarrow> (string \<times> string) option" where
  "rsplit_once c s =
     (if c \<in> set s
      then Some (rev (tl (dropWhile (\<lambda>x. x \<noteq> c) (rev s))), rev (takeWhile (\<lambda>x. x \<noteq> c) (rev s)))
      else None)"

definition ends_with :: "string \<Rightarrow> string \<Rightarrow> bool" where
  "ends_with s e \<longleftrightarrow> take (length e) (rev s) = rev e"

definition starts_with :: "string \<Rightarrow> string \<Rightarrow> bool" where
  "starts_with s p \<longleftrightarrow> take (length p) s = p"

abbreviation slash :: char where "slash \<equiv> CHR ''/''"
abbreviation backslash :: char where "backslash \<equiv> CHR 0x5C"

text \<open>\<open>trim_matches\<close> and \<open>trim_start_matches\<close> with a set of characters, and \<open>strip_suffix\<close>.\<close>

definition trim_start_matches :: "string set \<Rightarrow> string \<Rightarrow> string" where
  "trim_start_matches cs s = concat (dropWhile (\<lambda>c. c \<in> cs) (utf8_chars s))"

definition trim_matches :: "string set \<Rightarrow> string \<Rightarrow> string" where
  "trim_matches cs s =
     concat (rev (dropWhile (\<lambda>c. c \<in> cs) (rev (dropWhile (\<lambda>c. c \<in> cs) (utf8_chars s)))))"

definition strip_suffix :: "string \<Rightarrow> string \<Rightarrow> string option" where
  "strip_suffix e s = (if ends_with s e then Some (take (length s - length e) s) else None)"

text \<open>\<open>lines()\<close>: what ends in a newline, less a carriage return before it, and the rest if there is any.\<close>

definition strip_cr :: "string \<Rightarrow> string" where
  "strip_cr l = (if l \<noteq> [] \<and> last l = CHR 0x0D then butlast l else l)"

definition text_lines :: "string \<Rightarrow> string list" where
  "text_lines s =
     (let segs = split_on newline s
      in map strip_cr (butlast segs) @ (if last segs = [] then [] else [last segs]))"

subsection \<open>Lemmas\<close>

lemma utf8_chars_concat [simp]: "concat (utf8_chars s) = s"
  by (induction s rule: utf8_chars.induct) simp_all

lemma trim_matches_sublist: "\<exists>a b. s = a @ trim_matches cs s @ b"
proof -
  have "utf8_chars s = takeWhile (\<lambda>c. c \<in> cs) (utf8_chars s) @ dropWhile (\<lambda>c. c \<in> cs) (utf8_chars s)" by simp
  moreover have "xs = rev (dropWhile P (rev xs)) @ rev (takeWhile P (rev xs))" for P :: "string \<Rightarrow> bool" and xs
    by (metis rev_append rev_rev_ident takeWhile_dropWhile_id)
  ultimately have "utf8_chars s = takeWhile (\<lambda>c. c \<in> cs) (utf8_chars s)
      @ rev (dropWhile (\<lambda>c. c \<in> cs) (rev (dropWhile (\<lambda>c. c \<in> cs) (utf8_chars s))))
      @ rev (takeWhile (\<lambda>c. c \<in> cs) (rev (dropWhile (\<lambda>c. c \<in> cs) (utf8_chars s))))" by metis
  then have "concat (utf8_chars s) = concat (takeWhile (\<lambda>c. c \<in> cs) (utf8_chars s)) @ trim_matches cs s
      @ concat (rev (takeWhile (\<lambda>c. c \<in> cs) (rev (dropWhile (\<lambda>c. c \<in> cs) (utf8_chars s)))))"
    unfolding trim_matches_def by (metis concat_append)
  then show ?thesis by (metis utf8_chars_concat)
qed

lemma trim_matches_length: "length (trim_matches cs s) \<le> length s"
  using trim_matches_sublist [of s cs] by (metis le_add2 le_add_same_cancel1 le_trans length_append zero_le)

lemma strip_suffix_length: "strip_suffix e s = Some r \<Longrightarrow> e \<noteq> [] \<Longrightarrow> length r < length s"
  by (cases s) (auto simp: strip_suffix_def ends_with_def split: if_splits)

end
