(* ===== verification/File_Frames.thy ===== *)
theory File_Frames
  imports Texts Envelope
begin

section \<open>The records of a file transfer\<close>

text \<open>
  \<open>src/device_links/webrtc/file_protocol.rs\<close>: the control messages of a transfer with their checks,
  and the binary frames that carry a file's blocks.

  \<open>sha256\<close> and the \<open>uuid\<close> crate's reader and printer are arguments. A message's numbers are natural
  numbers (\<open>u64\<close>, \<open>usize\<close>) or integers (\<open>i64\<close>); a frame's fields keep their width.
\<close>

unbundle bit_operations_syntax

definition FILE_PROTOCOL_VERSION :: nat where "FILE_PROTOCOL_VERSION = 2"
definition BLOCK_BYTES :: nat where "BLOCK_BYTES = 1048576"
definition FRAME_BYTES_DEFAULT :: nat where "FRAME_BYTES_DEFAULT = 61440"
definition FRAME_BYTES_PROVEN :: nat where "FRAME_BYTES_PROVEN = FRAME_BYTES_DEFAULT"
definition FRAME_HEADER_BYTES :: nat where "FRAME_HEADER_BYTES = 40"
definition BLOCK_TRAILER_BYTES :: nat where "BLOCK_TRAILER_BYTES = 32"
definition MAX_TRANSFER_BYTES :: nat where "MAX_TRANSFER_BYTES = 4 * 1024 * 1024 * 1024"
definition ACTIVE_PER_DIRECTION :: nat where "ACTIVE_PER_DIRECTION = 2"
definition BUCKET_SLOTS_PER_DIRECTION :: nat where "BUCKET_SLOTS_PER_DIRECTION = ACTIVE_PER_DIRECTION - 1"
definition MAX_REWINDS :: nat where "MAX_REWINDS = 3"
definition MAX_MESSAGE_CHARS :: nat where "MAX_MESSAGE_CHARS = 4096"

definition message_fits :: "nat \<Rightarrow> bool" where
  "message_fits len \<longleftrightarrow> len \<le> FRAME_BYTES_PROVEN"

definition payload_capacity :: "nat \<Rightarrow> nat" where
  "payload_capacity max_frame = max_frame - FRAME_HEADER_BYTES - BLOCK_TRAILER_BYTES"

definition blocks_for :: "nat \<Rightarrow> nat" where
  "blocks_for tot = (tot + BLOCK_BYTES - 1) div BLOCK_BYTES"

abbreviation REASON_STORAGE_FULL :: string where "REASON_STORAGE_FULL \<equiv> ''storage-full''"
abbreviation REASON_BACKLOG :: string where "REASON_BACKLOG \<equiv> ''backlog''"
abbreviation REASON_LANE :: string where "REASON_LANE \<equiv> ''lane''"

abbreviation CODE_REFUSED :: string where "CODE_REFUSED \<equiv> ''refused''"
abbreviation CODE_BUSY :: string where "CODE_BUSY \<equiv> ''busy''"
abbreviation CODE_TOO_LARGE :: string where "CODE_TOO_LARGE \<equiv> ''too-large''"
abbreviation CODE_BAD_FRAME :: string where "CODE_BAD_FRAME \<equiv> ''bad-frame''"
abbreviation CODE_HASH_MISMATCH :: string where "CODE_HASH_MISMATCH \<equiv> ''hash-mismatch''"
abbreviation CODE_INTERNAL :: string where "CODE_INTERNAL \<equiv> ''internal''"

subsection \<open>Names and paths\<close>

definition MAX_RELPATH_SEGMENTS :: nat where "MAX_RELPATH_SEGMENTS = 32"
definition MAX_RELPATH_BYTES :: nat where "MAX_RELPATH_BYTES = 1024"

definition validate_filename :: "string \<Rightarrow> bool" where
  "validate_filename v \<longleftrightarrow>
     \<not> (v = [] \<or> 255 < length v \<or> v \<in> {''.'', ''..''} \<or> slash \<in> set v \<or> backslash \<in> set v \<or> CHR 0x00 \<in> set v)"

definition validate_relpath :: "string \<Rightarrow> bool" where
  "validate_relpath v \<longleftrightarrow>
     (let segments = split_on slash v in
      \<not> (v = [] \<or> MAX_RELPATH_BYTES < length v \<or> MAX_RELPATH_SEGMENTS < length segments)
      \<and> list_all validate_filename segments)"

definition is_bidi :: "string \<Rightarrow> bool" where
  "is_bidi c \<longleftrightarrow>
     c \<in> {[CHR 0xE2, CHR 0x80, CHR 0x8E], [CHR 0xE2, CHR 0x80, CHR 0x8F], [CHR 0xD8, CHR 0x9C],
          [CHR 0xE2, CHR 0x80, CHR 0xA8], [CHR 0xE2, CHR 0x80, CHR 0xA9],
          [CHR 0xE2, CHR 0x80, CHR 0xAA], [CHR 0xE2, CHR 0x80, CHR 0xAB], [CHR 0xE2, CHR 0x80, CHR 0xAC],
          [CHR 0xE2, CHR 0x80, CHR 0xAD], [CHR 0xE2, CHR 0x80, CHR 0xAE],
          [CHR 0xE2, CHR 0x81, CHR 0xA6], [CHR 0xE2, CHR 0x81, CHR 0xA7], [CHR 0xE2, CHR 0x81, CHR 0xA8],
          [CHR 0xE2, CHR 0x81, CHR 0xA9]}"

text \<open>The cut: back from byte 255 to the start of a character.\<close>

fun char_boundary :: "string \<Rightarrow> nat \<Rightarrow> nat" where
  "char_boundary s 0 = 0"
| "char_boundary s (Suc k) =
     (if length s \<le> Suc k \<or> \<not> is_continuation (s ! Suc k) then Suc k else char_boundary s k)"

definition sanitize_filename :: "string \<Rightarrow> string" where
  "sanitize_filename raw =
     (let name = concat (filter (\<lambda>c. \<not> is_control c \<and> \<not> is_bidi c) (utf8_chars raw));
          name = (if 255 < length name then take (char_boundary name 255) name else name)
      in if name \<in> {[], ''.'', ''..''} then ''file'' else name)"

subsection \<open>Hashes and ids\<close>

text \<open>\<open>u8::from_str_radix(_, 16)\<close> of two characters: a sign may stand for the first.\<close>

definition hex_pair :: "char \<Rightarrow> char \<Rightarrow> byte option" where
  "hex_pair a b =
     (if a = CHR ''+'' then map_option word_of_nat (hex_digit b)
      else (case (hex_digit a, hex_digit b) of
              (Some x, Some y) \<Rightarrow> Some (word_of_nat (16 * x + y))
            | _ \<Rightarrow> None))"

fun unhex :: "string \<Rightarrow> byte list option" where
  "unhex (a # b # rest) =
     (case (hex_pair a b, unhex rest) of (Some x, Some xs) \<Rightarrow> Some (x # xs) | _ \<Rightarrow> None)"
| "unhex _ = Some []"

definition unhex32 :: "string \<Rightarrow> byte list option" where
  "unhex32 t = (if length t \<noteq> 64 \<or> \<not> list_all (\<lambda>c. (of_char c :: nat) < 128) t then None else unhex t)"

definition hash_of_hashes :: "(byte list \<Rightarrow> byte list) \<Rightarrow> byte list list \<Rightarrow> byte list" where
  "hash_of_hashes sha256 hashes = sha256 (concat hashes)"

definition id_bytes :: "(string \<Rightarrow> byte list option) \<Rightarrow> (byte list \<Rightarrow> string) \<Rightarrow> string \<Rightarrow> byte list option" where
  "id_bytes uuid_parse uuid_show i = keep_if (\<lambda>b. uuid_show b = i) (uuid_parse i)"

subsection \<open>Control messages\<close>

datatype file_action =
    Offer | Accept | BlockAck | BlockNack | Pause | Resume | Done | Complete | Cancel | ErrorAction | Lane

record lane_field =
  lf_v :: "nat option"
  lf_port :: "nat option"
  lf_token :: "string option"
  lf_ttl_ms :: "nat option"
  lf_kind :: "string option"
  lf_start_block :: "nat option"
  lf_pass :: "byte option"

definition lane_offer :: lane_field where
  "lane_offer = \<lparr>lf_v = Some 1, lf_port = None, lf_token = None, lf_ttl_ms = None, lf_kind = None,
     lf_start_block = None, lf_pass = None\<rparr>"

definition lane_switch :: "string \<Rightarrow> nat \<Rightarrow> byte \<Rightarrow> lane_field" where
  "lane_switch kind start_block pass =
     lane_offer\<lparr>lf_kind := Some kind, lf_start_block := Some start_block, lf_pass := Some pass\<rparr>"

datatype file_error =
    FeVersion | FeBinding | FeId | FeToken | FeText | FeLanePlace | FeLaneVersion | FeLaneToken | FeLaneKind
  | FeChecksum | FeSize | FeFrameSize | FeMalformed | FeFilename | FeBlockSize | FePath | FeFrame | FeRange | FeBlockEnd

definition token_is_well_formed :: "string \<Rightarrow> bool" where
  "token_is_well_formed t \<longleftrightarrow>
     length t = 32 \<and> list_all (\<lambda>c. (48 \<le> (of_char c :: nat) \<and> (of_char c :: nat) \<le> 57) \<or> (97 \<le> (of_char c :: nat) \<and> (of_char c :: nat) \<le> 102)) t"

definition lane_validate :: "lane_field \<Rightarrow> (file_error, unit) result" where
  "lane_validate l =
     (if lf_v l \<notin> {None, Some 1} then Inl FeLaneVersion
      else if (case lf_token l of Some t \<Rightarrow> \<not> token_is_well_formed t | None \<Rightarrow> False) then Inl FeLaneToken
      else if lf_kind l \<notin> {None, Some ''webrtc'', Some ''tcp''} then Inl FeLaneKind
      else Inr ())"

record file_control =
  fc_protocol_version :: nat
  fc_action :: file_action
  fc_transfer_id :: string
  fc_device_id :: string
  fc_session_id :: u64
  fc_connection_generation :: u64
  fc_transfer_token :: string
  fc_filename :: "string option"
  fc_total_size :: "nat option"
  fc_mtime :: "int option"
  fc_block_size :: "nat option"
  fc_max_frame_bytes :: "nat option"
  fc_clipboard :: "bool option"
  fc_gallery :: "bool option"
  fc_lane :: "lane_field option"
  fc_mime_type :: "string option"
  fc_capture_id :: "string option"
  fc_folder :: "string option"
  fc_relpath :: "string option"
  fc_content_sha256 :: "string option"
  fc_resume_block :: "nat option"
  fc_prefix_sha256 :: "string option"
  fc_block_index :: "nat option"
  fc_sha256 :: "string option"
  fc_pass :: "byte option"
  fc_reason :: "string option"
  fc_file_hash :: "string option"
  fc_blocks :: "nat option"
  fc_code :: "string option"
  fc_message :: "string option"

record folder_ref =
  fr_folder :: string
  fr_relpath :: string
  fr_mtime :: "int option"

definition control_new_msg :: "wire_binding \<Rightarrow> file_action \<Rightarrow> string \<Rightarrow> string \<Rightarrow> file_control" where
  "control_new_msg wire action i token =
     \<lparr>fc_protocol_version = FILE_PROTOCOL_VERSION, fc_action = action, fc_transfer_id = i,
      fc_device_id = sender_device_id wire, fc_session_id = wb_session_id wire, fc_connection_generation = wb_generation wire,
      fc_transfer_token = token, fc_filename = None, fc_total_size = None, fc_mtime = None, fc_block_size = None,
      fc_max_frame_bytes = None, fc_clipboard = None, fc_gallery = None, fc_lane = None, fc_mime_type = None,
      fc_capture_id = None, fc_folder = None, fc_relpath = None, fc_content_sha256 = None, fc_resume_block = None,
      fc_prefix_sha256 = None, fc_block_index = None, fc_sha256 = None, fc_pass = None, fc_reason = None,
      fc_file_hash = None, fc_blocks = None, fc_code = None, fc_message = None\<rparr>"

text \<open>What \<open>from_json\<close> does to a message it could read.\<close>

definition clean_control :: "file_control \<Rightarrow> file_control" where
  "clean_control c =
     (if fc_folder c = None \<and> fc_relpath c = None then
        c\<lparr>fc_filename := map_option (\<lambda>name.
            if list_ex is_control (utf8_chars name) \<or> list_ex is_bidi (utf8_chars name) then sanitize_filename name else name)
          (fc_filename c)\<rparr>
      else c)"

definition folder_ref_of :: "file_control \<Rightarrow> folder_ref option" where
  "folder_ref_of c =
     (case (fc_folder c, fc_relpath c) of
        (Some f, Some r) \<Rightarrow> Some \<lparr>fr_folder = f, fr_relpath = r, fr_mtime = fc_mtime c\<rparr>
      | _ \<Rightarrow> None)"

definition validate_token :: "string \<Rightarrow> bool" where
  "validate_token t \<longleftrightarrow> \<not> (t = [] \<or> 256 < length t \<or> \<not> list_all (\<lambda>c. (of_char c :: nat) < 128) t)"

text \<open>\<open>relpath.rsplit('/').next()\<close>: what follows the last slash.\<close>

definition last_segment :: "string \<Rightarrow> string" where
  "last_segment p = last (split_on slash p)"

definition validate_offer :: "file_control \<Rightarrow> (file_error, unit) result" where
  "validate_offer c =
     (case fc_filename c of
        None \<Rightarrow> Inl FeMalformed
      | Some filename \<Rightarrow>
          if \<not> validate_filename filename then Inl FeFilename
          else if fc_total_size c = None \<or> fc_mtime c = None then Inl FeMalformed
          else if fc_block_size c \<noteq> Some BLOCK_BYTES then Inl FeBlockSize
          else
            (let synced = [fc_folder c \<noteq> None, fc_relpath c \<noteq> None, fc_content_sha256 c \<noteq> None] in
             if list_ex id synced then
               (if \<not> list_all id synced then Inl FeMalformed
                else
                  (let folder = unwrap_or [] (fc_folder c);
                       relpath = unwrap_or [] (fc_relpath c);
                       named = (last_segment relpath = filename);
                       ok_id = (folder \<noteq> [] \<and> length folder \<le> 64
                                \<and> list_all (\<lambda>ch. is_ascii_alphanumeric ch \<or> ch = CHR ''-'') folder)
                   in if \<not> validate_relpath relpath then Inl FePath
                      else if \<not> named \<or> \<not> ok_id then Inl FeMalformed else Inr ()))
             else Inr ()))"

definition validate_action :: "file_control \<Rightarrow> (file_error, unit) result" where
  "validate_action c =
     (let malformed = (\<lambda>bad. if bad then Inl FeMalformed else Inr ()) in
      case fc_action c of
        Offer \<Rightarrow> validate_offer c
      | Accept \<Rightarrow> malformed (fc_resume_block c = None \<or> fc_prefix_sha256 c = None)
      | BlockAck \<Rightarrow> malformed (fc_block_index c = None \<or> fc_sha256 c = None)
      | BlockNack \<Rightarrow> malformed (fc_block_index c = None \<or> fc_pass c = None)
      | Pause \<Rightarrow> Inr ()
      | Resume \<Rightarrow>
          (let given = [fc_resume_block c \<noteq> None, fc_prefix_sha256 c \<noteq> None, fc_pass c \<noteq> None]
           in malformed (list_ex id given \<and> \<not> list_all id given))
      | Done \<Rightarrow> malformed (fc_file_hash c = None \<or> fc_blocks c = None \<or> fc_total_size c = None)
      | Complete \<Rightarrow> malformed (fc_file_hash c = None)
      | Lane \<Rightarrow> (case fc_lane c of
          Some l \<Rightarrow> malformed (\<not> (lf_kind l \<noteq> None \<and> lf_start_block l \<noteq> None \<and> lf_pass l \<noteq> None))
        | None \<Rightarrow> Inl FeMalformed)
      | Cancel \<Rightarrow> Inr ()
      | ErrorAction \<Rightarrow> Inr ())"

definition options :: "'a option list \<Rightarrow> 'a list" where
  "options xs = List.map_filter id xs"

definition file_control_validate ::
  "(string \<Rightarrow> byte list option) \<Rightarrow> (byte list \<Rightarrow> string) \<Rightarrow> wire_binding \<Rightarrow> file_control \<Rightarrow> (file_error, unit) result" where
  "file_control_validate uuid_parse uuid_show wire c =
     (if fc_protocol_version c \<noteq> FILE_PROTOCOL_VERSION then Inl FeVersion
      else if fc_device_id c \<noteq> peer_device_id wire \<or> fc_session_id c \<noteq> wb_session_id wire
              \<or> fc_connection_generation c \<noteq> wb_generation wire then Inl FeBinding
      else if id_bytes uuid_parse uuid_show (fc_transfer_id c) = None then Inl FeId
      else if \<not> validate_token (fc_transfer_token c) then Inl FeToken
      else if list_ex (\<lambda>t. MAX_MESSAGE_CHARS < count_chars t) (options [fc_message c, fc_reason c, fc_code c, fc_mime_type c])
      then Inl FeText
      else
        res_bind (case fc_lane c of
            None \<Rightarrow> Inr ()
          | Some l \<Rightarrow>
              if fc_action c \<notin> {Offer, Accept, Lane} then Inl FeLanePlace
              else res_bind (lane_validate l) (\<lambda>_.
                if fc_action c \<noteq> Lane \<and> lf_v l \<noteq> Some 1 then Inl FeLaneVersion else Inr ())) (\<lambda>_.
          if list_ex (\<lambda>h. unhex32 h = None) (options [fc_prefix_sha256 c, fc_sha256 c, fc_file_hash c, fc_content_sha256 c])
          then Inl FeChecksum
          else if (case fc_total_size c of Some n \<Rightarrow> MAX_TRANSFER_BYTES < n | None \<Rightarrow> False) then Inl FeSize
          else if (case fc_max_frame_bytes c of
                     Some n \<Rightarrow> \<not> (FRAME_HEADER_BYTES + BLOCK_TRAILER_BYTES + 1 \<le> n \<and> n \<le> 262144) | None \<Rightarrow> False)
          then Inl FeFrameSize
          else validate_action c))"

subsection \<open>Frames\<close>

record frame_header =
  fh_last_of_block :: bool
  fh_pass :: byte
  fh_transfer :: "byte list"
  fh_block_index :: "32 word"
  fh_offset :: u64
  fh_length :: "32 word"

definition MAGIC :: "byte list" where "MAGIC = [0x44, 0x4C, 0x46, 0x32]"
definition FLAG_LAST_OF_BLOCK :: byte where "FLAG_LAST_OF_BLOCK = 1"

text \<open>\<open>to_be_bytes\<close> and \<open>from_be_bytes\<close>.\<close>

fun be_bytes :: "nat \<Rightarrow> nat \<Rightarrow> byte list" where
  "be_bytes 0 n = []"
| "be_bytes (Suc k) n = be_bytes k (n div 256) @ [word_of_nat n]"

definition of_be_bytes :: "byte list \<Rightarrow> nat" where
  "of_be_bytes bs = foldl (\<lambda>n b. n * 256 + unat b) 0 bs"

definition header_write :: "frame_header \<Rightarrow> byte list" where
  "header_write h =
     MAGIC @ [if fh_last_of_block h then FLAG_LAST_OF_BLOCK else 0, fh_pass h, 0, 0] @ fh_transfer h
     @ be_bytes 4 (unat (fh_block_index h)) @ be_bytes 8 (unat (fh_offset h)) @ be_bytes 4 (unat (fh_length h))"

text \<open>\<open>FrameHeader::check\<close>: the frame fits a file of \<open>tot\<close> bytes.\<close>

definition header_check :: "nat \<Rightarrow> frame_header \<Rightarrow> (file_error, unit) result" where
  "header_check tot h =
     (let end = unat (fh_offset h) + unat (fh_length h) in
      if 2 ^ 64 \<le> end then Inl FeFrame
      else if fh_length h = 0 \<or> tot \<le> unat (fh_offset h) \<or> unat (fh_block_index h) \<noteq> unat (fh_offset h) div BLOCK_BYTES
      then Inl FeRange
      else
        (let block_end = min ((unat (fh_block_index h) + 1) * BLOCK_BYTES) tot in
         if block_end < end then Inl FeRange
         else if fh_last_of_block h \<noteq> (end = block_end) then Inl FeBlockEnd
         else Inr ()))"

record frame =
  fr_header :: frame_header
  fr_payload :: "byte list"
  fr_trailer :: "byte list option"

definition slice :: "nat \<Rightarrow> nat \<Rightarrow> 'a list \<Rightarrow> 'a list" where
  "slice a b xs = take (b - a) (drop a xs)"

definition parse_frame :: "byte list \<Rightarrow> (file_error, frame) result" where
  "parse_frame m =
     (if length m < FRAME_HEADER_BYTES + 1 \<or> take 4 m \<noteq> MAGIC then Inl FeFrame
      else
        (let flags = m ! 4 in
         if flags AND NOT FLAG_LAST_OF_BLOCK \<noteq> 0 \<or> m ! 6 \<noteq> 0 \<or> m ! 7 \<noteq> 0 then Inl FeFrame
         else
           (let last_of_block = (flags AND FLAG_LAST_OF_BLOCK \<noteq> 0);
                transfer = slice 8 24 m;
                block_index = word_of_nat (of_be_bytes (slice 24 28 m));
                offset = word_of_nat (of_be_bytes (slice 28 36 m));
                len = word_of_nat (of_be_bytes (slice 36 40 m)) :: 32 word;
                trailer_bytes = (if last_of_block then BLOCK_TRAILER_BYTES else 0);
                expected = FRAME_HEADER_BYTES + unat len + trailer_bytes
            in if len = 0 \<or> expected \<noteq> length m then Inl FeFrame
               else
                 (let payload_end = FRAME_HEADER_BYTES + unat len in
                  Inr \<lparr>fr_header = \<lparr>fh_last_of_block = last_of_block, fh_pass = m ! 5, fh_transfer = transfer,
                                     fh_block_index = block_index, fh_offset = offset, fh_length = len\<rparr>,
                       fr_payload = slice FRAME_HEADER_BYTES payload_end m,
                       fr_trailer = (if last_of_block then Some (drop payload_end m) else None)\<rparr>))))"

definition next_pass :: "byte \<Rightarrow> byte" where
  "next_pass p = p + 1"

subsection \<open>Frames are read exactly as they are written\<close>

lemma length_be_bytes [simp]: "length (be_bytes k n) = k"
  by (induction k n rule: be_bytes.induct) simp_all

lemma of_be_bytes_snoc: "of_be_bytes (bs @ [b]) = of_be_bytes bs * 256 + unat b"
  by (simp add: of_be_bytes_def)

lemma of_be_be: "of_be_bytes (be_bytes k n) = n mod 256 ^ k"
proof (induction k n rule: be_bytes.induct)
  case (2 k n)
  have "(n div 256) mod 256 ^ k * 256 + n mod 256 = n mod (256 * 256 ^ k)" by (simp add: mod_mult2_eq)
  then show ?case using 2 by (simp add: of_be_bytes_snoc unat_of_nat)
qed (simp add: of_be_bytes_def)

lemma of_be_bound: "of_be_bytes bs < 256 ^ length bs"
proof (induction bs rule: rev_induct)
  case (snoc b bs)
  have "unat b < 256" using unsigned_less [of b, where 'a = nat] by simp
  then show ?case using snoc by (simp add: of_be_bytes_snoc)
qed (simp add: of_be_bytes_def)

lemma unat_of_byte: "(word_of_nat (unat b) :: byte) = b"
  by simp

lemma be_of_be: "be_bytes (length bs) (of_be_bytes bs) = bs"
proof (induction bs rule: rev_induct)
  case (snoc b bs)
  have b: "unat b < 256" using unsigned_less [of b, where 'a = nat] by simp
  then have "(of_be_bytes bs * 256 + unat b) div 256 = of_be_bytes bs" by simp
  moreover have "(word_of_nat (of_be_bytes bs * 256 + unat b) :: byte) = b"
  proof -
    have "(word_of_nat 256 :: byte) = 0" by simp
    then have "(word_of_nat (of_be_bytes bs * 256) :: byte) = 0" by (metis mult_zero_right of_nat_mult)
    then show ?thesis by (simp only: of_nat_add add_0 unat_of_byte)
  qed
  ultimately show ?case using snoc by (simp add: of_be_bytes_snoc)
qed simp

lemma flag_bits: "(x :: byte) AND NOT 1 = 0 \<longleftrightarrow> x = 0 \<or> x = 1"
proof
  assume none: "x AND NOT 1 = 0"
  have "x = (x AND 1) OR (x AND NOT 1)" by (simp add: bit_eq_iff bit_simps) blast
  then have "x = x AND 1" using none by simp
  then show "x = 0 \<or> x = 1" by (metis and_one_eq mod_2_eq_odd of_bool_def)
qed auto

definition encode_frame :: "frame \<Rightarrow> byte list" where
  "encode_frame f = header_write (fr_header f) @ fr_payload f @ unwrap_or [] (fr_trailer f)"

definition frame_ok :: "frame \<Rightarrow> bool" where
  "frame_ok f \<longleftrightarrow>
     length (fh_transfer (fr_header f)) = 16 \<and> fh_length (fr_header f) \<noteq> 0
     \<and> length (fr_payload f) = unat (fh_length (fr_header f))
     \<and> (case fr_trailer f of None \<Rightarrow> \<not> fh_last_of_block (fr_header f)
        | Some t \<Rightarrow> fh_last_of_block (fr_header f) \<and> length t = BLOCK_TRAILER_BYTES)"

lemma slice_append: "length a = i \<Longrightarrow> length b = j - i \<Longrightarrow> slice i j (a @ b @ c) = b"
  by (simp add: slice_def)

lemma length_slice: "b \<le> length xs \<Longrightarrow> length (slice a b xs) = b - a"
  by (simp add: slice_def)

lemma slice_split: "a \<le> b \<Longrightarrow> drop a xs = slice a b xs @ drop b xs"
  by (metis append_take_drop_id drop_drop le_add_diff_inverse2 slice_def)

lemma frame_written_is_read:
  assumes "frame_ok f"
  shows "parse_frame (encode_frame f) = Inr f"
proof -
  obtain h p t where f: "f = \<lparr>fr_header = h, fr_payload = p, fr_trailer = t\<rparr>" by (cases f) simp
  let ?fl = "if fh_last_of_block h then FLAG_LAST_OF_BLOCK else 0 :: byte"
  let ?bi = "be_bytes 4 (unat (fh_block_index h))" and ?of = "be_bytes 8 (unat (fh_offset h))" and ?le = "be_bytes 4 (unat (fh_length h))"
  let ?t = "unwrap_or [] t"
  have m: "encode_frame f = MAGIC @ [?fl, fh_pass h, 0, 0] @ fh_transfer h @ ?bi @ ?of @ ?le @ p @ ?t"
    by (simp add: encode_frame_def header_write_def f)
  have ok: "length (fh_transfer h) = 16" "fh_length h \<noteq> 0" "length p = unat (fh_length h)"
    using assms by (simp_all add: frame_ok_def f)
  have tr: "length ?t = (if fh_last_of_block h then BLOCK_TRAILER_BYTES else 0)" "t = (if fh_last_of_block h then Some ?t else None)"
    using assms by (cases t; simp add: frame_ok_def f unwrap_or_def)+
  have magic: "length MAGIC = 4" by (simp add: MAGIC_def)
  have len: "length (encode_frame f) = 40 + unat (fh_length h) + length ?t" unfolding m using ok magic by simp
  have nth: "encode_frame f ! 4 = ?fl" "encode_frame f ! 5 = fh_pass h" "encode_frame f ! 6 = 0" "encode_frame f ! 7 = 0"
    unfolding m by (simp_all add: MAGIC_def)
  have "slice 8 24 (encode_frame f) = fh_transfer h"
    unfolding m using slice_append [of "MAGIC @ [?fl, fh_pass h, 0, 0]" 8 "fh_transfer h" 24] ok magic by simp
  moreover have "slice 24 28 (encode_frame f) = ?bi"
    unfolding m using slice_append [of "MAGIC @ [?fl, fh_pass h, 0, 0] @ fh_transfer h" 24 ?bi 28] ok magic by simp
  moreover have "slice 28 36 (encode_frame f) = ?of"
    unfolding m using slice_append [of "MAGIC @ [?fl, fh_pass h, 0, 0] @ fh_transfer h @ ?bi" 28 ?of 36] ok magic by simp
  moreover have "slice 36 40 (encode_frame f) = ?le"
    unfolding m using slice_append [of "MAGIC @ [?fl, fh_pass h, 0, 0] @ fh_transfer h @ ?bi @ ?of" 36 ?le 40] ok magic by simp
  moreover have "slice 40 (40 + unat (fh_length h)) (encode_frame f) = p"
    unfolding m using slice_append [of "MAGIC @ [?fl, fh_pass h, 0, 0] @ fh_transfer h @ ?bi @ ?of @ ?le" 40 p "40 + unat (fh_length h)"] ok magic
    by simp
  moreover have "drop (40 + unat (fh_length h)) (encode_frame f) = ?t"
  proof -
    let ?pre = "MAGIC @ [?fl, fh_pass h, 0, 0] @ fh_transfer h @ ?bi @ ?of @ ?le @ p"
    have "length ?pre = 40 + unat (fh_length h)" using ok magic by simp
    moreover have "encode_frame f = ?pre @ ?t" unfolding m by simp
    ultimately show ?thesis by (metis append_eq_conv_conj)
  qed
  moreover have "take 4 (encode_frame f) = MAGIC" unfolding m using magic by simp
  moreover have "(word_of_nat (unat (fh_block_index h) mod 256 ^ 4) :: 32 word) = fh_block_index h"
    "(word_of_nat (unat (fh_offset h) mod 256 ^ 8) :: u64) = fh_offset h"
    "(word_of_nat (unat (fh_length h) mod 256 ^ 4) :: 32 word) = fh_length h"
    using unsigned_less [of "fh_block_index h", where 'a = nat] unsigned_less [of "fh_offset h", where 'a = nat]
      unsigned_less [of "fh_length h", where 'a = nat] by simp_all
  moreover have "0 < unat (fh_length h)" using ok(2) by (simp add: unat_gt_0)
  ultimately show ?thesis
    using len nth tr ok by (auto simp: parse_frame_def Let_def of_be_be FRAME_HEADER_BYTES_def FLAG_LAST_OF_BLOCK_def f)
qed


lemma frame_read_was_written:
  assumes "parse_frame m = Inr f"
  shows "frame_ok f \<and> m = encode_frame f"
proof -
  let ?fl = "m ! 4" and ?len = "word_of_nat (of_be_bytes (slice 36 40 m)) :: 32 word"
  have long: "41 \<le> length m" and magic: "take 4 m = MAGIC"
    using assms by (simp_all add: parse_frame_def FRAME_HEADER_BYTES_def split: if_splits)
  have flags: "?fl AND NOT 1 = 0" "m ! 6 = 0" "m ! 7 = 0"
    using assms long magic by (simp_all add: parse_frame_def Let_def FRAME_HEADER_BYTES_def FLAG_LAST_OF_BLOCK_def split: if_splits)
  let ?lob = "?fl AND 1 \<noteq> 0"
  have len: "?len \<noteq> 0" "40 + unat ?len + (if ?lob then 32 else 0) = length m"
    using assms long magic flags
    by (simp_all add: parse_frame_def Let_def FRAME_HEADER_BYTES_def FLAG_LAST_OF_BLOCK_def BLOCK_TRAILER_BYTES_def split: if_splits)
  have f: "f = \<lparr>fr_header = \<lparr>fh_last_of_block = ?lob, fh_pass = m ! 5, fh_transfer = slice 8 24 m,
        fh_block_index = word_of_nat (of_be_bytes (slice 24 28 m)), fh_offset = word_of_nat (of_be_bytes (slice 28 36 m)), fh_length = ?len\<rparr>,
      fr_payload = slice 40 (40 + unat ?len) m, fr_trailer = (if ?lob then Some (drop (40 + unat ?len) m) else None)\<rparr>"
    using assms long magic flags
    by (simp add: parse_frame_def Let_def FRAME_HEADER_BYTES_def FLAG_LAST_OF_BLOCK_def BLOCK_TRAILER_BYTES_def split: if_splits)
  have fl: "?fl = (if ?lob then 1 else 0)" using flags(1) flag_bits [of ?fl] by auto
  have wide: "\<And>a b. a \<le> b \<Longrightarrow> b \<le> 41 \<Longrightarrow> length (slice a b m) = b - a" using long by (simp add: length_slice)
  have four: "be_bytes 4 (unat (word_of_nat (of_be_bytes bs) :: 32 word)) = bs" if "length bs = 4" for bs
    using of_be_bound [of bs] be_of_be [of bs] that by (simp add: unat_of_nat)
  have eight: "be_bytes 8 (unat (word_of_nat (of_be_bytes bs) :: u64)) = bs" if "length bs = 8" for bs
    using of_be_bound [of bs] be_of_be [of bs] that by (simp add: unat_of_nat)
  have head: "slice 4 8 m = [?fl, m ! 5, 0, 0]"
    using long flags(2,3) by (simp add: slice_def list_eq_iff_nth_eq nth_Cons' less_Suc_eq numeral_eq_Suc)
  have whole: "m = MAGIC @ slice 4 8 m @ slice 8 24 m @ slice 24 28 m @ slice 28 36 m @ slice 36 40 m
      @ slice 40 (40 + unat ?len) m @ drop (40 + unat ?len) m"
    using append_take_drop_id [of 4 m] slice_split [of 4 8 m] slice_split [of 8 24 m] slice_split [of 24 28 m]
      slice_split [of 28 36 m] slice_split [of 36 40 m] slice_split [of 40 "40 + unat ?len" m]
    unfolding magic by simp
  have enc: "encode_frame f = MAGIC @ [if ?lob then 1 else 0, m ! 5, 0, 0] @ slice 8 24 m @ slice 24 28 m @ slice 28 36 m @ slice 36 40 m
      @ slice 40 (40 + unat ?len) m @ (if ?lob then drop (40 + unat ?len) m else [])"
    unfolding f encode_frame_def header_write_def
    using four [OF wide [of 24 28, simplified]] eight [OF wide [of 28 36, simplified]] four [OF wide [of 36 40, simplified]]
    by (simp add: FLAG_LAST_OF_BLOCK_def unwrap_or_def)
  have rest: "(if ?lob then drop (40 + unat ?len) m else []) = drop (40 + unat ?len) m" using len(2) by (cases ?lob) simp_all
  have front: "slice 4 8 m = [if ?lob then 1 else 0, m ! 5, 0, 0]" using head fl by (cases ?lob) simp_all
  have "m = encode_frame f" by (rule trans [OF whole]) (simp only: front enc rest)
  moreover have "frame_ok f"
    unfolding f frame_ok_def using len wide [of 8 24] by (simp add: length_slice BLOCK_TRAILER_BYTES_def split: if_splits)
  ultimately show ?thesis by simp
qed

text \<open>
  C15. The frame codec is exact. A message is read as a frame if and only if it is what that frame is
  written as, and the frame is one that can be sent: 16 bytes of transfer id, a payload of the
  length announced and not empty, and a block hash exactly on the last frame of a block.
\<close>

theorem frame_codec_exact: "parse_frame m = Inr f \<longleftrightarrow> frame_ok f \<and> m = encode_frame f"
  using frame_read_was_written frame_written_is_read by blast

end

