(* ===== verification/File_Receive.thy ===== *)
theory File_Receive
  imports File_Frames "HOL-Library.AList"
begin

section \<open>Receiving a file\<close>

text \<open>
  \<open>src/device_links/webrtc/transfer_manager/recv.rs\<close> and the checkpoints of \<open>store.rs\<close>: one incoming transfer
  from its offer to the finished file, and the table of transfers.

  The partial file is the list of its bytes; the checkpoint and the block-hash side-car last written
  travel with the transfer they belong to. What the disk answers (a length that cannot be set, a write
  that fails or fills the disk after some bytes, a checkpoint that is not saved) is an argument of the
  operation that asks it. A SHA-256 in progress is the bytes it has been given. Times are milliseconds.
  What is only shown to the person (progress, notes, the words of an error) is left out.
\<close>

definition MIN_FILE_BYTES :: nat where "MIN_FILE_BYTES = 8388608"
definition TOKEN_TTL :: nat where "TOKEN_TTL = 60000"

record ending =
  ed_code :: string
  ed_tell_peer :: bool

definition ending_internal :: ending where
  "ending_internal = \<lparr>ed_code = CODE_INTERNAL, ed_tell_peer = True\<rparr>"

datatype pause = PauseStorage nat | PauseBacklog

record receive_checkpoint =
  ck_transfer_id :: string
  ck_device_id :: string
  ck_token :: string
  ck_filename :: string
  ck_destination_name :: string
  ck_total_size :: nat
  ck_mtime :: int
  ck_blocks_done :: nat
  ck_clipboard :: bool
  ck_gallery :: bool
  ck_capture_id :: "string option"
  ck_folder :: "folder_ref option"
  ck_content_sha256 :: "string option"

type_synonym held = "receive_checkpoint \<times> byte list list"

record incoming =
  in_id :: string
  in_token :: string
  in_device_id :: string
  in_filename :: string
  in_destination_name :: string
  in_total :: nat
  in_blocks_total :: nat
  in_mtime :: int
  in_folder :: "folder_ref option"
  in_content_sha256 :: "string option"
  in_clipboard :: bool
  in_gallery :: bool
  in_lane_wanted :: bool
  in_on_lane :: bool
  in_lane_serial :: nat
  in_capture_id :: "string option"
  in_file :: "byte list"
  in_pass :: byte
  in_adopt_any :: bool
  in_old_stream_possible :: bool
  in_next_offset :: nat
  in_hashes :: "byte list list"
  in_hasher :: "byte list option"
  in_rewinds :: nat
  in_whole_resends :: nat
  in_paused :: "pause option"
  in_last_checkpoint :: nat
  in_checkpointed_blocks :: nat
  in_stored :: "held option"

subsection \<open>The partial file\<close>

text \<open>\<open>set_len\<close> and \<open>write_all_at\<close>: a file grows with zeros.\<close>

definition set_len :: "nat \<Rightarrow> byte list \<Rightarrow> byte list" where
  "set_len n file = take n file @ replicate (n - length file) 0"

definition write_at :: "nat \<Rightarrow> byte list \<Rightarrow> byte list \<Rightarrow> byte list" where
  "write_at off bytes file = set_len off file @ bytes @ drop (off + length bytes) file"

text \<open>The answer to a write: done, or failed after so many bytes, with the disk full or otherwise.\<close>

datatype write_result = Written | StorageFull nat | WriteFailed nat

text \<open>
  What one step is given: the link, if it is up, the time, the pause between looks at a full disk,
  and the disk's answers (\<open>cx_set_len\<close> by the order in which a step asks).
\<close>

record rx_ctx =
  cx_net :: "wire_binding option"
  cx_now :: nat
  cx_storage_retry :: nat
  cx_set_len :: "nat \<Rightarrow> bool"
  cx_write :: write_result
  cx_saved :: bool

definition tell :: "wire_binding option \<Rightarrow> file_action \<Rightarrow> incoming \<Rightarrow> (file_control \<Rightarrow> file_control) \<Rightarrow> file_control list" where
  "tell net action r fill =
     (case net of None \<Rightarrow> [] | Some wire \<Rightarrow> [fill (control_new_msg wire action (in_id r) (in_token r))])"

definition verified :: "incoming \<Rightarrow> nat" where
  "verified r = length (in_hashes r)"

definition prefix_hex :: "(byte list \<Rightarrow> byte list) \<Rightarrow> nat \<Rightarrow> incoming \<Rightarrow> string" where
  "prefix_hex sha256 blocks r = hex (hash_of_hashes sha256 (take blocks (in_hashes r)))"

subsection \<open>Checkpoints\<close>

definition receive_record :: "incoming \<Rightarrow> receive_checkpoint" where
  "receive_record r =
     \<lparr>ck_transfer_id = in_id r, ck_device_id = in_device_id r, ck_token = in_token r, ck_filename = in_filename r,
      ck_destination_name = in_destination_name r, ck_total_size = in_total r, ck_mtime = in_mtime r,
      ck_blocks_done = verified r, ck_clipboard = in_clipboard r, ck_gallery = in_gallery r,
      ck_capture_id = in_capture_id r, ck_folder = in_folder r, ck_content_sha256 = in_content_sha256 r\<rparr>"

definition checkpoint_now :: "bool \<Rightarrow> nat \<Rightarrow> incoming \<Rightarrow> incoming" where
  "checkpoint_now saved now r =
     (if saved then r\<lparr>in_stored := Some (receive_record r, in_hashes r), in_checkpointed_blocks := verified r,
                      in_last_checkpoint := now\<rparr>
      else r)"

definition checkpoint_is_consistent :: "string \<Rightarrow> receive_checkpoint \<Rightarrow> bool" where
  "checkpoint_is_consistent i c \<longleftrightarrow>
     ck_transfer_id c = i \<and> ck_total_size c \<le> MAX_TRANSFER_BYTES \<and> ck_blocks_done c \<le> blocks_for (ck_total_size c)
     \<and> validate_filename (ck_filename c) \<and> validate_filename (ck_destination_name c)"

text \<open>The most blocks, counting down from \<open>n\<close>, that a part of so many bytes can hold.\<close>

fun blocks_held :: "nat \<Rightarrow> nat \<Rightarrow> nat \<Rightarrow> nat" where
  "blocks_held tot part_length 0 = 0"
| "blocks_held tot part_length (Suc n) =
     (if min (Suc n * BLOCK_BYTES) tot \<le> part_length then Suc n else blocks_held tot part_length n)"

definition load_receive :: "string \<Rightarrow> held option \<Rightarrow> byte list \<Rightarrow> held option" where
  "load_receive i stored part =
     (case stored of
        None \<Rightarrow> None
      | Some (checkpoint, hashes) \<Rightarrow>
          if \<not> checkpoint_is_consistent i checkpoint then None
          else
            (let n = blocks_held (ck_total_size checkpoint) (length part) (min (ck_blocks_done checkpoint) (length hashes))
             in Some (checkpoint\<lparr>ck_blocks_done := n\<rparr>, take n hashes)))"

subsection \<open>Going back\<close>

definition restart_at :: "nat \<Rightarrow> byte \<Rightarrow> bool \<Rightarrow> incoming \<Rightarrow> incoming option" where
  "restart_at blocks pass set_len_ok r =
     (let blocks = min blocks (verified r);
          keep = min (blocks * BLOCK_BYTES) (in_total r)
      in if \<not> set_len_ok then None
         else Some (r\<lparr>in_file := set_len keep (in_file r), in_hashes := take blocks (in_hashes r), in_hasher := None,
                      in_next_offset := keep, in_pass := pass, in_adopt_any := False, in_old_stream_possible := False,
                      in_checkpointed_blocks := min (in_checkpointed_blocks r) blocks\<rparr>))"

definition restart_and_resume ::
  "(byte list \<Rightarrow> byte list) \<Rightarrow> rx_ctx \<Rightarrow> incoming \<Rightarrow> (ending, incoming \<times> file_control list) result" where
  "restart_and_resume sha256 cx r =
     (let blocks = verified r in
      case restart_at blocks (next_pass (in_pass r)) (cx_set_len cx 0) r of
        None \<Rightarrow> Inl ending_internal
      | Some r \<Rightarrow>
          (let r = r\<lparr>in_paused := None\<rparr> in
           Inr (r, tell (cx_net cx) Resume r (\<lambda>m. m\<lparr>fc_resume_block := Some blocks,
                     fc_prefix_sha256 := Some (prefix_hex sha256 blocks r), fc_pass := Some (in_pass r)\<rparr>))))"

text \<open>\<open>issued\<close>: the port listened on and the token issued for this transfer, if there are both.\<close>

definition accept_message ::
  "(byte list \<Rightarrow> byte list) \<Rightarrow> wire_binding \<Rightarrow> (nat \<times> string) option \<Rightarrow> incoming \<Rightarrow> incoming \<times> file_control" where
  "accept_message sha256 wire issued r =
     (let blocks = verified r;
          accept = (control_new_msg wire Accept (in_id r) (in_token r))
            \<lparr>fc_resume_block := Some blocks, fc_prefix_sha256 := Some (prefix_hex sha256 blocks r),
             fc_max_frame_bytes := Some FRAME_BYTES_PROVEN\<rparr>;
          r = r\<lparr>in_on_lane := False, in_lane_serial := 0\<rparr>;
          accept = (if in_lane_wanted r then
                      (case issued of
                         Some (port, token) \<Rightarrow> accept\<lparr>fc_lane := Some (lane_offer\<lparr>lf_port := Some port,
                             lf_token := Some token, lf_ttl_ms := Some TOKEN_TTL\<rparr>)\<rparr>
                       | None \<Rightarrow> accept)
                    else accept)
      in (r, accept))"

subsection \<open>Frames\<close>

definition adopts :: "frame_header \<Rightarrow> incoming \<Rightarrow> nat option" where
  "adopts h r =
     (let aligned = (unat (fh_offset h) mod BLOCK_BYTES = 0);
          block = unat (fh_offset h) div BLOCK_BYTES
      in if \<not> aligned \<or> verified r < block then None
         else if in_adopt_any r \<or> fh_pass h = next_pass (in_pass r) then Some block else None)"

definition pause_for_storage :: "rx_ctx \<Rightarrow> incoming \<Rightarrow> incoming \<times> file_control list" where
  "pause_for_storage cx r =
     (let keep = min (verified r * BLOCK_BYTES) (in_total r);
          r = r\<lparr>in_file := (if cx_set_len cx 1 then set_len keep (in_file r) else in_file r), in_hasher := None,
                in_next_offset := keep, in_paused := Some (PauseStorage (cx_now cx + cx_storage_retry cx))\<rparr>;
          r = checkpoint_now (cx_saved cx) (cx_now cx) r
      in (r, tell (cx_net cx) Pause r (\<lambda>m. m\<lparr>fc_reason := Some REASON_STORAGE_FULL\<rparr>)))"

definition finish_block ::
  "(byte list \<Rightarrow> byte list) \<Rightarrow> rx_ctx \<Rightarrow> frame \<Rightarrow> incoming \<Rightarrow> (ending, incoming \<times> file_control list) result" where
  "finish_block sha256 cx f r =
     (let index = unat (fh_block_index (fr_header f)) in
      case in_hasher r of
        None \<Rightarrow> Inl ending_internal
      | Some bytes \<Rightarrow>
          (let computed = sha256 bytes; r = r\<lparr>in_hasher := None\<rparr> in
           if fr_trailer f = Some computed then
             (let r = r\<lparr>in_hashes := in_hashes r @ [computed]\<rparr> in
              Inr (r, tell (cx_net cx) BlockAck r (\<lambda>m. m\<lparr>fc_block_index := Some index, fc_sha256 := Some (hex computed)\<rparr>)))
           else
             (let r = r\<lparr>in_rewinds := in_rewinds r + 1\<rparr> in
              if MAX_REWINDS < in_rewinds r then Inl \<lparr>ed_code = CODE_HASH_MISMATCH, ed_tell_peer = True\<rparr>
              else
                (let pass = next_pass (in_pass r) in
                 case restart_at (verified r) pass (cx_set_len cx 1) r of
                   None \<Rightarrow> Inl ending_internal
                 | Some r \<Rightarrow>
                     Inr (r, tell (cx_net cx) BlockNack r (\<lambda>m. m\<lparr>fc_block_index := Some index, fc_pass := Some pass,
                               fc_reason := Some CODE_HASH_MISMATCH\<rparr>))))))"

text \<open>A frame of the right pass: in its place, written, hashed.\<close>

definition take_payload ::
  "(byte list \<Rightarrow> byte list) \<Rightarrow> rx_ctx \<Rightarrow> frame \<Rightarrow> incoming \<Rightarrow> (ending, incoming \<times> file_control list) result" where
  "take_payload sha256 cx f r =
     (let h = fr_header f; offset = unat (fh_offset h) in
      if offset < in_next_offset r then Inr (r, [])
      else if in_next_offset r < offset then Inl \<lparr>ed_code = CODE_BAD_FRAME, ed_tell_peer = True\<rparr>
      else case cx_write cx of
        StorageFull n \<Rightarrow> Inr (pause_for_storage cx (r\<lparr>in_file := write_at offset (take n (fr_payload f)) (in_file r)\<rparr>))
      | WriteFailed n \<Rightarrow> Inl ending_internal
      | Written \<Rightarrow>
          (let r = r\<lparr>in_file := write_at offset (fr_payload f) (in_file r)\<rparr> in
           if in_hasher r = None \<and> offset mod BLOCK_BYTES \<noteq> 0 then Inl ending_internal
           else
             (let r = r\<lparr>in_hasher := Some (unwrap_or [] (in_hasher r) @ fr_payload f),
                        in_next_offset := in_next_offset r + unat (fh_length h)\<rparr>
              in if fh_last_of_block h then finish_block sha256 cx f r else Inr (r, []))))"

definition storage_paused :: "incoming \<Rightarrow> bool" where
  "storage_paused r = (case in_paused r of Some (PauseStorage _) \<Rightarrow> True | _ \<Rightarrow> False)"

definition restarted_payload ::
  "(byte list \<Rightarrow> byte list) \<Rightarrow> rx_ctx \<Rightarrow> frame \<Rightarrow> nat \<Rightarrow> incoming \<Rightarrow> (ending, incoming \<times> file_control list) result" where
  "restarted_payload sha256 cx f block r =
     (case restart_at block (fh_pass (fr_header f)) (cx_set_len cx 0) r of
        None \<Rightarrow> Inl ending_internal
      | Some r \<Rightarrow> take_payload sha256 cx f r)"

definition on_frame ::
  "(byte list \<Rightarrow> byte list) \<Rightarrow> rx_ctx \<Rightarrow> frame \<Rightarrow> incoming \<Rightarrow> (ending, incoming \<times> file_control list) result" where
  "on_frame sha256 cx f r =
     (let h = fr_header f in
      if header_check (in_total r) h \<noteq> Inr () then Inr (r, [])
      else if storage_paused r then Inr (r, [])
      else if in_adopt_any r then
        (case adopts h r of
           Some block \<Rightarrow> restarted_payload sha256 cx f block r
         | None \<Rightarrow>
             if fh_pass h \<noteq> in_pass r then Inr (r, [])
             else if in_old_stream_possible r \<and> in_next_offset r < unat (fh_offset h) then Inr (r, [])
             else take_payload sha256 cx f (r\<lparr>in_adopt_any := False, in_old_stream_possible := False\<rparr>))
      else if fh_pass h \<noteq> in_pass r then
        (case adopts h r of
           None \<Rightarrow> Inr (r, [])
         | Some block \<Rightarrow> restarted_payload sha256 cx f block r)
      else take_payload sha256 cx f r)"

subsection \<open>The table of transfers\<close>

text \<open>
  Transfers by the sixteen bytes of their id (\<open>key_of\<close> is \<open>id_bytes\<close> over the \<open>uuid\<close> crate). The loops visit
  the table in some order, here that of the list; it decides only the order of the messages.
\<close>

type_synonym rx_table = "(byte list \<times> incoming) list"

definition fail_incoming :: "wire_binding option \<Rightarrow> ending \<Rightarrow> incoming \<Rightarrow> file_control list" where
  "fail_incoming net ending r =
     (if ed_tell_peer ending then tell net ErrorAction r (\<lambda>m. m\<lparr>fc_code := Some (ed_code ending)\<rparr>) else [])"

definition end_incoming :: "wire_binding option \<Rightarrow> byte list \<Rightarrow> ending \<Rightarrow> rx_table \<Rightarrow> rx_table \<times> file_control list" where
  "end_incoming net key ending tab =
     (case map_of tab key of
        None \<Rightarrow> (tab, [])
      | Some r \<Rightarrow> (AList.delete key tab, fail_incoming net ending r))"

definition engine_frame ::
  "(byte list \<Rightarrow> byte list) \<Rightarrow> rx_ctx \<Rightarrow> byte list \<Rightarrow> rx_table \<Rightarrow> rx_table \<times> file_control list" where
  "engine_frame sha256 cx bytes tab =
     (case parse_frame bytes of
        Inl _ \<Rightarrow> (tab, [])
      | Inr f \<Rightarrow>
          if \<not> message_fits (length bytes) then (tab, [])
          else
            (let key = fh_transfer (fr_header f) in
             case map_of tab key of
               None \<Rightarrow> (tab, [])
             | Some r \<Rightarrow>
                 (case on_frame sha256 cx f r of
                    Inl ending \<Rightarrow> end_incoming (cx_net cx) key ending tab
                  | Inr (r', ms) \<Rightarrow> (AList.update key r' tab, ms))))"

subsection \<open>Offers\<close>

definition MAX_CLIPBOARD_IMAGE_BYTES :: nat where "MAX_CLIPBOARD_IMAGE_BYTES = 32 * 1024 * 1024"

definition is_clipboard_offer :: "file_control \<Rightarrow> bool" where
  "is_clipboard_offer m \<longleftrightarrow>
     fc_clipboard m = Some True \<and> fc_mime_type m \<in> {Some ''image/png'', Some ''image/jpeg''}
     \<and> (case fc_total_size m of Some n \<Rightarrow> n \<le> MAX_CLIPBOARD_IMAGE_BYTES | None \<Rightarrow> False)"

text \<open>
  What an offer's handling asks elsewhere: whether folder sync wants the file, whether the gallery
  takes it, room on the board, a path to the peer for a lane with the port and token issued, what
  the store's files under the id say (after a synced file's older ones were renamed to it) and the
  partial file, a free name, whether a capture's id is a UUID
  and whether the store's file operations succeed.
\<close>

record offer_ctx =
  of_accepts :: bool
  of_gallery_ok :: bool
  of_has_room :: bool
  of_lane_target :: bool
  of_issued :: "(nat \<times> string) option"
  of_stored :: "held option"
  of_part :: "byte list"
  of_destination :: string
  of_capture_ok :: bool
  of_begun :: bool

definition ascii_lower :: "char \<Rightarrow> char" where
  "ascii_lower c = (if 65 \<le> (of_char c :: nat) \<and> (of_char c :: nat) \<le> 90 then char_of ((of_char c :: nat) + 32) else c)"

definition eq_ignore_ascii_case :: "string \<Rightarrow> string \<Rightarrow> bool" where
  "eq_ignore_ascii_case a b \<longleftrightarrow> map ascii_lower a = map ascii_lower b"

text \<open>The content hashes of both sides are there and name the same bytes.\<close>

definition same_sha :: "string option \<Rightarrow> string option \<Rightarrow> bool" where
  "same_sha a b = (case (a, b) of (Some x, Some y) \<Rightarrow> eq_ignore_ascii_case x y | _ \<Rightarrow> False)"

definition resumes ::
  "wire_binding \<Rightarrow> file_control \<Rightarrow> string \<Rightarrow> nat \<Rightarrow> folder_ref option \<Rightarrow> receive_checkpoint \<Rightarrow> bool" where
  "resumes wire m filename tot folder checkpoint \<longleftrightarrow>
     (let same_file = (ck_device_id checkpoint = peer_device_id wire \<and> ck_filename checkpoint = filename
                       \<and> ck_total_size checkpoint = tot)
      in case (folder, ck_folder checkpoint) of
           (Some new, Some old) \<Rightarrow>
             same_file \<and> fr_folder new = fr_folder old \<and> fr_relpath new = fr_relpath old
             \<and> same_sha (ck_content_sha256 checkpoint) (fc_content_sha256 m)
         | (None, None) \<Rightarrow> same_file \<and> ck_token checkpoint = fc_transfer_token m \<and> ck_mtime checkpoint = unwrap_or 0 (fc_mtime m)
         | _ \<Rightarrow> False)"

definition begin_incoming ::
  "wire_binding \<Rightarrow> rx_ctx \<Rightarrow> offer_ctx \<Rightarrow> file_control \<Rightarrow> string \<Rightarrow> nat \<Rightarrow> folder_ref option \<Rightarrow> incoming option" where
  "begin_incoming wire cx oc m filename tot folder =
     (let mtime = unwrap_or 0 (fc_mtime m);
          held = load_receive (fc_transfer_id m) (of_stored oc) (of_part oc);
          resumed = keep_if (\<lambda>(checkpoint, hashes). resumes wire m filename tot folder checkpoint) held;
          resumed = map_option (\<lambda>(checkpoint, hashes).
            (if folder \<noteq> None then checkpoint\<lparr>ck_token := fc_transfer_token m, ck_mtime := mtime, ck_folder := folder\<rparr>
             else checkpoint, hashes)) resumed;
          (checkpoint, hashes, file) = (case resumed of
             Some (checkpoint, hashes) \<Rightarrow>
               (checkpoint, hashes, set_len (min (ck_blocks_done checkpoint * BLOCK_BYTES) tot) (of_part oc))
           | None \<Rightarrow>
               (\<lparr>ck_transfer_id = fc_transfer_id m, ck_device_id = peer_device_id wire, ck_token = fc_transfer_token m,
                 ck_filename = filename, ck_destination_name = of_destination oc, ck_total_size = tot, ck_mtime = mtime,
                 ck_blocks_done = 0, ck_clipboard = is_clipboard_offer m, ck_gallery = (fc_gallery m = Some True),
                 ck_capture_id = keep_if (\<lambda>_. of_capture_ok oc) (fc_capture_id m), ck_folder = folder,
                 ck_content_sha256 = fc_content_sha256 m\<rparr>, [], []));
          blocks = ck_blocks_done checkpoint
      in if \<not> of_begun oc then None
         else Some (checkpoint_now (cx_saved cx) (cx_now cx)
           \<lparr>in_id = fc_transfer_id m, in_token = ck_token checkpoint, in_device_id = ck_device_id checkpoint,
            in_filename = ck_filename checkpoint, in_destination_name = ck_destination_name checkpoint, in_total = tot,
            in_blocks_total = blocks_for tot, in_mtime = mtime, in_folder = ck_folder checkpoint,
            in_content_sha256 = ck_content_sha256 checkpoint, in_clipboard = ck_clipboard checkpoint,
            in_gallery = ck_gallery checkpoint, in_lane_wanted = False, in_on_lane = False, in_lane_serial = 0,
            in_capture_id = ck_capture_id checkpoint, in_file = file, in_pass = 0, in_adopt_any = True,
            in_old_stream_possible = False, in_next_offset = min (blocks * BLOCK_BYTES) tot, in_hashes = hashes,
            in_hasher = None, in_rewinds = 0, in_whole_resends = 0, in_paused = None, in_last_checkpoint = cx_now cx,
            in_checkpointed_blocks = blocks, in_stored = (if resumed = None then None else of_stored oc)\<rparr>))"

definition refuse :: "wire_binding \<Rightarrow> file_control \<Rightarrow> string \<Rightarrow> file_control" where
  "refuse wire m code =
     (control_new_msg wire ErrorAction (fc_transfer_id m) (fc_transfer_token m))\<lparr>fc_code := Some code\<rparr>"

definition wants_lane :: "file_control \<Rightarrow> nat \<Rightarrow> offer_ctx \<Rightarrow> bool" where
  "wants_lane m tot oc \<longleftrightarrow> fc_lane m \<noteq> None \<and> MIN_FILE_BYTES \<le> tot \<and> of_lane_target oc"

text \<open>The same transfer offered again: answered from where it is.\<close>

definition reoffer ::
  "(byte list \<Rightarrow> byte list) \<Rightarrow> wire_binding \<Rightarrow> rx_ctx \<Rightarrow> offer_ctx \<Rightarrow> file_control \<Rightarrow> string \<Rightarrow> nat \<Rightarrow> incoming
   \<Rightarrow> incoming \<times> file_control" where
  "reoffer sha256 wire cx oc m filename tot existing =
     (if in_token existing \<noteq> fc_transfer_token m \<or> in_total existing \<noteq> tot \<or> in_filename existing \<noteq> filename
      then (existing, refuse wire m CODE_REFUSED)
      else
        (let r = (case restart_at (verified existing) (in_pass existing) (cx_set_len cx 0) existing of
                    Some r \<Rightarrow> r | None \<Rightarrow> existing);
             r = r\<lparr>in_adopt_any := True, in_old_stream_possible := True, in_paused := None,
                   in_lane_wanted := wants_lane m tot oc\<rparr>
         in accept_message sha256 wire (of_issued oc) r))"

text \<open>An older request for the same synced file, which the new one replaces.\<close>

definition stale_request :: "wire_binding \<Rightarrow> file_control \<Rightarrow> nat \<Rightarrow> folder_ref option \<Rightarrow> incoming \<Rightarrow> bool" where
  "stale_request wire m tot folder r =
     (case folder of
        None \<Rightarrow> False
      | Some reference \<Rightarrow>
          in_device_id r = peer_device_id wire
          \<and> (case in_folder r of
               Some known \<Rightarrow> fr_folder known = fr_folder reference \<and> fr_relpath known = fr_relpath reference
             | None \<Rightarrow> False)
          \<and> same_sha (in_content_sha256 r) (fc_content_sha256 m) \<and> in_total r = tot)"

definition bucket_active :: "folder_ref option \<Rightarrow> rx_table \<Rightarrow> nat" where
  "bucket_active folder tab =
     length (filter (\<lambda>(k, r). case in_folder r of
                       None \<Rightarrow> False
                     | Some known \<Rightarrow> (case folder of None \<Rightarrow> True | Some reference \<Rightarrow> fr_relpath known \<noteq> fr_relpath reference))
             tab)"

definition on_offer ::
  "(byte list \<Rightarrow> byte list) \<Rightarrow> (string \<Rightarrow> byte list option) \<Rightarrow> wire_binding \<Rightarrow> rx_ctx \<Rightarrow> offer_ctx \<Rightarrow> file_control \<Rightarrow> rx_table
   \<Rightarrow> rx_table \<times> file_control list" where
  "on_offer sha256 key_of wire cx oc m tab =
     (case (fc_filename m, fc_total_size m) of
        (Some filename, Some tot) \<Rightarrow>
          if MAX_TRANSFER_BYTES < tot then (tab, [refuse wire m CODE_TOO_LARGE])
          else
            (case key_of (fc_transfer_id m) of
               None \<Rightarrow> (tab, [])
             | Some key \<Rightarrow>
                 (let folder = folder_ref_of m in
                  if folder \<noteq> None \<and> \<not> of_accepts oc then (tab, [refuse wire m CODE_REFUSED])
                  else if fc_gallery m = Some True \<and> \<not> of_gallery_ok oc then (tab, [refuse wire m CODE_REFUSED])
                  else
                    (case map_of tab key of
                       Some existing \<Rightarrow>
                         (let (r, answer) = reoffer sha256 wire cx oc m filename tot existing
                          in (AList.update key r tab, [answer]))
                     | None \<Rightarrow>
                         (let tab = filter (\<lambda>(k, r). \<not> (k \<noteq> key \<and> stale_request wire m tot folder r)) tab;
                              unlisted = (folder = None \<and> \<not> is_clipboard_offer m \<and> fc_gallery m \<noteq> Some True \<and> \<not> of_has_room oc)
                          in if ACTIVE_PER_DIRECTION \<le> length tab
                                \<or> (folder \<noteq> None \<and> BUCKET_SLOTS_PER_DIRECTION \<le> bucket_active folder tab) \<or> unlisted
                             then (tab, [refuse wire m CODE_BUSY])
                             else
                               (case begin_incoming wire cx oc m filename tot folder of
                                  None \<Rightarrow> (tab, [refuse wire m CODE_INTERNAL])
                                | Some r \<Rightarrow>
                                    (let (r, accept) = accept_message sha256 wire (of_issued oc)
                                           (r\<lparr>in_lane_wanted := wants_lane m tot oc\<rparr>)
                                     in (AList.update key r tab, [accept])))))))
      | _ \<Rightarrow> (tab, [refuse wire m CODE_INTERNAL]))"

subsection \<open>The fast lane\<close>

datatype lane_refusal = RefuseToken | RefuseTransfer | RefuseRange | RefuseBusy | RefusePath

definition lane_check ::
  "(string \<Rightarrow> byte list option) \<Rightarrow> string \<Rightarrow> nat \<Rightarrow> byte \<Rightarrow> rx_table \<Rightarrow> (lane_refusal, unit) result" where
  "lane_check key_of transfer_id start_block pass tab =
     (case Option.bind (key_of transfer_id) (map_of tab) of
        None \<Rightarrow> Inl RefuseTransfer
      | Some r \<Rightarrow>
          if \<not> in_lane_wanted r then Inl RefuseTransfer
          else if verified r < start_block then Inl RefuseRange
          else if \<not> (in_adopt_any r \<or> pass = in_pass r \<or> pass = next_pass (in_pass r)) then Inl RefuseRange
          else Inr ())"

definition lane_opened_one :: "nat \<Rightarrow> byte \<Rightarrow> nat \<Rightarrow> rx_ctx \<Rightarrow> incoming \<Rightarrow> incoming" where
  "lane_opened_one start_block pass serial cx r =
     (case restart_at (min start_block (verified r)) pass (cx_set_len cx 0) r of
        None \<Rightarrow> r
      | Some r \<Rightarrow> r\<lparr>in_on_lane := True, in_lane_serial := serial\<rparr>)"

definition lane_lost_one :: "nat \<Rightarrow> rx_ctx \<Rightarrow> incoming \<Rightarrow> incoming \<times> file_control list" where
  "lane_lost_one serial cx r =
     (if cx_net cx \<noteq> None \<and> in_on_lane r \<and> in_lane_serial r = serial then
        (let r = r\<lparr>in_on_lane := False, in_lane_serial := 0\<rparr> in
         (r, tell (cx_net cx) BlockNack r (\<lambda>m. m\<lparr>fc_block_index := Some (verified r), fc_pass := Some (in_pass r),
               fc_reason := Some REASON_LANE\<rparr>)))
      else (r, []))"

definition lane_switch_one :: "file_control \<Rightarrow> rx_ctx \<Rightarrow> incoming \<Rightarrow> incoming \<times> file_control list" where
  "lane_switch_one m cx r =
     (case fc_lane m of
        None \<Rightarrow> (r, [])
      | Some l \<Rightarrow>
          (case (lf_kind l, lf_start_block l, lf_pass l) of
             (Some kind, Some start, Some pass) \<Rightarrow>
               if in_token r \<noteq> fc_transfer_token m \<or> verified r < start then (r, [])
               else if kind = ''tcp'' then (r, [])
               else
                 (let verified_from = verified r in
                  case restart_at verified_from pass (cx_set_len cx 0) r of
                    None \<Rightarrow> (r, [])
                  | Some r \<Rightarrow>
                      (let ms = (if start < verified_from then
                                   tell (cx_net cx) BlockNack r (\<lambda>m. m\<lparr>fc_block_index := Some verified_from,
                                     fc_pass := Some pass, fc_reason := Some REASON_LANE\<rparr>)
                                 else [])
                       in (r\<lparr>in_on_lane := False, in_lane_serial := 0\<rparr>, ms)))
           | _ \<Rightarrow> (r, [])))"

text \<open>An operation on one transfer, found by its id; one that is not here changes nothing.\<close>

definition at_id ::
  "(string \<Rightarrow> byte list option) \<Rightarrow> string \<Rightarrow> (incoming \<Rightarrow> incoming \<times> file_control list) \<Rightarrow> rx_table \<Rightarrow> rx_table \<times> file_control list" where
  "at_id key_of i f tab =
     (case key_of i of
        None \<Rightarrow> (tab, [])
      | Some key \<Rightarrow>
          (case map_of tab key of
             None \<Rightarrow> (tab, [])
           | Some r \<Rightarrow> (let (r', ms) = f r in (AList.update key r' tab, ms))))"

definition lane_opened where
  "lane_opened key_of transfer_id start_block pass serial cx tab =
     at_id key_of transfer_id (\<lambda>r. (lane_opened_one start_block pass serial cx r, [])) tab"

definition lane_lost where
  "lane_lost key_of i serial cx tab = at_id key_of i (lane_lost_one serial cx) tab"

definition on_lane_switch where
  "on_lane_switch key_of m cx tab = at_id key_of (fc_transfer_id m) (lane_switch_one m cx) tab"

subsection \<open>The end of a transfer\<close>

text \<open>\<open>finish_incoming\<close>: the transfer leaves the table; whether its file was synced and placed is the disk's word.\<close>

definition finish_incoming ::
  "(byte list \<Rightarrow> byte list) \<Rightarrow> wire_binding \<Rightarrow> bool \<Rightarrow> bool \<Rightarrow> byte list \<Rightarrow> rx_table
   \<Rightarrow> rx_table \<times> file_control list \<times> incoming option" where
  "finish_incoming sha256 wire synced placed key tab =
     (case map_of tab key of
        None \<Rightarrow> (tab, [], None)
      | Some r \<Rightarrow>
          if \<not> synced \<or> \<not> placed then
            (AList.delete key tab, tell (Some wire) ErrorAction r (\<lambda>m. m\<lparr>fc_code := Some (ed_code ending_internal)\<rparr>), None)
          else
            (AList.delete key tab,
             tell (Some wire) Complete r (\<lambda>m. m\<lparr>fc_file_hash := Some (hex (hash_of_hashes sha256 (in_hashes r)))\<rparr>), Some r))"

definition hash_matches :: "string option \<Rightarrow> string \<Rightarrow> bool" where
  "hash_matches announced expected =
     (case (Option.bind announced unhex32, unhex32 expected) of
        (Some theirs, Some ours) \<Rightarrow> theirs = ours
      | _ \<Rightarrow> False)"

definition on_done ::
  "(byte list \<Rightarrow> byte list) \<Rightarrow> (string \<Rightarrow> byte list option) \<Rightarrow> wire_binding \<Rightarrow> rx_ctx \<Rightarrow> bool \<Rightarrow> bool \<Rightarrow> file_control \<Rightarrow> rx_table
   \<Rightarrow> rx_table \<times> file_control list \<times> incoming option" where
  "on_done sha256 key_of wire cx synced placed m tab =
     (case key_of (fc_transfer_id m) of
        None \<Rightarrow> (tab, [], None)
      | Some key \<Rightarrow>
          (case map_of tab key of
             None \<Rightarrow> (tab, [], None)
           | Some r \<Rightarrow>
               if in_token r \<noteq> fc_transfer_token m then (tab, [], None)
               else
                 (let expected = hex (hash_of_hashes sha256 (in_hashes r));
                      consistent = (fc_blocks m = Some (in_blocks_total r) \<and> fc_total_size m = Some (in_total r)
                                    \<and> verified r = in_blocks_total r);
                      ended = (\<lambda>e. let (tab', ms) = end_incoming (Some wire) key e tab in (tab', ms, None))
                  in if \<not> consistent then ended \<lparr>ed_code = CODE_BAD_FRAME, ed_tell_peer = True\<rparr>
                     else if hash_matches (fc_file_hash m) expected
                     then finish_incoming sha256 wire synced placed key tab
                     else if 1 \<le> in_whole_resends r then ended \<lparr>ed_code = CODE_HASH_MISMATCH, ed_tell_peer = True\<rparr>
                     else
                       (let r = r\<lparr>in_whole_resends := in_whole_resends r + 1\<rparr> in
                        case restart_at 0 (next_pass (in_pass r)) (cx_set_len cx 0) r of
                          None \<Rightarrow> ended ending_internal
                        | Some r \<Rightarrow>
                            (AList.update key r tab,
                             tell (Some wire) Resume r (\<lambda>m. m\<lparr>fc_resume_block := Some 0,
                               fc_prefix_sha256 := Some (hex (hash_of_hashes sha256 [])), fc_pass := Some (in_pass r)\<rparr>),
                             None)))))"

subsection \<open>The loops over all transfers\<close>

text \<open>
  Each transfer is given its own context. One whose step fails is ended, and its sender told, after
  the others were visited.
\<close>

definition for_each ::
  "wire_binding option \<Rightarrow> (byte list \<Rightarrow> incoming \<Rightarrow> (ending, incoming \<times> file_control list) result) \<Rightarrow> rx_table
   \<Rightarrow> rx_table \<times> file_control list" where
  "for_each net f tab =
     (let results = map (\<lambda>(k, r). (k, r, f k r)) tab in
      (List.map_filter (\<lambda>(k, r, res). case res of Inr (r', ms) \<Rightarrow> Some (k, r') | Inl e \<Rightarrow> None) results,
       concat (map (\<lambda>(k, r, res). case res of Inr (r', ms) \<Rightarrow> ms | Inl e \<Rightarrow> []) results)
       @ concat (map (\<lambda>(k, r, res). case res of Inr _ \<Rightarrow> [] | Inl e \<Rightarrow> fail_incoming net e r) results)))"

definition overflow_one where
  "overflow_one sha256 cx r = (if storage_paused r then Inr (r, []) else restart_and_resume sha256 cx r)"

definition restart_after_overflow where
  "restart_after_overflow sha256 net cxs overflow tab =
     (if \<not> overflow then (tab, []) else for_each net (\<lambda>k r. overflow_one sha256 (cxs k) r) tab)"

definition backlog_one :: "(byte list \<Rightarrow> byte list) \<Rightarrow> nat \<Rightarrow> nat \<Rightarrow> nat \<Rightarrow> rx_ctx \<Rightarrow> incoming \<Rightarrow> (ending, incoming \<times> file_control list) result" where
  "backlog_one sha256 queue_pause queue_resume queued cx r =
     (if in_paused r = None \<and> queue_pause \<le> queued then
        (let r = r\<lparr>in_paused := Some PauseBacklog\<rparr> in
         Inr (r, tell (cx_net cx) Pause r (\<lambda>m. m\<lparr>fc_reason := Some REASON_BACKLOG\<rparr>)))
      else if in_paused r = Some PauseBacklog \<and> queued \<le> queue_resume then restart_and_resume sha256 cx r
      else Inr (r, []))"

definition apply_backlog where
  "apply_backlog sha256 net cxs queue_pause queue_resume queued tab =
     for_each net (\<lambda>k r. backlog_one sha256 queue_pause queue_resume queued (cxs k) r) tab"

definition storage_one :: "(byte list \<Rightarrow> byte list) \<Rightarrow> bool \<Rightarrow> rx_ctx \<Rightarrow> incoming \<Rightarrow> (ending, incoming \<times> file_control list) result" where
  "storage_one sha256 room cx r =
     (case in_paused r of
        Some (PauseStorage retry_at) \<Rightarrow>
          if cx_now cx < retry_at then Inr (r, [])
          else if room then restart_and_resume sha256 cx r
          else Inr (r\<lparr>in_paused := Some (PauseStorage (cx_now cx + cx_storage_retry cx))\<rparr>, [])
      | _ \<Rightarrow> Inr (r, []))"

definition retry_after_storage_full where
  "retry_after_storage_full sha256 net cxs free storage_slack tab =
     for_each net (\<lambda>k r. storage_one sha256 (case free of Some n \<Rightarrow> BLOCK_BYTES + storage_slack \<le> n | None \<Rightarrow> False) (cxs k) r) tab"

definition checkpoint_due_one :: "nat \<Rightarrow> nat \<Rightarrow> rx_ctx \<Rightarrow> incoming \<Rightarrow> incoming" where
  "checkpoint_due_one blocks after cx r =
     (let new = verified r - in_checkpointed_blocks r in
      if 0 < new \<and> (blocks \<le> new \<or> after \<le> cx_now cx - in_last_checkpoint r)
      then checkpoint_now (cx_saved cx) (cx_now cx) r else r)"

definition checkpoint_due where
  "checkpoint_due blocks after cxs tab = map (\<lambda>(k, r). (k, checkpoint_due_one blocks after (cxs k) r)) tab"

subsection \<open>What a transfer holds\<close>

text \<open>
  Block \<open>i\<close> of a file of \<open>tot\<close> bytes, where the first \<open>n\<close> blocks end, and what is true of the bytes on disk:
  every verified block is there in full and its recorded hash is the hash of those bytes.
\<close>

definition block_end :: "nat \<Rightarrow> nat \<Rightarrow> nat" where
  "block_end tot n = min (n * BLOCK_BYTES) tot"

definition block_at :: "nat \<Rightarrow> nat \<Rightarrow> byte list \<Rightarrow> byte list" where
  "block_at tot i file = slice (i * BLOCK_BYTES) (block_end tot (i + 1)) file"

definition blocks_ok :: "(byte list \<Rightarrow> byte list) \<Rightarrow> nat \<Rightarrow> byte list \<Rightarrow> byte list list \<Rightarrow> bool" where
  "blocks_ok sha256 tot file hashes \<longleftrightarrow>
     length file \<le> tot \<and> length hashes \<le> blocks_for tot \<and> block_end tot (length hashes) \<le> length file
     \<and> (\<forall>i < length hashes. hashes ! i = sha256 (block_at tot i file))"

text \<open>Where the next frame must start: after the verified blocks and what was hashed of the next one.\<close>

definition progress_ok :: "nat \<Rightarrow> byte list \<Rightarrow> nat \<Rightarrow> byte list option \<Rightarrow> nat \<Rightarrow> bool" where
  "progress_ok tot file n hasher next \<longleftrightarrow>
     (case hasher of
        None \<Rightarrow> next = block_end tot n
      | Some bs \<Rightarrow> next = block_end tot n + length bs \<and> next < block_end tot (n + 1) \<and> slice (block_end tot n) next file = bs)"

definition rx_ok :: "(byte list \<Rightarrow> byte list) \<Rightarrow> incoming \<Rightarrow> bool" where
  "rx_ok sha256 r \<longleftrightarrow>
     in_blocks_total r = blocks_for (in_total r) \<and> blocks_ok sha256 (in_total r) (in_file r) (in_hashes r)
     \<and> progress_ok (in_total r) (in_file r) (length (in_hashes r)) (in_hasher r) (in_next_offset r)"

lemma block_bytes_pos [simp]: "0 < BLOCK_BYTES"
  by (simp add: BLOCK_BYTES_def)

lemma block_end_mono: "m \<le> n \<Longrightarrow> block_end tot m \<le> block_end tot n"
  by (simp add: block_end_def min.coboundedI1)

lemma block_end_le [simp]: "block_end tot n \<le> tot"
  by (simp add: block_end_def)

lemma block_end_inside: "n * BLOCK_BYTES < tot \<Longrightarrow> block_end tot n = n * BLOCK_BYTES"
  by (simp add: block_end_def)

lemma block_end_all: "block_end tot (blocks_for tot) = tot"
proof -
  have "tot \<le> (tot + BLOCK_BYTES - 1) div BLOCK_BYTES * BLOCK_BYTES"
    by (simp add: BLOCK_BYTES_def)
  then show ?thesis by (simp add: block_end_def blocks_for_def)
qed

lemma block_below: "n * BLOCK_BYTES < tot \<longleftrightarrow> n < blocks_for tot"
proof -
  have "n < blocks_for tot \<longleftrightarrow> Suc n * BLOCK_BYTES \<le> tot + BLOCK_BYTES - 1"
    unfolding blocks_for_def Suc_le_eq [symmetric] by (rule less_eq_div_iff_mult_less_eq) simp
  then show ?thesis by (auto simp: BLOCK_BYTES_def)
qed

lemma take_min_length: "take (min n (length xs)) xs = take n xs"
  by (simp add: min_def)

lemma length_set_len [simp]: "length (set_len n file) = n"
  by (simp add: set_len_def)

lemma set_len_shorter: "n \<le> length file \<Longrightarrow> set_len n file = take n file"
  by (simp add: set_len_def)

lemma slice_take: "b \<le> n \<Longrightarrow> slice a b (take n file) = slice a b file"
  by (simp add: slice_def drop_take min_def)

lemma write_inside: "off \<le> length file \<Longrightarrow> write_at off bs file = take off file @ bs @ drop (off + length bs) file"
  by (simp add: write_at_def set_len_shorter)

lemma length_write_at: "off \<le> length file \<Longrightarrow> length (write_at off bs file) = max (length file) (off + length bs)"
  by (simp add: write_inside)

lemma slice_write_before: "off \<le> length file \<Longrightarrow> b \<le> off \<Longrightarrow> slice a b (write_at off bs file) = slice a b file"
proof -
  assume "off \<le> length file" "b \<le> off"
  then have "slice a b (take off file @ bs @ drop (off + length bs) file) = slice a b (take off file)"
    by (simp add: slice_def)
  then show ?thesis using \<open>off \<le> length file\<close> \<open>b \<le> off\<close> by (simp add: write_inside slice_take)
qed

lemma slice_write_through:
  assumes "a \<le> off" "off \<le> length file"
  shows "slice a (off + length bs) (write_at off bs file) = slice a off file @ bs"
  using assms by (simp add: write_inside slice_def drop_take)

lemma block_at_take: "block_end tot (i + 1) \<le> n \<Longrightarrow> block_at tot i (take n file) = block_at tot i file"
  by (simp add: block_at_def slice_take)

lemma block_at_write:
  "off \<le> length file \<Longrightarrow> block_end tot (i + 1) \<le> off \<Longrightarrow> block_at tot i (write_at off bs file) = block_at tot i file"
  by (simp add: block_at_def slice_write_before)

text \<open>The first blocks stay right when the file is cut after them, or written after them.\<close>

lemma blocks_ok_cut:
  assumes "blocks_ok sha256 tot file hashes" "n \<le> length hashes"
  shows "blocks_ok sha256 tot (set_len (block_end tot n) file) (take n hashes)"
proof -
  have long: "block_end tot n \<le> length file"
    using assms block_end_mono [OF assms(2), of tot] by (simp add: blocks_ok_def)
  moreover have "block_at tot i (take (block_end tot n) file) = block_at tot i file" if "i < n" for i
    using that by (intro block_at_take block_end_mono) simp
  ultimately show ?thesis using assms by (simp add: blocks_ok_def set_len_shorter)
qed

lemma blocks_ok_write:
  assumes "blocks_ok sha256 tot file hashes" "block_end tot (length hashes) \<le> off" "off \<le> length file" "off + length bs \<le> tot"
  shows "blocks_ok sha256 tot (write_at off bs file) hashes"
proof -
  have "block_at tot i (write_at off bs file) = block_at tot i file" if "i < length hashes" for i
    using that assms(2,3) block_end_mono [of "i + 1" "length hashes" tot] by (intro block_at_write) simp_all
  then show ?thesis using assms by (simp add: blocks_ok_def length_write_at)
qed

lemma restart_at_ok:
  assumes "blocks_ok sha256 (in_total r) (in_file r) (in_hashes r)" "in_blocks_total r = blocks_for (in_total r)"
    and "restart_at blocks pass ok r = Some r'"
  shows "rx_ok sha256 r'" "in_hasher r' = None" "in_hashes r' = take blocks (in_hashes r)" "in_total r' = in_total r"
    "in_file r' = take (block_end (in_total r) (length (in_hashes r'))) (in_file r)" "in_pass r' = pass" "in_adopt_any r' = False"
    "in_paused r' = in_paused r"
proof -
  let ?n = "min blocks (length (in_hashes r))"
  from blocks_ok_cut [OF assms(1), of ?n] have "blocks_ok sha256 (in_total r) (set_len (block_end (in_total r) ?n) (in_file r)) (take ?n (in_hashes r))"
    by simp
  then show "rx_ok sha256 r'" "in_hasher r' = None" "in_hashes r' = take blocks (in_hashes r)" "in_total r' = in_total r"
    "in_pass r' = pass" "in_adopt_any r' = False" "in_paused r' = in_paused r"
    using assms(2,3) by (auto simp: restart_at_def verified_def Let_def rx_ok_def progress_ok_def block_end_def take_min_length min.commute split: if_splits)
  have "block_end (in_total r) ?n \<le> length (in_file r)"
    using assms(1) block_end_mono [of ?n "length (in_hashes r)" "in_total r"] by (simp add: blocks_ok_def)
  then show "in_file r' = take (block_end (in_total r) (length (in_hashes r'))) (in_file r)"
    using assms(3) by (auto simp: restart_at_def verified_def Let_def set_len_shorter block_end_def min.commute split: if_splits)
qed

subsection \<open>Every step keeps it\<close>

lemma header_check_ok:
  assumes "header_check tot h = Inr ()"
  shows "fh_length h \<noteq> 0" "unat (fh_offset h) < tot" "unat (fh_block_index h) = unat (fh_offset h) div BLOCK_BYTES"
    "unat (fh_offset h) + unat (fh_length h) \<le> block_end tot (unat (fh_block_index h) + 1)"
    "fh_last_of_block h \<longleftrightarrow> unat (fh_offset h) + unat (fh_length h) = block_end tot (unat (fh_block_index h) + 1)"
  using assms by (auto simp: header_check_def Let_def block_end_def split: if_splits)

text \<open>A frame that starts where the transfer is lies in the first block not yet verified.\<close>

lemma frame_in_block:
  assumes "progress_ok tot file n hasher next" "next < tot"
  shows "next div BLOCK_BYTES = n" "n * BLOCK_BYTES < tot" "n * BLOCK_BYTES \<le> next" "n < blocks_for tot"
    "slice (n * BLOCK_BYTES) next file = unwrap_or [] hasher" "hasher = None \<Longrightarrow> next mod BLOCK_BYTES = 0"
proof -
  have inside: "n * BLOCK_BYTES < tot"
    using assms by (cases hasher) (auto simp: progress_ok_def block_end_def min_def split: if_splits)
  then have at_n: "block_end tot n = n * BLOCK_BYTES" by (rule block_end_inside)
  then have n: "n * BLOCK_BYTES \<le> next" "next < (n + 1) * BLOCK_BYTES"
    using assms(1) by (cases hasher; simp add: progress_ok_def block_end_def)+
  then have "next = n * BLOCK_BYTES + (next - n * BLOCK_BYTES)" "next - n * BLOCK_BYTES < BLOCK_BYTES" by simp_all
  then show "next div BLOCK_BYTES = n" by (metis div_mult_self3 div_less add.right_neutral block_bytes_pos add.commute less_irrefl mult.commute)
  show "n * BLOCK_BYTES < tot" "n * BLOCK_BYTES \<le> next" by (rule inside, rule n)
  show "n < blocks_for tot" using inside block_below by blast
  show "slice (n * BLOCK_BYTES) next file = unwrap_or [] hasher"
    using assms(1) at_n by (cases hasher) (simp_all add: progress_ok_def unwrap_or_def slice_def)
  show "next mod BLOCK_BYTES = 0" if "hasher = None" using that assms(1) at_n by (simp add: progress_ok_def)
qed

lemma rx_okD:
  assumes "rx_ok sha256 r"
  shows "blocks_ok sha256 (in_total r) (in_file r) (in_hashes r)" "in_blocks_total r = blocks_for (in_total r)"
    "progress_ok (in_total r) (in_file r) (length (in_hashes r)) (in_hasher r) (in_next_offset r)"
  using assms by (simp_all add: rx_ok_def)

lemma next_in_file: "rx_ok sha256 r \<Longrightarrow> in_next_offset r \<le> length (in_file r)"
proof -
  assume ok: "rx_ok sha256 r"
  let ?n = "length (in_hashes r)"
  show ?thesis
  proof (cases "in_hasher r")
    case None
    then show ?thesis using rx_okD [OF ok] by (simp add: progress_ok_def blocks_ok_def)
  next
    case (Some bs)
    then have p: "in_next_offset r = block_end (in_total r) ?n + length bs" "slice (block_end (in_total r) ?n) (in_next_offset r) (in_file r) = bs"
      using rx_okD(3) [OF ok] by (auto simp: progress_ok_def)
    from arg_cong [OF p(2), of length] have "length bs \<le> length (in_file r) - block_end (in_total r) ?n" by (simp add: slice_def p(1))
    moreover have "block_end (in_total r) ?n \<le> length (in_file r)" using rx_okD(1) [OF ok] by (simp add: blocks_ok_def)
    ultimately show ?thesis using p(1) by simp
  qed
qed

lemma next_after_blocks: "rx_ok sha256 r \<Longrightarrow> block_end (in_total r) (length (in_hashes r)) \<le> in_next_offset r"
  by (cases "in_hasher r") (simp_all add: rx_ok_def progress_ok_def)

lemma checkpoint_now_fields [simp]:
  "in_total (checkpoint_now s t r) = in_total r" "in_file (checkpoint_now s t r) = in_file r"
  "in_hashes (checkpoint_now s t r) = in_hashes r" "in_hasher (checkpoint_now s t r) = in_hasher r"
  "in_next_offset (checkpoint_now s t r) = in_next_offset r" "in_blocks_total (checkpoint_now s t r) = in_blocks_total r"
  by (simp_all add: checkpoint_now_def)

lemma rx_ok_checkpoint [simp]: "rx_ok sha256 (checkpoint_now s t r) = rx_ok sha256 r"
  by (simp add: rx_ok_def)

lemma pause_for_storage_ok:
  assumes "blocks_ok sha256 (in_total r) (in_file r) (in_hashes r)" "in_blocks_total r = blocks_for (in_total r)"
  shows "rx_ok sha256 (fst (pause_for_storage cx r))"
  using assms blocks_ok_cut [OF assms(1) order_refl]
  by (simp add: pause_for_storage_def Let_def rx_ok_def progress_ok_def verified_def block_end_def)

lemma finish_block_ok:
  assumes "blocks_ok sha256 (in_total r) (in_file r) (in_hashes r)" "in_blocks_total r = blocks_for (in_total r)"
    and "in_hasher r = Some (block_at (in_total r) (length (in_hashes r)) (in_file r))" "length (in_hashes r) < blocks_for (in_total r)"
    and "in_next_offset r = block_end (in_total r) (length (in_hashes r) + 1)" "in_next_offset r \<le> length (in_file r)"
    and "finish_block sha256 cx f r = Inr (r', ms)"
  shows "rx_ok sha256 r'"
proof (cases "fr_trailer f = Some (sha256 (block_at (in_total r) (length (in_hashes r)) (in_file r)))")
  case True
  then have r': "r' = r\<lparr>in_hasher := None, in_hashes := in_hashes r @ [sha256 (block_at (in_total r) (length (in_hashes r)) (in_file r))]\<rparr>"
    using assms(3,7) by (auto simp: finish_block_def Let_def)
  show ?thesis unfolding r' using assms(1,2,4,5,6)
    by (simp add: rx_ok_def progress_ok_def blocks_ok_def nth_append less_Suc_eq)
next
  case False
  then show ?thesis using assms(3,7) restart_at_ok(1) [of sha256 "r\<lparr>in_hasher := None, in_rewinds := in_rewinds r + 1\<rparr>"] assms(1,2)
    by (auto simp: finish_block_def Let_def split: if_splits option.splits)
qed

lemma take_payload_ok:
  assumes "rx_ok sha256 r" "header_check (in_total r) (fr_header f) = Inr ()" "length (fr_payload f) = unat (fh_length (fr_header f))"
    and "take_payload sha256 cx f r = Inr (r', ms)"
  shows "rx_ok sha256 r'"
proof -
  let ?h = "fr_header f" and ?n = "length (in_hashes r)" and ?p = "fr_payload f" and ?next = "in_next_offset r" and ?tot = "in_total r"
  note head = header_check_ok [OF assms(2)] and ok = rx_okD [OF assms(1)]
  show ?thesis
  proof (cases "unat (fh_offset ?h) < ?next")
    case True
    then show ?thesis using assms(1,4) by (simp add: take_payload_def Let_def)
  next
    case False
    then have off: "unat (fh_offset ?h) = ?next" using assms(4) by (auto simp: take_payload_def Let_def split: if_splits)
    then have "?next < ?tot" using head(2) by simp
    note blk = frame_in_block [OF ok(3) this]
    have index: "unat (fh_block_index ?h) = ?n" using head(3) off blk(1) by simp
    have fits: "?next + length ?p \<le> block_end ?tot (?n + 1)" using head(4) assms(3) off index by simp
    then have inside: "?next + length ?p \<le> ?tot" by (rule order_trans) simp
    note bounds = next_after_blocks [OF assms(1)] next_in_file [OF assms(1)]
    show ?thesis
    proof (cases "cx_write cx")
      case (StorageFull k)
      have "blocks_ok sha256 ?tot (write_at ?next (take k ?p) (in_file r)) (in_hashes r)"
        using inside by (intro blocks_ok_write ok(1) bounds) simp
      then show ?thesis using assms(4) off StorageFull ok(2)
        pause_for_storage_ok [of sha256 "r\<lparr>in_file := write_at ?next (take k ?p) (in_file r)\<rparr>" cx]
        by (simp add: take_payload_def Let_def)
    next
      case (WriteFailed k)
      then show ?thesis using assms(4) off by (simp add: take_payload_def Let_def)
    next
      case Written
      let ?file = "write_at ?next ?p (in_file r)"
      let ?r = "r\<lparr>in_file := ?file, in_hasher := Some (unwrap_or [] (in_hasher r) @ ?p), in_next_offset := ?next + unat (fh_length ?h)\<rparr>"
      have res: "(if fh_last_of_block ?h then finish_block sha256 cx f ?r else Inr (?r, [])) = Inr (r', ms)"
        using assms(4) off Written blk(6) by (simp add: take_payload_def Let_def split: if_splits)
      have good: "blocks_ok sha256 ?tot ?file (in_hashes r)" by (intro blocks_ok_write ok(1) bounds inside)
      have got: "slice (?n * BLOCK_BYTES) (?next + length ?p) ?file = unwrap_or [] (in_hasher r) @ ?p"
        using slice_write_through [OF blk(3) bounds(2)] blk(5) by simp
      have long: "?next + length ?p \<le> length ?file" using bounds(2) by (simp add: length_write_at)
      show ?thesis
      proof (cases "fh_last_of_block ?h")
        case False
        then have "?next + length ?p < block_end ?tot (?n + 1)" using head(5) fits off index assms(3) by simp
        moreover have "?next = block_end ?tot ?n + length (unwrap_or [] (in_hasher r))"
          using ok(3) by (cases "in_hasher r") (simp_all add: progress_ok_def unwrap_or_def)
        ultimately show ?thesis using res False good got ok(2) assms(3) block_end_inside [OF blk(2)]
          by (auto simp: rx_ok_def progress_ok_def)
      next
        case True
        then have full: "?next + length ?p = block_end ?tot (?n + 1)" using head(5) off index assms(3) by simp
        show ?thesis
          by (rule finish_block_ok [of sha256 ?r cx f r' ms])
            (use res True good got ok(2) full blk(4) long assms(3) in \<open>simp_all add: block_at_def\<close>)
      qed
    qed
  qed
qed

lemma on_frame_ok:
  assumes "rx_ok sha256 r" "length (fr_payload f) = unat (fh_length (fr_header f))" "on_frame sha256 cx f r = Inr (r', ms)"
  shows "rx_ok sha256 r'"
proof (cases "header_check (in_total r) (fr_header f) = Inr () \<and> \<not> storage_paused r")
  case False
  then show ?thesis using assms(1,3) by (auto simp: on_frame_def Let_def split: if_splits)
next
  case True
  have again: "rx_ok sha256 r'" if "restarted_payload sha256 cx f block r = Inr (r', ms)" for block
  proof -
    from that obtain q where q: "restart_at block (fh_pass (fr_header f)) (cx_set_len cx 0) r = Some q" "take_payload sha256 cx f q = Inr (r', ms)"
      by (auto simp: restarted_payload_def split: option.splits)
    note gone = restart_at_ok [OF rx_okD(1,2) [OF assms(1)] q(1)]
    show ?thesis using take_payload_ok [OF gone(1) _ assms(2) q(2)] gone(4) True by simp
  qed
  have plain: "rx_ok sha256 r'" if "take_payload sha256 cx f q = Inr (r', ms)" "q = r \<or> q = r\<lparr>in_adopt_any := False, in_old_stream_possible := False\<rparr>" for q
    using take_payload_ok [OF _ _ assms(2) that(1)] that(2) assms(1) True by (auto simp: rx_ok_def)
  have "(\<exists>block. restarted_payload sha256 cx f block r = Inr (r', ms))
      \<or> (\<exists>q. take_payload sha256 cx f q = Inr (r', ms) \<and> (q = r \<or> q = r\<lparr>in_adopt_any := False, in_old_stream_possible := False\<rparr>)) \<or> r' = r"
    using assms(3) True by (cases "in_adopt_any r"; cases "adopts (fr_header f) r") (auto simp: on_frame_def Let_def split: if_splits)
  then show ?thesis using again plain assms(1) by blast
qed

subsection \<open>The table as a system\<close>

lemma for_each_simps [simp]:
  "fst (for_each net f []) = []"
  "fst (for_each net f ((k, r) # tab)) =
     (case f k r of Inr (r', ms) \<Rightarrow> (k, r') # fst (for_each net f tab) | Inl e \<Rightarrow> fst (for_each net f tab))"
  by (simp_all add: for_each_def Let_def List.map_filter_def split: sum.split)

lemma for_each_keys: "set (map fst (fst (for_each net f tab))) \<subseteq> set (map fst tab)"
  by (induction tab) (force split: sum.splits)+

lemma for_each_table:
  "length (fst (for_each net f tab)) \<le> length tab \<and> (distinct (map fst tab) \<longrightarrow> distinct (map fst (fst (for_each net f tab))))"
proof (induction tab)
  case (Cons kr tab)
  obtain k r where "kr = (k, r)" by (cases kr)
  then show ?case using Cons for_each_keys [of net f tab] by (auto split: sum.split)
qed simp

lemma for_each_entries:
  assumes "\<And>k r r' ms. (k, r) \<in> set tab \<Longrightarrow> f k r = Inr (r', ms) \<Longrightarrow> P r'"
  shows "\<forall>kr \<in> set (fst (for_each net f tab)). P (snd kr)"
  using assms
proof (induction tab)
  case (Cons kr tab)
  obtain k r where kr: "kr = (k, r)" by (cases kr)
  have "\<forall>kr \<in> set (fst (for_each net f tab)). P (snd kr)" by (rule Cons.IH) (use Cons.prems in auto)
  then show ?case using Cons.prems [of k r] kr by (auto split: sum.split)
qed simp

definition table_ok :: "(byte list \<Rightarrow> byte list) \<Rightarrow> rx_table \<Rightarrow> bool" where
  "table_ok sha256 tab \<longleftrightarrow>
     distinct (map fst tab) \<and> length tab \<le> ACTIVE_PER_DIRECTION \<and> (\<forall>kr \<in> set tab. rx_ok sha256 (snd kr))"

lemma set_update_entries: "set (AList.update k r tab) \<subseteq> insert (k, r) (set tab)"
  by (induction tab) auto

lemma length_update: "length (AList.update k r tab) = (if k \<in> fst ` set tab then length tab else Suc (length tab))"
  by (induction tab) auto

lemma table_at: "table_ok sha256 tab \<Longrightarrow> map_of tab k = Some r \<Longrightarrow> rx_ok sha256 r"
  using map_of_SomeD by (force simp: table_ok_def)

lemma table_update:
  assumes "table_ok sha256 tab" "rx_ok sha256 r" "map_of tab k \<noteq> None \<or> length tab < ACTIVE_PER_DIRECTION"
  shows "table_ok sha256 (AList.update k r tab)"
proof -
  have "length (AList.update k r tab) \<le> ACTIVE_PER_DIRECTION"
    using assms(1,3) by (auto simp: table_ok_def length_update map_of_eq_None_iff)
  moreover have "\<forall>kr \<in> set (AList.update k r tab). rx_ok sha256 (snd kr)"
    using assms(1,2) set_update_entries [of k r tab] by (auto simp: table_ok_def)
  ultimately show ?thesis using assms(1) by (simp add: table_ok_def distinct_update)
qed

lemma table_filter: "table_ok sha256 tab \<Longrightarrow> table_ok sha256 (filter P tab)"
  by (auto simp: table_ok_def distinct_map_filter intro: order_trans [OF length_filter_le])

lemma table_delete: "table_ok sha256 tab \<Longrightarrow> table_ok sha256 (AList.delete k tab)"
  unfolding AList.delete_eq by (rule table_filter)

lemma table_for_each:
  assumes "table_ok sha256 tab" "\<And>k r r' ms. rx_ok sha256 r \<Longrightarrow> f k r = Inr (r', ms) \<Longrightarrow> rx_ok sha256 r'"
  shows "table_ok sha256 (fst (for_each net f tab))"
proof -
  have "\<forall>kr \<in> set (fst (for_each net f tab)). rx_ok sha256 (snd kr)"
    by (rule for_each_entries) (use assms in \<open>force simp: table_ok_def\<close>)
  then show ?thesis using for_each_table [of net f tab] assms(1) by (auto simp: table_ok_def)
qed

lemma table_at_id:
  assumes "table_ok sha256 tab" "\<And>r. rx_ok sha256 r \<Longrightarrow> rx_ok sha256 (fst (f r))"
  shows "table_ok sha256 (fst (at_id key_of i f tab))"
proof (cases "Option.bind (key_of i) (map_of tab)")
  case None
  then show ?thesis using assms(1) by (auto simp: at_id_def split: option.splits)
next
  case (Some r)
  then obtain key where key: "key_of i = Some key" "map_of tab key = Some r" by (auto simp: bind_eq_Some_conv)
  have "table_ok sha256 (AList.update key (fst (f r)) tab)"
    using assms table_at [OF assms(1) key(2)] key(2) by (intro table_update) simp_all
  then show ?thesis using key by (simp add: at_id_def case_prod_beta Let_def)
qed

lemma end_incoming_table: "table_ok sha256 tab \<Longrightarrow> table_ok sha256 (fst (end_incoming net k e tab))"
  by (simp add: end_incoming_def table_delete split: option.split)

lemma restart_and_resume_ok: "rx_ok sha256 r \<Longrightarrow> restart_and_resume sha256 cx r = Inr (r', ms) \<Longrightarrow> rx_ok sha256 r'"
proof -
  assume ok: "rx_ok sha256 r" and res: "restart_and_resume sha256 cx r = Inr (r', ms)"
  then obtain q where q: "restart_at (verified r) (next_pass (in_pass r)) (cx_set_len cx 0) r = Some q" "r' = q\<lparr>in_paused := None\<rparr>"
    by (auto simp: restart_and_resume_def Let_def split: option.splits)
  from restart_at_ok(1) [OF rx_okD(1) [OF ok] rx_okD(2) [OF ok] q(1)] show ?thesis by (simp add: q(2) rx_ok_def)
qed

lemma accept_message_ok: "rx_ok sha256 r \<Longrightarrow> rx_ok sha256 (fst (accept_message sha256 wire issued r))"
  by (simp add: accept_message_def Let_def rx_ok_def)

lemma restarted_ok:
  "rx_ok sha256 r \<Longrightarrow> restart_at n p ok r = Some r' \<Longrightarrow> rx_ok sha256 r'"
  using restart_at_ok(1) rx_okD by blast

lemma reoffer_ok: "rx_ok sha256 r \<Longrightarrow> rx_ok sha256 (fst (reoffer sha256 wire cx oc m filename tot r))"
proof -
  assume ok: "rx_ok sha256 r"
  let ?q = "case restart_at (verified r) (in_pass r) (cx_set_len cx 0) r of Some r \<Rightarrow> r | None \<Rightarrow> r"
  have "rx_ok sha256 ?q" using ok restarted_ok by (auto split: option.split)
  then have "rx_ok sha256 (?q\<lparr>in_adopt_any := True, in_old_stream_possible := True, in_paused := None, in_lane_wanted := wants_lane m tot oc\<rparr>)"
    by (simp add: rx_ok_def)
  from accept_message_ok [OF this] ok show ?thesis by (simp add: reoffer_def Let_def)
qed

text \<open>What the store says of a partial file is true: the blocks it vouches for are there, with their hashes.\<close>

definition held_ok :: "(byte list \<Rightarrow> byte list) \<Rightarrow> held option \<Rightarrow> byte list \<Rightarrow> bool" where
  "held_ok sha256 held part =
     (case held of
        None \<Rightarrow> True
      | Some (checkpoint, hashes) \<Rightarrow>
          length hashes = ck_blocks_done checkpoint
          \<and> blocks_ok sha256 (ck_total_size checkpoint)
              (set_len (block_end (ck_total_size checkpoint) (ck_blocks_done checkpoint)) part) hashes)"

lemma begin_incoming_ok:
  assumes "held_ok sha256 (load_receive (fc_transfer_id m) (of_stored oc) (of_part oc)) (of_part oc)"
    and "begin_incoming wire cx oc m filename tot folder = Some r"
  shows "rx_ok sha256 r"
proof (cases "keep_if (\<lambda>(c, hashes). resumes wire m filename tot folder c) (load_receive (fc_transfer_id m) (of_stored oc) (of_part oc))")
  case None
  then show ?thesis using assms(2)
    by (auto simp: begin_incoming_def Let_def rx_ok_def blocks_ok_def progress_ok_def block_end_def split: if_splits)
next
  case (Some held)
  obtain c hashes where held: "held = (c, hashes)" by (cases held)
  then have "load_receive (fc_transfer_id m) (of_stored oc) (of_part oc) = Some (c, hashes)" and "ck_total_size c = tot"
    using Some by (auto simp: keep_if_def resumes_def Let_def split: option.splits if_splits)
  then show ?thesis using assms Some held
    by (auto simp: begin_incoming_def Let_def rx_ok_def held_ok_def progress_ok_def block_end_def split: if_splits)
qed

lemma on_offer_table:
  assumes "table_ok sha256 tab" "held_ok sha256 (load_receive (fc_transfer_id m) (of_stored oc) (of_part oc)) (of_part oc)"
  shows "table_ok sha256 (fst (on_offer sha256 key_of wire cx oc m tab))"
proof -
  have new: "table_ok sha256 (AList.update key (fst (accept_message sha256 wire issued (r\<lparr>in_lane_wanted := w\<rparr>))) (filter P tab))"
    if "begin_incoming wire cx oc m filename tot folder = Some r" "\<not> ACTIVE_PER_DIRECTION \<le> length (filter P tab)"
    for key issued w P filename tot folder r
  proof -
    have "rx_ok sha256 (r\<lparr>in_lane_wanted := w\<rparr>)" using begin_incoming_ok [OF assms(2) that(1)] by (simp add: rx_ok_def)
    then show ?thesis using that(2) by (intro table_update table_filter assms(1) accept_message_ok) simp_all
  qed
  have known: "table_ok sha256 (AList.update key (fst (reoffer sha256 wire cx oc m filename tot r)) tab)"
    if "map_of tab key = Some r" for key filename tot r
    using that by (intro table_update assms(1) reoffer_ok table_at [OF assms(1) that]) simp
  show ?thesis
  proof (cases "\<exists>filename tot key. fc_filename m = Some filename \<and> fc_total_size m = Some tot \<and> key_of (fc_transfer_id m) = Some key")
    case False
    then show ?thesis using assms(1) by (auto simp: on_offer_def split: option.split)
  next
    case True
    then obtain filename tot key where some: "fc_filename m = Some filename" "fc_total_size m = Some tot" "key_of (fc_transfer_id m) = Some key"
      by blast
    show ?thesis
    proof (cases "map_of tab key")
      case None
      then show ?thesis using new table_filter [OF assms(1)] assms(1)
        by (cases "begin_incoming wire cx oc m filename tot (folder_ref_of m)"; cases "folder_ref_of m")
          (simp_all add: on_offer_def some Let_def case_prod_beta)
    next
      case (Some r)
      then show ?thesis using known assms(1) by (simp add: on_offer_def some Let_def case_prod_beta)
    qed
  qed
qed

lemma engine_frame_table:
  assumes "table_ok sha256 tab"
  shows "table_ok sha256 (fst (engine_frame sha256 cx bytes tab))"
proof (cases "parse_frame bytes")
  case (Inr f)
  have len: "length (fr_payload f) = unat (fh_length (fr_header f))"
    using Inr frame_read_was_written by (auto simp: frame_ok_def)
  have stay: "table_ok sha256 (AList.update k r' tab)" if "map_of tab k = Some r" "on_frame sha256 cx f r = Inr (r', ms)" for k r r' ms
    using that by (intro table_update assms on_frame_ok [OF table_at [OF assms that(1)] len that(2)]) simp
  show ?thesis
    by (auto simp: engine_frame_def Inr Let_def intro: stay end_incoming_table assms split: option.split sum.split)
qed (simp add: engine_frame_def assms)

lemma on_done_table:
  assumes "table_ok sha256 tab"
  shows "table_ok sha256 (fst (on_done sha256 key_of wire cx synced placed m tab))"
proof -
  have again: "table_ok sha256 (AList.update k r' tab)"
    if "map_of tab k = Some r" "restart_at 0 p ok (r\<lparr>in_whole_resends := w\<rparr>) = Some r'" for k r r' p ok w
  proof -
    have "rx_ok sha256 (r\<lparr>in_whole_resends := w\<rparr>)" using table_at [OF assms that(1)] by (simp add: rx_ok_def)
    from restarted_ok [OF this that(2)] show ?thesis using that(1) by (intro table_update assms) simp_all
  qed
  have finished: "table_ok sha256 (fst (finish_incoming sha256 wire synced placed k tab))" for k
    by (simp add: finish_incoming_def assms table_delete split: option.split)
  show ?thesis
  proof (cases "Option.bind (key_of (fc_transfer_id m)) (map_of tab)")
    case None
    then show ?thesis using assms by (auto simp: on_done_def split: option.split)
  next
    case (Some r)
    then obtain key where key: "key_of (fc_transfer_id m) = Some key" "map_of tab key = Some r" by (auto simp: bind_eq_Some_conv)
    show ?thesis using again [OF key(2)] finished end_incoming_table [OF assms] assms
      by (simp add: on_done_def key Let_def case_prod_beta split: option.split)
  qed
qed

lemma lane_opened_ok:
  assumes "rx_ok sha256 r"
  shows "rx_ok sha256 (lane_opened_one start p serial cx r)"
proof -
  have "rx_ok sha256 (r'\<lparr>in_on_lane := True, in_lane_serial := serial\<rparr>)" if "restart_at n p ok r = Some r'" for n p ok r'
    using restarted_ok [OF assms that] by (simp add: rx_ok_def)
  then show ?thesis using assms by (auto simp: lane_opened_one_def split: option.split)
qed

lemma lane_lost_ok: "rx_ok sha256 r \<Longrightarrow> rx_ok sha256 (fst (lane_lost_one serial cx r))"
  by (simp add: lane_lost_one_def Let_def rx_ok_def)

lemma lane_switch_ok:
  assumes "rx_ok sha256 r"
  shows "rx_ok sha256 (fst (lane_switch_one m cx r))"
proof -
  have "rx_ok sha256 (r'\<lparr>in_on_lane := False, in_lane_serial := 0\<rparr>)" if "restart_at n p ok r = Some r'" for n p ok r'
    using restarted_ok [OF assms that] by (simp add: rx_ok_def)
  then show ?thesis using assms by (auto simp: lane_switch_one_def Let_def split: option.split)
qed

text \<open>
  Everything that can happen to the table, with any messages and any answers of the disk. What the
  store may answer when a transfer is offered is the parameter \<open>stored\<close>, a condition on the checkpoint
  and the partial file that are found: \<open>\<lambda>_ _. True\<close> when nothing is known of them, which is all that
  \<open>load_receive\<close> itself asks beyond lengths and names.
\<close>

inductive rx_step :: "(held option \<Rightarrow> byte list \<Rightarrow> bool) \<Rightarrow> (byte list \<Rightarrow> byte list) \<Rightarrow> (string \<Rightarrow> byte list option) \<Rightarrow> rx_table \<Rightarrow> rx_table \<Rightarrow> bool"
  for stored sha256 key_of where
  rx_offer: "stored (load_receive (fc_transfer_id m) (of_stored oc) (of_part oc)) (of_part oc)
    \<Longrightarrow> rx_step stored sha256 key_of tab (fst (on_offer sha256 key_of wire cx oc m tab))"
| rx_frame: "rx_step stored sha256 key_of tab (fst (engine_frame sha256 cx bytes tab))"
| rx_done: "rx_step stored sha256 key_of tab (fst (on_done sha256 key_of wire cx synced placed m tab))"
| rx_end: "rx_step stored sha256 key_of tab (fst (end_incoming net k e tab))"
| rx_lane_opened: "rx_step stored sha256 key_of tab (fst (lane_opened key_of i start_block p serial cx tab))"
| rx_lane_lost: "rx_step stored sha256 key_of tab (fst (lane_lost key_of i serial cx tab))"
| rx_lane_switch: "rx_step stored sha256 key_of tab (fst (on_lane_switch key_of m cx tab))"
| rx_overflow: "rx_step stored sha256 key_of tab (fst (restart_after_overflow sha256 net cxs overflow tab))"
| rx_backlog: "rx_step stored sha256 key_of tab (fst (apply_backlog sha256 net cxs queue_pause queue_resume queued tab))"
| rx_storage: "rx_step stored sha256 key_of tab (fst (retry_after_storage_full sha256 net cxs free storage_slack tab))"
| rx_checkpoint: "rx_step stored sha256 key_of tab (checkpoint_due blocks after cxs tab)"

definition rx_init :: "rx_table \<Rightarrow> bool" where
  "rx_init tab \<longleftrightarrow> tab = []"

lemma rx_step_ok:
  assumes "table_ok sha256 tab" "rx_step (held_ok sha256) sha256 key_of tab tab'"
  shows "table_ok sha256 tab'"
  using assms(2,1)
proof (induction rule: rx_step.induct)
  case (rx_overflow tab net cxs overflow)
  then show ?case
    by (auto simp: restart_after_overflow_def overflow_one_def intro!: table_for_each intro: restart_and_resume_ok split: if_splits)
next
  case (rx_backlog tab net cxs queue_pause queue_resume queued)
  have "rx_ok sha256 r'" if "rx_ok sha256 r" "backlog_one sha256 queue_pause queue_resume queued cx r = Inr (r', ms)" for cx r r' ms
    using that restart_and_resume_ok [OF that(1)] by (auto simp: backlog_one_def Let_def rx_ok_def split: if_splits)
  then show ?case using rx_backlog unfolding apply_backlog_def by (intro table_for_each)
next
  case (rx_storage tab net cxs free storage_slack)
  have "rx_ok sha256 r'" if "rx_ok sha256 r" "storage_one sha256 room cx r = Inr (r', ms)" for room cx r r' ms
    using that restart_and_resume_ok [OF that(1)]
    by (auto simp: storage_one_def rx_ok_def split: option.splits pause.splits if_splits)
  then show ?case using rx_storage unfolding retry_after_storage_full_def by (intro table_for_each)
next
  case (rx_checkpoint tab blocks after cxs)
  have "rx_ok sha256 (checkpoint_due_one blocks after cx r) = rx_ok sha256 r" for cx r
    by (simp add: checkpoint_due_one_def Let_def)
  then have "\<forall>kr \<in> set (checkpoint_due blocks after cxs tab). rx_ok sha256 (snd kr)"
    using rx_checkpoint by (auto simp: table_ok_def checkpoint_due_def)
  moreover have "map fst (checkpoint_due blocks after cxs tab) = map fst tab" by (auto simp: checkpoint_due_def)
  moreover have "length (checkpoint_due blocks after cxs tab) = length tab" by (simp add: checkpoint_due_def)
  ultimately show ?case using rx_checkpoint unfolding table_ok_def by metis
qed (auto simp: lane_opened_def lane_lost_def on_lane_switch_def
    intro!: on_offer_table engine_frame_table on_done_table end_incoming_table table_at_id lane_opened_ok lane_lost_ok lane_switch_ok)

interpretation rx: invariant_system rx_init "rx_step (held_ok sha256) sha256 key_of" "table_ok sha256" for sha256 key_of
  by unfold_locales (simp add: rx_init_def table_ok_def, rule rx_step_ok)

lemma rx_step_mono: "rx_step stored sha256 key_of tab tab' \<Longrightarrow> (\<forall>held part. stored held part \<longrightarrow> stored' held part) \<Longrightarrow> rx_step stored' sha256 key_of tab tab'"
  by (induction rule: rx_step.induct) (simp_all add: rx_step.intros)

lemma truthful_table_ok:
  assumes "\<forall>held part. stored held part \<longrightarrow> held_ok sha256 held part" "reachable rx_init (rx_step stored sha256 key_of) tab"
  shows "table_ok sha256 tab"
  by (rule rx.reachable_inv, rule reachable_mono [OF assms(2)]) (rule rx_step_mono [OF _ assms(1)])

subsection \<open>The file received is the file announced\<close>

definition blocks_of :: "byte list \<Rightarrow> byte list list" where
  "blocks_of file = map (\<lambda>i. block_at (length file) i file) [0..<blocks_for (length file)]"

definition file_hash :: "(byte list \<Rightarrow> byte list) \<Rightarrow> byte list \<Rightarrow> byte list" where
  "file_hash sha256 file = sha256 (concat (map sha256 (blocks_of file)))"

text \<open>The pairs of texts whose hashes are equal when two files have the same hash.\<close>

definition compared :: "(byte list \<Rightarrow> byte list) \<Rightarrow> byte list \<Rightarrow> byte list \<Rightarrow> (byte list \<times> byte list) list" where
  "compared sha256 a b =
     (concat (map sha256 (blocks_of a)), concat (map sha256 (blocks_of b))) # zip (blocks_of a) (blocks_of b)"

definition collides :: "(byte list \<Rightarrow> byte list) \<Rightarrow> byte list \<times> byte list \<Rightarrow> bool" where
  "collides sha256 = (\<lambda>(a, b). a \<noteq> b \<and> sha256 a = sha256 b)"

lemma blocks_so_far:
  assumes "n \<le> blocks_for tot" "length file = tot"
  shows "concat (map (\<lambda>i. block_at tot i file) [0..<n]) = take (block_end tot n) file"
  using assms(1)
proof (induction n)
  case (Suc n)
  then have "block_end tot n = n * BLOCK_BYTES" using block_below by (intro block_end_inside) simp
  moreover have "block_end tot n \<le> block_end tot (n + 1)" by (intro block_end_mono) simp
  ultimately show ?case using Suc by (simp add: block_at_def slice_def) (metis le_add_diff_inverse take_add)
qed (simp add: block_end_def)

lemma concat_blocks_of: "concat (blocks_of file) = file"
  using blocks_so_far [of "blocks_for (length file)" "length file" "file"] by (simp add: blocks_of_def block_end_all)

lemma length_blocks_of [simp]: "length (blocks_of file) = blocks_for (length file)"
  by (simp add: blocks_of_def)

lemma concat_same_length:
  assumes "concat xs = concat ys" "length xs = length ys" "\<forall>x \<in> set xs. length x = k" "\<forall>y \<in> set ys. length y = k"
  shows "xs = ys"
  using assms(2,1,3,4) by (induction rule: list_induct2) simp_all

text \<open>Two files of one length with the same hash are the same file, or two of the texts compared collide.\<close>

lemma same_hash_same_file:
  assumes "\<forall>x. length (sha256 x) = 32" "length a = length b" "file_hash sha256 a = file_hash sha256 b"
  shows "a = b \<or> list_ex (collides sha256) (compared sha256 a b)"
proof (rule disjCI)
  assume none: "\<not> list_ex (collides sha256) (compared sha256 a b)"
  then have "concat (map sha256 (blocks_of a)) = concat (map sha256 (blocks_of b))"
    using assms(3) by (auto simp: compared_def collides_def file_hash_def)
  then have hashes: "map sha256 (blocks_of a) = map sha256 (blocks_of b)"
    by (rule concat_same_length) (use assms(1,2) in auto)
  have "blocks_of a = blocks_of b"
  proof (rule nth_equalityI)
    fix i assume i: "i < length (blocks_of a)"
    then have "(blocks_of a ! i, blocks_of b ! i) \<in> set (zip (blocks_of a) (blocks_of b))"
      using assms(2) by (force simp: set_zip)
    moreover have "sha256 (blocks_of a ! i) = sha256 (blocks_of b ! i)"
      using i hashes assms(2) by (metis length_blocks_of nth_map)
    ultimately show "blocks_of a ! i = blocks_of b ! i"
      using none by (auto simp: compared_def collides_def list_ex_iff)
  qed (use assms(2) in simp)
  then show "a = b" using concat_blocks_of by metis
qed

lemma hex_digit_char: "d < 16 \<Longrightarrow> hex_digit (digit_char d) = Some d"
  by (auto simp: hex_digit_def digit_char_def Let_def)

lemma digit_char_ascii: "d < 16 \<Longrightarrow> digit_char d \<noteq> CHR ''+'' \<and> (of_char (digit_char d) :: nat) < 128"
proof -
  assume d: "d < 16"
  have "of_char (digit_char d) \<noteq> (of_char (CHR ''+'') :: nat)" using d by (auto simp: digit_char_def)
  then show ?thesis using d by (auto simp: digit_char_def)
qed

lemma hex_pair_byte: "hex_pair (digit_char (unat b div 16)) (digit_char (unat b mod 16)) = Some b"
  using hex_digit_char [OF byte_high_nibble, of b] hex_digit_char [of "unat b mod 16"] digit_char_ascii [OF byte_high_nibble, of b]
  by (simp add: hex_pair_def)

lemma unhex_hex: "unhex (hex bs) = Some bs"
  by (induction bs) (simp_all add: hex_def hex_byte_def hex_pair_byte)

lemma hex_shape: "length (hex bs) = 2 * length bs \<and> list_all (\<lambda>c. (of_char c :: nat) < 128) (hex bs)"
  using digit_char_ascii [OF byte_high_nibble] digit_char_ascii by (induction bs) (simp_all add: hex_def hex_byte_def)

interpretation hash_text: codec hex unhex32 "\<lambda>h. length h = 32"
  by unfold_locales (simp add: unhex32_def unhex_hex hex_shape)

text \<open>A transfer with every block verified holds a file of the announced length, whose hash is that of its record.\<close>

lemma whole_file:
  assumes "rx_ok sha256 r" "verified r = in_blocks_total r"
  shows "length (in_file r) = in_total r" "hash_of_hashes sha256 (in_hashes r) = file_hash sha256 (in_file r)"
proof -
  note ok = rx_okD(1,2) [OF assms(1)]
  have n: "length (in_hashes r) = blocks_for (in_total r)" using assms(2) ok(2) by (simp add: verified_def)
  then show len: "length (in_file r) = in_total r" using ok(1) block_end_all by (simp add: blocks_ok_def)
  have "in_hashes r = map sha256 (blocks_of (in_file r))"
    using ok(1) n len by (intro nth_equalityI) (simp_all add: blocks_ok_def blocks_of_def)
  then show "hash_of_hashes sha256 (in_hashes r) = file_hash sha256 (in_file r)" by (simp add: hash_of_hashes_def file_hash_def)
qed

lemma on_done_finished:
  assumes "on_done sha256 key_of wire cx synced placed m tab = (tab', ms, Some r)"
  shows "\<exists>key. map_of tab key = Some r \<and> fc_total_size m = Some (in_total r) \<and> verified r = in_blocks_total r
    \<and> hash_matches (fc_file_hash m) (hex (hash_of_hashes sha256 (in_hashes r)))"
proof (cases "Option.bind (key_of (fc_transfer_id m)) (map_of tab)")
  case None
  then show ?thesis using assms by (auto simp: on_done_def split: option.splits)
next
  case (Some q)
  then obtain key where key: "key_of (fc_transfer_id m) = Some key" "map_of tab key = Some q" by (auto simp: bind_eq_Some_conv)
  then have "q = r \<and> fc_total_size m = Some (in_total q) \<and> verified q = in_blocks_total q \<and> hash_matches (fc_file_hash m) (hex (hash_of_hashes sha256 (in_hashes q)))"
    using assms by (auto simp: on_done_def finish_incoming_def Let_def case_prod_beta split: if_splits option.splits)
  then show ?thesis using key by blast
qed

text \<open>
  C12. A file is handed on only when it is the file that was announced, provided that every stored
  checkpoint a transfer was resumed from told the truth about its partial file. Whatever was sent to
  the receiver and whatever else the disk answered, when \<open>on_done\<close> finishes a transfer the partial
  file has exactly the announced length and the hash of its bytes, block by block, is the announced
  one, although it is never read again; and any file of that length and hash is this file, unless
  two of the texts compared are a collision of SHA-256. The proviso is needed
  (\<open>stale_resume_hands_on_other_bytes\<close>) and holds of a checkpoint whose synced blocks are intact (C14).
\<close>

theorem received_file_is_whole:
  assumes "\<forall>x. length (sha256 x) = 32" and "\<forall>held part. stored held part \<longrightarrow> held_ok sha256 held part"
    and "reachable rx_init (rx_step stored sha256 key_of) tab"
    and "on_done sha256 key_of wire cx synced placed m tab = (tab', ms, Some r)"
  shows "fc_total_size m = Some (length (in_file r))
    \<and> Option.bind (fc_file_hash m) unhex32 = Some (file_hash sha256 (in_file r))
    \<and> (\<forall>src. fc_total_size m = Some (length src) \<and> Option.bind (fc_file_hash m) unhex32 = Some (file_hash sha256 src)
         \<longrightarrow> in_file r = src \<or> list_ex (collides sha256) (compared sha256 src (in_file r)))"
proof -
  from on_done_finished [OF assms(4)] obtain key where key: "map_of tab key = Some r" "fc_total_size m = Some (in_total r)"
    "verified r = in_blocks_total r" "hash_matches (fc_file_hash m) (hex (hash_of_hashes sha256 (in_hashes r)))" by blast
  note whole = whole_file [OF table_at [OF truthful_table_ok [OF assms(2,3)] key(1)] key(3)]
  have "unhex32 (hex (hash_of_hashes sha256 (in_hashes r))) = Some (file_hash sha256 (in_file r))"
    using hash_text.dec_enc assms(1) whole(2) by (simp add: file_hash_def)
  then have "Option.bind (fc_file_hash m) unhex32 = Some (file_hash sha256 (in_file r))"
    using key(4) by (auto simp: hash_matches_def split: option.splits)
  moreover have "in_file r = src \<or> list_ex (collides sha256) (compared sha256 src (in_file r))"
    if "in_total r = length src" "file_hash sha256 (in_file r) = file_hash sha256 src" for src
    using same_hash_same_file [OF assms(1), of src "in_file r"] that whole(1) by auto
  ultimately show ?thesis using key(2) whole(1) by auto
qed

definition demo_sha :: "byte list \<Rightarrow> byte list" where
  "demo_sha bs = take 32 (bs @ replicate 32 0)"

definition demo_key :: "string \<Rightarrow> byte list option" where
  "demo_key i = Some (replicate 16 7)"

definition demo_file_wire :: wire_binding where
  "demo_file_wire = \<lparr>sender_device_id = ''desk'', peer_device_id = ''phone'', wb_session_id = 1, wb_generation = 1\<rparr>"

definition demo_cx :: rx_ctx where
  "demo_cx = \<lparr>cx_net = Some demo_file_wire, cx_now = 0, cx_storage_retry = 5000, cx_set_len = (\<lambda>_. True), cx_write = Written, cx_saved = True\<rparr>"

definition demo_oc :: offer_ctx where
  "demo_oc = \<lparr>of_accepts = True, of_gallery_ok = True, of_has_room = True, of_lane_target = False, of_issued = None,
     of_stored = None, of_part = [], of_destination = ''a'', of_capture_ok = True, of_begun = True\<rparr>"

definition demo_offer :: file_control where
  "demo_offer = (control_new_msg demo_file_wire Offer ''t'' ''token'')\<lparr>fc_filename := Some ''a'', fc_total_size := Some 2, fc_mtime := Some 1\<rparr>"

definition demo_frame :: frame where
  "demo_frame = \<lparr>fr_header = \<lparr>fh_last_of_block = True, fh_pass = 0, fh_transfer = replicate 16 7, fh_block_index = 0,
     fh_offset = 0, fh_length = 2\<rparr>, fr_payload = [5, 6], fr_trailer = Some (demo_sha [5, 6])\<rparr>"

definition demo_done :: file_control where
  "demo_done = (control_new_msg demo_file_wire Done ''t'' ''token'')
     \<lparr>fc_blocks := Some 1, fc_total_size := Some 2, fc_file_hash := Some (hex (file_hash demo_sha [5, 6]))\<rparr>"

definition demo_table :: rx_table where
  "demo_table = fst (engine_frame demo_sha demo_cx (encode_frame demo_frame) (fst (on_offer demo_sha demo_key demo_file_wire demo_cx demo_oc demo_offer [])))"

lemma demo_table_reachable: "reachable rx_init (rx_step (held_ok demo_sha) demo_sha demo_key) demo_table"
proof -
  have "held_ok demo_sha (load_receive (fc_transfer_id demo_offer) (of_stored demo_oc) (of_part demo_oc)) (of_part demo_oc)"
    by (simp add: demo_oc_def load_receive_def held_ok_def)
  from rx_offer [where stored = "held_ok demo_sha", OF this] have step: "rx_step (held_ok demo_sha) demo_sha demo_key [] (fst (on_offer demo_sha demo_key demo_file_wire demo_cx demo_oc demo_offer []))" .
  have "reachable rx_init (rx_step (held_ok demo_sha) demo_sha demo_key) []" by (rule reach_init) (simp add: rx_init_def)
  from reach_step [OF this step] have
    "reachable rx_init (rx_step (held_ok demo_sha) demo_sha demo_key) (fst (on_offer demo_sha demo_key demo_file_wire demo_cx demo_oc demo_offer []))" .
  from reach_step [OF this rx_frame] show ?thesis unfolding demo_table_def .
qed

lemma length_demo_sha [simp]: "length (demo_sha x) = 32"
  by (simp add: demo_sha_def min_def)

lemma demo_frame_parsed: "parse_frame (encode_frame demo_frame) = Inr demo_frame" "length (encode_frame demo_frame) = 74"
proof -
  show "parse_frame (encode_frame demo_frame) = Inr demo_frame"
    by (rule frame_written_is_read) (simp add: frame_ok_def demo_frame_def BLOCK_TRAILER_BYTES_def)
qed (simp add: encode_frame_def demo_frame_def header_write_def MAGIC_def unwrap_or_def)

lemmas demo_defs = demo_cx_def demo_oc_def demo_offer_def demo_done_def demo_file_wire_def demo_key_def control_new_msg_def

lemma demo_offered:
  "\<exists>r. fst (on_offer demo_sha demo_key demo_file_wire demo_cx demo_oc demo_offer []) = [(replicate 16 7, r)] \<and> in_file r = [] \<and> in_total r = 2
    \<and> in_blocks_total r = 1 \<and> in_hashes r = [] \<and> in_hasher r = None \<and> in_next_offset r = 0 \<and> in_adopt_any r \<and> in_paused r = None \<and> in_token r = ''token'' \<and> in_filename r = ''a''"
  by (simp add: on_offer_def demo_defs begin_incoming_def load_receive_def keep_if_def accept_message_def folder_ref_of_def checkpoint_now_def
      Let_def MAX_TRANSFER_BYTES_def ACTIVE_PER_DIRECTION_def blocks_for_def BLOCK_BYTES_def is_clipboard_offer_def wants_lane_def)

lemma demo_received:
  "\<exists>r. demo_table = [(replicate 16 7, r)] \<and> in_file r = [5, 6] \<and> in_total r = 2 \<and> in_blocks_total r = 1 \<and> in_hashes r = [demo_sha [5, 6]]
    \<and> in_token r = ''token'' \<and> in_filename r = ''a''"
proof -
  obtain r where r: "fst (on_offer demo_sha demo_key demo_file_wire demo_cx demo_oc demo_offer []) = [(replicate 16 7, r)]" "in_file r = []"
    "in_total r = 2" "in_blocks_total r = 1" "in_hashes r = []" "in_hasher r = None" "in_next_offset r = 0" "in_adopt_any r" "in_paused r = None"
    "in_token r = ''token''" "in_filename r = ''a''" using demo_offered by blast
  show ?thesis
    by (simp add: demo_table_def r engine_frame_def demo_frame_parsed message_fits_def FRAME_BYTES_PROVEN_def FRAME_BYTES_DEFAULT_def)
      (simp add: demo_frame_def demo_cx_def on_frame_def header_check_def storage_paused_def adopts_def verified_def restarted_payload_def
        restart_at_def take_payload_def finish_block_def write_at_def set_len_def unwrap_or_def Let_def r BLOCK_BYTES_def)
qed

lemma demo_finishes:
  "map_option in_file (snd (snd (on_done demo_sha demo_key demo_file_wire demo_cx True True demo_done demo_table))) = Some [5, 6]"
proof -
  obtain r where r: "demo_table = [(replicate 16 7, r)]" "in_file r = [5, 6]" "in_total r = 2" "in_blocks_total r = 1"
    "in_hashes r = [demo_sha [5, 6]]" "in_token r = ''token''" using demo_received by blast
  have "file_hash demo_sha [5, 6] = hash_of_hashes demo_sha [demo_sha [5, 6]]"
    by (simp add: file_hash_def hash_of_hashes_def blocks_of_def block_at_def block_end_def slice_def blocks_for_def BLOCK_BYTES_def)
  moreover have "unhex32 (hex (demo_sha x)) = Some (demo_sha x)" for x by (simp add: hash_text.dec_enc)
  ultimately show ?thesis
    by (simp add: on_done_def r demo_key_def demo_done_def control_new_msg_def verified_def hash_matches_def finish_incoming_def hash_of_hashes_def)
qed

theorem received_file_is_whole_witness:
  "\<exists>r. snd (snd (on_done demo_sha demo_key demo_file_wire demo_cx True True demo_done demo_table)) = Some r \<and> in_file r = [5, 6]
    \<and> Option.bind (fc_file_hash demo_done) unhex32 = Some (file_hash demo_sha (in_file r))"
proof -
  obtain tab' ms o' where res: "on_done demo_sha demo_key demo_file_wire demo_cx True True demo_done demo_table = (tab', ms, o')"
    by (metis prod_cases3)
  then obtain r where r: "o' = Some r" "in_file r = [5, 6]" using demo_finishes by auto
  have "\<forall>x. length (demo_sha x) = 32" by simp
  from received_file_is_whole [OF this _ demo_table_reachable res [unfolded r(1)]] show ?thesis using res r by auto
qed

subsection \<open>Carrying on after a crash\<close>

lemma blocks_held_ok: "blocks_held tot k n \<le> n \<and> block_end tot (blocks_held tot k n) \<le> k"
  by (induction n) (auto simp: block_end_def)

lemma blocks_held_all: "block_end tot n \<le> k \<Longrightarrow> blocks_held tot k n = n"
  by (cases n) (auto simp: block_end_def)

text \<open>
  C14. What a checkpoint promises is kept. After a crash the partial file may have lost its end, or
  hold anything after the blocks that were synced; carrying on from the checkpoint then vouches only
  for blocks that are still there, with their right hashes, and for all of them if none was cut off.
\<close>

theorem checkpoint_is_sound:
  assumes "rx_ok sha256 r" and "in_total r \<le> MAX_TRANSFER_BYTES"
    and "validate_filename (in_filename r)" and "validate_filename (in_destination_name r)"
    and "\<forall>n. n \<le> block_end (in_total r) (verified r) \<and> n \<le> length part \<longrightarrow> take n part = take n (in_file r)"
  shows "\<exists>c hashes. load_receive (in_id r) (in_stored (checkpoint_now True t r)) part = Some (c, hashes)
    \<and> held_ok sha256 (Some (c, hashes)) part \<and> ck_blocks_done c \<le> verified r
    \<and> (block_end (in_total r) (verified r) \<le> length part \<longrightarrow> ck_blocks_done c = verified r \<and> hashes = in_hashes r)"
proof -
  define n where "n = blocks_held (in_total r) (length part) (verified r)"
  note ok = rx_okD(1,2) [OF assms(1)]
  have n: "n \<le> length (in_hashes r)" "block_end (in_total r) n \<le> length part"
    using blocks_held_ok unfolding n_def verified_def by blast+
  have load: "load_receive (in_id r) (in_stored (checkpoint_now True t r)) part = Some (receive_record r\<lparr>ck_blocks_done := n\<rparr>, take n (in_hashes r))"
    using assms(2-4) ok by (simp add: load_receive_def checkpoint_now_def checkpoint_is_consistent_def receive_record_def blocks_ok_def
        verified_def n_def Let_def)
  have "block_end (in_total r) n \<le> block_end (in_total r) (verified r)" using n(1) by (intro block_end_mono) (simp add: verified_def)
  then have "set_len (block_end (in_total r) n) part = set_len (block_end (in_total r) n) (in_file r)"
    using assms(5) n(2) ok(1) by (simp add: set_len_shorter blocks_ok_def verified_def)
  then have "held_ok sha256 (Some (receive_record r\<lparr>ck_blocks_done := n\<rparr>, take n (in_hashes r))) part"
    using blocks_ok_cut [OF ok(1) n(1)] n(1) by (simp add: held_ok_def receive_record_def)
  moreover have "n = verified r" if "block_end (in_total r) (verified r) \<le> length part"
    using blocks_held_all [OF that] by (simp add: n_def)
  ultimately show ?thesis using load n(1) by (auto simp: verified_def)
qed

text \<open>
  A transfer that began again holds other bytes than its last checkpoint says: until the next
  checkpoint the store's hashes are those of the bytes before.
\<close>

definition demo_cut :: incoming where
  "demo_cut = \<lparr>in_id = ''t'', in_token = [], in_device_id = [], in_filename = ''a'', in_destination_name = ''a'', in_total = 1,
     in_blocks_total = 1, in_mtime = 0, in_folder = None, in_content_sha256 = None, in_clipboard = False, in_gallery = False,
     in_lane_wanted = False, in_on_lane = False, in_lane_serial = 0, in_capture_id = None, in_file = [5], in_pass = 0,
     in_adopt_any = False, in_old_stream_possible = False, in_next_offset = 1, in_hashes = [demo_sha [5]], in_hasher = None,
     in_rewinds = 0, in_whole_resends = 0, in_paused = None, in_last_checkpoint = 0, in_checkpointed_blocks = 0, in_stored = None\<rparr>"

theorem checkpoint_is_sound_witness:
  "\<exists>c hashes. load_receive ''t'' (in_stored (checkpoint_now True 0 demo_cut)) [5, 9] = Some (c, hashes)
    \<and> held_ok demo_sha (Some (c, hashes)) [5, 9] \<and> ck_blocks_done c = 1"
proof -
  have ok: "rx_ok demo_sha demo_cut"
    by (simp add: demo_cut_def rx_ok_def blocks_ok_def progress_ok_def blocks_for_def block_end_def block_at_def slice_def BLOCK_BYTES_def)
  have end_is: "block_end (in_total demo_cut) (verified demo_cut) = 1"
    by (simp add: demo_cut_def verified_def block_end_def BLOCK_BYTES_def)
  have "take n [5, 9] = take n (in_file demo_cut)" if "n \<le> 1" for n
    using that by (cases n) (simp_all add: demo_cut_def)
  then show ?thesis using checkpoint_is_sound [OF ok, of "[5, 9]" 0] end_is
    by (auto simp: demo_cut_def verified_def MAX_TRANSFER_BYTES_def validate_filename_def)
qed

lemma stale_checkpoint:
  "\<exists>r f r'. restart_at 0 1 True (checkpoint_now True 0 demo_cut) = Some r \<and> on_frame demo_sha demo_cx f r = Inr r'
    \<and> \<not> held_ok demo_sha (load_receive ''t'' (in_stored (fst r')) (in_file (fst r'))) (in_file (fst r'))"
proof -
  let ?f = "\<lparr>fr_header = \<lparr>fh_last_of_block = True, fh_pass = 1, fh_transfer = [], fh_block_index = 0, fh_offset = 0, fh_length = 1\<rparr>,
    fr_payload = [6], fr_trailer = Some (demo_sha [6])\<rparr>"
  have differ: "demo_sha [5] \<noteq> demo_sha [6]" by (simp add: demo_sha_def)
  obtain r where r: "restart_at 0 1 True (checkpoint_now True 0 demo_cut) = Some r" by (simp add: restart_at_def)
  then have fields: "in_total r = 1" "in_file r = []" "in_hashes r = []" "in_hasher r = None" "in_next_offset r = 0" "in_pass r = 1"
    "\<not> in_adopt_any r" "in_paused r = None" "in_stored r = Some (receive_record demo_cut, [demo_sha [5]])"
    by (auto simp: restart_at_def demo_cut_def checkpoint_now_def set_len_def Let_def)
  have "\<exists>r'. on_frame demo_sha demo_cx ?f r = Inr r' \<and> in_file (fst r') = [6]
      \<and> in_stored (fst r') = Some (receive_record demo_cut, [demo_sha [5]])"
    by (simp add: fields on_frame_def header_check_def storage_paused_def take_payload_def finish_block_def write_at_def set_len_def unwrap_or_def
        Let_def demo_cx_def BLOCK_BYTES_def)
  then obtain r' where r': "on_frame demo_sha demo_cx ?f r = Inr r'" "in_file (fst r') = [6]"
    "in_stored (fst r') = Some (receive_record demo_cut, [demo_sha [5]])" by blast
  have "\<not> held_ok demo_sha (load_receive ''t'' (Some (receive_record demo_cut, [demo_sha [5]])) [6]) [6]"
    using differ by (simp add: load_receive_def receive_record_def demo_cut_def checkpoint_is_consistent_def held_ok_def verified_def blocks_ok_def
        block_end_def block_at_def slice_def set_len_def MAX_TRANSFER_BYTES_def blocks_for_def BLOCK_BYTES_def validate_filename_def)
  then show ?thesis using r r' by metis
qed

text \<open>
  The proviso of C12 is needed. The checkpoint left behind in \<open>stale_checkpoint\<close>, of a file that holds
  another byte by then, is resumed from; a \<open>done\<close> that announces the bytes the checkpoint was taken of is
  then accepted, and the other byte is handed on.
\<close>

lemma stale_resume_hands_on_other_bytes:
  "\<exists>oc offer over tab r. tab = fst (on_offer demo_sha demo_key demo_file_wire demo_cx oc offer [])
    \<and> reachable rx_init (rx_step (\<lambda>_ _. True) demo_sha demo_key) tab
    \<and> snd (snd (on_done demo_sha demo_key demo_file_wire demo_cx True True over tab)) = Some r
    \<and> Option.bind (fc_file_hash over) unhex32 = Some (file_hash demo_sha [5]) \<and> in_file r = [6]"
proof -
  let ?cut = "demo_cut\<lparr>in_device_id := ''phone'', in_token := ''token'', in_mtime := 1\<rparr>"
  let ?oc = "demo_oc\<lparr>of_stored := Some (receive_record ?cut, [demo_sha [5]]), of_part := [6]\<rparr>"
  let ?offer = "demo_offer\<lparr>fc_total_size := Some 1\<rparr>"
  let ?done = "demo_done\<lparr>fc_total_size := Some 1, fc_file_hash := Some (hex (file_hash demo_sha [5]))\<rparr>"
  let ?tab = "fst (on_offer demo_sha demo_key demo_file_wire demo_cx ?oc ?offer [])"
  have "rx_step (\<lambda>_ _. True) demo_sha demo_key [] ?tab" by (rule rx_offer) simp
  then have reach: "reachable rx_init (rx_step (\<lambda>_ _. True) demo_sha demo_key) ?tab"
    using reach_init [of rx_init "[]"] by (auto simp: rx_init_def intro: reach_step)
  have "\<exists>r. ?tab = [(replicate 16 7, r)] \<and> in_file r = [6] \<and> in_total r = 1 \<and> in_blocks_total r = 1 \<and> in_hashes r = [demo_sha [5]]
      \<and> in_token r = ''token''"
    by (simp add: on_offer_def demo_defs begin_incoming_def load_receive_def keep_if_def accept_message_def folder_ref_of_def checkpoint_now_def
        demo_cut_def receive_record_def checkpoint_is_consistent_def resumes_def validate_filename_def verified_def set_len_def block_end_def
        Let_def MAX_TRANSFER_BYTES_def ACTIVE_PER_DIRECTION_def blocks_for_def BLOCK_BYTES_def is_clipboard_offer_def wants_lane_def unwrap_or_def)
  then obtain r where r: "?tab = [(replicate 16 7, r)]" "in_file r = [6]" "in_total r = 1" "in_blocks_total r = 1"
    "in_hashes r = [demo_sha [5]]" "in_token r = ''token''" by blast
  have hash: "file_hash demo_sha [5] = hash_of_hashes demo_sha [demo_sha [5]]"
    by (simp add: file_hash_def hash_of_hashes_def blocks_of_def block_at_def block_end_def slice_def blocks_for_def BLOCK_BYTES_def)
  have code: "unhex32 (hex (demo_sha x)) = Some (demo_sha x)" for x by (simp add: hash_text.dec_enc)
  have "snd (snd (on_done demo_sha demo_key demo_file_wire demo_cx True True ?done ?tab)) = Some r"
    unfolding r(1) using hash code r(2-6) by (simp add: on_done_def demo_key_def demo_done_def control_new_msg_def verified_def
        hash_matches_def finish_incoming_def hash_of_hashes_def)
  moreover have "Option.bind (fc_file_hash ?done) unhex32 = Some (file_hash demo_sha [5])"
    using hash code by (simp add: hash_of_hashes_def)
  ultimately show ?thesis using reach r(2) by blast
qed

end
