(* ===== verification/File_Send.thy ===== *)
theory File_Send
  imports File_Receive
begin

section \<open>Sending a file\<close>

text \<open>
  \<open>src/device_links/webrtc/transfer_manager/send.rs\<close>: one outgoing transfer, from its offer to the receiver's
  word that the file is whole, and the exchange of both ends.

  The source is what looking at it and reading it give at that moment. A lane is up or not; the
  thread that writes to it, the peer's back-off and what is shown to the person are left out. Each
  operation is that of the transfer the message names; \<open>Inl\<close> is an \<open>Ending\<close>, after which it is gone.
\<close>

definition UNACKED_MAX :: nat where "UNACKED_MAX = 8 * 1024 * 1024"
definition MAX_LANE_FAILURES :: nat where "MAX_LANE_FAILURES = 3"
definition PROMOTE_DRAIN :: nat where "PROMOTE_DRAIN = 2000"
definition HANDSHAKE_LIMIT :: nat where "HANDSHAKE_LIMIT = 3000"
definition STALL_LIMIT :: nat where "STALL_LIMIT = 5000"

abbreviation REASON_NO_PROGRESS :: string where "REASON_NO_PROGRESS \<equiv> ''no-progress''"

datatype send_state = Queued | Offered | Verifying | Sending | AwaitComplete

record prefix_verify =
  vf_upto :: nat
  vf_expect :: "byte list"
  vf_hashes :: "byte list list"
  vf_pass_ok :: byte
  vf_pass_bad :: byte

datatype trouble = Gone | Changed | ReadFailed

datatype lane_tx = LaneOff | LanePending nat string nat | LaneDialing nat | LaneUp

record outgoing =
  og_id :: string
  og_token :: string
  og_filename :: string
  og_total :: nat
  og_blocks_total :: nat
  og_mtime :: int
  og_clipboard_mime :: "string option"
  og_folder :: "folder_ref option"
  og_content_sha256 :: "string option"
  og_state :: send_state
  og_offered :: bool
  og_frame_max :: nat
  og_pass :: byte
  og_rewinds :: nat
  og_hashes :: "byte list list"
  og_hasher :: "byte list option"
  og_next_offset :: nat
  og_acked :: nat
  og_peer_pause :: "string option"
  og_verify :: "prefix_verify option"
  og_lane_offered :: bool
  og_lane :: lane_tx
  og_lane_failed :: "nat option"
  og_lane_failures :: nat
  og_lane_failures_total :: nat
  og_lane_releases :: nat
  og_lane_clean :: bool
  og_lane_retry :: nat
  og_token_fresh :: nat
  og_lane_refreshes :: nat
  og_lane_await :: "(byte \<times> nat) option"
  og_lane_nacks :: nat
  og_lane_ack_at :: nat
  og_promote_drain :: "nat option"

definition is_held :: "outgoing \<Rightarrow> bool" where
  "is_held og = (case og_peer_pause og of Some why \<Rightarrow> why \<noteq> REASON_NO_PROGRESS | None \<Rightarrow> False)"

definition og_on_lane :: "outgoing \<Rightarrow> bool" where
  "og_on_lane og \<longleftrightarrow> og_lane og = LaneUp"

definition can_send :: "outgoing \<Rightarrow> bool" where
  "can_send og \<longleftrightarrow>
     og_state og = Sending
     \<and> \<not> (case og_lane og of LanePending _ _ _ \<Rightarrow> True | LaneDialing _ \<Rightarrow> True | _ \<Rightarrow> False)
     \<and> og_lane_await og = None \<and> \<not> is_held og
     \<and> \<not> (og_promote_drain og \<noteq> None \<and> og_next_offset og mod BLOCK_BYTES = 0)
     \<and> og_next_offset og < og_total og
     \<and> og_next_offset og - min (og_acked og * BLOCK_BYTES) (og_total og) < UNACKED_MAX"

definition og_tell :: "wire_binding \<Rightarrow> file_action \<Rightarrow> outgoing \<Rightarrow> (file_control \<Rightarrow> file_control) \<Rightarrow> file_control" where
  "og_tell wire action og fill = fill (control_new_msg wire action (og_id og) (og_token og))"

text \<open>\<open>lane_open\<close>: the peer is not backed off and a path to it is there.\<close>

definition offer_message :: "wire_binding \<Rightarrow> bool \<Rightarrow> outgoing \<Rightarrow> outgoing \<times> file_control" where
  "offer_message wire lane_open og =
     (let offer = og_tell wire Offer og (\<lambda>m. m\<lparr>fc_filename := Some (og_filename og), fc_total_size := Some (og_total og),
            fc_mtime := Some (og_mtime og), fc_block_size := Some BLOCK_BYTES, fc_max_frame_bytes := Some FRAME_BYTES_PROVEN\<rparr>);
          offer = (case og_clipboard_mime og of
                     Some mime \<Rightarrow> offer\<lparr>fc_clipboard := Some True, fc_mime_type := Some mime\<rparr> | None \<Rightarrow> offer);
          offer = (case og_folder og of
                     Some folder \<Rightarrow> offer\<lparr>fc_folder := Some (fr_folder folder), fc_relpath := Some (fr_relpath folder),
                       fc_content_sha256 := og_content_sha256 og\<rparr>
                   | None \<Rightarrow> offer)
      in if MIN_FILE_BYTES \<le> og_total og \<and> og_lane_failures_total og < MAX_LANE_FAILURES \<and> og_clipboard_mime og = None \<and> lane_open
         then (og\<lparr>og_lane_offered := True\<rparr>, offer\<lparr>fc_lane := Some lane_offer\<rparr>)
         else (og\<lparr>og_lane_offered := False\<rparr>, offer))"

subsection \<open>Where sending starts\<close>

definition begin_at :: "nat \<Rightarrow> byte \<Rightarrow> outgoing \<Rightarrow> outgoing" where
  "begin_at blocks pass og =
     og\<lparr>og_hashes := take blocks (og_hashes og), og_hasher := None,
        og_next_offset := min (blocks * BLOCK_BYTES) (og_total og), og_acked := blocks, og_pass := pass,
        og_state := Sending, og_verify := None\<rparr>"

definition rewind_to :: "nat \<Rightarrow> byte \<Rightarrow> outgoing \<Rightarrow> outgoing" where
  "rewind_to blocks pass og =
     og\<lparr>og_hashes := take blocks (og_hashes og), og_hasher := None,
        og_next_offset := min (blocks * BLOCK_BYTES) (og_total og), og_acked := min (og_acked og) blocks, og_pass := pass,
        og_state := Sending\<rparr>"

definition restart_from ::
  "(byte list \<Rightarrow> byte list) \<Rightarrow> nat \<Rightarrow> byte list \<Rightarrow> byte \<Rightarrow> byte \<Rightarrow> outgoing \<Rightarrow> (ending, outgoing) result" where
  "restart_from sha256 blocks prefix pass_ok pass_bad og =
     (if og_blocks_total og < blocks then Inl ending_internal
      else if blocks = 0 then Inr (begin_at 0 (if prefix = hash_of_hashes sha256 [] then pass_ok else pass_bad) og)
      else if blocks \<le> length (og_hashes og) then
        (let right = (hash_of_hashes sha256 (take blocks (og_hashes og)) = prefix)
         in Inr (begin_at (if right then blocks else 0) (if right then pass_ok else pass_bad) og))
      else Inr (og\<lparr>og_state := Verifying, og_verify := Some \<lparr>vf_upto = blocks, vf_expect = prefix, vf_hashes = [],
                     vf_pass_ok = pass_ok, vf_pass_bad = pass_bad\<rparr>\<rparr>))"

definition on_peer_resume :: "(byte list \<Rightarrow> byte list) \<Rightarrow> file_control \<Rightarrow> outgoing \<Rightarrow> (ending, outgoing) result" where
  "on_peer_resume sha256 m og =
     (let og = og\<lparr>og_peer_pause := None\<rparr> in
      case (fc_resume_block m, Option.bind (fc_prefix_sha256 m) unhex32, fc_pass m) of
        (Some blocks, Some prefix, Some pass) \<Rightarrow> restart_from sha256 blocks prefix pass (next_pass pass) og
      | _ \<Rightarrow> Inr og)"

subsection \<open>Reading the source\<close>

datatype metadata = MetaFile nat int | MetaOther | MetaMissing | MetaError

text \<open>What the source is at one moment: its metadata, whether it opens, and its bytes.\<close>

record source =
  so_meta :: metadata
  so_open :: "trouble option"
  so_bytes :: "byte list"

definition stat_source :: "source \<Rightarrow> outgoing \<Rightarrow> (trouble, unit) result" where
  "stat_source so og =
     (case so_meta so of
        MetaFile len mtime \<Rightarrow> if len = og_total og \<and> mtime = og_mtime og then Inr () else Inl Changed
      | MetaOther \<Rightarrow> Inl Gone
      | MetaMissing \<Rightarrow> Inl Gone
      | MetaError \<Rightarrow> Inl ReadFailed)"

definition read_exact_at :: "source \<Rightarrow> nat \<Rightarrow> nat \<Rightarrow> (trouble, byte list) result" where
  "read_exact_at so offset len =
     (case so_open so of
        Some t \<Rightarrow> Inl t
      | None \<Rightarrow> if length (so_bytes so) < offset + len then Inl Changed else Inr (slice offset (offset + len) (so_bytes so)))"

text \<open>\<open>key\<close> is the sixteen bytes of the transfer's id.\<close>

definition next_frame ::
  "(byte list \<Rightarrow> byte list) \<Rightarrow> byte list \<Rightarrow> source \<Rightarrow> outgoing \<Rightarrow> (trouble, outgoing \<times> byte list) result" where
  "next_frame sha256 key so og =
     (let starts = (og_next_offset og mod BLOCK_BYTES = 0) in
      res_bind (if starts then stat_source so og else Inr ()) (\<lambda>_.
        (let og = (if starts then og\<lparr>og_hasher := Some []\<rparr> else og);
             block = og_next_offset og div BLOCK_BYTES;
             block_stop = min ((block + 1) * BLOCK_BYTES) (og_total og);
             len = min (payload_capacity (og_frame_max og)) (block_stop - og_next_offset og);
             is_last = (og_next_offset og + len = block_stop);
             h = \<lparr>fh_last_of_block = is_last, fh_pass = og_pass og, fh_transfer = key, fh_block_index = word_of_nat block,
                  fh_offset = word_of_nat (og_next_offset og), fh_length = word_of_nat len\<rparr>
         in res_bind (read_exact_at so (og_next_offset og) len) (\<lambda>bytes.
              (let hasher = map_option (\<lambda>fed. fed @ bytes) (og_hasher og);
                   hash = (case hasher of Some fed \<Rightarrow> sha256 fed | None \<Rightarrow> replicate 32 0);
                   og = (if is_last then og\<lparr>og_hasher := None, og_hashes := og_hashes og @ [hash]\<rparr> else og\<lparr>og_hasher := hasher\<rparr>)
               in Inr (og\<lparr>og_next_offset := og_next_offset og + len\<rparr>,
                       header_write h @ bytes @ (if is_last then hash else [])))))))"

definition rollback_block :: "outgoing \<Rightarrow> outgoing" where
  "rollback_block og =
     (let block = (og_next_offset og - 1) div BLOCK_BYTES in
      og\<lparr>og_hashes := take block (og_hashes og), og_hasher := None, og_next_offset := block * BLOCK_BYTES\<rparr>)"

definition verify_step :: "(byte list \<Rightarrow> byte list) \<Rightarrow> source \<Rightarrow> outgoing \<Rightarrow> (trouble, outgoing) result" where
  "verify_step sha256 so og =
     (case og_verify og of
        None \<Rightarrow> Inr og
      | Some v \<Rightarrow>
          (let index = length (vf_hashes v) in
           res_bind (if index = 0 then stat_source so og else Inr ()) (\<lambda>_.
             (let start = index * BLOCK_BYTES; len = min BLOCK_BYTES (og_total og - start) in
              res_bind (read_exact_at so start len) (\<lambda>block.
                (let hashes = vf_hashes v @ [sha256 block] in
                 if length hashes = vf_upto v then
                   (if hash_of_hashes sha256 hashes = vf_expect v
                    then Inr (begin_at (length hashes) (vf_pass_ok v) (og\<lparr>og_hashes := hashes\<rparr>))
                    else Inr (begin_at 0 (vf_pass_bad v) og))
                 else Inr (og\<lparr>og_verify := Some (v\<lparr>vf_hashes := hashes\<rparr>)\<rparr>)))))))"

subsection \<open>The lane\<close>

definition tell_lane :: "wire_binding \<Rightarrow> string \<Rightarrow> outgoing \<Rightarrow> file_control" where
  "tell_lane wire kind og =
     og_tell wire Lane og (\<lambda>m. m\<lparr>fc_lane := Some (lane_switch kind (og_next_offset og div BLOCK_BYTES) (og_pass og))\<rparr>)"

definition lane_gave_up :: "nat \<Rightarrow> outgoing \<Rightarrow> outgoing" where
  "lane_gave_up now og =
     og\<lparr>og_lane_failed := Some now, og_lane_failures := og_lane_failures og + 1,
        og_lane_failures_total := og_lane_failures_total og + 1, og_lane_clean := False\<rparr>"

definition fall_back :: "wire_binding \<Rightarrow> nat \<Rightarrow> nat option \<Rightarrow> outgoing \<Rightarrow> outgoing \<times> file_control list" where
  "fall_back wire now known og =
     (if og_state og \<notin> {Sending, AwaitComplete} then (og, [])
      else
        (let start = unwrap_or (og_acked og) known;
             pass = next_pass (og_pass og);
             og = begin_at start pass og;
             ms = [tell_lane wire ''webrtc'' og]
         in (if known = None then og\<lparr>og_lane_await := Some (pass, now)\<rparr> else og, ms)))"

definition leave_lane :: "wire_binding \<Rightarrow> nat \<Rightarrow> nat option \<Rightarrow> outgoing \<Rightarrow> outgoing \<times> file_control list" where
  "leave_lane wire now known og = fall_back wire now known (lane_gave_up now (og\<lparr>og_lane := LaneOff\<rparr>))"

definition release_lane :: "wire_binding \<Rightarrow> nat \<Rightarrow> outgoing \<Rightarrow> outgoing \<times> file_control list" where
  "release_lane wire now og =
     (if og_lane og = LaneOff then (og, [])
      else
        (let was_up = og_on_lane og;
             og = og\<lparr>og_lane := LaneOff, og_lane_failed := Some now, og_lane_releases := og_lane_releases og + 1\<rparr>
         in if was_up \<and> og_state og \<noteq> AwaitComplete then fall_back wire now None og else (og, [])))"

definition on_position :: "nat \<Rightarrow> byte \<Rightarrow> outgoing \<Rightarrow> outgoing" where
  "on_position block pass og =
     (case og_lane_await og of
        None \<Rightarrow> og
      | Some (awaited, _) \<Rightarrow>
          if awaited \<noteq> pass \<or> block < og_acked og \<or> length (og_hashes og) < block then og
          else begin_at block pass (og\<lparr>og_lane_await := None\<rparr>))"

definition on_peer_pause :: "wire_binding option \<Rightarrow> nat \<Rightarrow> string \<Rightarrow> outgoing \<Rightarrow> outgoing \<times> file_control list" where
  "on_peer_pause net now why og =
     (let og = (if why \<noteq> REASON_NO_PROGRESS then og\<lparr>og_peer_pause := Some why\<rparr> else og) in
      case net of
        Some wire \<Rightarrow> if why \<noteq> REASON_BACKLOG \<and> why \<noteq> REASON_NO_PROGRESS then release_lane wire now og else (og, [])
      | None \<Rightarrow> (og, []))"

text \<open>\<open>lane_open\<close> as for the offer: the peer's back-off is over and the path holds.\<close>

definition maybe_promote :: "wire_binding \<Rightarrow> bool \<Rightarrow> nat \<Rightarrow> outgoing \<Rightarrow> outgoing \<times> file_control list" where
  "maybe_promote wire lane_open now og =
     (case og_lane_failed og of
        None \<Rightarrow> (og\<lparr>og_promote_drain := None\<rparr>, [])
      | Some failed_at \<Rightarrow>
          (let wait = og_lane_retry og * 2 ^ min (og_lane_releases og - 1) 5 in
           if og_state og \<noteq> Sending \<or> is_held og \<or> MAX_LANE_FAILURES \<le> og_lane_releases og
              \<or> (0 < og_lane_releases og \<and> now - failed_at < wait) \<or> og_lane og \<noteq> LaneOff \<or> \<not> og_lane_offered og
              \<or> MAX_LANE_FAILURES \<le> og_lane_failures_total og \<or> \<not> lane_open
           then (og\<lparr>og_promote_drain := None\<rparr>, [])
           else
             (let since = unwrap_or now (og_promote_drain og);
                  og = og\<lparr>og_promote_drain := Some since\<rparr>;
                  in_flight = min (og_next_offset og) (og_total og) - min (og_acked og * BLOCK_BYTES) (og_total og);
                  boundary = (og_next_offset og mod BLOCK_BYTES = 0 \<or> og_total og \<le> og_next_offset og)
              in if \<not> (boundary \<and> in_flight = 0) \<and> now - since < PROMOTE_DRAIN then (og, [])
                 else
                   (let (og, offer) = offer_message wire lane_open
                          (og\<lparr>og_promote_drain := None, og_lane_failed := None, og_state := Offered\<rparr>)
                    in (og, [offer])))))"

text \<open>
  What a look at the lane finds: a path to the peer, whether the dialling thread started, the dial's
  word if there is one, whether the writer failed.
\<close>

record lane_look =
  ll_target :: bool
  ll_lane_open :: bool
  ll_spawned :: bool
  ll_dialed :: "bool option"
  ll_failed :: bool

definition lane_step :: "wire_binding \<Rightarrow> lane_look \<Rightarrow> nat \<Rightarrow> outgoing \<Rightarrow> outgoing \<times> file_control list" where
  "lane_step wire look now og =
     (let og = (case og_lane_await og of
                  Some (_, since) \<Rightarrow> if 2000 < now - since then og\<lparr>og_lane_await := None\<rparr> else og
                | None \<Rightarrow> og)
      in case og_lane og of
           LanePending port token since \<Rightarrow>
             if og_state og \<noteq> Sending then (og, [])
             else if og_token_fresh og \<le> now - since \<and> og_lane_refreshes og < 2 then
               (let (og, offer) = offer_message wire (ll_lane_open look)
                      (og\<lparr>og_lane_refreshes := og_lane_refreshes og + 1, og_lane := LaneOff, og_state := Offered\<rparr>)
                in (og, [offer]))
             else if \<not> ll_target look then (og\<lparr>og_lane := LaneOff\<rparr>, [])
             else if ll_spawned look then (og\<lparr>og_lane := LaneDialing now\<rparr>, [])
             else (lane_gave_up now (og\<lparr>og_lane := LaneOff\<rparr>), [])
         | LaneDialing since \<Rightarrow>
             (case ll_dialed look of
                Some True \<Rightarrow>
                  (let og = og\<lparr>og_lane := LaneUp, og_lane_ack_at := now, og_lane_clean := (og_lane_failures_total og = 0)\<rparr>
                   in (og, [tell_lane wire ''tcp'' og]))
              | Some False \<Rightarrow> (lane_gave_up now (og\<lparr>og_lane := LaneOff\<rparr>), [])
              | None \<Rightarrow> if HANDSHAKE_LIMIT * 2 < now - since then (lane_gave_up now (og\<lparr>og_lane := LaneOff\<rparr>), []) else (og, []))
         | LaneUp \<Rightarrow>
             (let active = (og_state og = Sending \<and> \<not> is_held og);
                  og = (if \<not> active then og\<lparr>og_lane_ack_at := now\<rparr> else og);
                  unacked = (og_acked og * BLOCK_BYTES < og_next_offset og);
                  stalled = (active \<and> unacked \<and> STALL_LIMIT < now - og_lane_ack_at og)
              in if ll_failed look \<or> stalled then leave_lane wire now None og else (og, []))
         | LaneOff \<Rightarrow> (og, []))"

subsection \<open>The receiver's messages\<close>

text \<open>\<open>target\<close>: this side sees a path for a lane.\<close>

definition on_accept ::
  "(byte list \<Rightarrow> byte list) \<Rightarrow> bool \<Rightarrow> nat \<Rightarrow> file_control \<Rightarrow> outgoing \<Rightarrow> (ending, outgoing) result" where
  "on_accept sha256 target now m og =
     (if og_state og \<noteq> Offered then Inr og
      else
        (let og = og\<lparr>og_frame_max := min FRAME_BYTES_PROVEN (unwrap_or FRAME_BYTES_DEFAULT (fc_max_frame_bytes m))\<rparr> in
         case (fc_resume_block m, Option.bind (fc_prefix_sha256 m) unhex32) of
           (Some blocks, Some prefix) \<Rightarrow>
             res_bind (restart_from sha256 blocks prefix (og_pass og) (next_pass (og_pass og)) og) (\<lambda>og.
               (let og = (if og_on_lane og then og\<lparr>og_lane := LaneOff\<rparr> else og);
                    og = og\<lparr>og_lane_failed := None\<rparr>
                in Inr (case fc_lane m of
                          Some l \<Rightarrow>
                            if og_lane_offered og \<and> lf_kind l = None then
                              (case (lf_port l, lf_token l) of
                                 (Some port, Some token) \<Rightarrow>
                                   if port \<noteq> 0 \<and> target then og\<lparr>og_lane := LanePending port token now\<rparr> else og
                               | _ \<Rightarrow> og)
                            else og
                        | None \<Rightarrow> og)))
         | _ \<Rightarrow> Inr og))"

definition on_block_ack :: "nat \<Rightarrow> file_control \<Rightarrow> outgoing \<Rightarrow> (ending, outgoing) result" where
  "on_block_ack now m og =
     (case (fc_block_index m, Option.bind (fc_sha256 m) unhex32) of
        (Some block, Some theirs) \<Rightarrow>
          if length (og_hashes og) \<le> block then Inr og
          else if og_hashes og ! block \<noteq> theirs then
            (let og = og\<lparr>og_rewinds := og_rewinds og + 1\<rparr> in
             if MAX_REWINDS < og_rewinds og then Inl \<lparr>ed_code = CODE_HASH_MISMATCH, ed_tell_peer = True\<rparr>
             else Inr (rewind_to block (next_pass (og_pass og)) og))
          else
            (let og = og\<lparr>og_acked := max (og_acked og) (block + 1), og_lane_ack_at := now, og_lane_nacks := 0\<rparr>
             in Inr (if og_on_lane og then og\<lparr>og_lane_failures := 0\<rparr> else og))
      | _ \<Rightarrow> Inr og)"

definition on_block_nack :: "wire_binding \<Rightarrow> nat \<Rightarrow> file_control \<Rightarrow> outgoing \<Rightarrow> (ending, outgoing \<times> file_control list) result" where
  "on_block_nack wire now m og =
     (case (fc_block_index m, fc_pass m) of
        (Some block, Some pass) \<Rightarrow>
          if fc_reason m = Some REASON_LANE then
            (if length (og_hashes og) < block then Inr (og, [])
             else if og_on_lane og then Inr (leave_lane wire now (Some block) og)
             else Inr (on_position block pass og, []))
          else if og_on_lane og \<and> block \<le> length (og_hashes og) then
            (let og = og\<lparr>og_lane_nacks := og_lane_nacks og + 1\<rparr> in
             if 2 \<le> og_lane_nacks og then Inr (leave_lane wire now None (og\<lparr>og_lane_nacks := 0\<rparr>))
             else Inr (rewind_to block pass og, []))
          else
            (let og = og\<lparr>og_rewinds := og_rewinds og + 1\<rparr> in
             if MAX_REWINDS < og_rewinds og \<or> length (og_hashes og) < block
             then Inl \<lparr>ed_code = CODE_HASH_MISMATCH, ed_tell_peer = True\<rparr>
             else Inr (rewind_to block pass og, []))
      | _ \<Rightarrow> Inr (og, []))"

text \<open>Whether the receiver's \<open>complete\<close> ends this send (the comparison ignores the case of letters).\<close>

definition completes :: "(byte list \<Rightarrow> byte list) \<Rightarrow> file_control \<Rightarrow> outgoing \<Rightarrow> bool" where
  "completes sha256 m og \<longleftrightarrow>
     og_state og = AwaitComplete
     \<and> map_option (map ascii_lower) (fc_file_hash m) = Some (hex (hash_of_hashes sha256 (og_hashes og)))"

definition finish_acknowledged ::
  "(byte list \<Rightarrow> byte list) \<Rightarrow> wire_binding \<Rightarrow> source \<Rightarrow> outgoing \<Rightarrow> (trouble, outgoing \<times> file_control list) result" where
  "finish_acknowledged sha256 wire so og =
     (if og_state og \<noteq> Sending \<or> og_acked og < og_blocks_total og \<or> length (og_hashes og) \<noteq> og_blocks_total og
      then Inr (og, [])
      else
        res_bind (stat_source so og) (\<lambda>_.
          Inr (og\<lparr>og_state := AwaitComplete\<rparr>,
               [og_tell wire Done og (\<lambda>m. m\<lparr>fc_file_hash := Some (hex (hash_of_hashes sha256 (og_hashes og))),
                  fc_blocks := Some (og_blocks_total og), fc_total_size := Some (og_total og)\<rparr>)])))"

subsection \<open>One undisturbed exchange\<close>

text \<open>
  A schedule of both ends: the offer is answered, the sender reads again what the receiver says it
  holds, frames and acknowledgements alternate while there is something to send, and \<open>done\<close> is
  answered. \<open>None\<close> is any refusal, trouble or ending on the way.
\<close>

fun verify_run :: "(byte list \<Rightarrow> byte list) \<Rightarrow> source \<Rightarrow> nat \<Rightarrow> outgoing \<Rightarrow> outgoing option" where
  "verify_run sha256 so 0 og = Some og"
| "verify_run sha256 so (Suc n) og =
     (if og_state og \<noteq> Verifying then Some og
      else case verify_step sha256 so og of Inl _ \<Rightarrow> None | Inr og \<Rightarrow> verify_run sha256 so n og)"

fun take_acks :: "nat \<Rightarrow> file_control list \<Rightarrow> outgoing \<Rightarrow> outgoing option" where
  "take_acks now [] og = Some og"
| "take_acks now (m # ms) og = (case on_block_ack now m og of Inl _ \<Rightarrow> None | Inr og \<Rightarrow> take_acks now ms og)"

definition one_frame ::
  "(byte list \<Rightarrow> byte list) \<Rightarrow> byte list \<Rightarrow> source \<Rightarrow> rx_ctx \<Rightarrow> outgoing \<times> incoming \<Rightarrow> (outgoing \<times> incoming) option" where
  "one_frame sha256 key so cx = (\<lambda>(og, r).
     (case next_frame sha256 key so og of
        Inl _ \<Rightarrow> None
      | Inr (og, bytes) \<Rightarrow>
          (case parse_frame bytes of
             Inl _ \<Rightarrow> None
           | Inr f \<Rightarrow>
               if \<not> message_fits (length bytes) \<or> fh_transfer (fr_header f) \<noteq> key then None
               else
                 (case on_frame sha256 cx f r of
                    Inl _ \<Rightarrow> None
                  | Inr (r, ms) \<Rightarrow> map_option (\<lambda>og. (og, r)) (take_acks (cx_now cx) ms og)))))"

fun exchange ::
  "(byte list \<Rightarrow> byte list) \<Rightarrow> byte list \<Rightarrow> source \<Rightarrow> rx_ctx \<Rightarrow> nat \<Rightarrow> outgoing \<times> incoming \<Rightarrow> (outgoing \<times> incoming) option" where
  "exchange sha256 key so cx 0 s = Some s"
| "exchange sha256 key so cx (Suc n) s =
     (if can_send (fst s) then Option.bind (one_frame sha256 key so cx s) (exchange sha256 key so cx n) else Some s)"

definition run_transfer ::
  "(byte list \<Rightarrow> byte list) \<Rightarrow> byte list \<Rightarrow> source \<Rightarrow> wire_binding \<Rightarrow> wire_binding \<Rightarrow> rx_ctx \<Rightarrow> offer_ctx \<Rightarrow> outgoing \<Rightarrow> incoming
   \<Rightarrow> (outgoing \<times> incoming \<times> file_control) option" where
  "run_transfer sha256 key so sender receiver cx oc og r =
     (let offer = snd (offer_message sender False og);
          (r, accept) = reoffer sha256 receiver cx oc offer (og_filename og) (og_total og) r
      in case on_accept sha256 False (cx_now cx) accept og of
           Inl _ \<Rightarrow> None
         | Inr og \<Rightarrow>
             Option.bind (verify_run sha256 so (verified r) og) (\<lambda>og.
               Option.bind (exchange sha256 key so cx (og_total og) (og, r)) (\<lambda>(og, r).
                 case finish_acknowledged sha256 sender so og of
                   Inr (og, [m]) \<Rightarrow>
                     (case on_done sha256 (\<lambda>_. Some key) receiver cx True True m [(key, r)] of
                        ([], [answer], Some r) \<Rightarrow> Some (og, r, answer)
                      | _ \<Rightarrow> None)
                 | _ \<Rightarrow> None)))"

text \<open>The source as it was offered; a disk with room; a sender that nothing holds back.\<close>

definition unchanged :: "byte list \<Rightarrow> outgoing \<Rightarrow> source \<Rightarrow> bool" where
  "unchanged src og so \<longleftrightarrow> so_meta so = MetaFile (og_total og) (og_mtime og) \<and> so_open so = None \<and> so_bytes so = src"

definition roomy :: "wire_binding \<Rightarrow> rx_ctx \<Rightarrow> bool" where
  "roomy wire cx \<longleftrightarrow> cx_net cx = Some wire \<and> (\<forall>i. cx_set_len cx i) \<and> cx_write cx = Written"

definition at_ease :: "outgoing \<Rightarrow> bool" where
  "at_ease og \<longleftrightarrow> og_lane og = LaneOff \<and> og_lane_await og = None \<and> og_peer_pause og = None \<and> og_promote_drain og = None"

text \<open>Both ends at the same place, with the same bytes behind them.\<close>

definition in_step :: "(byte list \<Rightarrow> byte list) \<Rightarrow> byte list \<Rightarrow> outgoing \<Rightarrow> incoming \<Rightarrow> bool" where
  "in_step sha256 src og r \<longleftrightarrow>
     at_ease og \<and> og_state og = Sending \<and> og_total og = length src \<and> og_blocks_total og = blocks_for (length src)
     \<and> FRAME_HEADER_BYTES + BLOCK_TRAILER_BYTES < og_frame_max og \<and> og_frame_max og \<le> FRAME_BYTES_PROVEN
     \<and> rx_ok sha256 r \<and> in_total r = length src \<and> \<not> storage_paused r \<and> \<not> in_adopt_any r \<and> in_pass r = og_pass og
     \<and> in_next_offset r = og_next_offset og \<and> og_next_offset og \<le> length src
     \<and> take (og_next_offset og) (in_file r) = take (og_next_offset og) src
     \<and> in_hashes r = og_hashes og \<and> og_acked og = length (og_hashes og)
     \<and> (og_next_offset og mod BLOCK_BYTES = 0 \<or> og_hasher og = in_hasher r)"

lemma in_stepD:
  assumes "in_step sha256 src og r"
  shows "at_ease og" "og_state og = Sending" "og_total og = length src" "og_blocks_total og = blocks_for (length src)"
    "FRAME_HEADER_BYTES + BLOCK_TRAILER_BYTES < og_frame_max og" "og_frame_max og \<le> FRAME_BYTES_PROVEN"
    "rx_ok sha256 r" "in_total r = length src" "\<not> storage_paused r" "\<not> in_adopt_any r" "in_pass r = og_pass og"
    "in_next_offset r = og_next_offset og" "og_next_offset og \<le> length src"
    "take (og_next_offset og) (in_file r) = take (og_next_offset og) src" "in_hashes r = og_hashes og" "og_acked og = length (og_hashes og)"
    "og_next_offset og mod BLOCK_BYTES = 0 \<or> og_hasher og = in_hasher r"
  using assms by (simp_all add: in_step_def)

text \<open>The frame a sender in step builds, as a record.\<close>

definition frame_of :: "(byte list \<Rightarrow> byte list) \<Rightarrow> byte list \<Rightarrow> byte list \<Rightarrow> outgoing \<Rightarrow> nat \<Rightarrow> frame" where
  "frame_of sha256 key src og len =
     (let n = length (og_hashes og); is_last = (og_next_offset og + len = block_end (length src) (n + 1)) in
      \<lparr>fr_header = \<lparr>fh_last_of_block = is_last, fh_pass = og_pass og, fh_transfer = key, fh_block_index = word_of_nat n,
          fh_offset = word_of_nat (og_next_offset og), fh_length = word_of_nat len\<rparr>,
       fr_payload = slice (og_next_offset og) (og_next_offset og + len) src,
       fr_trailer = (if is_last then Some (sha256 (block_at (length src) n src)) else None)\<rparr>)"

lemma sender_place:
  assumes "in_step sha256 src og r" "og_next_offset og < length src"
  defines "n \<equiv> length (og_hashes og)"
  shows "og_next_offset og div BLOCK_BYTES = n" "n * BLOCK_BYTES \<le> og_next_offset og" "n < blocks_for (length src)"
    "og_next_offset og < block_end (length src) (n + 1)"
    "slice (n * BLOCK_BYTES) (og_next_offset og) src = unwrap_or [] (in_hasher r)"
    "in_hasher r = None \<Longrightarrow> og_next_offset og mod BLOCK_BYTES = 0"
    "slice (n * BLOCK_BYTES) (og_next_offset og) src = (if og_next_offset og mod BLOCK_BYTES = 0 then [] else unwrap_or [] (og_hasher og))"
    "og_next_offset og mod BLOCK_BYTES \<noteq> 0 \<Longrightarrow> og_hasher og \<noteq> None"
proof -
  note st = in_stepD [OF assms(1)]
  have p: "progress_ok (length src) (in_file r) n (in_hasher r) (og_next_offset og)"
    using rx_okD(3) [OF st(7)] st(8,12,15) by (simp add: n_def)
  note pl = frame_in_block [OF p assms(2)]
  show "og_next_offset og div BLOCK_BYTES = n" "n * BLOCK_BYTES \<le> og_next_offset og" "n < blocks_for (length src)"
    using pl by simp_all
  show small: "og_next_offset og < block_end (length src) (n + 1)"
    using pl(1) assms(2) dividend_less_div_times [OF block_bytes_pos, of "og_next_offset og"] by (simp add: block_end_def)
  have "slice (n * BLOCK_BYTES) (og_next_offset og) src = slice (n * BLOCK_BYTES) (og_next_offset og) (in_file r)"
    by (metis slice_take order_refl st(14))
  then show fed: "slice (n * BLOCK_BYTES) (og_next_offset og) src = unwrap_or [] (in_hasher r)" using pl(5) by simp
  show none: "in_hasher r = None \<Longrightarrow> og_next_offset og mod BLOCK_BYTES = 0" using pl(6) .
  show "slice (n * BLOCK_BYTES) (og_next_offset og) src = (if og_next_offset og mod BLOCK_BYTES = 0 then [] else unwrap_or [] (og_hasher og))"
  proof (cases "og_next_offset og mod BLOCK_BYTES = 0")
    case True
    then have "og_next_offset og = n * BLOCK_BYTES" using pl(1) by auto
    then show ?thesis using True by (simp add: slice_def)
  qed (use fed st(17) in auto)
  show "og_next_offset og mod BLOCK_BYTES \<noteq> 0 \<Longrightarrow> og_hasher og \<noteq> None" using none st(17) by auto
qed

lemma slice_join: "a \<le> b \<Longrightarrow> slice a b xs @ slice b (b + k) xs = slice a (b + k) xs"
proof -
  assume "a \<le> b"
  then obtain d where "b = a + d" using le_Suc_ex by blast
  then show ?thesis by (simp add: slice_def take_add add.assoc add.commute)
qed

lemma next_frame_built:
  fixes key :: "byte list"
  assumes "in_step sha256 src og r" "og_next_offset og < length src" "unchanged src og so"
  defines "n \<equiv> length (og_hashes og)"
  defines "len \<equiv> min (payload_capacity (og_frame_max og)) (block_end (length src) (n + 1) - og_next_offset og)"
  defines "f \<equiv> frame_of sha256 key src og len"
  shows "next_frame sha256 key so og =
      Inr (og\<lparr>og_hasher := (if fh_last_of_block (fr_header f) then None else Some (slice (n * BLOCK_BYTES) (og_next_offset og + len) src)),
              og_hashes := og_hashes og @ (if fh_last_of_block (fr_header f) then [sha256 (block_at (length src) n src)] else []),
              og_next_offset := og_next_offset og + len\<rparr>, encode_frame f)"
proof -
  note st = in_stepD [OF assms(1)] and pl = sender_place [OF assms(1,2), folded n_def]
  let ?next = "og_next_offset og"
  have stop: "min ((?next div BLOCK_BYTES + 1) * BLOCK_BYTES) (og_total og) = block_end (length src) (n + 1)"
    using pl(1) st(3) by (simp add: block_end_def)
  have inside: "?next + len \<le> length src"
    using pl(4) block_end_le [of "length src" "n + 1"] unfolding len_def by linarith
  have read: "read_exact_at so ?next len = Inr (slice ?next (?next + len) src)"
    using assms(3) inside by (simp add: read_exact_at_def unchanged_def)
  have joined: "slice (n * BLOCK_BYTES) ?next src @ slice ?next (?next + len) src = slice (n * BLOCK_BYTES) (?next + len) src"
    using pl(2) by (rule slice_join)
  have fed: "(if ?next mod BLOCK_BYTES = 0 then og\<lparr>og_hasher := Some []\<rparr> else og) = og\<lparr>og_hasher := Some (slice (n * BLOCK_BYTES) ?next src)\<rparr>"
    using pl(7,8) by (cases "og_hasher og") (auto simp: unwrap_or_def)
  have stat: "(if ?next mod BLOCK_BYTES = 0 then stat_source so og else Inr ()) = Inr ()"
    using assms(3) by (simp add: stat_source_def unchanged_def)
  have whole: "block_at (length src) n src = slice (n * BLOCK_BYTES) (?next + len) src" if "?next + len = block_end (length src) (n + 1)"
    using that by (simp add: block_at_def)
  have same: "min (payload_capacity (og_frame_max og)) (block_end (length src) (Suc n) - ?next) = len" by (simp add: len_def)
  have stop': "min (BLOCK_BYTES + n * BLOCK_BYTES) (og_total og) = block_end (length src) (Suc n)" using stop pl(1) by simp
  show ?thesis
  proof (cases "?next + len = block_end (length src) (n + 1)")
    case True
    then have "next_frame sha256 key so og =
        Inr (og\<lparr>og_hasher := None, og_hashes := og_hashes og @ [sha256 (slice (n * BLOCK_BYTES) (?next + len) src)], og_next_offset := ?next + len\<rparr>,
          header_write (fr_header f) @ slice ?next (?next + len) src @ sha256 (slice (n * BLOCK_BYTES) (?next + len) src))"
      using joined by (simp add: next_frame_def Let_def fed stat pl(1) stop' same read joined f_def frame_of_def n_def [symmetric])
    then show ?thesis using True whole by (auto simp: f_def frame_of_def encode_frame_def n_def [symmetric] unwrap_or_def)
  next
    case False
    then have "next_frame sha256 key so og =
        Inr (og\<lparr>og_hasher := Some (slice (n * BLOCK_BYTES) (?next + len) src), og_next_offset := ?next + len\<rparr>,
          header_write (fr_header f) @ slice ?next (?next + len) src)"
      by (simp add: next_frame_def Let_def fed stat pl(1) stop' same read joined f_def frame_of_def n_def [symmetric])
    then show ?thesis using False by (auto simp: f_def frame_of_def encode_frame_def n_def [symmetric] unwrap_or_def)
  qed
qed

lemma frame_of_len:
  assumes "in_step sha256 src og r" "og_next_offset og < length src"
  defines "n \<equiv> length (og_hashes og)"
  defines "len \<equiv> min (payload_capacity (og_frame_max og)) (block_end (length src) (n + 1) - og_next_offset og)"
  shows "0 < len" "og_next_offset og + len \<le> block_end (length src) (n + 1)" "len + 72 \<le> og_frame_max og"
proof -
  note st = in_stepD [OF assms(1)] and pl = sender_place [OF assms(1,2), folded n_def]
  show "0 < len" using pl(4) st(5) by (simp add: len_def payload_capacity_def)
  show "og_next_offset og + len \<le> block_end (length src) (n + 1)" using pl(4) unfolding len_def by linarith
  show "len + 72 \<le> og_frame_max og"
    using st(5) by (simp add: len_def payload_capacity_def FRAME_HEADER_BYTES_def BLOCK_TRAILER_BYTES_def)
qed

lemma frame_of_fields:
  fixes key :: "byte list"
  assumes "in_step sha256 src og r" "og_next_offset og < length src" "length src \<le> MAX_TRANSFER_BYTES"
  defines "n \<equiv> length (og_hashes og)"
  defines "len \<equiv> min (payload_capacity (og_frame_max og)) (block_end (length src) (n + 1) - og_next_offset og)"
  defines "f \<equiv> frame_of sha256 key src og len"
  shows "unat (fh_offset (fr_header f)) = og_next_offset og" "unat (fh_length (fr_header f)) = len" "unat (fh_block_index (fr_header f)) = n"
    "length (fr_payload f) = len" "header_check (length src) (fr_header f) = Inr ()"
proof -
  note st = in_stepD [OF assms(1)] and pl = sender_place [OF assms(1,2), folded n_def]
    and ln = frame_of_len [OF assms(1,2), folded n_def, folded len_def]
  have inside: "og_next_offset og + len \<le> length src" using ln(2) block_end_le order_trans by blast
  have "n * BLOCK_BYTES < length src" using pl(3) block_below by blast
  then have bounds: "n < 2 ^ 32" "og_next_offset og < 2 ^ 64" "len < 2 ^ 32" "og_next_offset og + len < 2 ^ 64"
    using assms(2,3) inside ln(3) st(6)
    by (simp_all add: MAX_TRANSFER_BYTES_def BLOCK_BYTES_def FRAME_BYTES_PROVEN_def FRAME_BYTES_DEFAULT_def)
  show off: "unat (fh_offset (fr_header f)) = og_next_offset og" and le: "unat (fh_length (fr_header f)) = len"
    and bi: "unat (fh_block_index (fr_header f)) = n"
    using bounds by (simp_all add: f_def frame_of_def Let_def n_def [symmetric] unat_of_nat)
  show "length (fr_payload f) = len" using inside by (simp add: f_def frame_of_def Let_def length_slice)
  have "fh_length (fr_header f) \<noteq> 0" using le ln(1) by auto
  moreover have "fh_last_of_block (fr_header f) \<longleftrightarrow> og_next_offset og + len = block_end (length src) (n + 1)"
    by (simp add: f_def frame_of_def Let_def n_def)
  moreover have "\<not> min ((n + 1) * BLOCK_BYTES) (length src) < og_next_offset og + len" using ln(2) unfolding block_end_def by linarith
  ultimately show "header_check (length src) (fr_header f) = Inr ()"
    using off le bi bounds(4) assms(2) pl(1) by (simp add: header_check_def Let_def block_end_def)
qed

lemma frame_of_sent:
  fixes key :: "byte list"
  assumes "in_step sha256 src og r" "og_next_offset og < length src" "length src \<le> MAX_TRANSFER_BYTES"
    and "length key = 16" "\<forall>x. length (sha256 x) = 32"
  defines "len \<equiv> min (payload_capacity (og_frame_max og)) (block_end (length src) (length (og_hashes og) + 1) - og_next_offset og)"
  defines "f \<equiv> frame_of sha256 key src og len"
  shows "parse_frame (encode_frame f) = Inr f" "message_fits (length (encode_frame f))" "fh_transfer (fr_header f) = key"
proof -
  note fl = frame_of_fields [OF assms(1-3), where key = key, folded len_def, folded f_def] and ln = frame_of_len [OF assms(1,2), folded len_def]
  have shape: "fh_transfer (fr_header f) = key" "fr_trailer f = (if fh_last_of_block (fr_header f) then Some (sha256 (block_at (length src) (length (og_hashes og)) src)) else None)"
    by (simp_all add: f_def frame_of_def Let_def)
  have "fh_length (fr_header f) \<noteq> 0" using fl(2) ln(1) by auto
  then have "frame_ok f" using shape fl(2,4) assms(4,5) by (simp add: frame_ok_def BLOCK_TRAILER_BYTES_def)
  then show "parse_frame (encode_frame f) = Inr f" by (rule frame_written_is_read)
  have "length (encode_frame f) \<le> len + 72"
    using shape fl(4) assms(4,5) by (simp add: encode_frame_def header_write_def MAGIC_def unwrap_or_def)
  then show "message_fits (length (encode_frame f))" using ln(3) in_stepD(6) [OF assms(1)] by (simp add: message_fits_def)
  show "fh_transfer (fr_header f) = key" by (rule shape(1))
qed

text \<open>The receiver's side of such a frame.\<close>

lemma frame_taken:
  fixes key :: "byte list"
  assumes "in_step sha256 src og r" "og_next_offset og < length src" "length src \<le> MAX_TRANSFER_BYTES" "roomy wire cx"
  defines "n \<equiv> length (og_hashes og)"
  defines "len \<equiv> min (payload_capacity (og_frame_max og)) (block_end (length src) (n + 1) - og_next_offset og)"
  defines "f \<equiv> frame_of sha256 key src og len"
  defines "r1 \<equiv> (\<lambda>h. r\<lparr>in_file := write_at (og_next_offset og) (fr_payload f) (in_file r), in_hasher := h, in_next_offset := og_next_offset og + len\<rparr>)"
  shows "on_frame sha256 cx f r =
    (if fh_last_of_block (fr_header f)
     then (let r2 = (r1 None)\<lparr>in_hashes := in_hashes r @ [sha256 (block_at (length src) n src)]\<rparr> in
           Inr (r2, tell (Some wire) BlockAck r2 (\<lambda>m. m\<lparr>fc_block_index := Some n, fc_sha256 := Some (hex (sha256 (block_at (length src) n src)))\<rparr>)))
     else Inr (r1 (Some (slice (n * BLOCK_BYTES) (og_next_offset og + len) src)), []))"
proof -
  note st = in_stepD [OF assms(1)] and pl = sender_place [OF assms(1,2), folded n_def]
    and fl = frame_of_fields [OF assms(1-3), where key = key, folded n_def, folded len_def, folded f_def]
  have payload: "fr_payload f = slice (og_next_offset og) (og_next_offset og + len) src" and
    shape: "fh_pass (fr_header f) = og_pass og" "fh_last_of_block (fr_header f) \<longleftrightarrow> og_next_offset og + len = block_end (length src) (n + 1)"
      "fr_trailer f = (if fh_last_of_block (fr_header f) then Some (sha256 (block_at (length src) n src)) else None)"
    by (simp_all add: f_def frame_of_def Let_def n_def)
  have hashed: "unwrap_or [] (in_hasher r) @ fr_payload f = slice (n * BLOCK_BYTES) (og_next_offset og + len) src"
    using slice_join [OF pl(2), of src len] pl(5) payload by simp
  then have block: "unwrap_or [] (in_hasher r) @ fr_payload f = block_at (length src) n src" if "fh_last_of_block (fr_header f)"
    using that shape(2) by (simp add: block_at_def)
  have res: "on_frame sha256 cx f r = (let r2 = r1 (Some (unwrap_or [] (in_hasher r) @ fr_payload f)) in
      if fh_last_of_block (fr_header f) then finish_block sha256 cx f r2 else Inr (r2, []))"
    using fl(5) st(8-11) shape(1) fl(1,2) st(12) assms(4) pl(6)
    by (auto simp: on_frame_def take_payload_def Let_def roomy_def r1_def)
  show ?thesis
  proof (cases "fh_last_of_block (fr_header f)")
    case True
    then show ?thesis using res block shape(3) fl(3) assms(4) st(15)
      by (simp add: finish_block_def Let_def roomy_def r1_def tell_def)
  qed (use res hashed in \<open>simp add: Let_def r1_def\<close>)
qed

lemma unhex_sha: "\<forall>x. length (sha256 x) = 32 \<Longrightarrow> unhex32 (hex (sha256 x)) = Some (sha256 x)"
  by (simp add: hash_text.dec_enc)

lemma take_after_write:
  assumes "off \<le> length file" "take off file = take off src" "off + len \<le> length src"
  shows "take (off + len) (write_at off (slice off (off + len) src) file) = take (off + len) src"
proof -
  have "write_at off (slice off (off + len) src) file = take off src @ slice off (off + len) src @ drop (off + length (slice off (off + len) src)) file"
    using assms(1,2) by (simp add: write_inside)
  moreover have "length (slice off (off + len) src) = len" using assms(3) by (simp add: length_slice)
  moreover have "take off src @ slice off (off + len) src = take (off + len) src" by (simp add: slice_def take_add)
  ultimately show ?thesis using assms(3) by (metis append_assoc append_eq_conv_conj length_take min.absorb2)
qed

lemma frame_crosses:
  assumes "in_step sha256 src og r" "og_next_offset og < length src" "length src \<le> MAX_TRANSFER_BYTES"
    and "length key = 16" "\<forall>x. length (sha256 x) = 32" "unchanged src og so" "roomy wire cx"
  shows "\<exists>og' r'. one_frame sha256 key so cx (og, r) = Some (og', r') \<and> in_step sha256 src og' r' \<and> og_next_offset og < og_next_offset og'
    \<and> (og_id og', og_token og', og_mtime og') = (og_id og, og_token og, og_mtime og) \<and> (in_id r', in_token r') = (in_id r, in_token r)"
proof -
  define n where "n = length (og_hashes og)"
  define len where "len = min (payload_capacity (og_frame_max og)) (block_end (length src) (n + 1) - og_next_offset og)"
  define f where "f = frame_of sha256 key src og len"
  define hash where "hash = sha256 (block_at (length src) n src)"
  note st = in_stepD [OF assms(1)]
  note built = next_frame_built [OF assms(1,2,6), where key = key, folded n_def, folded len_def, folded f_def, folded hash_def]
    and sent = frame_of_sent [OF assms(1-5), folded n_def, folded len_def, folded f_def]
    and taken = frame_taken [OF assms(1-3,7), where key = key, folded n_def, folded len_def, folded f_def, folded hash_def]
    and fl = frame_of_fields [OF assms(1-3), where key = key, folded n_def, folded len_def, folded f_def]
    and ln = frame_of_len [OF assms(1,2), folded n_def, folded len_def] and pl = sender_place [OF assms(1,2), folded n_def]
  have payload: "fr_payload f = slice (og_next_offset og) (og_next_offset og + len) src" and
    lastly: "fh_last_of_block (fr_header f) \<longleftrightarrow> og_next_offset og + len = block_end (length src) (n + 1)"
    by (simp_all add: f_def frame_of_def Let_def n_def)
  have inside: "og_next_offset og + len \<le> length src" using ln(2) block_end_le order_trans by blast
  have same: "take (og_next_offset og + len) (write_at (og_next_offset og) (fr_payload f) (in_file r)) = take (og_next_offset og + len) src"
    unfolding payload using next_in_file [OF st(7)] st(12,14) inside by (intro take_after_write) simp_all
  have good: "rx_ok sha256 r'" if "on_frame sha256 cx f r = Inr (r', ms)" for r' ms
    using on_frame_ok [OF st(7) _ that] fl(2,4) by simp
  show ?thesis
  proof (cases "fh_last_of_block (fr_header f)")
    case False
    then show ?thesis using built sent taken same inside ln(1) st good [of _ "[]"]
      by (simp add: one_frame_def in_step_def at_ease_def storage_paused_def)
  next
    case True
    have "unhex32 (hex hash) = Some hash" unfolding hash_def by (rule unhex_sha [OF assms(5)])
    moreover have "og_next_offset og + len = length src \<or> (og_next_offset og + len) mod BLOCK_BYTES = 0"
      using True lastly by (auto simp: block_end_def min_def split: if_splits)
    moreover note good = good [OF taken [unfolded Let_def if_P [OF True]]]
    ultimately show ?thesis using built sent taken same inside ln(1) st True n_def
      by (simp add: one_frame_def in_step_def at_ease_def storage_paused_def Let_def tell_def on_block_ack_def og_on_lane_def nth_append)
  qed
qed

lemma can_send_in_step: "in_step sha256 src og r \<Longrightarrow> can_send og \<longleftrightarrow> og_next_offset og < length src"
proof -
  assume step: "in_step sha256 src og r"
  have "og_next_offset og - min (og_acked og * BLOCK_BYTES) (og_total og) < UNACKED_MAX" if "og_next_offset og < length src"
  proof -
    have "og_next_offset og < (length (og_hashes og) + 1) * BLOCK_BYTES"
      using sender_place(4) [OF step that] by (simp add: block_end_def)
    then show ?thesis using sender_place(2) [OF step that] in_stepD(16,3) [OF step] that by (simp add: UNACKED_MAX_def BLOCK_BYTES_def)
  qed
  then show ?thesis using in_stepD [OF step] by (auto simp: can_send_def at_ease_def is_held_def)
qed

lemma in_step_at_end:
  assumes "in_step sha256 src og r" "og_next_offset og = length src"
  shows "length (og_hashes og) = blocks_for (length src)" "in_file r = src"
proof -
  note st = in_stepD [OF assms(1)]
  let ?n = "length (og_hashes og)"
  have p: "progress_ok (length src) (in_file r) ?n (in_hasher r) (length src)" using rx_okD(3) [OF st(7)] st(8,12,15) assms(2) by simp
  have "in_hasher r = None"
  proof (rule ccontr)
    assume "in_hasher r \<noteq> None"
    then have "length src < block_end (length src) (?n + 1)" using p by (auto simp: progress_ok_def)
    then show False using leD [OF block_end_le] by blast
  qed
  then have full: "block_end (length src) ?n = length src" using p by (simp add: progress_ok_def)
  have "\<not> ?n < blocks_for (length src)" using full block_below [of ?n "length src"] by (auto simp: block_end_def)
  then show "length (og_hashes og) = blocks_for (length src)" using rx_okD(1) [OF st(7)] st(8,15) by (simp add: blocks_ok_def)
  have "length (in_file r) = length src" using rx_okD(1) [OF st(7)] st(8,15) full by (simp add: blocks_ok_def)
  then show "in_file r = src" using st(14) assms(2) by simp
qed

lemma exchange_runs:
  assumes "length src \<le> MAX_TRANSFER_BYTES" "length key = 16" "\<forall>x. length (sha256 x) = 32" "roomy wire cx"
    and "in_step sha256 src og r" "unchanged src og so" "length src - og_next_offset og \<le> n"
  shows "\<exists>og' r'. exchange sha256 key so cx n (og, r) = Some (og', r') \<and> in_step sha256 src og' r' \<and> og_next_offset og' = length src
    \<and> (og_id og', og_token og', og_mtime og') = (og_id og, og_token og, og_mtime og) \<and> (in_id r', in_token r') = (in_id r, in_token r)"
  using assms(5-7)
proof (induction n arbitrary: og r)
  case 0
  then show ?case using in_stepD(13) [OF 0(1)] by simp
next
  case (Suc n)
  show ?case
  proof (cases "og_next_offset og < length src")
    case False
    then show ?thesis using Suc.prems in_stepD(13) [OF Suc.prems(1)] can_send_in_step [OF Suc.prems(1)] by simp
  next
    case True
    obtain og' r' where one: "one_frame sha256 key so cx (og, r) = Some (og', r')" "in_step sha256 src og' r'" "og_next_offset og < og_next_offset og'"
      "(og_id og', og_token og', og_mtime og') = (og_id og, og_token og, og_mtime og)" "(in_id r', in_token r') = (in_id r, in_token r)"
      using frame_crosses [OF Suc.prems(1) True assms(1-3) Suc.prems(2) assms(4)] by blast
    have "unchanged src og' so" using Suc.prems(2) one(4) in_stepD(3) [OF one(2)] in_stepD(3) [OF Suc.prems(1)] by (simp add: unchanged_def)
    moreover have "length src - og_next_offset og' \<le> n" using one(3) Suc.prems(3) by simp
    ultimately obtain og'' r'' where "exchange sha256 key so cx n (og', r') = Some (og'', r'')" "in_step sha256 src og'' r''" "og_next_offset og'' = length src"
      "(og_id og'', og_token og'', og_mtime og'') = (og_id og', og_token og', og_mtime og')" "(in_id r'', in_token r'') = (in_id r', in_token r')"
      using Suc.IH [OF one(2)] by blast
    then show ?thesis using one can_send_in_step [OF Suc.prems(1)] True by simp
  qed
qed

text \<open>The first frame after an \<open>accept\<close> takes the receiver back to the block it begins.\<close>

definition begun :: "(byte list \<Rightarrow> byte list) \<Rightarrow> byte list \<Rightarrow> nat \<Rightarrow> outgoing \<Rightarrow> incoming \<Rightarrow> bool" where
  "begun sha256 src b og r \<longleftrightarrow>
     at_ease og \<and> og_state og = Sending \<and> og_total og = length src \<and> og_blocks_total og = blocks_for (length src)
     \<and> FRAME_HEADER_BYTES + BLOCK_TRAILER_BYTES < og_frame_max og \<and> og_frame_max og \<le> FRAME_BYTES_PROVEN
     \<and> og_next_offset og = block_end (length src) b \<and> og_hashes og = take b (in_hashes r) \<and> og_acked og = b \<and> b \<le> length (in_hashes r)
     \<and> rx_ok sha256 r \<and> in_total r = length src \<and> \<not> storage_paused r \<and> in_adopt_any r
     \<and> take (block_end (length src) b) (in_file r) = take (block_end (length src) b) src"

lemma begun_adopted:
  assumes "begun sha256 src b og r" "og_next_offset og < length src" "roomy wire cx"
  shows "\<exists>r1. restart_at b (og_pass og) True r = Some r1 \<and> in_step sha256 src og r1 \<and> (in_id r1, in_token r1) = (in_id r, in_token r)"
proof -
  have ok: "rx_ok sha256 r" using assms(1) by (simp add: begun_def)
  obtain r1 where r1: "restart_at b (og_pass og) True r = Some r1" by (simp add: restart_at_def Let_def)
  note back_to = restart_at_ok [OF rx_okD(1) [OF ok] rx_okD(2) [OF ok] r1]
  have "in_next_offset r1 = block_end (length src) b" "in_id r1 = in_id r" "in_token r1 = in_token r"
    using r1 assms(1) by (auto simp: restart_at_def begun_def verified_def block_end_def Let_def)
  moreover have "og_next_offset og = b * BLOCK_BYTES" using assms(1,2) by (auto simp: begun_def block_end_def min_def split: if_splits)
  then have "og_next_offset og mod BLOCK_BYTES = 0" by simp
  moreover have "in_file r1 = take (block_end (length src) b) (in_file r)" using back_to(3,5) assms(1) by (simp add: begun_def)
  ultimately show ?thesis using r1 back_to assms(1)
    by (simp add: begun_def in_step_def storage_paused_def)
qed

lemma begun_first_frame:
  assumes "begun sha256 src b og r" "og_next_offset og < length src" "roomy wire cx" "unchanged src og so" "length src \<le> MAX_TRANSFER_BYTES"
    and "length key = 16" "\<forall>x. length (sha256 x) = 32"
    and "restart_at b (og_pass og) True r = Some r1" "in_step sha256 src og r1"
  shows "one_frame sha256 key so cx (og, r) = one_frame sha256 key so cx (og, r1)"
proof -
  define n where "n = length (og_hashes og)"
  define len where "len = min (payload_capacity (og_frame_max og)) (block_end (length src) (n + 1) - og_next_offset og)"
  define f where "f = frame_of sha256 key src og len"
  note built = next_frame_built [OF assms(9,2,4), where key = key, folded n_def, folded len_def, folded f_def]
    and fl = frame_of_fields [OF assms(9,2,5), where key = key, folded n_def, folded len_def, folded f_def]
    and sent = frame_of_sent [OF assms(9,2,5,6,7), folded n_def, folded len_def, folded f_def]
  have off: "og_next_offset og = b * BLOCK_BYTES" using assms(1,2) by (auto simp: begun_def block_end_def min_def split: if_splits)
  have pass: "fh_pass (fr_header f) = og_pass og" by (simp add: f_def frame_of_def Let_def)
  have "adopts (fr_header f) r = Some b"
  proof -
    have "unat (fh_offset (fr_header f)) mod BLOCK_BYTES = 0" "unat (fh_offset (fr_header f)) div BLOCK_BYTES = b"
      unfolding fl(1) off by simp_all
    then show ?thesis using assms(1) by (simp add: adopts_def begun_def verified_def Let_def)
  qed
  then have "on_frame sha256 cx f r = take_payload sha256 cx f r1"
    using assms(1,3,8) fl(5) pass by (simp add: on_frame_def begun_def restarted_payload_def roomy_def Let_def)
  moreover have "on_frame sha256 cx f r1 = take_payload sha256 cx f r1"
    using fl(5) in_stepD [OF assms(9)] pass by (simp add: on_frame_def Let_def)
  ultimately show ?thesis using built sent by (simp add: one_frame_def)
qed

text \<open>Everything sent and acknowledged, and the receiver holds the source.\<close>

definition all_sent :: "(byte list \<Rightarrow> byte list) \<Rightarrow> byte list \<Rightarrow> outgoing \<Rightarrow> incoming \<Rightarrow> bool" where
  "all_sent sha256 src og r \<longleftrightarrow>
     og_state og = Sending \<and> og_total og = length src \<and> og_blocks_total og = blocks_for (length src)
     \<and> og_acked og = blocks_for (length src) \<and> length (og_hashes og) = blocks_for (length src)
     \<and> in_hashes r = og_hashes og \<and> rx_ok sha256 r \<and> in_total r = length src \<and> in_file r = src"

lemma begun_exchange:
  assumes "begun sha256 src b og r" "roomy wire cx" "unchanged src og so" "length src \<le> MAX_TRANSFER_BYTES"
    and "length key = 16" "\<forall>x. length (sha256 x) = 32"
  shows "\<exists>og' r'. exchange sha256 key so cx (length src) (og, r) = Some (og', r') \<and> all_sent sha256 src og' r'
    \<and> (og_id og', og_token og', og_mtime og') = (og_id og, og_token og, og_mtime og) \<and> (in_id r', in_token r') = (in_id r, in_token r)"
proof (cases "og_next_offset og < length src")
  case True
  obtain r1 where r1: "restart_at b (og_pass og) True r = Some r1" "in_step sha256 src og r1" "(in_id r1, in_token r1) = (in_id r, in_token r)"
    using begun_adopted [OF assms(1) True assms(2)] by blast
  obtain m where m: "length src = Suc m" using True by (cases "length src") simp_all
  have "exchange sha256 key so cx (length src) (og, r) = exchange sha256 key so cx (length src) (og, r1)"
    using begun_first_frame [OF assms(1) True assms(2,3,4,5,6) r1(1,2)] can_send_in_step [OF r1(2)] True by (simp add: m)
  moreover obtain og' r' where "exchange sha256 key so cx (length src) (og, r1) = Some (og', r')" "in_step sha256 src og' r'" "og_next_offset og' = length src"
      "(og_id og', og_token og', og_mtime og') = (og_id og, og_token og, og_mtime og)" "(in_id r', in_token r') = (in_id r1, in_token r1)"
    using exchange_runs [OF assms(4,5,6,2) r1(2) assms(3), of "length src"] by auto
  moreover have "all_sent sha256 src og' r'"
    using in_stepD [OF \<open>in_step sha256 src og' r'\<close>] in_step_at_end [OF \<open>in_step sha256 src og' r'\<close> \<open>og_next_offset og' = length src\<close>]
    by (simp add: all_sent_def)
  ultimately show ?thesis using r1(3) by auto
next
  case False
  have ok: "rx_ok sha256 r" and b: "b \<le> length (in_hashes r)" and at_end: "length src \<le> block_end (length src) b"
    and tot: "in_total r = length src"
    using assms(1) False by (simp_all add: begun_def)
  then have full: "block_end (length src) b = length src" by (simp add: le_antisym)
  have all: "b = blocks_for (length src)" "length (in_hashes r) = blocks_for (length src)"
  proof -
    have "\<not> b < blocks_for (length src)" using full block_below [of b "length src"] by (auto simp: block_end_def)
    moreover have "length (in_hashes r) \<le> blocks_for (length src)" using rx_okD(1) [OF ok] tot by (simp add: blocks_ok_def)
    ultimately show "b = blocks_for (length src)" "length (in_hashes r) = blocks_for (length src)" using b by simp_all
  qed
  have "length (in_file r) = length src" using rx_okD(1) [OF ok] tot all full by (simp add: blocks_ok_def)
  then have "in_file r = src" using assms(1) full by (simp add: begun_def)
  then have "all_sent sha256 src og r" using assms(1) all by (simp add: begun_def all_sent_def)
  moreover have "\<not> can_send og" using False assms(1) by (simp add: can_send_def begun_def)
  then have "exchange sha256 key so cx (length src) (og, r) = Some (og, r)" by (cases "length src") simp_all
  ultimately show ?thesis by simp
qed

text \<open>The hashes of the first blocks of the source.\<close>

definition source_hashes :: "(byte list \<Rightarrow> byte list) \<Rightarrow> byte list \<Rightarrow> nat \<Rightarrow> byte list list" where
  "source_hashes sha256 src n = map (\<lambda>i. sha256 (block_at (length src) i src)) [0..<n]"

lemma length_source_hashes [simp]: "length (source_hashes sha256 src n) = n"
  by (simp add: source_hashes_def)

lemma verify_step_reads:
  assumes "unchanged src og so" "og_verify og = Some v" "vf_hashes v = source_hashes sha256 src k" "k < blocks_for (length src)"
    and "og_total og = length src"
  shows "verify_step sha256 so og =
    (if k + 1 = vf_upto v then
       (if hash_of_hashes sha256 (source_hashes sha256 src (k + 1)) = vf_expect v
        then Inr (begin_at (k + 1) (vf_pass_ok v) (og\<lparr>og_hashes := source_hashes sha256 src (k + 1)\<rparr>))
        else Inr (begin_at 0 (vf_pass_bad v) og))
     else Inr (og\<lparr>og_verify := Some (v\<lparr>vf_hashes := source_hashes sha256 src (k + 1)\<rparr>)\<rparr>))"
proof -
  have "k * BLOCK_BYTES < length src" using assms(4) block_below by blast
  then have stop: "k * BLOCK_BYTES + min BLOCK_BYTES (length src - k * BLOCK_BYTES) = block_end (length src) (k + 1)"
    by (auto simp: block_end_def min_def)
  then have "read_exact_at so (k * BLOCK_BYTES) (min BLOCK_BYTES (length src - k * BLOCK_BYTES)) = Inr (block_at (length src) k src)"
    using assms(1) by (simp add: read_exact_at_def unchanged_def block_at_def not_less)
  moreover have "stat_source so og = Inr ()" using assms(1) by (simp add: stat_source_def unchanged_def)
  moreover have "source_hashes sha256 src k @ [sha256 (block_at (length src) k src)] = source_hashes sha256 src (k + 1)"
    by (simp add: source_hashes_def)
  ultimately show ?thesis using assms(2,3,5) by (simp add: verify_step_def Let_def)
qed

lemma verify_run_reads:
  assumes "unchanged src og so" "og_verify og = Some v" "vf_hashes v = source_hashes sha256 src k" "vf_upto v \<le> blocks_for (length src)"
    and "og_total og = length src" "og_state og = Verifying" "vf_upto v = k + Suc d"
  shows "verify_run sha256 so (Suc d) og =
    Some (if hash_of_hashes sha256 (source_hashes sha256 src (vf_upto v)) = vf_expect v
          then begin_at (vf_upto v) (vf_pass_ok v) (og\<lparr>og_hashes := source_hashes sha256 src (vf_upto v)\<rparr>)
          else begin_at 0 (vf_pass_bad v) og)"
  using assms
proof (induction d arbitrary: og v k)
  case 0
  then show ?case using verify_step_reads [OF 0(1,2,3) _ 0(5)] by simp
next
  case (Suc d)
  let ?v = "v\<lparr>vf_hashes := source_hashes sha256 src (k + 1)\<rparr>"
  let ?og = "og\<lparr>og_verify := Some ?v\<rparr>"
  have "verify_run sha256 so (Suc (Suc d)) og = verify_run sha256 so (Suc d) ?og"
    using verify_step_reads [OF Suc.prems(1,2,3) _ Suc.prems(5)] Suc.prems(4,6,7) by simp
  also have "\<dots> = Some (if hash_of_hashes sha256 (source_hashes sha256 src (vf_upto ?v)) = vf_expect ?v
          then begin_at (vf_upto ?v) (vf_pass_ok ?v) (?og\<lparr>og_hashes := source_hashes sha256 src (vf_upto ?v)\<rparr>)
          else begin_at 0 (vf_pass_bad ?v) ?og)"
    using Suc.prems by (intro Suc.IH [of ?og ?v "k + 1"]) (simp_all add: unchanged_def)
  finally show ?case by (simp add: begin_at_def)
qed

lemma ascii_lower_digit: "d < 16 \<Longrightarrow> ascii_lower (digit_char d) = digit_char d"
  by (auto simp: ascii_lower_def digit_char_def)

lemma ascii_lower_hex: "map ascii_lower (hex bs) = hex bs"
  by (induction bs) (simp_all add: hex_def hex_byte_def ascii_lower_digit [OF byte_high_nibble] ascii_lower_digit)

text \<open>A sender and a receiver that hold all of the file finish together.\<close>

lemma all_sent_finishes:
  assumes "all_sent sha256 src og r" "\<forall>x. length (sha256 x) = 32" "unchanged src og so" "in_token r = og_token og"
  shows "\<exists>m og' answer. finish_acknowledged sha256 sender so og = Inr (og', [m])
    \<and> on_done sha256 (\<lambda>_. Some key) receiver cx True True m [(key, r)] = ([], [answer], Some r) \<and> completes sha256 answer og'"
proof -
  have "stat_source so og = Inr ()" using assms(3) by (simp add: stat_source_def unchanged_def)
  moreover have "unhex32 (hex (hash_of_hashes sha256 (og_hashes og))) = Some (hash_of_hashes sha256 (og_hashes og))"
    unfolding hash_of_hashes_def by (rule unhex_sha [OF assms(2)])
  moreover have "in_blocks_total r = blocks_for (length src)" using assms(1) by (simp add: all_sent_def rx_ok_def)
  ultimately show ?thesis using assms(1,4)
    by (simp add: finish_acknowledged_def all_sent_def og_tell_def control_new_msg_def on_done_def verified_def hash_matches_def finish_incoming_def
        tell_def completes_def ascii_lower_hex)
qed

lemma reoffer_answer:
  assumes "rx_ok sha256 r" "roomy wire cx" "in_token r = og_token og" "in_total r = og_total og" "in_filename r = og_filename og"
  shows "\<exists>r1 accept. reoffer sha256 receiver cx oc (snd (offer_message sender False og)) (og_filename og) (og_total og) r = (r1, accept)
    \<and> rx_ok sha256 r1 \<and> in_adopt_any r1 \<and> \<not> storage_paused r1 \<and> in_total r1 = in_total r \<and> in_hashes r1 = in_hashes r
    \<and> in_file r1 = take (block_end (in_total r) (verified r)) (in_file r) \<and> (in_id r1, in_token r1) = (in_id r, in_token r)
    \<and> fc_resume_block accept = Some (verified r) \<and> fc_prefix_sha256 accept = Some (hex (hash_of_hashes sha256 (in_hashes r)))
    \<and> fc_max_frame_bytes accept = Some FRAME_BYTES_PROVEN \<and> fc_lane accept = None"
proof -
  obtain q where q: "restart_at (verified r) (in_pass r) True r = Some q" by (simp add: restart_at_def Let_def)
  note gone = restart_at_ok [OF rx_okD(1) [OF assms(1)] rx_okD(2) [OF assms(1)] q]
  have hashes: "in_hashes q = in_hashes r" using gone(3) by (simp add: verified_def)
  have ids: "in_id q = in_id r" "in_token q = in_token r" using q by (auto simp: restart_at_def Let_def)
  have offer: "fc_transfer_token (snd (offer_message sender False og)) = og_token og" "fc_lane (snd (offer_message sender False og)) = None"
    by (auto simp: offer_message_def og_tell_def control_new_msg_def Let_def split: option.split)
  show ?thesis using gone(1,4,5) hashes ids offer assms(2-5) q
    by (simp add: reoffer_def roomy_def wants_lane_def accept_message_def Let_def rx_ok_def storage_paused_def verified_def prefix_hex_def control_new_msg_def)
qed

lemma prefix_blocks:
  assumes "n \<le> blocks_for tot" "block_end tot n \<le> length file"
  shows "blocks_of (take (block_end tot n) file) = map (\<lambda>i. block_at tot i file) [0..<n]"
proof -
  have len: "length (take (block_end tot n) file) = block_end tot n" using assms(2) by simp
  have "blocks_for (block_end tot n) = n"
  proof (cases n)
    case 0
    then show ?thesis by (simp add: block_end_def blocks_for_def BLOCK_BYTES_def)
  next
    case (Suc k)
    then have "k * BLOCK_BYTES < tot" using assms(1) block_below [of k tot] by simp
    then have "k < blocks_for (block_end tot n)" using block_below [of k "block_end tot n"] Suc by (simp add: block_end_def)
    moreover have "\<not> n < blocks_for (block_end tot n)" using block_below [of n "block_end tot n"] by (simp add: block_end_def)
    ultimately show ?thesis using Suc by simp
  qed
  moreover have "block_at (block_end tot n) i (take (block_end tot n) file) = block_at tot i file" if "i < n" for i
  proof -
    have "block_end (block_end tot n) (i + 1) = block_end tot (i + 1)" using that
      by (simp add: block_end_def min.absorb1 min.assoc [symmetric] mult_le_mono1 Suc_leI del: mult_Suc)
    moreover have "block_end tot (i + 1) \<le> block_end tot n" using that by (intro block_end_mono) simp
    ultimately show ?thesis by (simp add: block_at_def slice_take)
  qed
  ultimately show ?thesis using len by (simp add: blocks_of_def)
qed

text \<open>What the sender finds when it reads the receiver's blocks again.\<close>

lemma prefix_agrees:
  assumes "rx_ok sha256 r" "in_total r = length src" "\<forall>x. length (sha256 x) = 32"
    and "\<not> list_ex (collides sha256) (compared sha256 (take (block_end (length src) (verified r)) src)
            (take (block_end (length src) (verified r)) (in_file r)))"
    and "hash_of_hashes sha256 (source_hashes sha256 src (verified r)) = hash_of_hashes sha256 (in_hashes r)"
  shows "in_hashes r = source_hashes sha256 src (verified r)"
    "take (block_end (length src) (verified r)) (in_file r) = take (block_end (length src) (verified r)) src"
proof -
  let ?n = "verified r" and ?stop = "block_end (length src) (verified r)"
  have ok: "?n \<le> blocks_for (length src)" "?stop \<le> length (in_file r)"
    "in_hashes r = map (\<lambda>i. sha256 (block_at (length src) i (in_file r))) [0..<?n]"
    using rx_okD(1) [OF assms(1)] assms(2) by (auto simp: blocks_ok_def verified_def intro: nth_equalityI)
  note theirs = prefix_blocks [OF ok(1,2)] and ours = prefix_blocks [OF ok(1) block_end_le]
  have "file_hash sha256 (take ?stop src) = file_hash sha256 (take ?stop (in_file r))"
    using assms(5) ok(3) by (simp add: file_hash_def hash_of_hashes_def theirs ours source_hashes_def comp_def)
  then show same: "take ?stop (in_file r) = take ?stop src"
    using same_hash_same_file [OF assms(3), of "take ?stop src" "take ?stop (in_file r)"] assms(4) ok(2) by auto
  have "map (\<lambda>i. block_at (length src) i (in_file r)) [0..<?n] = map (\<lambda>i. block_at (length src) i src) [0..<?n]"
    using theirs ours same by simp
  then show "in_hashes r = source_hashes sha256 src ?n"
    unfolding ok(3) source_hashes_def by (metis (no_types, lifting) map_map comp_def map_eq_conv)
qed

text \<open>After the \<open>accept\<close>, and the reading it asks for, the sender has begun at a block the receiver holds.\<close>

lemma accept_begins:
  assumes "rx_ok sha256 r" "in_adopt_any r" "\<not> storage_paused r" "in_total r = length src" "\<forall>x. length (sha256 x) = 32"
    and "\<not> list_ex (collides sha256) (compared sha256 (take (block_end (length src) (verified r)) src)
            (take (block_end (length src) (verified r)) (in_file r)))"
    and "og_state og = Offered" "og_hashes og = []" "og_total og = length src" "og_blocks_total og = blocks_for (length src)" "at_ease og"
    and "unchanged src og so"
    and "fc_resume_block accept = Some (verified r)" "fc_prefix_sha256 accept = Some (hex (hash_of_hashes sha256 (in_hashes r)))"
      "fc_max_frame_bytes accept = Some FRAME_BYTES_PROVEN" "fc_lane accept = None"
  shows "\<exists>og1 og2 b. on_accept sha256 False now accept og = Inr og1 \<and> verify_run sha256 so (verified r) og1 = Some og2
    \<and> begun sha256 src b og2 r \<and> (og_id og2, og_token og2, og_mtime og2, og_total og2) = (og_id og, og_token og, og_mtime og, og_total og)"
proof -
  let ?n = "verified r" and ?og = "og\<lparr>og_frame_max := FRAME_BYTES_PROVEN\<rparr>" and ?prefix = "hash_of_hashes sha256 (in_hashes r)"
  have n: "?n \<le> blocks_for (length src)" using rx_okD(1) [OF assms(1)] assms(4) by (simp add: blocks_ok_def verified_def)
  have prefix: "unhex32 (hex ?prefix) = Some ?prefix" unfolding hash_of_hashes_def by (rule unhex_sha [OF assms(5)])
  have frames: "FRAME_HEADER_BYTES + BLOCK_TRAILER_BYTES < FRAME_BYTES_PROVEN"
    by (simp add: FRAME_HEADER_BYTES_def BLOCK_TRAILER_BYTES_def FRAME_BYTES_PROVEN_def FRAME_BYTES_DEFAULT_def)
  have start: "begun sha256 src 0 (begin_at 0 p (g\<lparr>og_lane_failed := None\<rparr>)) r"
    if "at_ease g" "og_total g = length src" "og_blocks_total g = blocks_for (length src)" "og_frame_max g = FRAME_BYTES_PROVEN" for p g
    using that assms(1-4) frames by (simp add: begun_def begin_at_def at_ease_def block_end_def)
  show ?thesis
  proof (cases "?n = 0")
    case True
    let ?p = "if ?prefix = hash_of_hashes sha256 [] then og_pass og else next_pass (og_pass og)"
    have "on_accept sha256 False now accept og = Inr (begin_at 0 ?p (?og\<lparr>og_lane_failed := None\<rparr>))"
      using assms(7,11,13-16) prefix True
      by (simp add: on_accept_def Let_def unwrap_or_def restart_from_def og_on_lane_def at_ease_def begin_at_def)
    then show ?thesis using start [of ?og ?p] assms(9-11) True by (auto simp: begin_at_def at_ease_def intro!: exI [of _ 0])
  next
    case False
    let ?v = "\<lparr>vf_upto = ?n, vf_expect = ?prefix, vf_hashes = [], vf_pass_ok = og_pass og, vf_pass_bad = next_pass (og_pass og)\<rparr>"
    let ?g = "og\<lparr>og_frame_max := FRAME_BYTES_PROVEN, og_state := Verifying, og_verify := Some ?v, og_lane_failed := None\<rparr>"
    have acc: "on_accept sha256 False now accept og = Inr ?g"
      using assms(7,8,10,11,13-16) prefix False n
      by (simp add: on_accept_def Let_def unwrap_or_def restart_from_def og_on_lane_def at_ease_def)
    obtain d where d: "?n = Suc d" using False by (cases ?n) auto
    have run: "verify_run sha256 so ?n ?g = Some (if hash_of_hashes sha256 (source_hashes sha256 src ?n) = ?prefix
          then begin_at ?n (og_pass og) (?g\<lparr>og_hashes := source_hashes sha256 src ?n\<rparr>) else begin_at 0 (next_pass (og_pass og)) ?g)"
      using verify_run_reads [of src ?g so ?v sha256 0 d] assms(9,12) n d by (simp add: unchanged_def source_hashes_def)
    show ?thesis
    proof (cases "hash_of_hashes sha256 (source_hashes sha256 src ?n) = ?prefix")
      case True
      note agree = prefix_agrees [OF assms(1,4,5,6) True]
      have "begun sha256 src ?n (begin_at ?n (og_pass og) (?g\<lparr>og_hashes := source_hashes sha256 src ?n\<rparr>)) r"
        using assms(1-4,9-11) frames agree n by (simp add: begun_def begin_at_def at_ease_def verified_def block_end_def)
      then show ?thesis using acc run True by (auto simp: begin_at_def intro!: exI [of _ ?n])
    next
      case False
      have "begun sha256 src 0 (begin_at 0 (next_pass (og_pass og)) ?g) r"
        using assms(1-4,9-11) frames by (simp add: begun_def begin_at_def at_ease_def block_end_def)
      then show ?thesis using acc run False by (auto simp: begin_at_def intro!: exI [of _ 0])
    qed
  qed
qed

text \<open>
  C13. A transfer that nothing disturbs completes. From any state a receiver can reach in which the
  checkpoints it resumed from told the truth, whatever it holds of the file, whatever was damaged,
  paused or left half received, and from a sender with no memory of what it sent: one offer,
  answered, leads to the receiver handing on exactly the source, and its answer ends the send.
  Frames cross as bytes. The bytes the receiver already verified are used where they are the
  source's, and thrown away where they are not: that they are told apart needs the compared texts
  of the verified part to hold no collision of SHA-256.
\<close>

theorem transfer_completes:
  assumes "reachable rx_init (rx_step stored sha256 key_of) tab" and "map_of tab key = Some r"
    and "\<forall>x. length (sha256 x) = 32" and "length key = 16" and "length src \<le> MAX_TRANSFER_BYTES"
    and "og_state og = Offered" and "og_hashes og = []" and "og_total og = length src" and "og_blocks_total og = blocks_for (length src)"
    and "at_ease og" and "unchanged src og so" and "roomy wire cx"
    and "in_token r = og_token og" and "in_total r = og_total og" and "in_filename r = og_filename og"
    and "\<not> list_ex (collides sha256) (compared sha256 (take (block_end (length src) (verified r)) src)
            (take (block_end (length src) (verified r)) (in_file r)))"
    and "\<forall>held part. stored held part \<longrightarrow> held_ok sha256 held part"
  shows "\<exists>og' r' answer. run_transfer sha256 key so sender receiver cx oc og r = Some (og', r', answer)
    \<and> in_file r' = src \<and> in_token r' = in_token r \<and> completes sha256 answer og'"
proof -
  have ok: "rx_ok sha256 r" by (rule table_at [OF truthful_table_ok [OF assms(17,1)] assms(2)])
  obtain r1 accept where r1: "reoffer sha256 receiver cx oc (snd (offer_message sender False og)) (og_filename og) (og_total og) r = (r1, accept)"
    "rx_ok sha256 r1" "in_adopt_any r1" "\<not> storage_paused r1" "in_total r1 = in_total r" "in_hashes r1 = in_hashes r"
    "in_file r1 = take (block_end (in_total r) (verified r)) (in_file r)" "(in_id r1, in_token r1) = (in_id r, in_token r)"
    "fc_resume_block accept = Some (verified r)" "fc_prefix_sha256 accept = Some (hex (hash_of_hashes sha256 (in_hashes r)))"
    "fc_max_frame_bytes accept = Some FRAME_BYTES_PROVEN" "fc_lane accept = None"
    using reoffer_answer [OF ok assms(12-15)] by blast
  have v: "verified r1 = verified r" using r1(6) by (simp add: verified_def)
  have tot: "in_total r1 = length src" using r1(5) assms(8,14) by simp
  have "take (block_end (length src) (verified r)) (in_file r1) = take (block_end (length src) (verified r)) (in_file r)"
    using r1(7) assms(8,14) by simp
  then have none: "\<not> list_ex (collides sha256) (compared sha256 (take (block_end (length src) (verified r1)) src)
            (take (block_end (length src) (verified r1)) (in_file r1)))" using assms(16) v by simp
  have fields: "fc_resume_block accept = Some (verified r1)" "fc_prefix_sha256 accept = Some (hex (hash_of_hashes sha256 (in_hashes r1)))"
    using r1(6,9,10) v by simp_all
  obtain og1 og2 b where og2: "on_accept sha256 False (cx_now cx) accept og = Inr og1" "verify_run sha256 so (verified r1) og1 = Some og2"
    "begun sha256 src b og2 r1" "(og_id og2, og_token og2, og_mtime og2, og_total og2) = (og_id og, og_token og, og_mtime og, og_total og)"
    using accept_begins [OF r1(2,3,4) tot assms(3) none assms(6-11) fields r1(11,12)] by blast
  have same: "unchanged src og2 so" using assms(11) og2(4) by (simp add: unchanged_def)
  obtain og3 r3 where s3: "exchange sha256 key so cx (length src) (og2, r1) = Some (og3, r3)" "all_sent sha256 src og3 r3"
    "(og_id og3, og_token og3, og_mtime og3) = (og_id og2, og_token og2, og_mtime og2)" "(in_id r3, in_token r3) = (in_id r1, in_token r1)"
    using begun_exchange [OF og2(3) assms(12) same assms(5,4,3)] by blast
  have "unchanged src og3 so" "in_token r3 = og_token og3"
    using same s3(2,3,4) og2(3,4) r1(8) assms(13) by (simp_all add: unchanged_def all_sent_def begun_def)
  then obtain m og4 answer where fin: "finish_acknowledged sha256 sender so og3 = Inr (og4, [m])"
    "on_done sha256 (\<lambda>_. Some key) receiver cx True True m [(key, r3)] = ([], [answer], Some r3)" "completes sha256 answer og4"
    using all_sent_finishes [OF s3(2) assms(3)] by blast
  have "run_transfer sha256 key so sender receiver cx oc og r = Some (og4, r3, answer)"
    using r1(1) og2(1,2,4) s3(1) fin(1,2) assms(8) by (simp add: run_transfer_def)
  moreover have "in_file r3 = src" using s3(2) by (simp add: all_sent_def)
  ultimately show ?thesis using fin(3) s3(4) r1(8) by auto
qed

definition demo_send :: outgoing where
  "demo_send = \<lparr>og_id = ''t'', og_token = ''token'', og_filename = ''a'', og_total = 2, og_blocks_total = 1, og_mtime = 1,
     og_clipboard_mime = None, og_folder = None, og_content_sha256 = None, og_state = Offered, og_offered = True,
     og_frame_max = FRAME_BYTES_DEFAULT, og_pass = 0, og_rewinds = 0, og_hashes = [], og_hasher = None, og_next_offset = 0,
     og_acked = 0, og_peer_pause = None, og_verify = None, og_lane_offered = False, og_lane = LaneOff, og_lane_failed = None,
     og_lane_failures = 0, og_lane_failures_total = 0, og_lane_releases = 0, og_lane_clean = False, og_lane_retry = 10000,
     og_token_fresh = 50000, og_lane_refreshes = 0, og_lane_await = None, og_lane_nacks = 0, og_lane_ack_at = 0, og_promote_drain = None\<rparr>"

definition demo_source :: source where
  "demo_source = \<lparr>so_meta = MetaFile 2 1, so_open = None, so_bytes = [8, 9]\<rparr>"

text \<open>The receiver holds another file's bytes, verified; the sender's replace them.\<close>

theorem transfer_completes_witness:
  "\<exists>r og' r' answer. map_of demo_table (replicate 16 7) = Some r \<and> in_file r = [5, 6]
    \<and> run_transfer demo_sha (replicate 16 7) demo_source demo_file_wire demo_file_wire demo_cx demo_oc demo_send r = Some (og', r', answer)
    \<and> in_file r' = [8, 9] \<and> completes demo_sha answer og'"
proof -
  obtain r where r: "demo_table = [(replicate 16 7, r)]" "in_file r = [5, 6]" "in_total r = 2" "in_hashes r = [demo_sha [5, 6]]"
    "in_token r = ''token''" "in_filename r = ''a''" using demo_received by blast
  have none: "\<not> list_ex (collides demo_sha) (compared demo_sha [8, 9] [5, 6])"
    by (simp add: compared_def collides_def blocks_of_def block_at_def block_end_def slice_def blocks_for_def BLOCK_BYTES_def demo_sha_def)
  have "\<exists>og' r' answer. run_transfer demo_sha (replicate 16 7) demo_source demo_file_wire demo_file_wire demo_cx demo_oc demo_send r = Some (og', r', answer)
      \<and> in_file r' = [8, 9] \<and> in_token r' = in_token r \<and> completes demo_sha answer og'"
  proof (rule transfer_completes [OF demo_table_reachable, where wire = demo_file_wire])
    show "map_of demo_table (replicate 16 7) = Some r" by (simp add: r)
    show "\<not> list_ex (collides demo_sha) (compared demo_sha (take (block_end (length [8, 9 :: byte]) (verified r)) [8, 9])
        (take (block_end (length [8, 9 :: byte]) (verified r)) (in_file r)))"
      using none by (simp add: r verified_def block_end_def BLOCK_BYTES_def)
  qed (simp_all add: demo_send_def r at_ease_def unchanged_def demo_source_def roomy_def demo_cx_def MAX_TRANSFER_BYTES_def blocks_for_def BLOCK_BYTES_def)
  moreover have "map_of demo_table (replicate 16 7) = Some r" by (simp add: r(1))
  ultimately show ?thesis using r(2) by blast
qed

end

