(* ===== verification/Folders.thy ===== *)
theory Folders
  imports File_Frames
begin

section \<open>Keeping a folder the same on two devices\<close>

text \<open>
  The engine of \<open>src/device_links/folders.rs\<close>: version vectors with one counter for each side, the
  manifest of a folder, the plan one side makes of the other's manifest, and the scan that folds
  the disk into the manifest.

  A \<open>BTreeMap\<close> is a list sorted by key, which is the order it is walked in. Reading and hashing
  files, dates and case folding are arguments.
\<close>

subsection \<open>Paths\<close>

definition MAX_NAME_BYTES :: nat where "MAX_NAME_BYTES = 255"
definition MAX_BUCKET_DEPTH :: nat where "MAX_BUCKET_DEPTH = 2"

definition name_ok :: "string \<Rightarrow> bool" where
  "name_ok seg \<longleftrightarrow>
     seg \<noteq> [] \<and> length seg \<le> MAX_NAME_BYTES \<and> seg \<notin> {''.'', ''..''}
     \<and> \<not> (last seg \<in> {CHR ''.'', CHR '' ''})
     \<and> \<not> list_ex (\<lambda>c. is_control c \<or> c \<in> {[slash], [backslash], '':''}) (utf8_chars seg)"

definition bucket_path_ok :: "string \<Rightarrow> bool \<Rightarrow> bool" where
  "bucket_path_ok path dir \<longleftrightarrow>
     (let segments = length (split_on slash path) in
      validate_relpath path \<and> segments \<le> MAX_BUCKET_DEPTH + (if dir then 0 else 1)
      \<and> list_all name_ok (split_on slash path))"

definition parent_of :: "string \<Rightarrow> string" where
  "parent_of path = (case rsplit_once slash path of Some (parent, _) \<Rightarrow> parent | None \<Rightarrow> [])"

definition levels :: "string \<Rightarrow> nat" where
  "levels path = length (filter (\<lambda>c. c = slash) path)"

text \<open>A pattern is a suffix after \<open>*\<close>, or a whole name.\<close>

definition pattern_matches :: "string \<Rightarrow> string \<Rightarrow> bool" where
  "pattern_matches seg pattern \<longleftrightarrow>
     (case pattern of
        ch # suffix \<Rightarrow> if ch = CHR ''*'' then suffix \<noteq> [] \<and> ends_with seg suffix else seg = pattern
      | [] \<Rightarrow> seg = pattern)"

definition ignored :: "string \<Rightarrow> bool \<Rightarrow> string list \<Rightarrow> bool" where
  "ignored path include_hidden patterns \<longleftrightarrow>
     list_ex (\<lambda>seg. seg = ''.git'' \<or> seg = ''node_modules'' \<or> starts_with seg ''.desklink''
         \<or> ends_with seg ''.tmp'' \<or> ends_with seg ''.part'' \<or> ends_with seg ''~''
         \<or> (\<not> include_hidden \<and> starts_with seg ''.'')
         \<or> list_ex (pattern_matches seg) patterns)
       (split_on slash path)"

subsection \<open>Versions and entries\<close>

datatype side = Desk | Phone

definition U64_MAX :: nat where "U64_MAX = 2 ^ 64 - 1"

record vv =
  vv_desk :: nat
  vv_phone :: nat

definition vv_default :: vv where "vv_default = \<lparr>vv_desk = 0, vv_phone = 0\<rparr>"

definition dominates :: "vv \<Rightarrow> vv \<Rightarrow> bool" where
  "dominates a b \<longleftrightarrow> vv_desk b \<le> vv_desk a \<and> vv_phone b \<le> vv_phone a \<and> a \<noteq> b"

definition vv_max :: "vv \<Rightarrow> vv \<Rightarrow> vv" where
  "vv_max a b = \<lparr>vv_desk = max (vv_desk a) (vv_desk b), vv_phone = max (vv_phone a) (vv_phone b)\<rparr>"

definition bumped :: "vv \<Rightarrow> side \<Rightarrow> vv" where
  "bumped v sd =
     (case sd of
        Desk \<Rightarrow> v\<lparr>vv_desk := min U64_MAX (vv_desk v + 1)\<rparr>
      | Phone \<Rightarrow> v\<lparr>vv_phone := min U64_MAX (vv_phone v + 1)\<rparr>)"

record fentry =
  fe_size :: nat
  fe_mtime :: int
  fe_sha :: string
  fe_deleted :: bool
  fe_dir :: bool
  fe_vv :: vv

type_synonym manifest = "(string \<times> fentry) list"

record fstat =
  fs_size :: nat
  fs_mtime :: int
  fs_dir :: bool

datatype fstep =
    Take string fentry
  | Delete string fentry
  | Download string fentry
  | Move string string fentry fentry
  | Copy string string fentry
  | Bump string vv
  | Rename string string
  | Conflict string string

subsection \<open>Planning\<close>

text \<open>\<open>while stem.len() + suffix.len() > 255 && stem.pop().is_some()\<close>, on the characters of the stem.\<close>

function shrink_stem :: "nat \<Rightarrow> string list \<Rightarrow> string list" where
  "shrink_stem suffix stem =
     (if 255 < length (concat stem) + suffix \<and> stem \<noteq> [] then shrink_stem suffix (butlast stem) else stem)"
  by pat_completeness auto
termination by (relation "measure (\<lambda>(_, stem). length stem)") auto

declare shrink_stem.simps [simp del]

definition conflict_name :: "(int \<Rightarrow> string option) \<Rightarrow> string \<Rightarrow> string \<Rightarrow> int \<Rightarrow> string" where
  "conflict_name format_date path phone mtime =
     (let (dir, name) = (case rsplit_once slash path of Some (dir, name) \<Rightarrow> (dir @ [slash], name) | None \<Rightarrow> ([], path));
          (stem, extension) =
            (case rsplit_once CHR ''.'' name of
               Some (stem, extension) \<Rightarrow>
                 if stem \<noteq> [] \<and> length extension \<le> 16 then (stem, CHR ''.'' # extension) else (name, [])
             | None \<Rightarrow> (name, []));
          date = unwrap_or ''1970-01-01'' (format_date (mtime div 1000));
          phone = concat (take 40 (filter (\<lambda>c. c \<notin> {[slash], [backslash], [CHR 0x00], '':''} \<and> \<not> is_control c) (utf8_chars phone)));
          suffix = '' (conflict from '' @ phone @ '' '' @ date @ '')'' @ extension
      in dir @ concat (shrink_stem (length suffix) (utf8_chars stem)) @ suffix)"

text \<open>The body of the loop over the other side's manifest.\<close>

definition plan_entry :: "(int \<Rightarrow> string option) \<Rightarrow> side \<Rightarrow> manifest \<Rightarrow> string \<Rightarrow> string \<Rightarrow> fentry \<Rightarrow> fstep list" where
  "plan_entry format_date local_side local phone_name path theirs =
     (case obj_get local path of
        None \<Rightarrow> if fe_deleted theirs then [Take path theirs] else [Download path theirs]
      | Some ours \<Rightarrow>
          if fe_vv ours = fe_vv theirs then []
          else if dominates (fe_vv theirs) (fe_vv ours) then
            (let same = fe_sha ours = fe_sha theirs \<and> fe_deleted ours = fe_deleted theirs in
             if same \<or> (fe_deleted ours \<and> fe_deleted theirs) then [Take path theirs]
             else if fe_deleted theirs then [Delete path theirs]
             else [Download path theirs])
          else if dominates (fe_vv ours) (fe_vv theirs) then []
          else
            (let merged = vv_max (fe_vv ours) (fe_vv theirs) in
             if (fe_deleted ours \<and> fe_deleted theirs)
                \<or> (\<not> fe_deleted ours \<and> \<not> fe_deleted theirs \<and> fe_sha ours = fe_sha theirs)
             then [Take path (theirs\<lparr>fe_vv := merged\<rparr>)]
             else if fe_deleted ours then [Download path (theirs\<lparr>fe_vv := merged\<rparr>)]
             else if fe_deleted theirs then [Bump path (bumped merged local_side)]
             else
               (let phone_mtime = (case local_side of Desk \<Rightarrow> fe_mtime theirs | Phone \<Rightarrow> fe_mtime ours);
                    copy = conflict_name format_date path phone_name phone_mtime;
                    winner = bumped merged Desk
                in (case local_side of
                      Desk \<Rightarrow> [Conflict path copy]
                    | Phone \<Rightarrow> [Rename path copy, Download path (theirs\<lparr>fe_vv := winner\<rparr>)]))))"

text \<open>The three tables of \<open>renames_by_hash\<close>: files to be deleted by content, paths that change, files that stay.\<close>

definition add_delete :: "manifest \<Rightarrow> (string \<rightharpoonup> string \<times> fentry) \<Rightarrow> fstep \<Rightarrow> (string \<rightharpoonup> string \<times> fentry)" where
  "add_delete local deletes st =
     (case st of
        Delete path entry \<Rightarrow>
          (case keep_if (\<lambda>ours. \<not> fe_deleted ours \<and> \<not> fe_dir ours) (obj_get local path) of
             Some ours \<Rightarrow>
               (case deletes (fe_sha ours) of None \<Rightarrow> deletes(fe_sha ours \<mapsto> (path, entry)) | Some _ \<Rightarrow> deletes)
           | None \<Rightarrow> deletes)
      | _ \<Rightarrow> deletes)"

definition deletes_of :: "manifest \<Rightarrow> fstep list \<Rightarrow> (string \<rightharpoonup> string \<times> fentry)" where
  "deletes_of local steps = foldl (add_delete local) Map.empty steps"

fun changing_path :: "fstep \<Rightarrow> string option" where
  "changing_path (Delete path _) = Some path"
| "changing_path (Download path _) = Some path"
| "changing_path (Rename path _) = Some path"
| "changing_path _ = None"

definition kept_of :: "manifest \<Rightarrow> fstep list \<Rightarrow> (string \<rightharpoonup> string)" where
  "kept_of local steps =
     (let changing = set (List.map_filter changing_path steps) in
      foldl (\<lambda>kept (path, entry).
          if \<not> fe_deleted entry \<and> \<not> fe_dir entry \<and> path \<notin> changing then kept(fe_sha entry \<mapsto> path) else kept)
        Map.empty local)"

fun rename_steps ::
  "(string \<rightharpoonup> string) \<Rightarrow> (string \<rightharpoonup> string \<times> fentry) \<Rightarrow> fstep list \<Rightarrow> string set \<Rightarrow> fstep list \<times> string set" where
  "rename_steps kept deletes [] moved = ([], moved)"
| "rename_steps kept deletes (Download path entry # steps) moved =
     (if fe_dir entry
      then (let (out, moved') = rename_steps kept deletes steps moved in (Download path entry # out, moved'))
      else (case deletes (fe_sha entry) of
          Some (src, tombstone) \<Rightarrow>
            (let (out, moved') = rename_steps kept (deletes(fe_sha entry := None)) steps (insert src moved)
             in (Move src path entry tombstone # out, moved'))
        | None \<Rightarrow>
            (let (out, moved') = rename_steps kept deletes steps moved
             in ((case kept (fe_sha entry) of Some src \<Rightarrow> Copy src path entry | None \<Rightarrow> Download path entry) # out, moved'))))"
| "rename_steps kept deletes (other # steps) moved =
     (let (out, moved') = rename_steps kept deletes steps moved in (other # out, moved'))"

fun is_moved :: "string set \<Rightarrow> fstep \<Rightarrow> bool" where
  "is_moved moved (Delete path _) \<longleftrightarrow> path \<in> moved"
| "is_moved moved _ \<longleftrightarrow> False"

definition renames_by_hash :: "manifest \<Rightarrow> fstep list \<Rightarrow> fstep list" where
  "renames_by_hash local steps =
     (let (out, moved) = rename_steps (kept_of local steps) (deletes_of local steps) steps {}
      in filter (\<lambda>st. \<not> is_moved moved st) out)"

definition plan :: "(int \<Rightarrow> string option) \<Rightarrow> side \<Rightarrow> manifest \<Rightarrow> manifest \<Rightarrow> string \<Rightarrow> fstep list" where
  "plan format_date local_side local remote phone_name =
     renames_by_hash local
       (concat (map (\<lambda>(path, theirs). plan_entry format_date local_side local phone_name path theirs) remote))"

subsection \<open>Scanning\<close>

definition MAX_FILES :: nat where "MAX_FILES = 20000"
definition TOMBSTONE_DAYS :: int where "TOMBSTONE_DAYS = 30"

definition fresh_dir :: "vv \<Rightarrow> fentry" where
  "fresh_dir v = \<lparr>fe_size = 0, fe_mtime = 0, fe_sha = [], fe_deleted = False, fe_dir = True, fe_vv = v\<rparr>"

definition fresh_file :: "fstat \<Rightarrow> string \<Rightarrow> vv \<Rightarrow> fentry" where
  "fresh_file stat sha v =
     \<lparr>fe_size = fs_size stat, fe_mtime = fs_mtime stat, fe_sha = sha, fe_deleted = False, fe_dir = False, fe_vv = v\<rparr>"

text \<open>One found item: the manifest after it and whether it changed.\<close>

definition scan_item ::
  "side \<Rightarrow> (string \<Rightarrow> string option) \<Rightarrow> string \<Rightarrow> fstat \<Rightarrow> manifest \<Rightarrow> manifest \<times> bool" where
  "scan_item sd hash path stat m =
     (if fs_dir stat then
        (case obj_get m path of
           Some entry \<Rightarrow>
             if fe_dir entry \<and> \<not> fe_deleted entry then (m, False)
             else (obj_insert path (fresh_dir (bumped (fe_vv entry) sd)) m, True)
         | None \<Rightarrow>
             if length m < MAX_FILES then (obj_insert path (fresh_dir (bumped vv_default sd)) m, True) else (m, False))
      else
        (case obj_get m path of
           Some entry \<Rightarrow>
             if \<not> fe_deleted entry \<and> \<not> fe_dir entry \<and> fe_size entry = fs_size stat \<and> fe_mtime entry = fs_mtime stat
             then (m, False)
             else (case hash path of
                 None \<Rightarrow> (m, False)
               | Some sha \<Rightarrow>
                   if \<not> fe_deleted entry \<and> \<not> fe_dir entry \<and> fe_sha entry = sha
                   then (obj_insert path (entry\<lparr>fe_size := fs_size stat, fe_mtime := fs_mtime stat\<rparr>) m, True)
                   else (obj_insert path (fresh_file stat sha (bumped (fe_vv entry) sd)) m, True))
         | None \<Rightarrow>
             (case hash path of
                None \<Rightarrow> (m, False)
              | Some sha \<Rightarrow>
                  if MAX_FILES \<le> length m then (m, False)
                  else (obj_insert path (fresh_file stat sha (bumped vv_default sd)) m, True))))"

definition scan_found ::
  "side \<Rightarrow> (string \<Rightarrow> string option) \<Rightarrow> (string \<times> fstat) list \<Rightarrow> manifest \<Rightarrow> manifest \<times> bool" where
  "scan_found sd hash found m =
     foldl (\<lambda>(m, changed) (path, stat).
         let (m, c) = scan_item sd hash path stat m in (m, changed \<or> c)) (m, False) found"

definition tombstone :: "side \<Rightarrow> int \<Rightarrow> fentry \<Rightarrow> fentry" where
  "tombstone sd now entry =
     entry\<lparr>fe_deleted := True, fe_size := 0, fe_sha := [], fe_mtime := now, fe_vv := bumped (fe_vv entry) sd\<rparr>"

definition vanished :: "(string \<times> fstat) list \<Rightarrow> string \<times> fentry \<Rightarrow> bool" where
  "vanished found pe \<longleftrightarrow> \<not> fe_deleted (snd pe) \<and> obj_get found (fst pe) = None"

definition apply_scan ::
  "side \<Rightarrow> (string \<Rightarrow> string option) \<Rightarrow> int \<Rightarrow> (string \<times> fstat) list \<Rightarrow> manifest \<Rightarrow> bool \<times> manifest" where
  "apply_scan sd hash now found m =
     (let (m, changed) = scan_found sd hash found m;
          changed = (changed \<or> list_ex (vanished found) m);
          m = map (\<lambda>pe. if vanished found pe then (fst pe, tombstone sd now (snd pe)) else pe) m;
          cutoff = now - TOMBSTONE_DAYS * 24 * 3600 * 1000
      in (changed, filter (\<lambda>(_, entry). \<not> fe_deleted entry \<or> cutoff < fe_mtime entry) m))"

text \<open>
  \<open>keep_existing\<close>: \<open>there p\<close> says that the item is on disk after all or lies in a folder that cannot
  be listed. \<open>hold_unstable\<close>: a file changed under \<open>window\<close> milliseconds ago may still be being written.
\<close>

definition keep_existing :: "(string \<Rightarrow> bool) \<Rightarrow> manifest \<Rightarrow> (string \<times> fstat) list \<Rightarrow> (string \<times> fstat) list" where
  "keep_existing there m found =
     foldl (\<lambda>found (path, entry).
         if fe_deleted entry \<or> obj_get found path \<noteq> None then found
         else if there path
         then obj_insert path \<lparr>fs_size = fe_size entry, fs_mtime = fe_mtime entry, fs_dir = fe_dir entry\<rparr> found
         else found) found m"

definition is_unstable :: "manifest \<Rightarrow> int \<Rightarrow> int \<Rightarrow> string \<times> fstat \<Rightarrow> bool" where
  "is_unstable m now window ps \<longleftrightarrow>
     (let (path, stat) = ps in
      \<not> fs_dir stat \<and> 0 \<le> now - fs_mtime stat \<and> now - fs_mtime stat < window
      \<and> (case obj_get m path of None \<Rightarrow> True | Some entry \<Rightarrow> fe_deleted entry \<or> fe_mtime entry \<noteq> fs_mtime stat))"

definition hold_one :: "manifest \<Rightarrow> (string \<times> fstat) list \<Rightarrow> string \<Rightarrow> (string \<times> fstat) list" where
  "hold_one m found path =
     (case keep_if (\<lambda>entry. \<not> fe_deleted entry \<and> \<not> fe_dir entry) (obj_get m path) of
        Some entry \<Rightarrow> obj_insert path \<lparr>fs_size = fe_size entry, fs_mtime = fe_mtime entry, fs_dir = False\<rparr> found
      | None \<Rightarrow> filter (\<lambda>ps. fst ps \<noteq> path) found)"

definition hold_unstable ::
  "manifest \<Rightarrow> int \<Rightarrow> int \<Rightarrow> (string \<times> fstat) list \<Rightarrow> bool \<times> (string \<times> fstat) list" where
  "hold_unstable m now window found =
     (let unstable = map fst (filter (is_unstable m now window) found)
      in (unstable \<noteq> [], foldl (hold_one m) found unstable))"

subsection \<open>Names that differ only in case\<close>

text \<open>\<open>&path[..at]\<close> for each \<open>/\<close>: the folders a path is in.\<close>

definition folders_above :: "string \<Rightarrow> string list" where
  "folders_above path = map (\<lambda>i. take i path) (filter (\<lambda>i. path ! i = slash) [0..<length path])"

definition is_below :: "string \<Rightarrow> string \<Rightarrow> bool" where
  "is_below path folder \<longleftrightarrow> path = folder \<or> starts_with path (folder @ [slash])"

definition case_key :: "(string \<Rightarrow> string) \<Rightarrow> string \<Rightarrow> string \<times> string" where
  "case_key fold_name path =
     (let (parent, name) = unwrap_or ([], path) (rsplit_once slash path) in (parent, fold_name name))"

definition clash_step ::
  "(string \<Rightarrow> string) \<Rightarrow> ('v \<Rightarrow> bool) \<Rightarrow> (string \<times> string) set \<times> string list \<Rightarrow> string \<times> 'v
     \<Rightarrow> (string \<times> string) set \<times> string list" where
  "clash_step fold_name live acc pv =
     (let (first, losers) = acc; (path, v) = pv in
      if \<not> live v then acc
      else if list_ex (\<lambda>a. a \<in> set losers) (folders_above path) then acc
      else if case_key fold_name path \<in> first then (first, losers @ [path])
      else (insert (case_key fold_name path) first, losers))"

definition drop_case_clashes ::
  "(string \<Rightarrow> string) \<Rightarrow> ('v \<Rightarrow> bool) \<Rightarrow> (string \<times> 'v) list \<Rightarrow> string list \<times> (string \<times> 'v) list" where
  "drop_case_clashes fold_name live items =
     (let losers = snd (foldl (clash_step fold_name live) ({}, []) items)
      in (losers, filter (\<lambda>(path, v). \<not> live v \<or> \<not> list_ex (is_below path) losers) items))"

definition clashing_step ::
  "(string \<Rightarrow> string) \<Rightarrow> manifest \<Rightarrow> string list \<Rightarrow> string \<times> fentry \<Rightarrow> string list" where
  "clashing_step fold_name local clashing pe =
     (let (path, entry) = pe;
          held = (\<lambda>(p, e). case_key fold_name p) ` {(p, e) \<in> set local. \<not> fe_deleted e}
      in if \<not> fe_deleted entry \<and> \<not> list_ex (\<lambda>a. a \<in> set clashing) (folders_above path)
            \<and> case_key fold_name path \<in> held
            \<and> (case obj_get local path of None \<Rightarrow> True | Some ours \<Rightarrow> fe_deleted ours)
         then clashing @ [path] else clashing)"

definition left_out_of_remote ::
  "(string \<Rightarrow> string) \<Rightarrow> manifest \<Rightarrow> manifest \<Rightarrow> string list \<times> manifest" where
  "left_out_of_remote fold_name local remote =
     (let (left_out, remote) = drop_case_clashes fold_name (\<lambda>e. \<not> fe_deleted e) remote;
          clashing = foldl (clashing_step fold_name local) [] remote;
          remote = filter (\<lambda>(path, entry). fe_deleted entry \<or> \<not> list_ex (is_below path) clashing) remote
      in (sort (left_out @ clashing), remote))"

subsection \<open>Carrying a plan out\<close>

text \<open>
  What the file system did for a step: the file was as expected and the step was done; the trash
  refused; or something had changed meanwhile.
\<close>

datatype outcome = Done | Refused | Changed

definition MAX_CONFLICTS :: nat where "MAX_CONFLICTS = 200"

record apply_state =
  ap_manifest :: manifest
  ap_from_phone :: "string set"
  ap_conflicts :: "(string \<times> string \<times> int) list"
  ap_downloads :: "(string \<times> fentry) list"
  ap_restored :: "string list"
  ap_folder_deletes :: "(string \<times> fentry) list"
  ap_rescan :: bool
  ap_kept :: bool

definition put_entry :: "string \<Rightarrow> fentry \<Rightarrow> apply_state \<Rightarrow> apply_state" where
  "put_entry path entry s = s\<lparr>ap_manifest := obj_insert path entry (ap_manifest s)\<rparr>"

fun apply_step :: "(fstep \<Rightarrow> outcome) \<Rightarrow> bool \<Rightarrow> int \<Rightarrow> fstep \<Rightarrow> apply_state \<Rightarrow> apply_state" where
  "apply_step did bucket now (Take path entry) s = put_entry path entry s"
| "apply_step did bucket now (Bump path v) s =
     (case obj_get (ap_manifest s) path of
        Some entry \<Rightarrow> put_entry path (entry\<lparr>fe_vv := v\<rparr>) s
      | None \<Rightarrow> s)"
| "apply_step did bucket now (Delete path entry) s =
     (if fe_dir entry then s\<lparr>ap_folder_deletes := ap_folder_deletes s @ [(path, entry)]\<rparr>
      else (case did (Delete path entry) of
          Done \<Rightarrow> put_entry path entry s
        | Refused \<Rightarrow> s\<lparr>ap_kept := True\<rparr>
        | Changed \<Rightarrow> s\<lparr>ap_rescan := True\<rparr>))"
| "apply_step did bucket now (Move src to entry tomb) s =
     (if did (Move src to entry tomb) = Done
      then put_entry to entry ((put_entry src tomb s)\<lparr>ap_from_phone := insert to (ap_from_phone s)\<rparr>)
      else s\<lparr>ap_rescan := True\<rparr>)"
| "apply_step did bucket now (Copy src to entry) s =
     (if did (Copy src to entry) = Done
      then put_entry to entry (s\<lparr>ap_from_phone := insert to (ap_from_phone s)\<rparr>)
      else s\<lparr>ap_downloads := ap_downloads s @ [(to, entry)]\<rparr>)"
| "apply_step did bucket now (Download path entry) s =
     (if fe_dir entry
      then (if did (Download path entry) = Done then put_entry path entry s else s\<lparr>ap_rescan := True\<rparr>)
      else s\<lparr>ap_restored := ap_restored s @
                 (if bucket \<and> (case obj_get (ap_manifest s) path of Some ours \<Rightarrow> fe_deleted ours | None \<Rightarrow> False)
                     \<and> \<not> fe_deleted entry then [path] else []),
             ap_downloads := ap_downloads s @ [(path, entry)]\<rparr>)"
| "apply_step did bucket now (Conflict path copy) s =
     (if list_ex (\<lambda>(_, known, _). known = copy) (ap_conflicts s) \<or> MAX_CONFLICTS \<le> length (ap_conflicts s) then s
      else s\<lparr>ap_conflicts := ap_conflicts s @ [(path, copy, now)]\<rparr>)"
| "apply_step did bucket now (Rename src to) s = s"

text \<open>A folder delete: \<open>removed p\<close> says that the folder was gone or empty and could be removed.\<close>

definition apply_folder_delete :: "(string \<Rightarrow> bool) \<Rightarrow> string \<times> fentry \<Rightarrow> apply_state \<Rightarrow> apply_state" where
  "apply_folder_delete removed pe s =
     (let (path, entry) = pe in
      if removed path then put_entry path entry s
      else (case obj_get (ap_manifest s) path of
          Some ours \<Rightarrow> put_entry path (ours\<lparr>fe_vv := bumped (vv_max (fe_vv ours) (fe_vv entry)) Desk\<rparr>) s
        | None \<Rightarrow> s))"

fun delete_of :: "fstep \<Rightarrow> (string \<times> fentry) option" where
  "delete_of (Delete path entry) = Some (path, entry)"
| "delete_of _ = None"

text \<open>
  A folder the other side removed, with only items that go too, goes to the trash as one. Folders
  are taken shortest path first; two of the same length do not contain each other.
\<close>

definition trash_folder ::
  "(string \<Rightarrow> bool) \<Rightarrow> (string \<times> fentry) list \<Rightarrow> string \<times> fentry \<Rightarrow> string set \<times> manifest \<Rightarrow> string set \<times> manifest" where
  "trash_folder whole removals fe acc =
     (let (folder, tomb) = fe; (handled, m) = acc in
      if folder \<in> handled then acc
      else (let below = filter (\<lambda>(path, entry). starts_with path (folder @ [slash]) \<and> \<not> fe_deleted entry) m in
            if below \<noteq> [] \<and> list_all (\<lambda>(path, _). map_of removals path \<noteq> None) below \<and> whole folder
            then (handled \<union> {folder} \<union> fst ` set below,
                  foldl (\<lambda>m (path, _). obj_insert path (the (map_of removals path)) m) (obj_insert folder tomb m) below)
            else acc))"

definition apply_plan ::
  "(int \<Rightarrow> string option) \<Rightarrow> (fstep \<Rightarrow> outcome) \<Rightarrow> (string \<Rightarrow> bool) \<Rightarrow> (string \<Rightarrow> bool) \<Rightarrow> bool \<Rightarrow> int \<Rightarrow> string
     \<Rightarrow> manifest \<Rightarrow> apply_state \<Rightarrow> apply_state" where
  "apply_plan format_date did whole removed bucket now phone remote s =
     (let steps = plan format_date Desk (ap_manifest s) remote phone;
          removals = List.map_filter delete_of steps;
          folders = sort_key (\<lambda>(path, _). length path) (filter (\<lambda>(_, entry). fe_dir entry) removals);
          (handled, m) = fold (trash_folder whole removals) folders ({}, ap_manifest s);
          s = s\<lparr>ap_manifest := m, ap_downloads := [], ap_restored := [], ap_folder_deletes := [],
                ap_rescan := False, ap_kept := False\<rparr>;
          s = fold (apply_step did bucket now) (filter (\<lambda>st. \<not> is_moved handled st) steps) s
      in fold (apply_folder_delete removed)
           (sort_key (\<lambda>(path, _). - int (length path)) (ap_folder_deletes s)) s)"

subsection \<open>What a plan assigns\<close>

text \<open>
  The entries a step gives to paths once it has been carried out. Renaming a file aside and
  listing a conflict give none.
\<close>

fun assigns :: "manifest \<Rightarrow> fstep \<Rightarrow> (string \<times> fentry) list" where
  "assigns local (Take path entry) = [(path, entry)]"
| "assigns local (Delete path entry) = [(path, entry)]"
| "assigns local (Download path entry) = [(path, entry)]"
| "assigns local (Move src to entry tomb) = [(src, tomb), (to, entry)]"
| "assigns local (Copy src to entry) = [(to, entry)]"
| "assigns local (Bump path v) = (case obj_get local path of Some ours \<Rightarrow> [(path, ours\<lparr>fe_vv := v\<rparr>)] | None \<Rightarrow> [])"
| "assigns local (Rename src to) = []"
| "assigns local (Conflict path copy) = []"

definition raw_plan :: "(int \<Rightarrow> string option) \<Rightarrow> side \<Rightarrow> manifest \<Rightarrow> manifest \<Rightarrow> string \<Rightarrow> fstep list" where
  "raw_plan format_date sd local remote phone =
     concat (map (\<lambda>(path, theirs). plan_entry format_date sd local phone path theirs) remote)"

lemma in_raw_plan:
  "st \<in> set (raw_plan fd sd local remote phone)
   \<longleftrightarrow> (\<exists>path theirs. (path, theirs) \<in> set remote \<and> st \<in> set (plan_entry fd sd local phone path theirs))"
  by (auto simp: raw_plan_def)

lemma deletes_of_snoc: "deletes_of local (steps @ [st]) = add_delete local (deletes_of local steps) st"
  by (simp add: deletes_of_def)

lemma add_delete_new:
  assumes "add_delete local deletes st sha = Some (path, entry)" and "deletes sha \<noteq> Some (path, entry)"
  shows "st = Delete path entry
    \<and> (\<exists>ours. obj_get local path = Some ours \<and> \<not> fe_deleted ours \<and> \<not> fe_dir ours \<and> fe_sha ours = sha)"
  using assms by (auto simp: add_delete_def keep_if_def split: fstep.splits option.splits if_splits)

lemma deletes_of_sound:
  assumes "deletes_of local steps sha = Some (path, entry)"
  shows "Delete path entry \<in> set steps
    \<and> (\<exists>ours. obj_get local path = Some ours \<and> \<not> fe_deleted ours \<and> \<not> fe_dir ours \<and> fe_sha ours = sha)"
  using assms
proof (induction steps arbitrary: sha path entry rule: rev_induct)
  case Nil
  then show ?case by (simp add: deletes_of_def)
next
  case (snoc st steps)
  show ?case
  proof (cases "deletes_of local steps sha = Some (path, entry)")
    case True
    then show ?thesis using snoc.IH by auto
  next
    case False
    then show ?thesis using add_delete_new snoc.prems by (fastforce simp: deletes_of_snoc)
  qed
qed

lemma kept_of_sound:
  assumes "kept_of local steps sha = Some path"
  shows "\<exists>entry. (path, entry) \<in> set local \<and> \<not> fe_deleted entry \<and> \<not> fe_dir entry \<and> fe_sha entry = sha
    \<and> path \<notin> set (List.map_filter changing_path steps)"
proof -
  have "foldl (\<lambda>kept (path, entry). if \<not> fe_deleted entry \<and> \<not> fe_dir entry \<and> path \<notin> C then kept(fe_sha entry \<mapsto> path) else kept)
      Map.empty local sha = Some path
    \<Longrightarrow> \<exists>entry. (path, entry) \<in> set local \<and> \<not> fe_deleted entry \<and> \<not> fe_dir entry \<and> fe_sha entry = sha \<and> path \<notin> C" for C
    by (induction local arbitrary: sha rule: rev_induct) (fastforce split: if_splits)+
  then show ?thesis using assms by (simp add: kept_of_def)
qed

text \<open>What becomes of each step, and where each step of the result comes from.\<close>

definition stems_from ::
  "(string \<rightharpoonup> string) \<Rightarrow> (string \<rightharpoonup> string \<times> fentry) \<Rightarrow> fstep list \<Rightarrow> fstep \<Rightarrow> bool" where
  "stems_from kept deletes steps st \<longleftrightarrow>
     st \<in> set steps
     \<or> (\<exists>src path entry tomb. st = Move src path entry tomb \<and> Download path entry \<in> set steps \<and> \<not> fe_dir entry
           \<and> deletes (fe_sha entry) = Some (src, tomb))
     \<or> (\<exists>src path entry. st = Copy src path entry \<and> Download path entry \<in> set steps \<and> \<not> fe_dir entry
           \<and> kept (fe_sha entry) = Some src)"

lemma stems_from_mono:
  assumes "stems_from kept deletes' steps st" and "deletes' \<subseteq>\<^sub>m deletes"
  shows "stems_from kept deletes (s # steps) st"
proof -
  have "deletes' k = Some v \<Longrightarrow> deletes k = Some v" for k v using assms(2) by (fastforce simp: map_le_def dom_def)
  then show ?thesis using assms(1) by (fastforce simp: stems_from_def)
qed

lemma rename_steps_sound:
  "st \<in> set (fst (rename_steps kept deletes steps moved)) \<Longrightarrow> stems_from kept deletes steps st"
proof (induction kept deletes steps moved rule: rename_steps.induct)
  case (2 kept deletes path entry steps moved)
  let ?rest = "\<lambda>d m. fst (rename_steps kept d steps m)"
  consider "fe_dir entry" | (mv) src tomb where "\<not> fe_dir entry" "deletes (fe_sha entry) = Some (src, tomb)"
    | (none) "\<not> fe_dir entry" "deletes (fe_sha entry) = None" by (cases "deletes (fe_sha entry)") auto
  then show ?case
  proof cases
    case 1
    then have "st = Download path entry \<or> st \<in> set (?rest deletes moved)" using 2(4) by (auto split: prod.splits)
    then show ?thesis using 2(1)[OF 1] stems_from_mono[OF _ map_le_refl] by (auto simp: stems_from_def)
  next
    case mv
    then have "st = Move src path entry tomb \<or> st \<in> set (?rest (deletes(fe_sha entry := None)) (insert src moved))"
      using 2(4) by (auto split: prod.splits)
    then show ?thesis
    proof
      assume "st \<in> set (?rest (deletes(fe_sha entry := None)) (insert src moved))"
      then have "stems_from kept (deletes(fe_sha entry := None)) steps st" using 2(2,3) mv by fastforce
      then show ?thesis by (rule stems_from_mono) (simp add: map_le_def)
    qed (use mv in \<open>auto simp: stems_from_def\<close>)
  next
    case none
    then have "st = (case kept (fe_sha entry) of Some src \<Rightarrow> Copy src path entry | None \<Rightarrow> Download path entry)
        \<or> st \<in> set (?rest deletes moved)" using 2(4) by (auto split: prod.splits)
    then show ?thesis
    proof
      assume "st \<in> set (?rest deletes moved)"
      then have "stems_from kept deletes steps st" using 2(2,3) none by fastforce
      then show ?thesis by (rule stems_from_mono) simp
    qed (use none in \<open>auto simp: stems_from_def split: option.splits\<close>)
  qed
qed (auto simp: stems_from_def split: prod.splits)

lemma rename_steps_unfold:
  "rename_steps kept deletes (Download path entry # steps) moved =
     (let deletes' = (if fe_dir entry then deletes else deletes(fe_sha entry := None));
          moved' = (if fe_dir entry then moved
                    else (case deletes (fe_sha entry) of Some (src, _) \<Rightarrow> insert src moved | None \<Rightarrow> moved));
          st = (if fe_dir entry then Download path entry
                else (case deletes (fe_sha entry) of
                   Some (src, tomb) \<Rightarrow> Move src path entry tomb
                 | None \<Rightarrow> (case kept (fe_sha entry) of Some src \<Rightarrow> Copy src path entry | None \<Rightarrow> Download path entry)));
          r = rename_steps kept deletes' steps moved'
      in (st # fst r, snd r))"
  by (cases "deletes (fe_sha entry)") (auto simp: case_prod_unfold Let_def fun_upd_idem)

lemma rename_steps_other:
  assumes "\<nexists>path entry. s = Download path entry"
  shows "rename_steps kept deletes (s # steps) moved
    = (s # fst (rename_steps kept deletes steps moved), snd (rename_steps kept deletes steps moved))"
  using assms by (cases s) (simp_all add: case_prod_unfold Let_def)

lemma rename_steps_complete:
  "st \<in> set steps \<Longrightarrow> st \<in> set (fst (rename_steps kept deletes steps moved))
     \<or> (\<exists>src path entry tomb. st = Download path entry \<and>
          (Move src path entry tomb \<in> set (fst (rename_steps kept deletes steps moved))
           \<or> Copy src path entry \<in> set (fst (rename_steps kept deletes steps moved))))"
proof (induction steps arbitrary: deletes moved)
  case (Cons s steps)
  show ?case
  proof (cases "\<exists>path entry. s = Download path entry")
    case True
    then obtain path entry where s: "s = Download path entry" by blast
    show ?thesis
    proof (cases "st = s")
      case True
      then show ?thesis unfolding s rename_steps_unfold by (auto simp: Let_def split: option.splits)
    next
      case False
      then have "st \<in> set steps" using Cons.prems by simp
      note Cons.IH [OF this]
      then show ?thesis unfolding s rename_steps_unfold Let_def fst_conv list.set by blast
    qed
  next
    case False
    show ?thesis using Cons.IH [of deletes moved] Cons.prems unfolding rename_steps_other [OF False] by auto
  qed
qed simp

lemma rename_steps_moved:
  "src \<in> snd (rename_steps kept deletes steps moved) \<Longrightarrow>
     src \<in> moved \<or> (\<exists>path entry tomb. Move src path entry tomb \<in> set (fst (rename_steps kept deletes steps moved)))"
proof (induction steps arbitrary: deletes moved)
  case (Cons s steps)
  show ?case
  proof (cases "\<exists>path entry. s = Download path entry")
    case True
    then obtain path entry where s: "s = Download path entry" by blast
    define d' m' where "d' = (if fe_dir entry then deletes else deletes(fe_sha entry := None))"
      and "m' = (if fe_dir entry then moved
                 else (case deletes (fe_sha entry) of Some (src, _) \<Rightarrow> insert src moved | None \<Rightarrow> moved))"
    have "src \<in> snd (rename_steps kept d' steps m')"
      using Cons.prems unfolding s rename_steps_unfold Let_def snd_conv d'_def m'_def .
    then consider "src \<in> m'" | path' e' t' where "Move src path' e' t' \<in> set (fst (rename_steps kept d' steps m'))"
      using Cons.IH by blast
    then show ?thesis
    proof cases
      case 1
      then show ?thesis unfolding s rename_steps_unfold by (auto simp: m'_def Let_def split: if_splits option.splits)
    next
      case 2
      then show ?thesis unfolding s rename_steps_unfold Let_def d'_def m'_def fst_conv list.set by blast
    qed
  next
    case False
    show ?thesis using Cons.IH [of deletes moved] Cons.prems unfolding rename_steps_other [OF False] by auto
  qed
qed simp

text \<open>The entry a path ends with, given both sides' entries: \<open>None\<close> leaves ours as it is.\<close>

definition settle :: "side \<Rightarrow> fentry option \<Rightarrow> fentry \<Rightarrow> fentry option" where
  "settle sd ours theirs =
     (case ours of
        None \<Rightarrow> Some theirs
      | Some o' \<Rightarrow>
          if fe_vv o' = fe_vv theirs \<or> dominates (fe_vv o') (fe_vv theirs) then None
          else if dominates (fe_vv theirs) (fe_vv o') then Some theirs
          else
            (let merged = vv_max (fe_vv o') (fe_vv theirs) in
             if fe_deleted o' \<or> \<not> fe_deleted theirs \<and> fe_sha o' = fe_sha theirs then Some (theirs\<lparr>fe_vv := merged\<rparr>)
             else if fe_deleted theirs then Some (o'\<lparr>fe_vv := bumped merged sd\<rparr>)
             else (case sd of Desk \<Rightarrow> None | Phone \<Rightarrow> Some (theirs\<lparr>fe_vv := bumped merged Desk\<rparr>))))"

lemma dominates_antisym: "dominates a b \<Longrightarrow> \<not> dominates b a"
  by (cases a; cases b) (auto simp: dominates_def)

lemma plan_entry_assigns:
  "set (concat (map (assigns local) (plan_entry fd sd local phone path theirs)))
     = (\<lambda>e. (path, e)) ` set_option (settle sd (obj_get local path) theirs)"
proof (cases "obj_get local path")
  case None
  then show ?thesis by (simp add: plan_entry_def settle_def)
next
  case (Some ours)
  then show ?thesis
    using dominates_antisym [of "fe_vv ours" "fe_vv theirs"]
    by (cases "fe_deleted ours"; cases "fe_deleted theirs"; cases sd) (simp_all add: plan_entry_def settle_def Let_def)
qed

lemma raw_assigns:
  assumes "distinct (map fst remote)"
  shows "(path, e) \<in> set (concat (map (assigns local) (raw_plan fd sd local remote phone)))
    \<longleftrightarrow> (\<exists>theirs. obj_get remote path = Some theirs \<and> settle sd (obj_get local path) theirs = Some e)"
proof -
  have "(path, e) \<in> set (concat (map (assigns local) (raw_plan fd sd local remote phone)))
    \<longleftrightarrow> (\<exists>q theirs. (q, theirs) \<in> set remote
          \<and> (path, e) \<in> set (concat (map (assigns local) (plan_entry fd sd local phone q theirs))))"
    by (fastforce simp: raw_plan_def)
  also have "\<dots> \<longleftrightarrow> (\<exists>theirs. (path, theirs) \<in> set remote \<and> settle sd (obj_get local path) theirs = Some e)"
    unfolding plan_entry_assigns by auto
  finally show ?thesis using assms by (simp add: obj_get_def map_of_eq_Some_iff)
qed

lemma plan_is_renamed_raw: "plan fd sd local remote phone = renames_by_hash local (raw_plan fd sd local remote phone)"
  by (simp add: plan_def raw_plan_def)

lemma raw_plan_no_move: "Move src to e t \<notin> set (raw_plan fd sd local remote phone)"
  "Copy src to e \<notin> set (raw_plan fd sd local remote phone)"
  by (auto simp: in_raw_plan plan_entry_def Let_def split: option.splits if_splits side.splits)

lemma in_renames_by_hash:
  "st \<in> set (renames_by_hash local steps) \<longleftrightarrow>
     st \<in> set (fst (rename_steps (kept_of local steps) (deletes_of local steps) steps {}))
     \<and> \<not> is_moved (snd (rename_steps (kept_of local steps) (deletes_of local steps) steps {})) st"
  by (simp add: renames_by_hash_def Let_def case_prod_unfold)

abbreviation renamed :: "manifest \<Rightarrow> fstep list \<Rightarrow> fstep list \<times> string set" where
  "renamed local steps \<equiv> rename_steps (kept_of local steps) (deletes_of local steps) steps {}"

text \<open>A move in the result stands for a delete and a download of the plan before.\<close>

lemma renamed_move:
  assumes "Move src path entry tomb \<in> set (fst (renamed local steps))" and "\<And>src to e t. Move src to e t \<notin> set steps"
  shows "Delete src tomb \<in> set steps \<and> Download path entry \<in> set steps
    \<and> (\<exists>ours. obj_get local src = Some ours \<and> \<not> fe_deleted ours \<and> \<not> fe_dir ours \<and> fe_sha ours = fe_sha entry)"
proof -
  have "stems_from (kept_of local steps) (deletes_of local steps) steps (Move src path entry tomb)"
    using assms(1) by (rule rename_steps_sound)
  then have "deletes_of local steps (fe_sha entry) = Some (src, tomb)" "Download path entry \<in> set steps"
    using assms(2) unfolding stems_from_def by blast+
  then show ?thesis using deletes_of_sound by blast
qed

lemma step_assigns:
  "st \<in> set steps \<Longrightarrow> (p, e) \<in> set (assigns local st) \<Longrightarrow> (p, e) \<in> set (concat (map (assigns local) steps))"
  by auto

lemma renamed_assigns_sound:
  assumes "st \<in> set (fst (renamed local steps))" and "\<And>src to e t. Move src to e t \<notin> set steps"
    and "(p, e) \<in> set (assigns local st)"
  shows "(p, e) \<in> set (concat (map (assigns local) steps))"
proof -
  have "stems_from (kept_of local steps) (deletes_of local steps) steps st"
    using assms(1) by (rule rename_steps_sound)
  then consider "st \<in> set steps" | src path entry tomb where "st = Move src path entry tomb"
    | src path entry where "st = Copy src path entry" "Download path entry \<in> set steps"
    unfolding stems_from_def by blast
  then show ?thesis
  proof cases
    case 1
    then show ?thesis using assms(3) by (rule step_assigns)
  next
    case 2
    then have "Delete src tomb \<in> set steps" "Download path entry \<in> set steps" using renamed_move assms(1,2) by blast+
    then show ?thesis using assms(3) 2 step_assigns [of _ steps _ _ local] by auto
  next
    case 3
    then show ?thesis using assms(3) step_assigns [OF 3(2)] by auto
  qed
qed

lemma renamed_assigns_complete:
  assumes "st \<in> set steps" and "\<And>src to e t. Move src to e t \<notin> set steps"
    and "\<And>p e e'. Delete p e \<in> set steps \<Longrightarrow> Delete p e' \<in> set steps \<Longrightarrow> e = e'"
    and "(p, e) \<in> set (assigns local st)"
  shows "(p, e) \<in> set (concat (map (assigns local) (renames_by_hash local steps)))"
proof (cases "is_moved (snd (renamed local steps)) st")
  case True
  then have st: "st = Delete p e" and "p \<in> snd (renamed local steps)" using assms(4) by (cases st; simp)+
  then obtain path entry tomb where mv: "Move p path entry tomb \<in> set (fst (renamed local steps))"
    using rename_steps_moved by blast
  then have "Move p path entry e \<in> set (renames_by_hash local steps)"
    using renamed_move [OF mv assms(2)] assms(3) [of p tomb e] assms(1) st unfolding in_renames_by_hash by simp
  then show ?thesis by (rule step_assigns) simp
next
  case False
  from rename_steps_complete [OF assms(1), of "kept_of local steps" "deletes_of local steps" "{}"]
  consider "st \<in> set (renames_by_hash local steps)"
    | src path entry tomb where "st = Download path entry" "Move src path entry tomb \<in> set (renames_by_hash local steps)"
    | src path entry where "st = Download path entry" "Copy src path entry \<in> set (renames_by_hash local steps)"
    using False unfolding in_renames_by_hash by auto
  then show ?thesis
  proof cases
    case 1
    then show ?thesis using assms(4) by (rule step_assigns)
  next
    case 2
    then show ?thesis using assms(4) by (intro step_assigns [OF 2(2)]) simp
  next
    case 3
    then show ?thesis using assms(4) by (intro step_assigns [OF 3(2)]) simp
  qed
qed

text \<open>Finding moves and copies by content changes nothing of what the plan assigns.\<close>

lemma plan_assigns:
  assumes "distinct (map fst remote)"
  shows "set (concat (map (assigns local) (plan fd sd local remote phone)))
    = set (concat (map (assigns local) (raw_plan fd sd local remote phone)))" (is "?P = ?R")
proof
  let ?steps = "raw_plan fd sd local remote phone"
  note no_move = raw_plan_no_move(1) [of _ _ _ _ fd sd local remote phone]
  have unique: "e = e'" if "Delete p e \<in> set ?steps" "Delete p e' \<in> set ?steps" for p e e'
    using raw_assigns [OF assms, of p e local fd sd phone] raw_assigns [OF assms, of p e' local fd sd phone]
      step_assigns [OF that(1), of p e local] step_assigns [OF that(2), of p e' local] by auto
  have "x \<in> ?R" if mem: "x \<in> ?P" for x
  proof (cases x)
    case (Pair p e)
    then obtain st where "st \<in> set (fst (renamed local ?steps))" "(p, e) \<in> set (assigns local st)"
      using mem by (auto simp: plan_is_renamed_raw in_renames_by_hash)
    then show ?thesis unfolding Pair using renamed_assigns_sound no_move by blast
  qed
  then show "?P \<subseteq> ?R" by (rule subsetI)
  show "?R \<subseteq> ?P"
    using renamed_assigns_complete [OF _ no_move unique] unfolding plan_is_renamed_raw by auto
qed

subsection \<open>The state both sides reach\<close>

definition put_all :: "manifest \<Rightarrow> (string \<times> fentry) list \<Rightarrow> manifest" where
  "put_all m kvs = foldl (\<lambda>m (path, entry). obj_insert path entry m) m kvs"

lemma put_all_append: "put_all m (xs @ ys) = put_all (put_all m xs) ys"
  by (simp add: put_all_def)

lemma put_all_other: "p \<notin> fst ` set kvs \<Longrightarrow> obj_get (put_all m kvs) p = obj_get m p"
  by (induction kvs rule: rev_induct) (auto simp: put_all_def)

lemma put_all_put:
  "(p, e) \<in> set kvs \<Longrightarrow> (\<And>e'. (p, e') \<in> set kvs \<Longrightarrow> e' = e) \<Longrightarrow> obj_get (put_all m kvs) p = Some e"
proof (induction kvs rule: rev_induct)
  case (snoc kv kvs)
  obtain q f where kv: "kv = (q, f)" by (cases kv)
  show ?case
  proof (cases "(p, e) \<in> set kvs")
    case True
    then have "obj_get (put_all m kvs) p = Some e" by (rule snoc.IH) (rule snoc.prems(2), simp)
    moreover have "q = p \<Longrightarrow> f = e" using snoc.prems(2) [of f] kv by simp
    ultimately show ?thesis by (simp add: kv put_all_def)
  next
    case False
    then have "kv = (p, e)" using snoc.prems(1) by simp
    then show ?thesis by (simp add: put_all_def)
  qed
qed simp

lemma put_all_sorted: "obj_sorted m \<Longrightarrow> obj_sorted (put_all m kvs)"
  by (induction kvs rule: rev_induct) (auto simp: put_all_def intro: obj_sorted_insert)

definition settled :: "side \<Rightarrow> fentry option \<Rightarrow> fentry option \<Rightarrow> fentry option" where
  "settled sd ours theirs =
     (case theirs of
        None \<Rightarrow> ours
      | Some t \<Rightarrow> (case settle sd ours t of None \<Rightarrow> ours | Some e \<Rightarrow> Some e))"

text \<open>The manifest once every step of a plan has been carried out.\<close>

definition carry_out :: "manifest \<Rightarrow> fstep list \<Rightarrow> manifest" where
  "carry_out local steps = put_all local (concat (map (assigns local) steps))"

lemma put_all_settled:
  assumes "distinct (map fst remote)"
    and "set kvs = set (concat (map (assigns local) (plan fd sd local remote phone)))"
  shows "obj_get (put_all local kvs) p = settled sd (obj_get local p) (obj_get remote p)"
proof -
  have mem: "(p, e) \<in> set kvs \<longleftrightarrow> (\<exists>theirs. obj_get remote p = Some theirs \<and> settle sd (obj_get local p) theirs = Some e)" for e
    unfolding assms(2) plan_assigns [OF assms(1)] using raw_assigns [OF assms(1)] .
  show ?thesis
  proof (cases "\<exists>e. (p, e) \<in> set kvs")
    case True
    then obtain e where e: "(p, e) \<in> set kvs" by blast
    then have "obj_get (put_all local kvs) p = Some e" using mem by (intro put_all_put) auto
    then show ?thesis using e mem by (auto simp: settled_def)
  next
    case False
    then have "p \<notin> fst ` set kvs" by auto
    then show ?thesis using False mem by (auto simp: put_all_other settled_def split: option.splits)
  qed
qed

lemma carry_out_settled:
  "distinct (map fst remote) \<Longrightarrow>
     obj_get (carry_out local (plan fd sd local remote phone)) p = settled sd (obj_get local p) (obj_get remote p)"
  unfolding carry_out_def by (rule put_all_settled) simp_all

text \<open>
  Counters that can still be counted up, and entries of one version that have the same content; the
  recorded size and time may differ, since a scan that finds a file touched but not changed takes
  them over without a new version.
\<close>

definition same_file_content :: "fentry \<Rightarrow> fentry \<Rightarrow> bool" where
  "same_file_content a b \<longleftrightarrow> fe_sha a = fe_sha b \<and> fe_deleted a = fe_deleted b \<and> fe_dir a = fe_dir b \<and> fe_vv a = fe_vv b"

definition countable_vv :: "vv \<Rightarrow> bool" where
  "countable_vv v \<longleftrightarrow> vv_desk v < U64_MAX \<and> vv_phone v < U64_MAX"

definition one_version :: "manifest \<Rightarrow> manifest \<Rightarrow> bool" where
  "one_version a b \<longleftrightarrow> (\<forall>p x y. obj_get a p = Some x \<longrightarrow> obj_get b p = Some y \<longrightarrow> fe_vv x = fe_vv y \<longrightarrow> same_file_content x y)"

definition countable_manifest :: "manifest \<Rightarrow> bool" where
  "countable_manifest m \<longleftrightarrow> (\<forall>p e. obj_get m p = Some e \<longrightarrow> countable_vv (fe_vv e))"

lemma dominates_bumped_max:
  assumes "countable_vv a" and "countable_vv b"
  shows "dominates (bumped (vv_max a b) sd) a" "dominates (bumped (vv_max a b) sd) b"
  using assms by (cases a; cases b; cases sd; auto simp: dominates_def bumped_def vv_max_def countable_vv_def)+

lemma dominates_max:
  assumes "\<not> dominates a b" and "a \<noteq> b"
  shows "dominates (vv_max a b) a"
  using assms by (cases a; cases b) (auto simp: dominates_def vv_max_def max_def)

lemma vv_max_commute: "vv_max a b = vv_max b a"
  by (simp add: vv_max_def max.commute)

lemma settled_dominated:
  assumes "dominates (fe_vv t) (fe_vv x)"
  shows "settled sd (Some x) (Some t) = Some t"
  using assms dominates_antisym [OF assms] by (auto simp: settled_def settle_def dominates_def)

lemma same_file_refl [simp]: "same_file_content x x" "rel_option same_file_content e e"
  by (simp_all add: same_file_content_def option.rel_refl)

lemma same_file_sym: "rel_option same_file_content a b \<Longrightarrow> rel_option same_file_content b a"
  by (cases a; cases b) (simp_all add: same_file_content_def)

lemma settled_same: "settled sd ours ours = ours"
  by (cases ours) (simp_all add: settled_def settle_def)

text \<open>One exchange: the desk follows the phone, the phone the desk, and the desk the phone again.\<close>

lemma settled_converges:
  assumes "\<And>x y. d = Some x \<Longrightarrow> p = Some y \<Longrightarrow> fe_vv x = fe_vv y \<Longrightarrow> same_file_content x y"
    and "\<And>x. d = Some x \<Longrightarrow> countable_vv (fe_vv x)" and "\<And>y. p = Some y \<Longrightarrow> countable_vv (fe_vv y)"
  shows "rel_option same_file_content
    (settled Desk (settled Desk d p) (settled Phone p (settled Desk d p))) (settled Phone p (settled Desk d p))"
proof (cases "\<exists>x y. d = Some x \<and> p = Some y \<and> \<not> dominates (fe_vv x) (fe_vv y) \<and> \<not> dominates (fe_vv y) (fe_vv x) \<and> fe_vv x \<noteq> fe_vv y")
  case True
  then obtain x y where xy: "d = Some x" "p = Some y" "\<not> dominates (fe_vv x) (fe_vv y)" "\<not> dominates (fe_vv y) (fe_vv x)"
    "fe_vv x \<noteq> fe_vv y" by blast
  let ?m = "vv_max (fe_vv x) (fe_vv y)"
  have dom: "dominates ?m (fe_vv y)" "\<And>sd. dominates (bumped ?m sd) (fe_vv x)" "\<And>sd. dominates (bumped ?m sd) (fe_vv y)"
    using dominates_max [of "fe_vv y" "fe_vv x"] vv_max_commute xy dominates_bumped_max assms(2,3) by metis+
  consider (take) e where "settled Desk d p = Some e" "dominates (fe_vv e) (fe_vv y)"
    | (conflict) "settled Desk d p = d" "settled Phone p d = Some (x\<lparr>fe_vv := bumped ?m Desk\<rparr>)"
  proof (cases "\<not> fe_deleted x \<and> \<not> fe_deleted y \<and> fe_sha x \<noteq> fe_sha y")
    case True
    then have "settled Desk d p = d" "settled Phone p d = Some (x\<lparr>fe_vv := bumped ?m Desk\<rparr>)"
      using xy by (auto simp: settled_def settle_def Let_def vv_max_commute [of "fe_vv y"])
    then show ?thesis by (rule conflict)
  next
    case False
    then have "\<exists>e. settled Desk d p = Some e \<and> dominates (fe_vv e) (fe_vv y)"
      using xy dom by (cases "fe_deleted x \<or> \<not> fe_deleted y") (auto simp: settled_def settle_def)
    then show ?thesis using take by blast
  qed
  then show ?thesis
  proof cases
    case take
    then have "settled Phone p (settled Desk d p) = Some e" using xy settled_dominated by simp
    then show ?thesis using take settled_same by simp
  next
    case conflict
    then show ?thesis using xy(1) dom(2) settled_dominated [of "x\<lparr>fe_vv := bumped ?m Desk\<rparr>"] by simp
  qed
next
  case False
  then consider "d = None" | "p = None" | x y where "d = Some x" "p = Some y" "fe_vv x = fe_vv y \<or> dominates (fe_vv x) (fe_vv y)"
    | x y where "d = Some x" "p = Some y" "dominates (fe_vv y) (fe_vv x)" by (cases d; cases p) auto
  then show ?thesis
  proof cases
    case 3
    then have "settled Desk d p = d" by (auto simp: settled_def settle_def)
    moreover have "settled Phone p d = p \<and> same_file_content x y \<or> settled Phone p d = d"
      using 3 assms(1) [OF 3(1,2)] settled_dominated [of x y] by (auto simp: settled_def settle_def)
    ultimately show ?thesis using 3 by (auto simp: settled_same)
  next
    case 4
    then show ?thesis by (simp add: settled_dominated settled_same)
  qed (auto simp: settled_def settle_def split: option.splits)
qed

subsection \<open>No edit is lost\<close>

text \<open>The local files a step replaces or removes.\<close>

fun overwrites :: "fstep \<Rightarrow> string set" where
  "overwrites (Delete path _) = {path}"
| "overwrites (Download path _) = {path}"
| "overwrites (Move src to _ _) = {src, to}"
| "overwrites (Copy _ to _) = {to}"
| "overwrites _ = {}"

lemma plan_entry_overwrites: "st \<in> set (plan_entry fd sd local phone path theirs) \<Longrightarrow> overwrites st \<subseteq> {path}"
  by (auto simp: plan_entry_def Let_def split: option.splits if_splits side.splits)

lemma plan_entry_replaces:
  assumes "st \<in> set (plan_entry fd sd local phone path theirs)" and "path \<in> overwrites st"
    and "obj_get local path = Some ours" and "\<not> fe_deleted ours"
  shows "dominates (fe_vv theirs) (fe_vv ours)
    \<or> (\<exists>copy e. plan_entry fd sd local phone path theirs = [Rename path copy, Download path e])"
  using assms by (auto simp: plan_entry_def Let_def split: if_splits side.splits)

lemma rename_steps_append:
  "\<exists>deletes' moved'. fst (rename_steps kept deletes (xs @ ys) moved)
     = fst (rename_steps kept deletes xs moved) @ fst (rename_steps kept deletes' ys moved')"
proof (induction xs arbitrary: deletes moved)
  case Nil
  then show ?case by auto
next
  case (Cons x xs)
  show ?case
  proof (cases "\<exists>path entry. x = Download path entry")
    case True
    then obtain path entry where x: "x = Download path entry" by blast
    show ?thesis using Cons.IH unfolding x append_Cons rename_steps_unfold Let_def fst_conv list.inject by auto
  next
    case False
    show ?thesis using Cons.IH unfolding append_Cons rename_steps_other [OF False] by auto
  qed
qed

text \<open>A step of the plan overwrites what some step of the plan before renaming does.\<close>

lemma stems_from_overwrites:
  assumes "stems_from kept (deletes_of local steps) xs st" and "p \<in> overwrites st" and "set xs \<subseteq> set steps"
    and "\<And>src to e t. Move src to e t \<notin> set steps" "\<And>src to e. Copy src to e \<notin> set steps"
  shows "(\<exists>st' \<in> set xs. p \<in> overwrites st') \<or> (\<exists>e. Delete p e \<in> set steps)"
proof -
  from assms(1) consider "st \<in> set xs"
    | src path entry tomb where "st = Move src path entry tomb" "Download path entry \<in> set xs"
        "deletes_of local steps (fe_sha entry) = Some (src, tomb)"
    | src path entry where "st = Copy src path entry" "Download path entry \<in> set xs"
    unfolding stems_from_def by blast
  then show ?thesis
  proof cases
    case 1
    then show ?thesis using assms(2) by blast
  next
    case 2
    then have "Delete src tomb \<in> set steps" using deletes_of_sound by blast
    then show ?thesis using 2 assms(2) by force
  next
    case 3
    then show ?thesis using assms(2) by force
  qed
qed

lemma plan_overwrites:
  assumes "st \<in> set (plan fd sd local remote phone)" and "p \<in> overwrites st"
  obtains theirs st' where "(p, theirs) \<in> set remote" "st' \<in> set (plan_entry fd sd local phone p theirs)" "p \<in> overwrites st'"
proof -
  let ?raw = "raw_plan fd sd local remote phone"
  have "stems_from (kept_of local ?raw) (deletes_of local ?raw) ?raw st"
    using assms(1) unfolding plan_is_renamed_raw in_renames_by_hash by (blast intro: rename_steps_sound)
  from stems_from_overwrites [OF this assms(2) order.refl raw_plan_no_move]
  obtain st' where "st' \<in> set ?raw" "p \<in> overwrites st'" by force
  then show thesis using that plan_entry_overwrites unfolding in_raw_plan by blast
qed

text \<open>The phone's own version is put aside before anything is written over it.\<close>

lemma plan_renames_first:
  assumes "distinct (map fst remote)" and "(p, theirs) \<in> set remote"
    and entry: "plan_entry fd sd local phone p theirs = [Rename p copy, Download p e]"
  shows "\<exists>as bs. plan fd sd local remote phone = as @ Rename p copy # bs \<and> (\<forall>st \<in> set as. p \<notin> overwrites st)"
proof -
  let ?raw = "raw_plan fd sd local remote phone"
  obtain A B where remote: "remote = A @ (p, theirs) # B" using split_list [OF assms(2)] by blast
  define a where "a = raw_plan fd sd local A phone"
  have raw: "?raw = a @ Rename p copy # Download p e # raw_plan fd sd local B phone"
    by (simp add: remote raw_plan_def entry a_def)
  have none: "p \<notin> overwrites st" if st: "st \<in> set a" for st
  proof
    assume p: "p \<in> overwrites st"
    obtain q t where q: "(q, t) \<in> set A" "st \<in> set (plan_entry fd sd local phone q t)"
      using st unfolding a_def in_raw_plan by blast
    then have "q = p" using plan_entry_overwrites [OF q(2)] p by auto
    then show False using q(1) assms(1) by (force simp: remote)
  qed
  have no_delete: "Delete p f \<notin> set ?raw" for f
  proof
    assume "Delete p f \<in> set ?raw"
    then obtain q t where q: "(q, t) \<in> set remote" "Delete p f \<in> set (plan_entry fd sd local phone q t)"
      unfolding in_raw_plan by blast
    then have "q = p" using plan_entry_overwrites [OF q(2)] by simp
    then show False using q entry eq_key_imp_eq_value [OF assms(1,2)] by simp
  qed
  let ?kept = "kept_of local ?raw" and ?deletes = "deletes_of local ?raw"
  obtain d m where "fst (renamed local ?raw) = fst (rename_steps ?kept ?deletes a {})
      @ fst (rename_steps ?kept d (Rename p copy # Download p e # raw_plan fd sd local B phone) m)"
    using rename_steps_append [of ?kept ?deletes a "Rename p copy # Download p e # raw_plan fd sd local B phone" "{}"]
    unfolding raw [symmetric] by blast
  then obtain Y where out: "fst (renamed local ?raw) = fst (rename_steps ?kept ?deletes a {}) @ Rename p copy # Y"
    by (subst (asm) rename_steps_other) auto
  have "p \<notin> overwrites st" if "st \<in> set (fst (rename_steps ?kept ?deletes a {}))" for st
    using stems_from_overwrites [OF rename_steps_sound [OF that] _ _ raw_plan_no_move] none no_delete raw by auto
  then have "plan fd sd local remote phone
      = filter (\<lambda>st. \<not> is_moved (snd (renamed local ?raw)) st) (fst (rename_steps ?kept ?deletes a {}))
        @ Rename p copy # filter (\<lambda>st. \<not> is_moved (snd (renamed local ?raw)) st) Y"
    "\<forall>st \<in> set (filter (\<lambda>st. \<not> is_moved (snd (renamed local ?raw)) st) (fst (rename_steps ?kept ?deletes a {}))). p \<notin> overwrites st"
    by (simp_all add: plan_is_renamed_raw renames_by_hash_def Let_def case_prod_unfold out)
  then show ?thesis by blast
qed

text \<open>
  C4. A plan never loses an edit: when a step replaces or removes a local file that is there, the
  other side's version of that path dominates it, or the phone's file has been renamed aside by
  an earlier step of the plan, before which nothing touches it.
\<close>

theorem plan_never_loses_edit:
  assumes "obj_sorted remote" and "st \<in> set (plan fd sd local remote phone)" and "p \<in> overwrites st"
    and "obj_get local p = Some ours" and "\<not> fe_deleted ours"
  shows "(\<exists>theirs. obj_get remote p = Some theirs \<and> dominates (fe_vv theirs) (fe_vv ours))
    \<or> (\<exists>copy as bs. plan fd sd local remote phone = as @ Rename p copy # bs \<and> (\<forall>s \<in> set as. p \<notin> overwrites s))"
proof -
  have dist: "distinct (map fst remote)" using assms(1) by (simp add: obj_sorted_def strict_sorted_iff)
  obtain theirs st' where t: "(p, theirs) \<in> set remote" "st' \<in> set (plan_entry fd sd local phone p theirs)" "p \<in> overwrites st'"
    using plan_overwrites [OF assms(2,3)] .
  have "obj_get remote p = Some theirs" using t(1) dist by (simp add: obj_get_def)
  then show ?thesis using plan_entry_replaces [OF t(2,3) assms(4,5)] plan_renames_first [OF dist t(1)] by blast
qed

definition demo_entry :: "string \<Rightarrow> nat \<Rightarrow> nat \<Rightarrow> fentry" where
  "demo_entry sha d p = \<lparr>fe_size = 1, fe_mtime = 0, fe_sha = sha, fe_deleted = False, fe_dir = False, fe_vv = \<lparr>vv_desk = d, vv_phone = p\<rparr>\<rparr>"

lemma demo_plan:
  "plan (\<lambda>_. None) Desk [(''a'', demo_entry ''x'' 1 0)] [(''a'', demo_entry ''y'' 1 1)] ''P'' = [Download ''a'' (demo_entry ''y'' 1 1)]"
  by (simp add: plan_def plan_entry_def obj_get_def demo_entry_def dominates_def renames_by_hash_def deletes_of_def add_delete_def
      kept_of_def map_filter_def)

theorem plan_never_loses_edit_witness:
  "\<exists>theirs. obj_get [(''a'', demo_entry ''y'' 1 1)] ''a'' = Some theirs \<and> dominates (fe_vv theirs) (fe_vv (demo_entry ''x'' 1 0))"
  using plan_never_loses_edit [of "[(''a'', demo_entry ''y'' 1 1)]" "Download ''a'' (demo_entry ''y'' 1 1)" "\<lambda>_. None" Desk
      "[(''a'', demo_entry ''x'' 1 0)]" "''P''" "''a''" "demo_entry ''x'' 1 0"]
  unfolding demo_plan
  by (auto simp: obj_sorted_def obj_get_def demo_entry_def Cons_eq_append_conv)

subsection \<open>Both sides reach the same state\<close>

lemma sorted_distinct: "obj_sorted m \<Longrightarrow> distinct (map fst m)"
  by (simp add: obj_sorted_def strict_sorted_iff)

lemma carry_out_sorted: "obj_sorted m \<Longrightarrow> obj_sorted (carry_out m steps)"
  unfolding carry_out_def by (rule put_all_sorted)

lemma plan_nothing:
  assumes "obj_sorted remote" and "\<And>p. rel_option same_file_content (obj_get local p) (obj_get remote p)"
  shows "plan fd sd local remote phone = []"
proof -
  have "plan_entry fd sd local phone p t = []" if "(p, t) \<in> set remote" for p t
  proof -
    have "obj_get remote p = Some t" using that sorted_distinct [OF assms(1)] by (simp add: obj_get_def)
    then show ?thesis using assms(2) [of p] by (cases "obj_get local p") (simp_all add: plan_entry_def same_file_content_def)
  qed
  then have "raw_plan fd sd local remote phone = []" by (auto simp: raw_plan_def)
  then show ?thesis by (simp add: plan_is_renamed_raw renames_by_hash_def)
qed

text \<open>
  The files the phone put aside, as its next scan records them: new files, under the first version
  of the phone.
\<close>

definition renames :: "fstep list \<Rightarrow> (string \<times> string) list" where
  "renames steps = List.map_filter (\<lambda>st. case st of Rename src to \<Rightarrow> Some (src, to) | _ \<Rightarrow> None) steps"

definition as_new :: "fentry \<Rightarrow> fentry" where
  "as_new ours = ours\<lparr>fe_vv := bumped vv_default Phone\<rparr>"

definition copies :: "manifest \<Rightarrow> fstep list \<Rightarrow> (string \<times> fentry) list" where
  "copies local steps = map (\<lambda>(src, to). (to, as_new (the (obj_get local src)))) (renames steps)"

definition plain_conflicts :: "manifest \<Rightarrow> manifest \<Rightarrow> fstep list \<Rightarrow> bool" where
  "plain_conflicts local remote steps \<longleftrightarrow>
     distinct (map snd (renames steps))
     \<and> list_all (\<lambda>(src, to). obj_get local to = None \<and> obj_get remote to = None
          \<and> (case obj_get local src of Some ours \<Rightarrow> \<not> fe_dir ours | None \<Rightarrow> True)) (renames steps)"

lemma in_renames: "(src, to) \<in> set (renames steps) \<longleftrightarrow> Rename src to \<in> set steps"
  by (induction steps) (auto simp: renames_def map_filter_simps split: fstep.splits option.splits)

lemma copy_is_scanned:
  assumes "obj_get m to = None" and "length m < MAX_FILES" and "\<not> fe_deleted ours" and "\<not> fe_dir ours"
    and "hash to = Some (fe_sha ours)"
  shows "scan_item Phone hash to \<lparr>fs_size = fe_size ours, fs_mtime = fe_mtime ours, fs_dir = False\<rparr> m
    = (obj_insert to (as_new ours) m, True)"
  using assms by (cases ours) (simp add: scan_item_def fresh_file_def as_new_def)

lemma plan_entry_rename:
  assumes "Rename src to \<in> set (plan_entry fd sd local phone path theirs)"
  shows "\<exists>ours. obj_get local src = Some ours \<and> \<not> fe_deleted ours"
  using assms by (auto simp: plan_entry_def Let_def split: option.splits if_splits side.splits)

lemma plan_renames_known:
  assumes "Rename src to \<in> set (plan fd sd local remote phone)"
  shows "\<exists>ours. obj_get local src = Some ours \<and> \<not> fe_deleted ours"
proof -
  let ?raw = "raw_plan fd sd local remote phone"
  have "stems_from (kept_of local ?raw) (deletes_of local ?raw) ?raw (Rename src to)"
    using assms unfolding plan_is_renamed_raw in_renames_by_hash by (blast intro: rename_steps_sound)
  then have "Rename src to \<in> set ?raw" by (simp add: stems_from_def)
  then show ?thesis using plan_entry_rename unfolding in_raw_plan by blast
qed

lemma put_copies:
  assumes "distinct (map snd (renames steps))"
  shows "Rename src to \<in> set steps \<Longrightarrow> obj_get (put_all m (copies local steps)) to = Some (as_new (the (obj_get local src)))"
    and "to \<notin> snd ` set (renames steps) \<Longrightarrow> obj_get (put_all m (copies local steps)) to = obj_get m to"
proof -
  have fst: "map fst (copies local steps) = map snd (renames steps)" by (simp add: copies_def case_prod_unfold comp_def)
  show "obj_get (put_all m (copies local steps)) to = Some (as_new (the (obj_get local src)))" if "Rename src to \<in> set steps"
  proof (rule put_all_put)
    show mem: "(to, as_new (the (obj_get local src))) \<in> set (copies local steps)"
      using that by (force simp: copies_def in_renames [symmetric])
    show "e' = as_new (the (obj_get local src))" if "(to, e') \<in> set (copies local steps)" for e'
      using eq_key_imp_eq_value [OF _ that mem] assms fst by simp
  qed
  show "obj_get (put_all m (copies local steps)) to = obj_get m to" if "to \<notin> snd ` set (renames steps)"
    by (rule put_all_other) (use that in \<open>force simp: copies_def\<close>)
qed

text \<open>
  C5. Two folders converge in one exchange: the desk carries out its plan against the phone's
  manifest, the phone its plan against the desk's and scans the files it put aside, and the desk its
  plan against the phone's again. Then both manifests have the same version and content at every
  path, neither side has anything left to do, and each file the phone put aside is on both sides
  under its conflict name. This holds for manifests in which entries of one version have the same
  content and no counter is at its end, when the conflicts are between files and their conflict names
  are not in use.
\<close>

theorem folders_converge:
  assumes "obj_sorted D" and "obj_sorted P" and "one_version D P" and "countable_manifest D" and "countable_manifest P"
    and "D' = carry_out D (plan fd Desk D P name)" and "steps = plan fd Phone P D' name" and "plain_conflicts P D' steps"
    and "P' = put_all (carry_out P steps) (copies P steps)" and "D'' = carry_out D' (plan fd Desk D' P' name)"
  shows "(\<forall>p. rel_option same_file_content (obj_get D'' p) (obj_get P' p))
    \<and> plan fd Desk D'' P' name = [] \<and> plan fd Phone P' D'' name = []
    \<and> (\<forall>src to. Rename src to \<in> set steps \<longrightarrow>
        (\<exists>ours. obj_get P src = Some ours \<and> obj_get D'' to = Some (as_new ours) \<and> obj_get P' to = Some (as_new ours)))"
proof -
  note names = assms(8) [unfolded plain_conflicts_def, THEN conjunct1]
  have sorted: "obj_sorted D'" "obj_sorted P'" "obj_sorted D''"
    using assms(1,2) carry_out_sorted put_all_sorted unfolding assms(6,9,10) by blast+
  have d': "obj_get D' p = settled Desk (obj_get D p) (obj_get P p)" for p
    unfolding assms(6) by (rule carry_out_settled [OF sorted_distinct [OF assms(2)]])
  have p': "obj_get (carry_out P steps) p = settled Phone (obj_get P p) (obj_get D' p)" for p
    unfolding assms(7) by (rule carry_out_settled [OF sorted_distinct [OF sorted(1)]])
  have d'': "obj_get D'' p = settled Desk (obj_get D' p) (obj_get P' p)" for p
    unfolding assms(10) by (rule carry_out_settled [OF sorted_distinct [OF sorted(2)]])
  have copy: "\<exists>ours. obj_get P src = Some ours \<and> obj_get D'' to = Some (as_new ours) \<and> obj_get P' to = Some (as_new ours)"
    if r: "Rename src to \<in> set steps" for src to
  proof -
    obtain ours where ours: "obj_get P src = Some ours" using plan_renames_known r unfolding assms(7) by blast
    have "obj_get D' to = None" using assms(8) r by (auto simp: plain_conflicts_def list_all_iff in_renames)
    then show ?thesis using put_copies(1) [OF names r] ours d'' [of to] unfolding assms(9) by (simp add: settled_def settle_def)
  qed
  have same: "rel_option same_file_content (obj_get D'' p) (obj_get P' p)" for p
  proof (cases "p \<in> snd ` set (renames steps)")
    case True
    then show ?thesis using copy by (force simp: in_renames)
  next
    case False
    then have "obj_get P' p = settled Phone (obj_get P p) (obj_get D' p)" using put_copies(2) [OF names] p' unfolding assms(9) by simp
    then show ?thesis
      unfolding d'' d' using settled_converges [of "obj_get D p" "obj_get P p"] assms(3-5)
      by (simp add: one_version_def countable_manifest_def)
  qed
  then show ?thesis
    using copy plan_nothing [OF sorted(2), of D''] plan_nothing [OF sorted(3), of P'] same_file_sym by blast
qed

lemma demo_name: "conflict_name (\<lambda>_. None) ''a'' ''P'' 0 = ''a (conflict from P 1970-01-01)''"
  by code_simp

lemmas demo_plans = plan_def plan_entry_def obj_get_def demo_entry_def dominates_def renames_by_hash_def deletes_of_def
  add_delete_def kept_of_def map_filter_def vv_max_def bumped_def U64_MAX_def demo_name

lemma demo_conflict:
  "plan (\<lambda>_. None) Phone [(''a'', demo_entry ''y'' 0 1)] [(''a'', demo_entry ''x'' 1 0)] ''P''
     = [Rename ''a'' ''a (conflict from P 1970-01-01)'', Download ''a'' (demo_entry ''x'' 2 1)]"
  "plan (\<lambda>_. None) Desk [(''a'', demo_entry ''x'' 1 0)] [(''a'', demo_entry ''y'' 0 1)] ''P''
     = [Conflict ''a'' ''a (conflict from P 1970-01-01)'']"
  by (simp_all add: demo_plans)

theorem folders_converge_witness:
  "let D = [(''a'', demo_entry ''x'' 1 0)]; P = [(''a'', demo_entry ''y'' 0 1)]; steps = plan (\<lambda>_. None) Phone P D ''P'';
       P' = put_all (carry_out P steps) (copies P steps); D'' = carry_out D (plan (\<lambda>_. None) Desk D P' ''P'')
   in obj_get D'' ''a (conflict from P 1970-01-01)'' = Some (demo_entry ''y'' 0 1)
      \<and> (\<forall>p. rel_option same_file_content (obj_get D'' p) (obj_get P' p))"
proof -
  let ?D = "[(''a'', demo_entry ''x'' 1 0)]" and ?P = "[(''a'', demo_entry ''y'' 0 1)]" and ?copy = "''a (conflict from P 1970-01-01)''"
  have D: "?D = carry_out ?D (plan (\<lambda>_. None) Desk ?D ?P ''P'')"
    unfolding demo_conflict by (simp add: carry_out_def put_all_def)
  have "plain_conflicts ?P ?D (plan (\<lambda>_. None) Phone ?P ?D ''P'')"
    unfolding demo_conflict by (simp add: plain_conflicts_def renames_def map_filter_simps obj_get_def demo_entry_def)
  note facts = folders_converge [OF _ _ _ _ _ D refl this refl refl]
  have "as_new (demo_entry ''y'' 0 1) = demo_entry ''y'' 0 1"
    by (simp add: as_new_def demo_entry_def bumped_def vv_default_def U64_MAX_def)
  then show ?thesis
    using facts unfolding Let_def demo_conflict(1)
    by (simp add: obj_sorted_def one_version_def countable_manifest_def countable_vv_def obj_get_def demo_entry_def U64_MAX_def)
qed

text \<open>
  What the phone takes after a conflict counts as one more change of the desk. A change made on the
  desk before it hears of that has a version below it, and the desk's plan replaces it, with
  nothing renamed aside.
\<close>

lemma conflict_beats_later_edit:
  "let D = [(''a'', demo_entry ''x'' 1 0)]; P = [(''a'', demo_entry ''y'' 0 1)];
       P' = carry_out P (plan (\<lambda>_. None) Phone P D ''P'');
       D' = fst (scan_item Desk (\<lambda>_. Some ''z'') ''a'' \<lparr>fs_size = 1, fs_mtime = 9, fs_dir = False\<rparr> D)
   in obj_get D' ''a'' = Some ((demo_entry ''z'' 2 0)\<lparr>fe_mtime := 9\<rparr>)
      \<and> plan (\<lambda>_. None) Desk D' P' ''P'' = [Download ''a'' (demo_entry ''x'' 2 1)]"
  unfolding Let_def demo_conflict
  by (simp add: carry_out_def put_all_def scan_item_def fresh_file_def obj_insert.simps demo_plans)

subsection \<open>The desk carries its plan out\<close>

lemma put_entry_simps [simp]:
  "ap_manifest (put_entry p e s) = obj_insert p e (ap_manifest s)" "ap_downloads (put_entry p e s) = ap_downloads s"
  "ap_folder_deletes (put_entry p e s) = ap_folder_deletes s" "ap_rescan (put_entry p e s) = ap_rescan s"
  "ap_kept (put_entry p e s) = ap_kept s"
  by (simp_all add: put_entry_def)

text \<open>The deletes of a plan: each path is deleted at most once, and nothing else touches it.\<close>

definition deletions :: "fstep list \<Rightarrow> (string \<times> fentry) list" where
  "deletions steps = List.map_filter delete_of steps"

lemma deletions_simps [simp]:
  "deletions [] = []" "deletions (st # steps) = (case delete_of st of None \<Rightarrow> [] | Some pe \<Rightarrow> [pe]) @ deletions steps"
  "deletions (xs @ ys) = deletions xs @ deletions ys"
  by (simp_all add: deletions_def map_filter_def split: option.splits)

lemma in_deletions: "(p, e) \<in> set (deletions steps) \<longleftrightarrow> Delete p e \<in> set steps"
proof (induction steps)
  case (Cons st steps)
  then show ?case by (cases st) auto
qed simp

lemma distinct_fst_sort: "distinct (map fst xs) \<Longrightarrow> distinct (map fst (sort_key k xs))"
  by (rule distinct_map [THEN iffD2]) (auto simp: distinct_map)

lemma fst_image: "p \<in> fst ` set xs \<longleftrightarrow> (\<exists>e. (p, e) \<in> set xs)"
  by force

lemma deletions_filter: "distinct (map fst (deletions steps)) \<Longrightarrow> distinct (map fst (deletions (filter P steps)))"
proof (induction steps)
  case (Cons st steps)
  have "fst ` set (deletions (filter P steps)) \<subseteq> fst ` set (deletions steps)" by (auto simp: subset_iff fst_image in_deletions simp del: image_iff)
  then show ?case using Cons by (cases st) auto
qed simp

lemma deletions_renamed: "deletions (fst (rename_steps kept deletes steps moved)) = deletions steps"
  by (induction kept deletes steps moved rule: rename_steps.induct)
    (auto simp: case_prod_unfold Let_def fun_upd_def split: option.splits)

lemma deletions_entry: "\<exists>e. deletions (plan_entry fd sd local phone path theirs) \<in> {[], [(path, e)]}"
  by (auto simp: plan_entry_def Let_def split: option.splits side.splits)

lemma deletions_raw:
  assumes "distinct (map fst remote)"
  shows "distinct (map fst (deletions (raw_plan fd sd local remote phone)))
    \<and> fst ` set (deletions (raw_plan fd sd local remote phone)) \<subseteq> fst ` set remote"
  using assms
proof (induction remote)
  case (Cons pt remote)
  obtain e where "deletions (plan_entry fd sd local phone (fst pt) (snd pt)) \<in> {[], [(fst pt, e)]}" using deletions_entry by blast
  then show ?case using Cons by (auto simp: raw_plan_def case_prod_unfold subset_iff fst_image simp del: image_iff)
qed (simp add: raw_plan_def)

lemma plan_deletions_distinct: "distinct (map fst remote) \<Longrightarrow> distinct (map fst (deletions (plan fd sd local remote phone)))"
  unfolding plan_is_renamed_raw renames_by_hash_def Let_def case_prod_unfold
  by (rule deletions_filter) (simp add: deletions_renamed deletions_raw)

lemma rename_steps_marks:
  "moved \<subseteq> snd (rename_steps kept deletes steps moved)"
  "Move src path entry tomb \<in> set (fst (rename_steps kept deletes steps moved)) \<Longrightarrow> Move src path entry tomb \<notin> set steps \<Longrightarrow>
     src \<in> snd (rename_steps kept deletes steps moved)"
proof -
  show mono: "moved \<subseteq> snd (rename_steps kept deletes steps moved)" for kept deletes steps moved
    by (induction kept deletes steps moved rule: rename_steps.induct)
      (auto simp: case_prod_unfold Let_def fun_upd_def split: option.splits)
  show "Move src path entry tomb \<in> set (fst (rename_steps kept deletes steps moved)) \<Longrightarrow> Move src path entry tomb \<notin> set steps \<Longrightarrow>
     src \<in> snd (rename_steps kept deletes steps moved)"
  proof (induction kept deletes steps moved rule: rename_steps.induct)
    case (2 kept deletes path' entry' steps moved)
    then show ?case
      by (auto simp: case_prod_unfold Let_def fun_upd_def split: option.splits if_splits intro: subsetD [OF mono insertI1])
  qed (auto simp: case_prod_unfold Let_def)
qed

lemma plan_entry_delete:
  "Delete p e \<in> set (plan_entry fd sd local phone q theirs) \<Longrightarrow>
     plan_entry fd sd local phone q theirs = [Delete p e] \<and> p = q \<and> e = theirs \<and> obj_get local p \<noteq> None"
  by (auto simp: plan_entry_def Let_def split: option.splits if_splits side.splits)

lemma raw_delete_alone:
  assumes "distinct (map fst remote)" and "Delete p e \<in> set (raw_plan fd sd local remote phone)"
    and "st \<in> set (raw_plan fd sd local remote phone)" and "(p, e') \<in> set (assigns local st)"
  shows "st = Delete p e"
proof -
  obtain t where t: "(p, t) \<in> set remote" "plan_entry fd sd local phone p t = [Delete p e]"
    using assms(2) plan_entry_delete unfolding in_raw_plan by metis
  obtain q u where u: "(q, u) \<in> set remote" "st \<in> set (plan_entry fd sd local phone q u)" using assms(3) unfolding in_raw_plan by blast
  have "q = p" using plan_entry_assigns [of local fd sd phone q u] step_assigns [OF u(2) assms(4)] by auto
  then show ?thesis using u t eq_key_imp_eq_value [OF assms(1) t(1)] by simp
qed

lemma delete_alone:
  assumes "distinct (map fst remote)" and "Delete p e \<in> set (plan fd sd local remote phone)"
    and "st \<in> set (plan fd sd local remote phone)" and "(p, e') \<in> set (assigns local st)"
  shows "st = Delete p e"
proof -
  let ?raw = "raw_plan fd sd local remote phone"
  have out: "st \<in> set (fst (renamed local ?raw))" "Delete p e \<in> set (fst (renamed local ?raw))" "p \<notin> snd (renamed local ?raw)"
    using assms(2,3) unfolding plan_is_renamed_raw in_renames_by_hash by simp_all
  have raw: "Delete p e \<in> set ?raw" using rename_steps_sound [OF out(2)] by (simp add: stems_from_def)
  note alone = raw_delete_alone [OF assms(1) raw]
  from rename_steps_sound [OF out(1)]
  consider "st \<in> set ?raw" | src path entry tomb where "st = Move src path entry tomb" "Download path entry \<in> set ?raw"
    | src path entry where "st = Copy src path entry" "Download path entry \<in> set ?raw"
    unfolding stems_from_def by blast
  then show ?thesis
  proof cases
    case 1
    then show ?thesis using alone assms(4) by blast
  next
    case 2
    then have "src \<in> snd (renamed local ?raw)" using rename_steps_marks(2) out(1) raw_plan_no_move(1) by blast
    then show ?thesis using 2 alone [OF 2(2)] assms(4) out(3) by auto
  next
    case 3
    then show ?thesis using alone [OF 3(2)] assms(4) by auto
  qed
qed

lemma plan_delete:
  assumes "distinct (map fst remote)" and "Delete p e \<in> set (plan fd sd local remote phone)"
  shows "obj_get remote p = Some e \<and> obj_get local p \<noteq> None"
proof -
  let ?raw = "raw_plan fd sd local remote phone"
  have "Delete p e \<in> set (fst (renamed local ?raw))" using assms(2) unfolding plan_is_renamed_raw in_renames_by_hash by simp
  then have "Delete p e \<in> set ?raw" using rename_steps_sound by (fastforce simp: stems_from_def)
  then show ?thesis using plan_entry_delete assms(1) unfolding in_raw_plan by (fastforce simp: obj_get_def)
qed

text \<open>Folders that go to the trash as one: what was handled has its tombstone, the rest is as it was.\<close>

lemma insert_below:
  "obj_get (foldl (\<lambda>m (path, _). obj_insert path (f path) m) m below) p = (if p \<in> fst ` set below then Some (f p) else obj_get m p)"
  by (induction below rule: rev_induct) (auto simp: case_prod_unfold)

definition trashed :: "manifest \<Rightarrow> (string \<times> fentry) list \<Rightarrow> string set \<times> manifest \<Rightarrow> bool" where
  "trashed local removals acc \<longleftrightarrow>
     (\<forall>p. if p \<in> fst acc then \<exists>e. (p, e) \<in> set removals \<and> obj_get (snd acc) p = Some e else obj_get (snd acc) p = obj_get local p)"

lemma trash_folder_trashed:
  assumes "trashed local removals acc" and "(folder, tomb) \<in> set removals" and "distinct (map fst removals)"
  shows "trashed local removals (trash_folder whole removals (folder, tomb) acc)"
proof (cases "trash_folder whole removals (folder, tomb) acc = acc")
  case False
  obtain handled m where acc: "acc = (handled, m)" by (cases acc)
  let ?below = "filter (\<lambda>(path, entry). starts_with path (folder @ [slash]) \<and> \<not> fe_deleted entry) m"
  have go: "\<forall>(path, _) \<in> set ?below. map_of removals path \<noteq> None"
    and res: "trash_folder whole removals (folder, tomb) acc = (handled \<union> {folder} \<union> fst ` set ?below,
      foldl (\<lambda>m (path, _). obj_insert path (the (map_of removals path)) m) (obj_insert folder tomb m) ?below)"
    using False by (auto simp: trash_folder_def acc Let_def list_all_iff split: if_splits)
  have "(p, the (map_of removals p)) \<in> set removals" if "p \<in> fst ` set ?below" for p
  proof -
    have "map_of removals p \<noteq> None" using that go by (auto simp: case_prod_unfold) blast
    then show ?thesis by (auto dest: map_of_SomeD)
  qed
  then show ?thesis
    using assms(1) [unfolded trashed_def acc fst_conv snd_conv] assms(2)
    unfolding trashed_def res fst_conv snd_conv insert_below by auto
qed (use assms(1) in simp)

lemma trash_phase:
  assumes "set folders \<subseteq> set removals" and "distinct (map fst removals)"
  shows "trashed local removals (fold (trash_folder whole removals) folders ({}, local))"
  using assms(1)
proof (induction folders rule: rev_induct)
  case (snoc f folders)
  then show ?case using trash_folder_trashed [OF _ _ assms(2)] by (cases f) simp
qed (simp add: trashed_def)

text \<open>What one step does: its entries are put, or asked for, or its folder waits, or it failed and that is marked.\<close>

definition folder_deletes_of :: "fstep list \<Rightarrow> (string \<times> fentry) list" where
  "folder_deletes_of steps = filter (\<lambda>(_, e). fe_dir e) (deletions steps)"

definition marked :: "apply_state \<Rightarrow> bool" where
  "marked s \<longleftrightarrow> ap_rescan s \<or> ap_kept s"

lemma apply_step_effect:
  assumes "\<And>p v. st = Bump p v \<Longrightarrow>
      \<exists>ours x. obj_get local p = Some ours \<and> obj_get (ap_manifest s) p = Some x \<and> x\<lparr>fe_vv := v\<rparr> = ours\<lparr>fe_vv := v\<rparr>"
  shows "ap_folder_deletes (apply_step did bucket now st s) = ap_folder_deletes s @ folder_deletes_of [st]
    \<and> (ap_manifest (apply_step did bucket now st s) = put_all (ap_manifest s) (assigns local st)
         \<and> ap_downloads (apply_step did bucket now st s) = ap_downloads s \<and> folder_deletes_of [st] = []
         \<and> marked (apply_step did bucket now st s) = marked s
       \<or> ap_manifest (apply_step did bucket now st s) = ap_manifest s \<and> marked (apply_step did bucket now st s) = marked s
         \<and> set (ap_downloads (apply_step did bucket now st s)) \<union> set (folder_deletes_of [st])
             = set (ap_downloads s) \<union> set (assigns local st)
       \<or> ap_manifest (apply_step did bucket now st s) = ap_manifest s \<and> did st \<noteq> Done
         \<and> ap_downloads (apply_step did bucket now st s) = ap_downloads s
         \<and> marked (apply_step did bucket now st s))"
proof (cases st)
  case (Bump p v)
  then show ?thesis using assms by (auto simp: folder_deletes_of_def put_all_def marked_def)
next
  case (Delete p e)
  then show ?thesis
    by (cases "fe_dir e"; cases "did (Delete p e)") (auto simp: folder_deletes_of_def put_all_def marked_def)
qed (auto simp: folder_deletes_of_def put_all_def marked_def put_entry_def)

text \<open>
  What holds after the steps \<open>ds\<close>: every path has what it had in \<open>m0\<close> or what it was assigned, and
  whatever was assigned is there, asked for, waiting to be deleted, or marked as failed.
\<close>

definition tracked :: "manifest \<Rightarrow> (fstep \<Rightarrow> outcome) \<Rightarrow> manifest \<Rightarrow> fstep list \<Rightarrow> apply_state \<Rightarrow> bool" where
  "tracked local did m0 ds s \<longleftrightarrow>
     (\<forall>p. obj_get (ap_manifest s) p = obj_get m0 p
        \<or> (\<exists>st e. st \<in> set ds \<and> folder_deletes_of [st] = [] \<and> (p, e) \<in> set (assigns local st) \<and> obj_get (ap_manifest s) p = Some e))
     \<and> (\<forall>st \<in> set ds. \<forall>(p, e) \<in> set (assigns local st).
          obj_get (ap_manifest s) p = Some e \<or> (p, e) \<in> set (ap_downloads s) \<or> (p, e) \<in> set (folder_deletes_of ds)
          \<or> did st \<noteq> Done \<and> marked s)
     \<and> set (ap_downloads s) \<subseteq> set (concat (map (assigns local) ds))
     \<and> ap_folder_deletes s = folder_deletes_of ds
     \<and> (marked s \<longrightarrow> (\<exists>st \<in> set ds. did st \<noteq> Done))"

lemma put_all_cases:
  assumes "\<And>e e'. (p, e) \<in> set kvs \<Longrightarrow> (p, e') \<in> set kvs \<Longrightarrow> e = e'"
  obtains "p \<notin> fst ` set kvs" "obj_get (put_all m kvs) p = obj_get m p"
  | e where "(p, e) \<in> set kvs" "obj_get (put_all m kvs) p = Some e"
proof (cases "p \<in> fst ` set kvs")
  case True
  then obtain e where e: "(p, e) \<in> set kvs" by force
  then show ?thesis using that(2) put_all_put assms by metis
qed (use that(1) put_all_other in blast)

lemma folder_deletes_snoc: "folder_deletes_of (ds @ [st]) = folder_deletes_of ds @ folder_deletes_of [st]"
  by (simp add: folder_deletes_of_def)

lemma tracked_step:
  assumes "tracked local did m0 ds s"
    and unique: "\<And>p e e'. (p, e) \<in> A \<Longrightarrow> (p, e') \<in> A \<Longrightarrow> e = e'"
    and "set (concat (map (assigns local) (ds @ [st]))) \<subseteq> A"
    and "\<And>p. obj_get m0 p = obj_get local p \<or> (\<exists>e. (p, e) \<in> A \<and> obj_get m0 p = Some e)"
    and "\<And>p v. st = Bump p v \<Longrightarrow> obj_get local p \<noteq> None"
  shows "tracked local did m0 (ds @ [st]) (apply_step did bucket now st s)"
proof -
  let ?s = "apply_step did bucket now st s"
  have now: "(p, e) \<in> A" if "(p, e) \<in> set (assigns local st)" for p e using assms(3) that by auto
  have old: "(p, e) \<in> A" if "(p, e) \<in> set (concat (map (assigns local) ds))" for p e using assms(3) that by auto
  note T = assms(1) [unfolded tracked_def]
  have T1: "obj_get (ap_manifest s) p = obj_get m0 p
      \<or> (\<exists>st e. st \<in> set ds \<and> folder_deletes_of [st] = [] \<and> (p, e) \<in> set (assigns local st) \<and> obj_get (ap_manifest s) p = Some e)" for p
    using T by blast
  have "\<exists>ours x. obj_get local p = Some ours \<and> obj_get (ap_manifest s) p = Some x \<and> x\<lparr>fe_vv := v\<rparr> = ours\<lparr>fe_vv := v\<rparr>"
    if "st = Bump p v" for p v
  proof -
    obtain ours where ours: "obj_get local p = Some ours" using assms(5) \<open>st = Bump p v\<close> by blast
    then have a: "(p, ours\<lparr>fe_vv := v\<rparr>) \<in> A" using now \<open>st = Bump p v\<close> by simp
    from T1 [of p] consider "obj_get (ap_manifest s) p = obj_get local p" | e where "(p, e) \<in> A" "obj_get (ap_manifest s) p = Some e"
    proof (elim disjE exE conjE)
      fix st' e
      assume "st' \<in> set ds" "(p, e) \<in> set (assigns local st')" "obj_get (ap_manifest s) p = Some e"
      then show thesis using that(2) old [OF step_assigns] by blast
    qed (use assms(4) [of p] that in \<open>auto\<close>)
    then show ?thesis
    proof cases
      case (2 e)
      then show ?thesis using unique [OF a 2(1)] ours by auto
    qed (use ours in simp)
  qed
  note effect = apply_step_effect [of st local s did bucket now, OF this]
  have one: "e = e'" if "(p, e) \<in> set (assigns local st)" "(p, e') \<in> set (assigns local st)" for p e e'
    using unique now that by blast
  have T2: "obj_get (ap_manifest s) p = Some e \<or> (p, e) \<in> set (ap_downloads s) \<or> (p, e) \<in> set (folder_deletes_of ds)
      \<or> did st' \<noteq> Done \<and> marked s" if "st' \<in> set ds" "(p, e) \<in> set (assigns local st')" for st' p e
    using T that by blast
  have fds: "ap_folder_deletes ?s = folder_deletes_of (ds @ [st])" using effect T by (simp add: folder_deletes_snoc)
  from effect consider
      (finished) "ap_manifest ?s = put_all (ap_manifest s) (assigns local st)" "ap_downloads ?s = ap_downloads s" "marked ?s = marked s"
        "folder_deletes_of [st] = []"
    | (later) "ap_manifest ?s = ap_manifest s" "marked ?s = marked s"
        "set (ap_downloads ?s) \<union> set (folder_deletes_of [st]) = set (ap_downloads s) \<union> set (assigns local st)"
    | (failed) "ap_manifest ?s = ap_manifest s" "did st \<noteq> Done" "ap_downloads ?s = ap_downloads s" "marked ?s"
    by blast
  then show ?thesis
  proof cases
    case finished
    have get: "obj_get (ap_manifest ?s) p = obj_get (ap_manifest s) p \<and> p \<notin> fst ` set (assigns local st)
        \<or> (\<exists>e. (p, e) \<in> set (assigns local st) \<and> obj_get (ap_manifest ?s) p = Some e)" for p
      unfolding finished(1) by (rule put_all_cases [of p "assigns local st" "ap_manifest s"]) (use one in blast)+
    have keep: "obj_get (ap_manifest ?s) p = Some e" if "(p, e) \<in> A" "obj_get (ap_manifest s) p = Some e" for p e
      using get [of p] that unique now by metis
    have put: "obj_get (ap_manifest ?s) p = Some e" if "(p, e) \<in> set (assigns local st)" for p e
      using get [of p] that one by (metis fst_image)
    have "obj_get (ap_manifest ?s) p = obj_get m0 p
        \<or> (\<exists>st' e. st' \<in> set (ds @ [st]) \<and> folder_deletes_of [st'] = [] \<and> (p, e) \<in> set (assigns local st')
              \<and> obj_get (ap_manifest ?s) p = Some e)" for p
      using get [of p] T1 [of p] finished(4) by (elim disjE exE conjE) (simp_all, blast+)
    moreover have "obj_get (ap_manifest ?s) p = Some e \<or> (p, e) \<in> set (ap_downloads ?s) \<or> (p, e) \<in> set (folder_deletes_of (ds @ [st]))
        \<or> did st' \<noteq> Done \<and> marked ?s" if "st' \<in> set (ds @ [st])" "(p, e) \<in> set (assigns local st')" for st' p e
    proof (cases "st' \<in> set ds")
      case True
      then have "(p, e) \<in> A" using old that(2) by auto
      then show ?thesis using T2 [OF True that(2)] keep finished by (auto simp: folder_deletes_snoc)
    qed (use put that in auto)
    moreover have "set (ap_downloads ?s) \<subseteq> set (concat (map (assigns local) (ds @ [st])))"
      "marked ?s \<longrightarrow> (\<exists>st \<in> set (ds @ [st]). did st \<noteq> Done)" using finished T by auto
    ultimately show ?thesis using fds unfolding tracked_def by blast
  next
    case later
    have down: "set (ap_downloads ?s) \<subseteq> set (ap_downloads s) \<union> set (assigns local st)"
      "set (ap_downloads s) \<subseteq> set (ap_downloads ?s) \<union> set (folder_deletes_of [st])"
      "set (assigns local st) \<subseteq> set (ap_downloads ?s) \<union> set (folder_deletes_of [st])" using later(3) by auto
    have "obj_get (ap_manifest ?s) p = Some e \<or> (p, e) \<in> set (ap_downloads ?s) \<or> (p, e) \<in> set (folder_deletes_of (ds @ [st]))
        \<or> did st' \<noteq> Done \<and> marked ?s" if "st' \<in> set (ds @ [st])" "(p, e) \<in> set (assigns local st')" for st' p e
      using that T2 [of st' p e] down(2,3) later(1,2) by (cases "st' \<in> set ds") (auto simp: folder_deletes_snoc)
    moreover have "obj_get (ap_manifest ?s) p = obj_get m0 p
        \<or> (\<exists>st' e. st' \<in> set (ds @ [st]) \<and> folder_deletes_of [st'] = [] \<and> (p, e) \<in> set (assigns local st')
              \<and> obj_get (ap_manifest ?s) p = Some e)" for p
      using T1 [of p] unfolding later(1) by (elim disjE exE conjE) (simp_all, blast)
    moreover have "set (ap_downloads ?s) \<subseteq> set (concat (map (assigns local) (ds @ [st])))"
      "marked ?s \<longrightarrow> (\<exists>st \<in> set (ds @ [st]). did st \<noteq> Done)" using later(2) down(1) T by auto
    ultimately show ?thesis using fds unfolding tracked_def by blast
  next
    case failed
    have "obj_get (ap_manifest ?s) p = Some e \<or> (p, e) \<in> set (ap_downloads ?s) \<or> (p, e) \<in> set (folder_deletes_of (ds @ [st]))
        \<or> did st' \<noteq> Done \<and> marked ?s" if "st' \<in> set (ds @ [st])" "(p, e) \<in> set (assigns local st')" for st' p e
      using that T2 [of st' p e] failed by (cases "st' \<in> set ds") (auto simp: folder_deletes_snoc)
    moreover have "obj_get (ap_manifest ?s) p = obj_get m0 p
        \<or> (\<exists>st' e. st' \<in> set (ds @ [st]) \<and> folder_deletes_of [st'] = [] \<and> (p, e) \<in> set (assigns local st')
              \<and> obj_get (ap_manifest ?s) p = Some e)" for p
      using T1 [of p] unfolding failed(1) by (elim disjE exE conjE) (simp_all, blast)
    moreover have "set (ap_downloads ?s) \<subseteq> set (concat (map (assigns local) (ds @ [st])))"
      "marked ?s \<longrightarrow> (\<exists>st \<in> set (ds @ [st]). did st \<noteq> Done)" using failed(2,3) T by auto
    ultimately show ?thesis using fds unfolding tracked_def by blast
  qed
qed

lemma tracked_steps:
  assumes "\<And>p e e'. (p, e) \<in> A \<Longrightarrow> (p, e') \<in> A \<Longrightarrow> e = e'" and "set (concat (map (assigns local) ds)) \<subseteq> A"
    and "\<And>p. obj_get (ap_manifest s) p = obj_get local p \<or> (\<exists>e. (p, e) \<in> A \<and> obj_get (ap_manifest s) p = Some e)"
    and "\<And>p v. Bump p v \<in> set ds \<Longrightarrow> obj_get local p \<noteq> None"
    and "ap_downloads s = []" and "ap_folder_deletes s = []" and "\<not> marked s"
  shows "tracked local did (ap_manifest s) ds (fold (apply_step did bucket now) ds s)"
  using assms(2,4)
proof (induction ds rule: rev_induct)
  case Nil
  then show ?case using assms(5-7) by (simp add: tracked_def folder_deletes_of_def)
next
  case (snoc st ds)
  then have "tracked local did (ap_manifest s) ds (fold (apply_step did bucket now) ds s)" by auto
  then have "tracked local did (ap_manifest s) (ds @ [st]) (apply_step did bucket now st (fold (apply_step did bucket now) ds s))"
  proof (rule tracked_step [OF _ assms(1) snoc.prems(1) assms(3)])
    show "obj_get local p \<noteq> None" if "st = Bump p v" for p v using snoc.prems(2) [of p v] that by simp
  qed
  then show ?case by simp
qed

lemma folder_phase:
  assumes "distinct (map fst fds)"
  shows "obj_get (ap_manifest (fold (apply_folder_delete removed) fds s)) p =
    (case map_of fds p of
       None \<Rightarrow> obj_get (ap_manifest s) p
     | Some e \<Rightarrow>
         if removed p then Some e
         else map_option (\<lambda>ours. ours\<lparr>fe_vv := bumped (vv_max (fe_vv ours) (fe_vv e)) Desk\<rparr>) (obj_get (ap_manifest s) p))"
  using assms
proof (induction fds arbitrary: s)
  case (Cons fd fds)
  obtain q e where fd: "fd = (q, e)" by (cases fd)
  then have "map_of fds q = None" using Cons.prems by (simp add: map_of_eq_None_iff)
  then show ?case using Cons by (auto simp: fd apply_folder_delete_def split: option.splits)
qed simp

lemma folder_delete_keeps [simp]:
  "ap_downloads (fold (apply_folder_delete r) fds s) = ap_downloads s"
  "marked (fold (apply_folder_delete r) fds s) = marked s"
  by (induction fds arbitrary: s) (auto simp: apply_folder_delete_def marked_def split: prod.splits option.splits)

lemma plan_entry_bump: "Bump p v \<in> set (plan_entry fd sd local phone q theirs) \<Longrightarrow> obj_get local p \<noteq> None"
  by (cases "obj_get local q") (auto simp: plan_entry_def Let_def split: if_splits side.splits)

lemma plan_bumps_known:
  assumes "Bump p v \<in> set (plan fd sd local remote phone)"
  shows "obj_get local p \<noteq> None"
proof -
  let ?raw = "raw_plan fd sd local remote phone"
  have "stems_from (kept_of local ?raw) (deletes_of local ?raw) ?raw (Bump p v)"
    using assms unfolding plan_is_renamed_raw in_renames_by_hash by (blast intro: rename_steps_sound)
  then have "Bump p v \<in> set ?raw" by (simp add: stems_from_def)
  then show ?thesis using plan_entry_bump unfolding in_raw_plan by blast
qed

text \<open>All of \<open>apply_plan\<close>: what was trashed as one, then the other steps, then the folders that wait.\<close>

lemma apply_plan_phases:
  assumes "distinct (map fst remote)" and "steps = plan fd Desk (ap_manifest s) remote phone"
  obtains handled m ds s1 fds where
    "trashed (ap_manifest s) (deletions steps) (handled, m)" "ds = filter (\<lambda>st. \<not> is_moved handled st) steps"
    "tracked (ap_manifest s) did m ds s1" "set fds = set (folder_deletes_of ds)" "distinct (map fst fds)"
    "apply_plan fd did whole removed bucket now phone remote s = fold (apply_folder_delete removed) fds s1"
proof -
  define local where "local = ap_manifest s"
  have steps: "steps = plan fd Desk local remote phone" using assms(2) by (simp add: local_def)
  define folders where "folders = sort_key (\<lambda>(path, _). length path) (filter (\<lambda>(_, entry). fe_dir entry) (deletions steps))"
  obtain handled m where trash: "fold (trash_folder whole (deletions steps)) folders ({}, local) = (handled, m)" by fastforce
  define s0 where "s0 = s\<lparr>ap_manifest := m, ap_downloads := [], ap_restored := [], ap_folder_deletes := [],
                ap_rescan := False, ap_kept := False\<rparr>"
  define ds where "ds = filter (\<lambda>st. \<not> is_moved handled st) steps"
  define s1 where "s1 = fold (apply_step did bucket now) ds s0"
  define fds where "fds = sort_key (\<lambda>(path, _). - int (length path)) (ap_folder_deletes s1)"
  have dels: "distinct (map fst (deletions steps))" unfolding steps by (rule plan_deletions_distinct [OF assms(1)])
  have tr: "trashed local (deletions steps) (handled, m)"
    using trash_phase [OF _ dels, of folders local whole] unfolding trash by (auto simp: folders_def)
  let ?A = "set (concat (map (assigns local) steps))"
  have del: "(p, e) \<in> ?A" if "(p, e) \<in> set (deletions steps)" for p e
    using that by (intro step_assigns [of "Delete p e"]) (simp_all add: in_deletions)
  have "tracked local did (ap_manifest s0) ds s1" unfolding s1_def
  proof (rule tracked_steps [where A = ?A])
    show "e = e'" if "(p, e) \<in> ?A" "(p, e') \<in> ?A" for p e e'
      using that unfolding steps plan_assigns [OF assms(1)] raw_assigns [OF assms(1)] by auto
    show "set (concat (map (assigns local) ds)) \<subseteq> ?A" by (auto simp: ds_def)
    show "obj_get (ap_manifest s0) p = obj_get local p \<or> (\<exists>e. (p, e) \<in> ?A \<and> obj_get (ap_manifest s0) p = Some e)" for p
      using tr del unfolding trashed_def by (auto simp: s0_def split: if_splits) metis
    show "obj_get local p \<noteq> None" if "Bump p v \<in> set ds" for p v
      using that plan_bumps_known unfolding ds_def steps by simp
  qed (simp_all add: s0_def marked_def)
  then have track: "tracked local did m ds s1" by (simp add: s0_def)
  then have fd: "ap_folder_deletes s1 = folder_deletes_of ds" by (simp add: tracked_def)
  have "distinct (map fst fds)"
    using deletions_filter [OF dels] unfolding fds_def fd folder_deletes_of_def ds_def
    by (intro distinct_fst_sort distinct_map_filter)
  moreover have "apply_plan fd did whole removed bucket now phone remote s = fold (apply_folder_delete removed) fds s1"
    unfolding apply_plan_def Let_def local_def [symmetric] steps [symmetric] deletions_def [symmetric]
      folders_def [symmetric] trash by (simp add: s0_def ds_def s1_def fds_def)
  moreover have "set fds = set (folder_deletes_of ds)" by (simp add: fds_def fd)
  ultimately show thesis using that [OF tr [unfolded local_def] ds_def track [unfolded local_def]] by blast
qed

lemma engine_entry:
  assumes "distinct (map fst remote)" and "steps = plan fd Desk local remote phone"
    and tr: "trashed local (deletions steps) (handled, m)" and ds: "ds = filter (\<lambda>st. \<not> is_moved handled st) steps"
    and track: "tracked local did m ds s1" and fds: "set fds = set (folder_deletes_of ds)" "distinct (map fst fds)"
    and entry: "entry = obj_get (put_all (ap_manifest (fold (apply_folder_delete removed) fds s1)) (ap_downloads s1)) p"
  shows "entry = settled Desk (obj_get local p) (obj_get remote p)
     \<or> entry = obj_get local p \<and> marked s1 \<and> (\<exists>st \<in> set steps. did st \<noteq> Done \<and> p \<in> fst ` set (assigns local st))
     \<or> (\<exists>ours tomb. obj_get local p = Some ours \<and> obj_get remote p = Some tomb \<and> fe_dir tomb \<and> \<not> removed p
         \<and> entry = Some (ours\<lparr>fe_vv := bumped (vv_max (fe_vv ours) (fe_vv tomb)) Desk\<rparr>))"
proof -
  let ?A = "set (concat (map (assigns local) steps))"
  have mem: "(p, e) \<in> ?A \<longleftrightarrow> (\<exists>theirs. obj_get remote p = Some theirs \<and> settle Desk (obj_get local p) theirs = Some e)" for e
    unfolding assms(2) plan_assigns [OF assms(1)] raw_assigns [OF assms(1)] ..
  have S: "settled Desk (obj_get local p) (obj_get remote p) = Some e" if "(p, e) \<in> ?A" for e
    using that unfolding mem by (auto simp: settled_def)
  have one: "e' = e" if "(p, e') \<in> ?A" "(p, e) \<in> ?A" for e e' using S that by (metis option.inject)
  have S': "settled Desk (obj_get local p) (obj_get remote p) = obj_get local p" if "\<And>e. (p, e) \<notin> ?A"
    using that unfolding mem by (auto simp: settled_def split: option.splits)
  have in_ds: "(p, e) \<in> ?A" if "st \<in> set ds" "(p, e) \<in> set (assigns local st)" for st e
    using that by (intro step_assigns [of st]) (simp_all add: ds)
  have handled: "\<exists>e. (p, e) \<in> ?A \<and> obj_get m p = Some e" if "p \<in> handled"
  proof -
    obtain e where "(p, e) \<in> set (deletions steps)" "obj_get m p = Some e"
      using tr [unfolded trashed_def, THEN spec, of p] \<open>p \<in> handled\<close> by auto
    then show ?thesis using step_assigns [of "Delete p e" steps p e local] by (auto simp: in_deletions)
  qed
  have other: "obj_get m p = obj_get local p" if "p \<notin> handled"
    using tr [unfolded trashed_def, THEN spec, of p] that by simp
  have M: "obj_get (ap_manifest s1) p = obj_get m p
      \<or> (\<exists>st e. st \<in> set ds \<and> folder_deletes_of [st] = [] \<and> (p, e) \<in> set (assigns local st) \<and> obj_get (ap_manifest s1) p = Some e)"
    using track unfolding tracked_def by blast
  have downs: "(p, e) \<in> ?A" if "(p, e) \<in> set (ap_downloads s1)" for e
  proof -
    have "(p, e) \<in> set (concat (map (assigns local) ds))" using track that unfolding tracked_def by blast
    then show ?thesis using in_ds by auto
  qed
  have fd: "map_of fds p = Some e \<longleftrightarrow> (p, e) \<in> set (folder_deletes_of ds)" for e
    using fds by (metis map_of_eq_Some_iff)
  note phase = folder_phase [OF fds(2), of removed s1 p]
  consider (down) e where "(p, e) \<in> set (ap_downloads s1)"
    | (folder) e where "\<And>e. (p, e) \<notin> set (ap_downloads s1)" "map_of fds p = Some e"
    | (plain) "\<And>e. (p, e) \<notin> set (ap_downloads s1)" "map_of fds p = None" by (cases "map_of fds p") auto
  then show ?thesis
  proof cases
    case (down e)
    then have "entry = Some e" unfolding entry by (rule put_all_put) (rule one [OF downs downs [OF down]])
    then show ?thesis using S [OF downs [OF down]] by simp
  next
    case (folder e)
    then have e: "Delete p e \<in> set ds" "fe_dir e" using fd by (auto simp: folder_deletes_of_def in_deletions)
    then have step: "Delete p e \<in> set steps" "p \<notin> handled" by (simp_all add: ds)
    have "obj_get remote p = Some e" "obj_get local p \<noteq> None" using plan_delete [OF assms(1)] step(1) unfolding assms(2) by auto
    moreover have "obj_get (ap_manifest s1) p = obj_get local p"
    proof -
      have "st = Delete p e" if "st \<in> set ds" "(p, e') \<in> set (assigns local st)" for st e'
        using delete_alone [OF assms(1) step(1) [unfolded assms(2)] _ that(2)] that(1) unfolding ds assms(2) by simp
      moreover have "folder_deletes_of [Delete p e] \<noteq> []" using e(2) by (simp add: folder_deletes_of_def)
      ultimately show ?thesis using M other [OF step(2)] by metis
    qed
    moreover have "entry = obj_get (ap_manifest (fold (apply_folder_delete removed) fds s1)) p"
      unfolding entry by (rule put_all_other) (use folder(1) in force)
    ultimately show ?thesis using phase folder(2) e S in_ds [OF e(1)] by (cases "removed p") auto
  next
    case plain
    have E: "entry = obj_get (ap_manifest s1) p"
      unfolding entry using phase plain(2) by (subst put_all_other) (use plain(1) in \<open>force, simp\<close>)
    show ?thesis
    proof (cases "\<exists>e. (p, e) \<in> ?A")
      case False
      then show ?thesis using E M S' in_ds handled other by metis
    next
      case True
      then obtain e where e: "(p, e) \<in> ?A" by blast
      then obtain st where st: "st \<in> set steps" "(p, e) \<in> set (assigns local st)" by auto
      have val: "obj_get (ap_manifest s1) p = obj_get m p \<or> obj_get (ap_manifest s1) p = Some e"
        using M in_ds one [OF _ e] by blast
      show ?thesis
      proof (cases "p \<in> handled")
        case True
        then show ?thesis using val handled one [OF _ e] S [OF e] E by fastforce
      next
        case False
        then have "st \<in> set ds" using st by (cases st) (auto simp: ds)
        then have "obj_get (ap_manifest s1) p = Some e \<or> did st \<noteq> Done \<and> marked s1"
          using track st(2) plain fd unfolding tracked_def by fastforce
        then show ?thesis using val other [OF False] S [OF e] E st by (auto simp: fst_image)
      qed
    qed
  qed
qed

text \<open>
  C6. The desk's engine does what the plan promises, whatever the file system answers, also when
  folders go to the trash as one. Once the downloads it asks for have arrived, a path has the
  entry that the two sides' entries settle to; or it has its entry from before, because a step of
  the plan for it could not be done, and then the folder is marked to be scanned again or
  as keeping what could not be trashed; or it is a folder the other side removed that could not be
  removed here, and its entry has a version that beats the removal. Nothing is marked when every
  step could be done.
\<close>

theorem apply_plan_refines:
  assumes "obj_sorted remote" and "local = ap_manifest s" and "steps = plan fd Desk local remote phone"
    and "s' = apply_plan fd did whole removed bucket now phone remote s"
    and "entry = obj_get (put_all (ap_manifest s') (ap_downloads s')) p"
  shows "(entry = settled Desk (obj_get local p) (obj_get remote p)
     \<or> entry = obj_get local p \<and> (ap_rescan s' \<or> ap_kept s')
         \<and> (\<exists>st \<in> set steps. did st \<noteq> Done \<and> p \<in> fst ` set (assigns local st))
     \<or> (\<exists>ours tomb. obj_get local p = Some ours \<and> obj_get remote p = Some tomb \<and> fe_dir tomb \<and> \<not> removed p
         \<and> entry = Some (ours\<lparr>fe_vv := bumped (vv_max (fe_vv ours) (fe_vv tomb)) Desk\<rparr>)))
    \<and> ((\<forall>st \<in> set steps. did st = Done) \<longrightarrow> \<not> ap_rescan s' \<and> \<not> ap_kept s')"
proof -
  note dist = sorted_distinct [OF assms(1)]
  obtain handled m ds s1 fds where tr: "trashed local (deletions steps) (handled, m)" and ds: "ds = filter (\<lambda>st. \<not> is_moved handled st) steps"
    and track: "tracked local did m ds s1" and fds: "set fds = set (folder_deletes_of ds)" "distinct (map fst fds)"
    and s': "s' = fold (apply_folder_delete removed) fds s1"
    using apply_plan_phases [OF dist assms(3) [unfolded assms(2)], where did = did and whole = whole and removed = removed and bucket = bucket and now = now]
    unfolding assms(2,4) .
  have same: "marked s' = marked s1" "ap_downloads s' = ap_downloads s1" unfolding s' by simp_all
  have "(\<forall>st \<in> set steps. did st = Done) \<longrightarrow> \<not> marked s'"
    using track unfolding tracked_def same by (auto simp: ds)
  then show ?thesis
    using engine_entry [OF dist assms(3) tr ds track fds assms(5) [unfolded same(2), unfolded s'], folded same(1)] unfolding marked_def by blast
qed

theorem apply_plan_refines_witness:
  "let s = \<lparr>ap_manifest = [(''a'', demo_entry ''x'' 1 0)], ap_from_phone = {}, ap_conflicts = [], ap_downloads = [], ap_restored = [],
            ap_folder_deletes = [], ap_rescan = False, ap_kept = False\<rparr>;
       s' = apply_plan (\<lambda>_. None) (\<lambda>_. Done) (\<lambda>_. True) (\<lambda>_. True) True 0 ''P'' [(''a'', demo_entry ''y'' 1 1)] s
   in obj_get (put_all (ap_manifest s') (ap_downloads s')) ''a'' = Some (demo_entry ''y'' 1 1) \<and> \<not> ap_rescan s' \<and> \<not> ap_kept s'"
proof -
  have "settled Desk (Some (demo_entry ''x'' 1 0)) (Some (demo_entry ''y'' 1 1)) = Some (demo_entry ''y'' 1 1)"
    by (rule settled_dominated) (simp add: demo_entry_def dominates_def)
  then show ?thesis
    using apply_plan_refines [OF _ refl refl refl refl, where remote = "[(''a'', demo_entry ''y'' 1 1)]" and did = "\<lambda>_. Done"
        and s = "\<lparr>ap_manifest = [(''a'', demo_entry ''x'' 1 0)], ap_from_phone = {}, ap_conflicts = [], ap_downloads = [], ap_restored = [],
            ap_folder_deletes = [], ap_rescan = False, ap_kept = False\<rparr>"
        and fd = "\<lambda>_. None" and whole = "\<lambda>_. True" and removed = "\<lambda>_. True" and bucket = True and now = 0 and phone = "''P''" and p = "''a''"]
    unfolding Let_def by (simp add: obj_sorted_def obj_get_def)
qed

subsection \<open>What a scan records\<close>

lemma scan_item_other: "q \<noteq> path \<Longrightarrow> obj_get (fst (scan_item sd hash path stat m)) q = obj_get m q"
  by (auto simp: scan_item_def split: option.splits)

lemma scan_item_sorted: "obj_sorted m \<Longrightarrow> obj_sorted (fst (scan_item sd hash path stat m))"
  by (auto simp: scan_item_def intro: obj_sorted_insert split: option.splits)

lemma scan_item_known:
  assumes "obj_get m path = Some old"
  shows "\<exists>new. obj_get (fst (scan_item sd hash path stat m)) path = Some new
     \<and> (same_file_content new old \<or> fe_vv new = bumped (fe_vv old) sd \<and> \<not> fe_deleted new \<and> fe_dir new = fs_dir stat)"
  using assms by (auto simp: scan_item_def same_file_content_def fresh_dir_def fresh_file_def split: option.splits)

lemma scan_item_live:
  assumes "obj_get m path \<noteq> None \<or> length m < MAX_FILES" and "fs_dir stat \<or> hash path \<noteq> None"
  shows "\<exists>new. obj_get (fst (scan_item sd hash path stat m)) path = Some new \<and> \<not> fe_deleted new \<and> fe_dir new = fs_dir stat"
  using assms by (auto simp: scan_item_def fresh_dir_def fresh_file_def split: option.splits)

text \<open>Each found item is looked at once; the others leave its entry alone.\<close>

lemma scan_found_lookup:
  assumes "distinct (map fst found)"
  shows "case obj_get found p of
      None \<Rightarrow> obj_get (fst (scan_found sd hash found m)) p = obj_get m p
    | Some stat \<Rightarrow> \<exists>m0. obj_get m0 p = obj_get m p
        \<and> obj_get (fst (scan_found sd hash found m)) p = obj_get (fst (scan_item sd hash p stat m0)) p"
  using assms
proof (induction found rule: rev_induct)
  case Nil
  then show ?case by (simp add: scan_found_def obj_get_def)
next
  case (snoc ps found)
  obtain q st where ps: "ps = (q, st)" by (cases ps)
  have step: "fst (scan_found sd hash (found @ [ps]) m) = fst (scan_item sd hash q st (fst (scan_found sd hash found m)))"
    by (simp add: scan_found_def ps case_prod_unfold Let_def)
  have IH: "case obj_get found p of
      None \<Rightarrow> obj_get (fst (scan_found sd hash found m)) p = obj_get m p
    | Some stat \<Rightarrow> \<exists>m0. obj_get m0 p = obj_get m p
        \<and> obj_get (fst (scan_found sd hash found m)) p = obj_get (fst (scan_item sd hash p stat m0)) p"
    using snoc.IH snoc.prems by simp
  show ?case
  proof (cases "q = p")
    case True
    then have "obj_get found p = None" using snoc.prems ps by (auto simp: obj_get_def map_of_eq_None_iff)
    then have "obj_get (found @ [ps]) p = Some st" "obj_get (fst (scan_found sd hash found m)) p = obj_get m p"
      using IH True ps by (simp_all add: obj_get_def map_add_def)
    then show ?thesis unfolding step True by auto
  next
    case False
    then have "obj_get (found @ [ps]) p = obj_get found p" by (simp add: ps obj_get_def map_add_def split: option.splits)
    then show ?thesis using IH scan_item_other [of p q] False unfolding step by (simp split: option.splits)
  qed
qed

lemma scan_found_sorted: "obj_sorted m \<Longrightarrow> obj_sorted (fst (scan_found sd hash found m))"
proof (induction found rule: rev_induct)
  case (snoc ps found)
  then show ?case by (cases ps) (simp add: scan_found_def case_prod_unfold Let_def scan_item_sorted)
qed (simp add: scan_found_def)

lemma obj_get_filter:
  "distinct (map fst m) \<Longrightarrow> obj_get (filter P m) p = keep_if (\<lambda>v. P (p, v)) (obj_get m p)"
proof (induction m)
  case (Cons kv m)
  then show ?case by (cases kv) (auto simp: obj_get_def keep_if_def map_of_eq_None_iff split: option.splits)
qed (simp add: obj_get_def keep_if_def)

lemma obj_get_map: "obj_get (map (\<lambda>pe. if Q pe then (fst pe, g (snd pe)) else pe) m) p
    = map_option (\<lambda>v. if Q (p, v) then g v else v) (obj_get m p)"
  by (induction m) (auto simp: obj_get_def)

lemma apply_scan_lookup:
  assumes "obj_sorted m"
  shows "obj_get (snd (apply_scan sd hash now found m)) p =
    keep_if (\<lambda>e. \<not> fe_deleted e \<or> now - TOMBSTONE_DAYS * 24 * 3600 * 1000 < fe_mtime e)
      (map_option (\<lambda>e. if vanished found (p, e) then tombstone sd now e else e) (obj_get (fst (scan_found sd hash found m)) p))"
proof -
  let ?m = "fst (scan_found sd hash found m)"
  let ?n = "map (\<lambda>pe. if vanished found pe then (fst pe, tombstone sd now (snd pe)) else pe) ?m"
  have "map fst ?n = map fst ?m" by simp
  then have "distinct (map fst ?n)" using sorted_distinct [OF scan_found_sorted [OF assms]] by metis
  from obj_get_filter [OF this, of "\<lambda>(_, entry). \<not> fe_deleted entry \<or> now - TOMBSTONE_DAYS * 24 * 3600 * 1000 < fe_mtime entry" p]
  show ?thesis unfolding apply_scan_def Let_def case_prod_unfold obj_get_map by simp
qed

text \<open>
  A scan records exactly what happened on disk: an entry that is live after it was found by
  it; a known path that was found keeps its version and content or, when it changed, gets this
  side's counter raised by one and is live; a file that was there and is gone becomes a tombstone
  of a raised version; and every found item that can be read and has room is live.
\<close>

lemma scan_records_disk:
  assumes "obj_sorted m" and "obj_sorted found"
  shows "(\<forall>e. obj_get (snd (apply_scan sd hash now found m)) p = Some e \<longrightarrow> \<not> fe_deleted e \<longrightarrow> obj_get found p \<noteq> None)
    \<and> (\<forall>old stat. obj_get m p = Some old \<longrightarrow> obj_get found p = Some stat \<longrightarrow>
         (\<forall>new. obj_get (snd (apply_scan sd hash now found m)) p = Some new \<longrightarrow>
            same_file_content new old \<or> fe_vv new = bumped (fe_vv old) sd \<and> \<not> fe_deleted new))
    \<and> (\<forall>old. obj_get m p = Some old \<longrightarrow> \<not> fe_deleted old \<longrightarrow> obj_get found p = None \<longrightarrow>
         obj_get (snd (apply_scan sd hash now found m)) p = Some (tombstone sd now old))
    \<and> (\<forall>old stat. obj_get m p = Some old \<longrightarrow> obj_get found p = Some stat \<longrightarrow> fs_dir stat \<or> hash p \<noteq> None \<longrightarrow>
         (\<exists>new. obj_get (snd (apply_scan sd hash now found m)) p = Some new \<and> \<not> fe_deleted new \<and> fe_dir new = fs_dir stat))"
proof (cases "obj_get found p")
  case None
  then have "obj_get (fst (scan_found sd hash found m)) p = obj_get m p"
    using scan_found_lookup [OF sorted_distinct [OF assms(2)], where p = p and sd = sd and hash = hash and m = m] by simp
  then show ?thesis
    using None unfolding apply_scan_lookup [OF assms(1)]
    by (auto simp: vanished_def keep_if_def tombstone_def TOMBSTONE_DAYS_def split: if_splits option.splits)
next
  case (Some stat)
  then obtain m0 where m0: "obj_get m0 p = obj_get m p"
    and res: "obj_get (fst (scan_found sd hash found m)) p = obj_get (fst (scan_item sd hash p stat m0)) p"
    using scan_found_lookup [OF sorted_distinct [OF assms(2)], where p = p and sd = sd and hash = hash and m = m] by auto
  have look: "obj_get (snd (apply_scan sd hash now found m)) p
      = keep_if (\<lambda>e. \<not> fe_deleted e \<or> now - TOMBSTONE_DAYS * 24 * 3600 * 1000 < fe_mtime e) (obj_get (fst (scan_item sd hash p stat m0)) p)"
    unfolding apply_scan_lookup [OF assms(1)] res
    by (cases "obj_get (fst (scan_item sd hash p stat m0)) p") (simp_all add: vanished_def Some)
  have "same_file_content new old \<or> fe_vv new = bumped (fe_vv old) sd \<and> \<not> fe_deleted new"
    if "obj_get m p = Some old" "obj_get (snd (apply_scan sd hash now found m)) p = Some new" for old new
    using scan_item_known [of m0 p old sd hash stat] that m0 unfolding look by (auto simp: keep_if_def split: if_splits)
  moreover have "\<exists>new. obj_get (snd (apply_scan sd hash now found m)) p = Some new \<and> \<not> fe_deleted new \<and> fe_dir new = fs_dir stat"
    if "obj_get m p = Some old" "fs_dir stat \<or> hash p \<noteq> None" for old
    using scan_item_live [of m0 p stat hash sd] that m0 unfolding look by (auto simp: keep_if_def)
  ultimately show ?thesis using Some by (intro conjI) fastforce+
qed

subsection \<open>Paths stay inside the folder\<close>

lemma split_on_nonempty: "split_on c s \<noteq> []"
  by (induction s) (auto split: list.splits)

fun join_on :: "char \<Rightarrow> string list \<Rightarrow> string" where
  "join_on c [] = []"
| "join_on c [x] = x"
| "join_on c (x # y # zs) = x @ c # join_on c (y # zs)"

lemma join_split: "join_on c (split_on c s) = s"
proof (induction s)
  case (Cons x xs)
  obtain seg segs where s: "split_on c xs = seg # segs" using split_on_nonempty by (metis list.exhaust)
  then show ?case using Cons by (cases segs) auto
qed simp

lemma split_on_no_sep: "seg \<in> set (split_on c s) \<Longrightarrow> c \<notin> set seg"
proof (induction s arbitrary: seg)
  case (Cons x xs)
  obtain seg' segs where s: "split_on c xs = seg' # segs" using split_on_nonempty by (metis list.exhaust)
  then show ?case using Cons by (auto split: if_splits)
qed simp

text \<open>
  A path the Bucket accepts stays inside its folder and is portable: it is its one to three
  segments joined by slashes, none of which is empty, \<open>.\<close> or \<open>..\<close>, longer than 255 bytes, or holds
  a slash, a backslash, a zero byte; a folder has at most two levels.
\<close>

lemma bucket_path_stays_inside:
  assumes "bucket_path_ok path dir"
  shows "\<exists>segs. path = join_on slash segs \<and> segs \<noteq> [] \<and> length segs \<le> (if dir then 2 else 3)
    \<and> (\<forall>seg \<in> set segs. seg \<noteq> [] \<and> seg \<noteq> ''.'' \<and> seg \<noteq> ''..'' \<and> length seg \<le> 255
         \<and> slash \<notin> set seg \<and> backslash \<notin> set seg \<and> CHR 0x00 \<notin> set seg \<and> last seg \<noteq> CHR ''.'' \<and> last seg \<noteq> CHR '' '')"
proof (intro exI conjI)
  show "path = join_on slash (split_on slash path)" by (simp add: join_split)
  show "split_on slash path \<noteq> []" by (rule split_on_nonempty)
  show "length (split_on slash path) \<le> (if dir then 2 else 3)"
    using assms by (simp add: bucket_path_ok_def MAX_BUCKET_DEPTH_def split: if_splits)
  show "\<forall>seg \<in> set (split_on slash path). seg \<noteq> [] \<and> seg \<noteq> ''.'' \<and> seg \<noteq> ''..'' \<and> length seg \<le> 255
         \<and> slash \<notin> set seg \<and> backslash \<notin> set seg \<and> CHR 0x00 \<notin> set seg \<and> last seg \<noteq> CHR ''.'' \<and> last seg \<noteq> CHR '' ''"
  proof
    fix seg
    assume "seg \<in> set (split_on slash path)"
    then have "validate_filename seg" "name_ok seg"
      using assms by (simp_all add: bucket_path_ok_def validate_relpath_def Let_def list_all_iff)
    then show "seg \<noteq> [] \<and> seg \<noteq> ''.'' \<and> seg \<noteq> ''..'' \<and> length seg \<le> 255
         \<and> slash \<notin> set seg \<and> backslash \<notin> set seg \<and> CHR 0x00 \<notin> set seg \<and> last seg \<noteq> CHR ''.'' \<and> last seg \<noteq> CHR '' ''"
      unfolding validate_filename_def name_ok_def by simp
  qed
qed

subsection \<open>Names that clash in case never meet\<close>

lemma above_is_below:
  assumes "a \<in> set (folders_above path)"
  shows "is_below path a"
proof -
  obtain i where i: "i < length path" "path ! i = slash" "a = take i path" using assms by (auto simp: folders_above_def)
  then have "take (Suc i) path = a @ [slash]" by (simp add: take_Suc_conv_app_nth)
  then show ?thesis using i by (simp add: is_below_def starts_with_def)
qed

definition passed :: "('v \<Rightarrow> bool) \<Rightarrow> string list \<Rightarrow> string \<times> 'v \<Rightarrow> bool" where
  "passed live losers pv \<longleftrightarrow> live (snd pv) \<and> fst pv \<notin> set losers \<and> \<not> list_ex (\<lambda>a. a \<in> set losers) (folders_above (fst pv))"

definition clash_inv :: "(string \<Rightarrow> string) \<Rightarrow> ('v \<Rightarrow> bool) \<Rightarrow> (string \<times> 'v) list \<Rightarrow> (string \<times> string) set \<times> string list \<Rightarrow> bool" where
  "clash_inv fold_name live xs acc \<longleftrightarrow>
     (\<forall>x \<in> set xs. passed live (snd acc) x \<longrightarrow> case_key fold_name (fst x) \<in> fst acc)
     \<and> (\<forall>x \<in> set xs. \<forall>y \<in> set xs. passed live (snd acc) x \<longrightarrow> passed live (snd acc) y \<longrightarrow>
          case_key fold_name (fst x) = case_key fold_name (fst y) \<longrightarrow> fst x = fst y)"

lemma passed_mono: "passed live (losers @ ms) x \<Longrightarrow> passed live losers x"
  by (auto simp: passed_def list_ex_iff)

lemma clash_step_inv:
  assumes "clash_inv fold_name live xs acc"
  shows "clash_inv fold_name live (xs @ [x]) (clash_step fold_name live acc x)"
proof -
  obtain first losers where acc: "acc = (first, losers)" by (cases acc)
  obtain p v where x: "x = (p, v)" by (cases x)
  consider (skip) "clash_step fold_name live acc x = acc" "\<not> passed live losers x"
    | (loser) "clash_step fold_name live acc x = (first, losers @ [p])"
    | (new) "clash_step fold_name live acc x = (insert (case_key fold_name p) first, losers)" "case_key fold_name p \<notin> first"
    by (cases "live v"; cases "list_ex (\<lambda>a. a \<in> set losers) (folders_above p)"; cases "case_key fold_name p \<in> first")
      (simp_all add: clash_step_def acc x passed_def)
  then show ?thesis
  proof cases
    case skip
    then show ?thesis using assms unfolding clash_inv_def acc by (simp add: ball_Un)
  next
    case loser
    have "\<not> passed live (losers @ [p]) x" by (simp add: passed_def x)
    then have "clash_inv fold_name live (xs @ [x]) (first, losers @ [p])"
      using assms passed_mono unfolding clash_inv_def acc by (simp add: ball_Un) blast
    then show ?thesis unfolding loser .
  next
    case new
    then have "clash_inv fold_name live (xs @ [x]) (insert (case_key fold_name p) first, losers)"
      using assms unfolding clash_inv_def acc x by (simp add: ball_Un) metis
    then show ?thesis unfolding new(1) .
  qed
qed

lemma clash_fold_inv: "clash_inv fold_name live xs (foldl (clash_step fold_name live) ({}, []) xs)"
  by (induction xs rule: rev_induct) (simp_all add: clash_inv_def [of _ _ "[]"] clash_step_inv)

lemma not_below_passed: "live v \<Longrightarrow> \<not> list_ex (is_below path) losers \<Longrightarrow> passed live losers (path, v)"
  using above_is_below [of _ path] by (auto simp: passed_def list_ex_iff is_below_def [of path path])

lemma no_clash_left:
  assumes "x \<in> set (snd (drop_case_clashes fold_name live items))" "y \<in> set (snd (drop_case_clashes fold_name live items))"
    and "live (snd x)" "live (snd y)" and "case_key fold_name (fst x) = case_key fold_name (fst y)"
  shows "fst x = fst y"
proof -
  let ?acc = "foldl (clash_step fold_name live) ({}, []) items"
  have "x \<in> set items" "passed live (snd ?acc) x" "y \<in> set items" "passed live (snd ?acc) y"
    using assms not_below_passed [where losers = "snd ?acc" and live = live]
    by (auto simp: drop_case_clashes_def Let_def)
  then show ?thesis using clash_fold_inv [of fold_name live items] assms(5) unfolding clash_inv_def by blast
qed

lemma clashing_step_grows: "set clashing \<subseteq> set (clashing_step fold_name local clashing pe)"
  by (cases pe) (auto simp: clashing_step_def Let_def)

lemma clashing_fold_grows: "set clashing \<subseteq> set (foldl (clashing_step fold_name local) clashing xs)"
  by (induction xs arbitrary: clashing) (use clashing_step_grows in fastforce)+

text \<open>A live remote name that is some local name but for its case is left out, or known here.\<close>

lemma clashing_complete:
  assumes "(p, e) \<in> set remote" and "\<not> fe_deleted e" and "(q, f) \<in> set local" and "\<not> fe_deleted f"
    and "case_key fold_name p = case_key fold_name q" and "case obj_get local p of None \<Rightarrow> True | Some ours \<Rightarrow> fe_deleted ours"
  shows "list_ex (is_below p) (foldl (clashing_step fold_name local) clashing remote)"
proof -
  obtain xs ys where "remote = xs @ (p, e) # ys" using split_list [OF assms(1)] by blast
  define before where "before = foldl (clashing_step fold_name local) clashing xs"
  have all: "foldl (clashing_step fold_name local) clashing remote
      = foldl (clashing_step fold_name local) (clashing_step fold_name local before (p, e)) ys"
    by (simp add: \<open>remote = xs @ (p, e) # ys\<close> before_def)
  have held: "case_key fold_name p \<in> (\<lambda>(p, e). case_key fold_name p) ` {(p, e) \<in> set local. \<not> fe_deleted e}"
    using assms(3-5) by force
  have "\<exists>a \<in> set (clashing_step fold_name local before (p, e)). is_below p a"
  proof (cases "list_ex (\<lambda>a. a \<in> set before) (folders_above p)")
    case True
    then show ?thesis using above_is_below clashing_step_grows [of before fold_name local "(p, e)"] by (auto simp: list_ex_iff)
  next
    case False
    then have "p \<in> set (clashing_step fold_name local before (p, e))"
      using assms(2,6) held by (simp add: clashing_step_def)
    then show ?thesis by (auto simp: is_below_def)
  qed
  then show ?thesis unfolding all list_ex_iff using clashing_fold_grows by blast
qed

text \<open>
  Two names that differ only in case are never synced side by side: of the other side's
  manifest what is left has at most one live path for each folder and folded name, and each live
  path whose folded name a live local path already has is itself live here.
\<close>

lemma synced_names_differ:
  assumes "(p, e) \<in> set (snd (left_out_of_remote fold_name local remote))" and "\<not> fe_deleted e"
  shows "(\<forall>q f. (q, f) \<in> set (snd (left_out_of_remote fold_name local remote)) \<longrightarrow> \<not> fe_deleted f \<longrightarrow>
       case_key fold_name p = case_key fold_name q \<longrightarrow> p = q)
    \<and> (\<forall>q f. (q, f) \<in> set local \<longrightarrow> \<not> fe_deleted f \<longrightarrow> case_key fold_name p = case_key fold_name q \<longrightarrow>
         (\<exists>ours. obj_get local p = Some ours \<and> \<not> fe_deleted ours))"
proof -
  define kept where "kept = snd (drop_case_clashes fold_name (\<lambda>e. \<not> fe_deleted e) remote)"
  define clashing where "clashing = foldl (clashing_step fold_name local) [] kept"
  have out: "snd (left_out_of_remote fold_name local remote)
      = filter (\<lambda>(path, entry). fe_deleted entry \<or> \<not> list_ex (is_below path) clashing) kept"
    by (simp add: left_out_of_remote_def kept_def clashing_def case_prod_unfold Let_def)
  have p: "(p, e) \<in> set kept" "\<not> list_ex (is_below p) clashing" using assms unfolding out by auto
  have "p = q" if "(q, f) \<in> set (snd (left_out_of_remote fold_name local remote))" "\<not> fe_deleted f"
    "case_key fold_name p = case_key fold_name q" for q f
    using no_clash_left [of "(p, e)" fold_name "\<lambda>e. \<not> fe_deleted e" remote "(q, f)"] that p(1) assms(2) unfolding out kept_def by auto
  moreover have "\<exists>ours. obj_get local p = Some ours \<and> \<not> fe_deleted ours"
    if "(q, f) \<in> set local" "\<not> fe_deleted f" "case_key fold_name p = case_key fold_name q" for q f
    using clashing_complete [OF p(1) assms(2) that, of "[]"] p(2) unfolding clashing_def
    by (cases "obj_get local p") auto
  ultimately show ?thesis by blast
qed

end

