(* ===== verification/Locking.thy ===== *)
theory Locking
  imports Prelude
begin

section \<open>Unlocking and locking the computer with a phone\<close>

text \<open>
  \<open>src/device_links/unlock.rs\<close>: one-time nonces with which a phone nearby approves an unlock.
  \<open>src/device_links/walk_away.rs\<close>: the count that locks the computer when the phone leaves.

  Instants are nanoseconds on a clock passed as \<open>now\<close>; the random nonce and what the desktop
  reports (the conditions, whether anybody uses the computer) are arguments.
\<close>

definition seconds :: "nat \<Rightarrow> nat" where "seconds n = n * 10 ^ 9"

subsection \<open>Approvals\<close>

definition NONCE_LIFETIME :: nat where "NONCE_LIFETIME = seconds 60"
definition MAX_NONCES_PER_DEVICE :: nat where "MAX_NONCES_PER_DEVICE = 4"

datatype refusal =
    PrefOff | NoNonce | Expired | WrongDevice | Replayed | NotLocked | NotLan | NotReady | UnlockFailed

fun refusal_code :: "refusal \<Rightarrow> string" where
  "refusal_code PrefOff = ''pref-off''"
| "refusal_code NoNonce = ''no-nonce''"
| "refusal_code Expired = ''expired''"
| "refusal_code WrongDevice = ''wrong-device''"
| "refusal_code Replayed = ''replayed''"
| "refusal_code NotLocked = ''not-locked''"
| "refusal_code NotLan = ''not-lan''"
| "refusal_code NotReady = ''not-ready''"
| "refusal_code UnlockFailed = ''failed''"

record conditions =
  co_allowed :: bool
  co_locked :: bool
  co_local :: bool
  co_ready :: bool

record nonce_entry =
  ne_nonce :: string
  ne_device :: string
  ne_at :: nat
  ne_used :: bool

definition may_offer :: "conditions \<Rightarrow> (refusal, unit) result" where
  "may_offer c =
     (if \<not> co_allowed c then Inl PrefOff
      else if \<not> co_ready c then Inl NotReady
      else if \<not> co_local c then Inl NotLan
      else if \<not> co_locked c then Inl NotLocked
      else Inr ())"

definition of_device :: "string \<Rightarrow> nonce_entry list \<Rightarrow> nonce_entry list" where
  "of_device d es = filter (\<lambda>e. ne_device e = d) es"

text \<open>\<open>Vec::remove\<close> of the first entry of a device, and the loop that makes room for one more.\<close>

fun remove_oldest :: "string \<Rightarrow> nonce_entry list \<Rightarrow> nonce_entry list" where
  "remove_oldest d [] = []"
| "remove_oldest d (e # es) = (if ne_device e = d then es else e # remove_oldest d es)"

lemma remove_oldest_count: "of_device d es \<noteq> [] \<Longrightarrow> length (of_device d (remove_oldest d es)) < length (of_device d es)"
  by (induction es) (auto simp: of_device_def)

function make_room :: "string \<Rightarrow> nonce_entry list \<Rightarrow> nonce_entry list" where
  "make_room d es =
     (if MAX_NONCES_PER_DEVICE \<le> length (of_device d es) then make_room d (remove_oldest d es) else es)"
  by pat_completeness auto
termination
proof (relation "measure (\<lambda>(d, es). length (of_device d es))")
  fix d es
  assume "MAX_NONCES_PER_DEVICE \<le> length (of_device d es)"
  then have "of_device d es \<noteq> []" by (auto simp: MAX_NONCES_PER_DEVICE_def)
  then show "((d, remove_oldest d es), d, es) \<in> measure (\<lambda>(d, es). length (of_device d es))"
    by (simp add: remove_oldest_count)
qed simp

declare make_room.simps [simp del]

definition unlock_issue :: "nat \<Rightarrow> string \<Rightarrow> string \<Rightarrow> nonce_entry list \<Rightarrow> nonce_entry list" where
  "unlock_issue now nonce d es =
     make_room d (filter (\<lambda>old. now - ne_at old < NONCE_LIFETIME * 2 \<and> (ne_used old \<or> ne_device old \<noteq> d)) es)
     @ [\<lparr>ne_nonce = nonce, ne_device = d, ne_at = now, ne_used = False\<rparr>]"

definition unlock_forget :: "string \<Rightarrow> nonce_entry list \<Rightarrow> nonce_entry list" where
  "unlock_forget d es = filter (\<lambda>e. ne_device e \<noteq> d) es"

text \<open>\<open>entry.used = true\<close> for the first entry with the nonce.\<close>

fun spend_nonce :: "string \<Rightarrow> nonce_entry list \<Rightarrow> nonce_entry list" where
  "spend_nonce n [] = []"
| "spend_nonce n (e # es) = (if ne_nonce e = n then e\<lparr>ne_used := True\<rparr> # es else e # spend_nonce n es)"

definition unlock_check ::
  "string \<Rightarrow> string option \<Rightarrow> nat \<Rightarrow> conditions \<Rightarrow> nonce_entry list \<Rightarrow> (refusal, unit) result \<times> nonce_entry list" where
  "unlock_check d nonce now c es =
     (if \<not> co_allowed c then (Inl PrefOff, es)
      else (case nonce of
          None \<Rightarrow> (Inl NoNonce, es)
        | Some n \<Rightarrow>
            if n = [] then (Inl NoNonce, es)
            else (case find (\<lambda>e. ne_nonce e = n) es of
                None \<Rightarrow> (Inl NoNonce, es)
              | Some e \<Rightarrow>
                  if ne_used e then (Inl Replayed, es)
                  else
                    (let es = spend_nonce n es in
                     if ne_device e \<noteq> d then (Inl WrongDevice, es)
                     else if NONCE_LIFETIME \<le> now - ne_at e then (Inl Expired, es)
                     else (may_offer c, es)))))"

subsection \<open>Walking away\<close>

definition WARN_AFTER :: nat where "WARN_AFTER = seconds 50"
definition WARN_FOR :: nat where "WARN_FOR = seconds 10"
definition LOCK_AFTER :: nat where "LOCK_AFTER = seconds 60"
definition DOZING_WARN_AFTER :: nat where "DOZING_WARN_AFTER = seconds 170"
definition DOZING_LOCK_AFTER :: nat where "DOZING_LOCK_AFTER = seconds 180"

record seen =
  se_enabled :: bool
  se_reachable :: bool
  se_ready :: bool
  se_dozing :: bool
  se_network_up :: bool

datatype away_step = Warn | ClearWarning | Lock

record phone =
  ph_armed :: bool
  ph_away_since :: "nat option"
  ph_warned_at :: "nat option"
  ph_done :: bool
  ph_clear_pending :: bool

definition phone_default :: phone where
  "phone_default = \<lparr>ph_armed = False, ph_away_since = None, ph_warned_at = None, ph_done = False, ph_clear_pending = False\<rparr>"

type_synonym watch = "string \<rightharpoonup> phone"

definition clears :: "phone \<Rightarrow> away_step option" where
  "clears p = (if ph_warned_at p \<noteq> None then Some ClearWarning else None)"

text \<open>The look at a phone whose entry is \<open>p\<close>, for which the lock is enabled.\<close>

definition observe_phone :: "seen \<Rightarrow> nat \<Rightarrow> bool \<Rightarrow> phone \<Rightarrow> away_step option \<times> phone" where
  "observe_phone see now idle p =
     (if ph_clear_pending p then (Some ClearWarning, p\<lparr>ph_clear_pending := False\<rparr>)
      else if se_reachable see then (clears p, phone_default\<lparr>ph_armed := ph_armed p \<or> se_ready see\<rparr>)
      else if \<not> ph_armed p \<or> ph_done p then (None, p)
      else if \<not> se_network_up see then (clears p, p\<lparr>ph_away_since := None, ph_warned_at := None\<rparr>)
      else
        (let (warn_after, lock_after) =
               (if se_dozing see then (DOZING_WARN_AFTER, DOZING_LOCK_AFTER) else (WARN_AFTER, LOCK_AFTER));
             since = (case ph_away_since p of Some t \<Rightarrow> t | None \<Rightarrow> now);
             p = p\<lparr>ph_away_since := Some since\<rparr>;
             away = now - since
         in case ph_warned_at p of
              None \<Rightarrow>
                if warn_after \<le> away then
                  (if se_dozing see \<and> \<not> idle then (None, p)
                   else (Some Warn, p\<lparr>ph_warned_at := Some now\<rparr>))
                else (None, p)
            | Some warned \<Rightarrow>
                if lock_after \<le> away \<and> WARN_FOR \<le> now - warned then
                  (if se_dozing see \<and> \<not> idle
                   then (Some ClearWarning, p\<lparr>ph_warned_at := None, ph_away_since := Some now\<rparr>)
                   else (Some Lock, p\<lparr>ph_warned_at := None, ph_done := True\<rparr>))
                else (None, p)))"

definition observe_when_idle :: "string \<Rightarrow> seen \<Rightarrow> nat \<Rightarrow> bool \<Rightarrow> watch \<Rightarrow> away_step option \<times> watch" where
  "observe_when_idle i see now idle w =
     (if \<not> se_enabled see then (Option.bind (w i) clears, w(i := None))
      else (let p = (case w i of Some p \<Rightarrow> p | None \<Rightarrow> phone_default);
                (st, p') = observe_phone see now idle p
            in (st, w(i \<mapsto> p'))))"

definition watch_cancel :: "string \<Rightarrow> watch \<Rightarrow> bool \<times> watch" where
  "watch_cancel i w =
     (case w i of
        None \<Rightarrow> (False, w)
      | Some p \<Rightarrow>
          if ph_warned_at p = None then (False, w)
          else (True, w(i \<mapsto> p\<lparr>ph_warned_at := None, ph_done := True\<rparr>)))"

definition watch_reset :: "watch \<Rightarrow> watch" where
  "watch_reset w = (\<lambda>i. map_option (\<lambda>p. p\<lparr>ph_clear_pending := ph_clear_pending p \<or> ph_warned_at p \<noteq> None,
     ph_warned_at := None, ph_away_since := None\<rparr>) (w i))"

definition watch_forget :: "string \<Rightarrow> watch \<Rightarrow> watch" where
  "watch_forget i w = w(i := None)"

subsection \<open>Approvals over time\<close>

text \<open>
  Everything that happens to the nonces, on a clock that does not run backwards. Beside the list a
  run keeps the tickets that are out: a fresh nonce (random, so given to nobody before) gives its
  phone a ticket in place of any it had, forgetting the phone voids it, and an approval that names
  it takes it, whatever comes of that.
\<close>

type_synonym ticket = "string \<times> string \<times> nat"

definition ticket_of :: "nonce_entry \<Rightarrow> ticket" where
  "ticket_of e = (ne_nonce e, ne_device e, ne_at e)"

definition live :: "nonce_entry list \<Rightarrow> ticket set" where
  "live es = ticket_of ` {e \<in> set es. \<not> ne_used e}"

record unlock_run =
  ur_clock :: nat
  ur_entries :: "nonce_entry list"
  ur_tickets :: "ticket set"
  ur_given :: "string set"

definition unlock_init :: "unlock_run \<Rightarrow> bool" where
  "unlock_init s \<longleftrightarrow> ur_entries s = [] \<and> ur_tickets s = {} \<and> ur_given s = {}"

inductive unlock_step :: "unlock_run \<Rightarrow> unlock_run \<Rightarrow> bool" where
  ul_issue: "ur_clock s \<le> now \<Longrightarrow> nonce \<notin> ur_given s \<Longrightarrow> nonce \<noteq> [] \<Longrightarrow>
    unlock_step s \<lparr>ur_clock = now, ur_entries = unlock_issue now nonce d (ur_entries s),
      ur_tickets = insert (nonce, d, now) {t \<in> ur_tickets s. fst (snd t) \<noteq> d}, ur_given = insert nonce (ur_given s)\<rparr>"
| ul_forget: "unlock_step s (s\<lparr>ur_entries := unlock_forget d (ur_entries s), ur_tickets := {t \<in> ur_tickets s. fst (snd t) \<noteq> d}\<rparr>)"
| ul_check: "ur_clock s \<le> now \<Longrightarrow> unlock_check d nonce now c (ur_entries s) = (r, es) \<Longrightarrow>
    unlock_step s (s\<lparr>ur_clock := now, ur_entries := es,
      ur_tickets := (if co_allowed c then {t \<in> ur_tickets s. Some (fst t) \<noteq> nonce} else ur_tickets s)\<rparr>)"

definition nonces_ok :: "nonce_entry list \<Rightarrow> string set \<Rightarrow> bool" where
  "nonces_ok es given \<longleftrightarrow> distinct (map ne_nonce es) \<and> ne_nonce ` set es \<subseteq> given - {[]}"

text \<open>The unused entries are the tickets that are out, except some that have long expired.\<close>

definition unlock_inv :: "unlock_run \<Rightarrow> bool" where
  "unlock_inv s \<longleftrightarrow> nonces_ok (ur_entries s) (ur_given s)
     \<and> live (ur_entries s) \<subseteq> ur_tickets s
     \<and> (\<forall>t \<in> ur_tickets s - live (ur_entries s). NONCE_LIFETIME * 2 \<le> ur_clock s - snd (snd t))
     \<and> (\<forall>d. length (of_device d (ur_entries s)) \<le> MAX_NONCES_PER_DEVICE)"

lemma remove_oldest_sub:
  "set (remove_oldest d es) \<subseteq> set es" "distinct (map f es) \<Longrightarrow> distinct (map f (remove_oldest d es))"
  "d' \<noteq> d \<Longrightarrow> of_device d' (remove_oldest d es) = of_device d' es"
proof (induction es)
  case (Cons e es)
  { case 1 then show ?case using Cons by auto }
  { case 2 then show ?case using Cons by (auto simp: image_iff) }
  { case 3 then show ?case using Cons by (simp add: of_device_def) }
qed simp_all

lemma make_room_sub:
  "set (make_room d es) \<subseteq> set es \<and> (distinct (map f es) \<longrightarrow> distinct (map f (make_room d es)))
   \<and> length (of_device d (make_room d es)) < MAX_NONCES_PER_DEVICE
   \<and> (\<forall>d'. d' \<noteq> d \<longrightarrow> of_device d' (make_room d es) = of_device d' es)"
proof (induction d es rule: make_room.induct)
  case (1 d es)
  show ?case
  proof (cases "MAX_NONCES_PER_DEVICE \<le> length (of_device d es)")
    case True
    then have "make_room d es = make_room d (remove_oldest d es)" by (simp add: make_room.simps)
    then show ?thesis using 1 [OF True] remove_oldest_sub [where d = d and es = es] by (simp; blast)
  next
    case False
    then have "make_room d es = es" by (simp add: make_room.simps [of d es])
    then show ?thesis using False by simp
  qed
qed

lemma spend_simps [simp]: "map ne_nonce (spend_nonce n es) = map ne_nonce es" "map ne_device (spend_nonce n es) = map ne_device es"
  by (induction es) auto

lemma of_device_spend: "length (of_device d (spend_nonce n es)) = length (of_device d es)"
  by (induction es) (auto simp: of_device_def)

lemma spend_entries: "e \<in> set (spend_nonce n es) \<Longrightarrow> \<not> ne_used e \<Longrightarrow> distinct (map ne_nonce es) \<Longrightarrow> e \<in> set es \<and> ne_nonce e \<noteq> n"
proof (induction es)
  case (Cons x es)
  show ?case
  proof (cases "ne_nonce x = n")
    case True
    then have "e \<in> set es" using Cons.prems by auto
    moreover have "ne_nonce e \<noteq> n" using Cons.prems(3) \<open>e \<in> set es\<close> True by (metis distinct.simps(2) image_eqI list.set_map list.simps(9))
    ultimately show ?thesis by simp
  next
    case False
    then show ?thesis using Cons by auto
  qed
qed simp

lemma find_nonce: "find (\<lambda>e. ne_nonce e = n) es = Some e \<Longrightarrow> e \<in> set es \<and> ne_nonce e = n"
  by (auto simp: find_Some_iff)


lemma of_device_filter: "length (of_device d es) \<le> k \<Longrightarrow> length (of_device d (filter P es)) \<le> k"
  using le_trans [OF length_filter_le [of P "of_device d es"]]
  by (simp add: of_device_def conj_commute)

lemma make_room_others:
  assumes "d' \<noteq> d"
  shows "{e \<in> set (make_room d es). ne_device e = d'} = {e \<in> set es. ne_device e = d'}"
proof -
  have "set (of_device d' (make_room d es)) = set (of_device d' es)"
    using make_room_sub [where d = d and es = es] assms by metis
  then show ?thesis by (simp add: of_device_def)
qed

definition kept_nonces :: "nat \<Rightarrow> string \<Rightarrow> nonce_entry list \<Rightarrow> nonce_entry list" where
  "kept_nonces now d es = filter (\<lambda>old. now - ne_at old < NONCE_LIFETIME * 2 \<and> (ne_used old \<or> ne_device old \<noteq> d)) es"

lemma unlock_issue_kept:
  "unlock_issue now nonce d es =
     make_room d (kept_nonces now d es) @ [\<lparr>ne_nonce = nonce, ne_device = d, ne_at = now, ne_used = False\<rparr>]"
  by (simp add: unlock_issue_def kept_nonces_def)

lemma live_issue:
  "live (unlock_issue now nonce d es) =
     insert (nonce, d, now) {t \<in> live es. fst (snd t) \<noteq> d \<and> now - snd (snd t) < NONCE_LIFETIME * 2}"
proof -
  have mem: "e \<in> set (make_room d (kept_nonces now d es)) \<and> \<not> ne_used e
      \<longleftrightarrow> e \<in> set es \<and> \<not> ne_used e \<and> ne_device e \<noteq> d \<and> now - ne_at e < NONCE_LIFETIME * 2" for e
  proof (cases "ne_device e = d")
    case True
    have "set (make_room d (kept_nonces now d es)) \<subseteq> set (kept_nonces now d es)"
      using make_room_sub [where d = d and es = "kept_nonces now d es" and f = ne_nonce] by simp
    then show ?thesis using True by (auto simp: kept_nonces_def)
  next
    case False
    have "e \<in> set (make_room d (kept_nonces now d es)) \<longleftrightarrow> e \<in> set (kept_nonces now d es)"
      using make_room_others [OF False, of "kept_nonces now d es"] by (simp add: set_eq_iff) metis
    then show ?thesis using False by (auto simp: kept_nonces_def)
  qed
  have "{e \<in> set (unlock_issue now nonce d es). \<not> ne_used e} =
      insert \<lparr>ne_nonce = nonce, ne_device = d, ne_at = now, ne_used = False\<rparr>
        {e \<in> set (make_room d (kept_nonces now d es)). \<not> ne_used e}"
    unfolding unlock_issue_kept by auto
  also have "\<dots> = insert \<lparr>ne_nonce = nonce, ne_device = d, ne_at = now, ne_used = False\<rparr>
        {e \<in> set es. \<not> ne_used e \<and> ne_device e \<noteq> d \<and> now - ne_at e < NONCE_LIFETIME * 2}"
    by (simp only: mem)
  finally show ?thesis unfolding live_def by (auto simp: ticket_of_def)
qed

lemma live_forget: "live (unlock_forget d es) = {t \<in> live es. fst (snd t) \<noteq> d}"
  by (auto simp: live_def unlock_forget_def ticket_of_def)

lemma spend_unused:
  assumes "distinct (map ne_nonce es)"
  shows "e \<in> set (spend_nonce n es) \<and> \<not> ne_used e \<longleftrightarrow> e \<in> set es \<and> \<not> ne_used e \<and> ne_nonce e \<noteq> n"
proof -
  have "e \<in> set es \<Longrightarrow> ne_nonce e \<noteq> n \<Longrightarrow> e \<in> set (spend_nonce n es)" by (induction es) auto
  then show ?thesis using spend_entries [OF _ _ assms, of e n] by blast
qed

lemma live_spend:
  assumes "distinct (map ne_nonce es)"
  shows "live (spend_nonce n es) = {t \<in> live es. fst t \<noteq> n}"
proof -
  have "live (spend_nonce n es) = ticket_of ` {e \<in> set es. \<not> ne_used e \<and> ne_nonce e \<noteq> n}"
    unfolding live_def by (simp only: spend_unused [OF assms])
  also have "\<dots> = {t \<in> ticket_of ` {e \<in> set es. \<not> ne_used e}. fst t \<noteq> n}"
    unfolding ticket_of_def by force
  finally show ?thesis by (simp only: live_def)
qed

text \<open>The unused entry of a nonce is the one an approval finds.\<close>

lemma find_unused:
  assumes "distinct (map ne_nonce es)"
  shows "(\<exists>e. find (\<lambda>e. ne_nonce e = n) es = Some e \<and> \<not> ne_used e \<and> ticket_of e = t) \<longleftrightarrow> t \<in> live es \<and> fst t = n"
proof
  assume "\<exists>e. find (\<lambda>e. ne_nonce e = n) es = Some e \<and> \<not> ne_used e \<and> ticket_of e = t"
  then obtain e where e: "find (\<lambda>e. ne_nonce e = n) es = Some e" "\<not> ne_used e" "ticket_of e = t" by blast
  show "t \<in> live es \<and> fst t = n" using find_nonce [OF e(1)] e(2,3) unfolding live_def ticket_of_def by auto
next
  assume "t \<in> live es \<and> fst t = n"
  then obtain e where e: "e \<in> set es" "\<not> ne_used e" "ticket_of e = t" "ne_nonce e = n"
    by (auto simp: live_def ticket_of_def)
  obtain f where f: "find (\<lambda>x. ne_nonce x = n) es = Some f"
    using e(1,4) by (cases "find (\<lambda>x. ne_nonce x = n) es") (auto simp: find_None_iff)
  then have "f = e" using find_nonce [OF f] assms e by (auto simp: distinct_map inj_on_def)
  then show "\<exists>e. find (\<lambda>e. ne_nonce e = n) es = Some e \<and> \<not> ne_used e \<and> ticket_of e = t" using f e by blast
qed

lemma unlock_check_cases:
  obtains (kept) "snd (unlock_check d nonce now c es) = es" "\<exists>r. fst (unlock_check d nonce now c es) = Inl r"
      "co_allowed c \<Longrightarrow> \<forall>n e. nonce = Some n \<longrightarrow> n \<noteq> [] \<longrightarrow> find (\<lambda>e. ne_nonce e = n) es = Some e \<longrightarrow> ne_used e"
  | (spent) n e where "nonce = Some n" "n \<noteq> []" "co_allowed c" "find (\<lambda>e. ne_nonce e = n) es = Some e" "\<not> ne_used e"
      "snd (unlock_check d nonce now c es) = spend_nonce n es"
      "fst (unlock_check d nonce now c es) =
         (if ne_device e \<noteq> d then Inl WrongDevice
          else if NONCE_LIFETIME \<le> now - ne_at e then Inl Expired else may_offer c)"
proof -
  consider "\<not> co_allowed c" | "co_allowed c" "nonce = None" | "co_allowed c" "nonce = Some []"
    | n where "co_allowed c" "nonce = Some n" "n \<noteq> []" by (cases nonce) auto
  then show thesis
  proof cases
    case (4 n)
    show thesis
    proof (cases "find (\<lambda>e. ne_nonce e = n) es")
      case None
      show thesis by (rule kept) (use 4 None in \<open>simp_all add: unlock_check_def\<close>)
    next
      case (Some e)
      show thesis
      proof (cases "ne_used e")
        case True
        show thesis by (rule kept) (use 4 Some True in \<open>simp_all add: unlock_check_def\<close>)
      next
        case False
        show thesis by (rule spent [OF 4(2,3,1) Some False]) (use 4 Some False in \<open>simp_all add: unlock_check_def Let_def\<close>)
      qed
    qed
  qed (rule kept; simp add: unlock_check_def)+
qed

lemma live_check:
  assumes "nonces_ok es g"
  shows "live (snd (unlock_check d nonce now c es)) = (if co_allowed c then {t \<in> live es. Some (fst t) \<noteq> nonce} else live es)"
proof (cases rule: unlock_check_cases [of d nonce now c es])
  case kept
  have dist: "distinct (map ne_nonce es)" using assms by (simp add: nonces_ok_def)
  have "Some (fst t) \<noteq> nonce" if t: "t \<in> live es" and "co_allowed c" for t
  proof -
    have "fst t \<noteq> []" using t assms by (auto simp: live_def nonces_ok_def ticket_of_def)
    then show ?thesis using kept(3) that find_unused [OF dist, of "fst t" t] by blast
  qed
  then show ?thesis using kept(1) by auto
next
  case (spent n e)
  have "live (spend_nonce n es) = {t \<in> live es. fst t \<noteq> n}" using assms by (simp add: live_spend nonces_ok_def)
  then show ?thesis unfolding spent(6) using spent(1,3) by simp
qed

lemma may_offer_Inr: "may_offer c = Inr () \<longleftrightarrow> co_allowed c \<and> co_ready c \<and> co_local c \<and> co_locked c"
  by (simp add: may_offer_def)

lemma check_accepts:
  assumes "nonces_ok es g"
  shows "fst (unlock_check d nonce now c es) = Inr () \<longleftrightarrow>
    (\<exists>n issued. nonce = Some n \<and> (n, d, issued) \<in> live es \<and> now - issued < NONCE_LIFETIME
       \<and> co_allowed c \<and> co_ready c \<and> co_local c \<and> co_locked c)"
proof (cases rule: unlock_check_cases [of d nonce now c es])
  case kept
  have "\<not> (\<exists>n issued. nonce = Some n \<and> (n, d, issued) \<in> live es \<and> co_allowed c)"
  proof (cases "co_allowed c")
    case True
    have "live es = {t \<in> live es. Some (fst t) \<noteq> nonce}"
      using live_check [OF assms, of d nonce now c] True kept(1) by simp
    then show ?thesis by force
  qed simp
  then show ?thesis using kept(2) by auto
next
  case (spent n e)
  have dist: "distinct (map ne_nonce es)" using assms by (simp add: nonces_ok_def)
  have "(n, d, issued) \<in> live es \<longleftrightarrow> ne_device e = d \<and> ne_at e = issued" for issued
    using find_unused [OF dist, of n "(n, d, issued)"] spent(4,5) find_nonce [OF spent(4)] by (auto simp: ticket_of_def)
  then show ?thesis unfolding spent(7) using spent(1,3) by (auto simp: may_offer_Inr not_le)
qed

lemma nonces_ok_check: "nonces_ok es g \<Longrightarrow> nonces_ok (snd (unlock_check d nonce now c es)) g"
proof (cases rule: unlock_check_cases [of d nonce now c es])
  case (spent n e)
  have "ne_nonce ` set (spend_nonce n es) = ne_nonce ` set es" using spend_simps(1) [of n es] by (metis list.set_map)
  then show "nonces_ok es g \<Longrightarrow> ?thesis" using spent(6) by (simp add: nonces_ok_def)
qed simp

lemma nonces_ok_issue:
  assumes "nonces_ok es g" and "nonce \<notin> g" and "nonce \<noteq> []"
  shows "nonces_ok (unlock_issue now nonce d es) (insert nonce g)"
proof -
  have "distinct (map ne_nonce (kept_nonces now d es))" and "set (kept_nonces now d es) \<subseteq> set es"
    using assms(1) by (auto simp: kept_nonces_def nonces_ok_def distinct_map_filter)
  then have "distinct (map ne_nonce (make_room d (kept_nonces now d es)))"
    and "set (make_room d (kept_nonces now d es)) \<subseteq> set es"
    using make_room_sub [where d = d and es = "kept_nonces now d es" and f = ne_nonce] by blast+
  then show ?thesis using assms unfolding nonces_ok_def unlock_issue_kept by auto
qed

lemma issue_bounded:
  assumes "\<forall>d. length (of_device d es) \<le> MAX_NONCES_PER_DEVICE"
  shows "length (of_device d' (unlock_issue now nonce d es)) \<le> MAX_NONCES_PER_DEVICE"
proof (cases "d' = d")
  case True
  then show ?thesis
    using make_room_sub [where d = d and es = "kept_nonces now d es" and f = ne_nonce]
    by (simp add: unlock_issue_kept of_device_def Suc_le_eq)
next
  case False
  then have "of_device d' (make_room d (kept_nonces now d es)) = of_device d' (kept_nonces now d es)"
    using make_room_sub [where d = d and es = "kept_nonces now d es"] by metis
  moreover have "length (of_device d' (kept_nonces now d es)) \<le> MAX_NONCES_PER_DEVICE"
    unfolding kept_nonces_def using assms by (intro of_device_filter) blast
  ultimately show ?thesis using False by (simp add: unlock_issue_kept of_device_def)
qed

lemma tickets_aged:
  assumes inv: "unlock_inv s" and "ur_clock s \<le> now" and t: "t \<in> ur_tickets s" "t \<notin> live (ur_entries s)"
  shows "NONCE_LIFETIME * 2 \<le> now - snd (snd t)"
proof -
  have "NONCE_LIFETIME * 2 \<le> ur_clock s - snd (snd t)" using inv t unfolding unlock_inv_def by blast
  also have "\<dots> \<le> now - snd (snd t)" using assms(2) by simp
  finally show ?thesis .
qed

lemma unlock_inv_step:
  assumes inv: "unlock_inv s" and "unlock_step s t"
  shows "unlock_inv t"
  using assms(2)
proof cases
  case (ul_issue now nonce d)
  have "nonces_ok (ur_entries t) (ur_given t)" "\<forall>d. length (of_device d (ur_entries t)) \<le> MAX_NONCES_PER_DEVICE"
    using inv ul_issue nonces_ok_issue issue_bounded by (simp_all add: unlock_inv_def)
  moreover have "live (ur_entries t) \<subseteq> ur_tickets t"
    using inv ul_issue(1) by (auto simp: unlock_inv_def live_issue)
  moreover have "\<forall>u \<in> ur_tickets t - live (ur_entries t). NONCE_LIFETIME * 2 \<le> ur_clock t - snd (snd u)"
    using ul_issue(1) tickets_aged [OF inv ul_issue(2)] by (auto simp: live_issue not_less)
  ultimately show ?thesis by (simp add: unlock_inv_def)
next
  case (ul_forget d)
  then show ?thesis using inv
    by (auto simp: unlock_inv_def live_forget) (auto simp: unlock_forget_def nonces_ok_def distinct_map_filter intro: of_device_filter)
next
  case (ul_check now d nonce c r es)
  have es: "es = snd (unlock_check d nonce now c (ur_entries s))" using ul_check(3) by simp
  have "length (of_device d' es) = length (of_device d' (ur_entries s))" for d'
    unfolding es by (cases rule: unlock_check_cases [of d nonce now c "ur_entries s"]) (simp_all add: of_device_spend)
  moreover have "nonces_ok es (ur_given s)" using inv nonces_ok_check unfolding es unlock_inv_def by blast
  moreover have "live es = (if co_allowed c then {t \<in> live (ur_entries s). Some (fst t) \<noteq> nonce} else live (ur_entries s))"
    unfolding es by (rule live_check [where g = "ur_given s"]) (use inv in \<open>simp add: unlock_inv_def\<close>)
  ultimately show ?thesis
    using ul_check(1) inv tickets_aged [OF inv ul_check(2)] by (cases "co_allowed c") (auto simp: unlock_inv_def)
qed

interpretation unlock: invariant_system unlock_init unlock_step unlock_inv
proof
  show "unlock_init s \<Longrightarrow> unlock_inv s" for s
    by (simp add: unlock_init_def unlock_inv_def nonces_ok_def of_device_def live_def)
qed (rule unlock_inv_step)

text \<open>
  C20. An approval is accepted exactly when it redeems a ticket: the phone's own, younger than a
  minute, while unlocking is switched on, set up and wanted and the phone is nearby. The tickets
  are those of the run so far (one per phone, replaced by the next, void once named by anybody or
  when the phone is forgotten). What was accepted is never accepted again, and the list never
  holds more than four nonces of a phone.
\<close>

theorem unlock_redeems_ticket:
  assumes "reachable unlock_init unlock_step s" and "ur_clock s \<le> now"
  shows "(fst (unlock_check d nonce now c (ur_entries s)) = Inr () \<longleftrightarrow>
      (\<exists>n issued. nonce = Some n \<and> (n, d, issued) \<in> ur_tickets s \<and> now - issued < NONCE_LIFETIME
         \<and> co_allowed c \<and> co_ready c \<and> co_local c \<and> co_locked c))
    \<and> (fst (unlock_check d nonce now c (ur_entries s)) = Inr () \<longrightarrow>
      fst (unlock_check d' nonce now' c' (snd (unlock_check d nonce now c (ur_entries s)))) \<noteq> Inr ())
    \<and> length (of_device d (ur_entries s)) \<le> MAX_NONCES_PER_DEVICE" (is "?accept \<and> (?ok \<longrightarrow> ?again) \<and> ?few")
proof (intro conjI impI)
  have inv: "unlock_inv s" using assms(1) by (rule unlock.reachable_inv)
  then have ok: "nonces_ok (ur_entries s) (ur_given s)" and dist: "distinct (map ne_nonce (ur_entries s))"
    by (simp_all add: unlock_inv_def nonces_ok_def)
  show ?few using inv by (simp add: unlock_inv_def)
  have in_live: "(n, d, issued) \<in> live (ur_entries s) \<and> now - issued < NONCE_LIFETIME
      \<longleftrightarrow> (n, d, issued) \<in> ur_tickets s \<and> now - issued < NONCE_LIFETIME" for n issued
    using inv tickets_aged [OF inv assms(2), of "(n, d, issued)"]
    by (cases "(n, d, issued) \<in> live (ur_entries s)") (auto simp: unlock_inv_def)
  show ?accept unfolding check_accepts [OF ok] by (metis in_live)
  show ?again if ?ok
    using that unfolding check_accepts [OF ok] check_accepts [OF nonces_ok_check [OF ok]] live_check [OF ok] by auto
qed

definition ready_to_unlock :: conditions where
  "ready_to_unlock = \<lparr>co_allowed = True, co_locked = True, co_local = True, co_ready = True\<rparr>"

definition one_ticket_out :: unlock_run where
  "one_ticket_out = \<lparr>ur_clock = 5, ur_entries = unlock_issue 5 ''9f'' ''phone'' [],
     ur_tickets = {(''9f'', ''phone'', 5)}, ur_given = {''9f''}\<rparr>"

lemma one_ticket_reachable: "reachable unlock_init unlock_step one_ticket_out"
proof (rule reach_step)
  show "reachable unlock_init unlock_step \<lparr>ur_clock = 0, ur_entries = [], ur_tickets = {}, ur_given = {}\<rparr>"
    by (rule reach_init) (simp add: unlock_init_def)
  show "unlock_step \<lparr>ur_clock = 0, ur_entries = [], ur_tickets = {}, ur_given = {}\<rparr> one_ticket_out"
    using ul_issue [of "\<lparr>ur_clock = 0, ur_entries = [], ur_tickets = {}, ur_given = {}\<rparr>" 5 "''9f''" "''phone''"]
    by (simp add: one_ticket_out_def)
qed

theorem unlock_redeems_ticket_witness:
  "fst (unlock_check ''phone'' (Some ''9f'') (seconds 60) ready_to_unlock (ur_entries one_ticket_out)) = Inr ()
   \<and> fst (unlock_check ''phone'' (Some ''9f'') (seconds 60) ready_to_unlock
       (snd (unlock_check ''phone'' (Some ''9f'') (seconds 60) ready_to_unlock (ur_entries one_ticket_out)))) \<noteq> Inr ()
   \<and> fst (unlock_check ''thief'' (Some ''9f'') (seconds 60) ready_to_unlock (ur_entries one_ticket_out)) \<noteq> Inr ()"
proof -
  have late: "ur_clock one_ticket_out \<le> seconds 60" by (simp add: one_ticket_out_def seconds_def)
  note use = unlock_redeems_ticket [OF one_ticket_reachable late]
  have ok: "fst (unlock_check ''phone'' (Some ''9f'') (seconds 60) ready_to_unlock (ur_entries one_ticket_out)) = Inr ()"
    unfolding use [THEN conjunct1] by (simp add: one_ticket_out_def ready_to_unlock_def NONCE_LIFETIME_def seconds_def)
  moreover have "fst (unlock_check ''thief'' (Some ''9f'') (seconds 60) ready_to_unlock (ur_entries one_ticket_out)) \<noteq> Inr ()"
    unfolding use [THEN conjunct1] by (simp add: one_ticket_out_def)
  ultimately show ?thesis using use ok by blast
qed

subsection \<open>Absences\<close>

text \<open>
  A run of the watch with what happened to one phone, newest first: each look with its answer, each
  press of Cancel with whether a warning was up, resets, and the phone's removal. Looks at other
  phones happen in between.
\<close>

datatype away_event = Looked seen nat "away_step option" | Cancelled bool | WasReset | Forgot

record away_run =
  aw_watch :: watch
  aw_log :: "away_event list"

definition away_init :: "away_run \<Rightarrow> bool" where
  "away_init s \<longleftrightarrow> s = \<lparr>aw_watch = (\<lambda>_. None), aw_log = []\<rparr>"

inductive away_move :: "string \<Rightarrow> away_run \<Rightarrow> away_run \<Rightarrow> bool" for i where
  aw_look: "away_move i s \<lparr>aw_watch = snd (observe_when_idle i see now idle (aw_watch s)),
    aw_log = Looked see now (fst (observe_when_idle i see now idle (aw_watch s))) # aw_log s\<rparr>"
| aw_cancel: "away_move i s \<lparr>aw_watch = snd (watch_cancel i (aw_watch s)),
    aw_log = Cancelled (fst (watch_cancel i (aw_watch s))) # aw_log s\<rparr>"
| aw_forget: "away_move i s \<lparr>aw_watch = watch_forget i (aw_watch s), aw_log = Forgot # aw_log s\<rparr>"
| aw_reset: "away_move i s \<lparr>aw_watch = watch_reset (aw_watch s), aw_log = WasReset # aw_log s\<rparr>"
| aw_other_look: "j \<noteq> i \<Longrightarrow> away_move i s (s\<lparr>aw_watch := snd (observe_when_idle j see now idle (aw_watch s))\<rparr>)"
| aw_other_cancel: "j \<noteq> i \<Longrightarrow> away_move i s (s\<lparr>aw_watch := snd (watch_cancel j (aw_watch s))\<rparr>)"
| aw_other_forget: "j \<noteq> i \<Longrightarrow> away_move i s (s\<lparr>aw_watch := watch_forget j (aw_watch s)\<rparr>)"

text \<open>
  A sign of the phone, and the absence: what happened since the last one. Some of it settles the
  absence (a lock, a cancelled warning, the feature switched off, the phone removed); the count
  itself runs over looks that find the phone gone while the computer's own network is up.
\<close>

fun is_sign :: "away_event \<Rightarrow> bool" where
  "is_sign (Looked see now st) = se_reachable see"
| "is_sign _ = False"

definition absence :: "away_event list \<Rightarrow> away_event list" where
  "absence es = takeWhile (\<lambda>e. \<not> is_sign e) es"

fun disarms :: "away_event \<Rightarrow> bool" where
  "disarms (Looked see now st) = (\<not> se_enabled see)"
| "disarms Forgot = True"
| "disarms _ = False"

fun settles :: "away_event \<Rightarrow> bool" where
  "settles (Looked see now st) = (st = Some Lock)"
| "settles (Cancelled up) = up"
| "settles _ = False"

fun counts :: "away_event \<Rightarrow> bool" where
  "counts (Looked see now st) = (se_enabled see \<and> \<not> se_reachable see \<and> se_network_up see)"
| "counts (Cancelled up) = (\<not> up)"
| "counts _ = False"

fun quiet :: "away_event \<Rightarrow> bool" where
  "quiet (Looked see now st) = (st = None)"
| "quiet _ = True"

definition counting_since :: "nat \<Rightarrow> away_event list \<Rightarrow> away_event list \<Rightarrow> bool" where
  "counting_since t recent es \<longleftrightarrow> (\<exists>see st older.
     es = recent @ Looked see t st # older \<and> counts (Looked see t st) \<and> (\<forall>e \<in> set recent. counts e))"

definition warned_in :: "nat \<Rightarrow> away_event list \<Rightarrow> bool" where
  "warned_in tw recent \<longleftrightarrow> (\<exists>r see r'. recent = r @ Looked see tw (Some Warn) # r' \<and> (\<forall>e \<in> set r. quiet e))"

definition phone_inv :: "away_event list \<Rightarrow> phone \<Rightarrow> bool" where
  "phone_inv es p \<longleftrightarrow>
     (ph_armed p \<longrightarrow> absence es \<noteq> es \<and> (\<forall>e \<in> set (absence es). \<not> disarms e))
     \<and> (ph_armed p \<longrightarrow> \<not> ph_done p \<longrightarrow> (\<forall>e \<in> set (absence es). \<not> settles e))
     \<and> (ph_clear_pending p \<longrightarrow> ph_away_since p = None \<and> ph_warned_at p = None)
     \<and> (\<not> ph_done p \<longrightarrow> ph_away_since p = None \<longrightarrow> ph_warned_at p = None)
     \<and> (\<not> ph_armed p \<longrightarrow> ph_away_since p = None)
     \<and> (\<forall>t. ph_away_since p = Some t \<longrightarrow> \<not> ph_done p \<longrightarrow> (\<exists>recent. counting_since t recent es
          \<and> (\<forall>tw. ph_warned_at p = Some tw \<longrightarrow> WARN_AFTER \<le> tw - t \<and> warned_in tw recent)))"

definition away_inv :: "string \<Rightarrow> away_run \<Rightarrow> bool" where
  "away_inv i s \<longleftrightarrow> phone_inv (aw_log s) (case aw_watch s i of None \<Rightarrow> phone_default | Some p \<Rightarrow> p)"

lemma absence_Cons: "absence (e # es) = (if is_sign e then [] else e # absence es)"
  by (simp add: absence_def)

lemma phone_inv_default [simp]: "phone_inv es phone_default"
  by (simp add: phone_inv_def phone_default_def)

lemma phone_inv_sign: "is_sign e \<Longrightarrow> phone_inv (e # es) (phone_default\<lparr>ph_armed := b\<rparr>)"
  by (simp add: phone_inv_def phone_default_def absence_Cons)

lemma counting_since_Cons: "counting_since t recent es \<Longrightarrow> counts e \<Longrightarrow> counting_since t (e # recent) (e # es)"
  by (auto simp: counting_since_def)

lemma counting_since_here: "counts (Looked see t st) \<Longrightarrow> counting_since t [] (Looked see t st # es)"
  by (simp add: counting_since_def)

lemma warned_in_Cons: "warned_in tw recent \<Longrightarrow> quiet e \<Longrightarrow> warned_in tw (e # recent)"
  unfolding warned_in_def by (metis append_Cons set_ConsD)

text \<open>What a phone's entry says stays true when nothing about it changes but the log grows.\<close>

lemma phone_inv_quiet:
  assumes "phone_inv es p" and "\<not> disarms e" and "\<not> settles e"
    and "\<not> ph_done p \<Longrightarrow> ph_away_since p \<noteq> None \<Longrightarrow> counts e \<and> quiet e"
  shows "phone_inv (e # es) p"
proof -
  have "\<exists>recent. counting_since t recent (e # es) \<and> (\<forall>tw. ph_warned_at p = Some tw \<longrightarrow> WARN_AFTER \<le> tw - t \<and> warned_in tw recent)"
    if t: "ph_away_since p = Some t" "\<not> ph_done p" for t
  proof -
    obtain recent where "counting_since t recent es"
      "\<forall>tw. ph_warned_at p = Some tw \<longrightarrow> WARN_AFTER \<le> tw - t \<and> warned_in tw recent"
      using assms(1) t unfolding phone_inv_def by blast
    then show ?thesis using assms(4) t by (intro exI [of _ "e # recent"]) (simp add: counting_since_Cons warned_in_Cons)
  qed
  then show ?thesis using assms(1-3) unfolding phone_inv_def by (auto simp: absence_Cons)
qed

lemma phone_inv_stops:
  assumes "phone_inv es p" and "\<not> disarms e" and "\<not> settles e"
  shows "phone_inv (e # es) (p\<lparr>ph_clear_pending := b, ph_warned_at := None, ph_away_since := None\<rparr>)"
  using assms unfolding phone_inv_def by (auto simp: absence_Cons)

text \<open>A look that counts: it begins a count, or goes on with one.\<close>

definition count_look :: "seen \<Rightarrow> nat \<Rightarrow> bool \<Rightarrow> nat \<Rightarrow> phone \<Rightarrow> away_step option \<times> phone" where
  "count_look see now idle since p =
     (let warn_after = (if se_dozing see then DOZING_WARN_AFTER else WARN_AFTER);
          lock_after = (if se_dozing see then DOZING_LOCK_AFTER else LOCK_AFTER)
      in case ph_warned_at p of
           None \<Rightarrow>
             if warn_after \<le> now - since \<and> \<not> (se_dozing see \<and> \<not> idle) then (Some Warn, p\<lparr>ph_warned_at := Some now\<rparr>)
             else (None, p)
         | Some warned \<Rightarrow>
             if lock_after \<le> now - since \<and> WARN_FOR \<le> now - warned then
               (if se_dozing see \<and> \<not> idle
                then (Some ClearWarning, p\<lparr>ph_warned_at := None, ph_away_since := Some now\<rparr>)
                else (Some Lock, p\<lparr>ph_warned_at := None, ph_done := True\<rparr>))
             else (None, p))"

lemma observe_phone_cases:
  obtains (clear) "ph_clear_pending p" "observe_phone see now idle p = (Some ClearWarning, p\<lparr>ph_clear_pending := False\<rparr>)"
  | (here) "se_reachable see" "observe_phone see now idle p = (clears p, phone_default\<lparr>ph_armed := ph_armed p \<or> se_ready see\<rparr>)"
  | (idle) "\<not> ph_armed p \<or> ph_done p" "\<not> se_reachable see" "observe_phone see now idle p = (None, p)"
  | (cut_off) "\<not> se_reachable see" "\<not> se_network_up see" "\<not> ph_clear_pending p"
      "observe_phone see now idle p = (clears p, p\<lparr>ph_away_since := None, ph_warned_at := None\<rparr>)"
  | (away) since where "ph_armed p" "\<not> ph_done p" "\<not> ph_clear_pending p" "\<not> se_reachable see" "se_network_up see"
      "since = (case ph_away_since p of Some t \<Rightarrow> t | None \<Rightarrow> now)"
      "observe_phone see now idle p = count_look see now idle since (p\<lparr>ph_away_since := Some since\<rparr>)"
proof -
  consider "ph_clear_pending p" | "\<not> ph_clear_pending p" "se_reachable see"
    | "\<not> ph_clear_pending p" "\<not> se_reachable see" "\<not> ph_armed p \<or> ph_done p"
    | "\<not> ph_clear_pending p" "\<not> se_reachable see" "ph_armed p" "\<not> ph_done p" "\<not> se_network_up see"
    | "\<not> ph_clear_pending p" "\<not> se_reachable see" "ph_armed p" "\<not> ph_done p" "se_network_up see" by blast
  then show thesis
  proof cases
    case 5
    have "observe_phone see now idle p = count_look see now idle (case ph_away_since p of Some t \<Rightarrow> t | None \<Rightarrow> now)
        (p\<lparr>ph_away_since := Some (case ph_away_since p of Some t \<Rightarrow> t | None \<Rightarrow> now)\<rparr>)"
      using 5 by (simp add: observe_phone_def count_look_def Let_def split: option.split)
    then show thesis using 5 away by blast
  qed (simp add: clear observe_phone_def, simp add: here observe_phone_def, simp add: idle observe_phone_def,
      simp add: cut_off observe_phone_def)
qed

lemmas away_times = WARN_AFTER_def WARN_FOR_def LOCK_AFTER_def DOZING_WARN_AFTER_def DOZING_LOCK_AFTER_def seconds_def

lemma count_look_cases:
  assumes "count_look see now idle since p = (st, p')"
  obtains (wait) "st = None" "p' = p"
  | (warn) "st = Some Warn" "p' = p\<lparr>ph_warned_at := Some now\<rparr>" "WARN_AFTER \<le> now - since" "ph_warned_at p = None"
  | (restart) "st = Some ClearWarning" "p' = p\<lparr>ph_warned_at := None, ph_away_since := Some now\<rparr>"
  | (lock) tw where "st = Some Lock" "p' = p\<lparr>ph_warned_at := None, ph_done := True\<rparr>" "ph_warned_at p = Some tw"
      "LOCK_AFTER \<le> now - since" "WARN_FOR \<le> now - tw" "se_dozing see \<longrightarrow> idle \<and> DOZING_LOCK_AFTER \<le> now - since"
proof (cases "ph_warned_at p")
  case None
  then show thesis
    using assms wait warn by (cases "se_dozing see") (auto simp: count_look_def away_times split: if_splits)
next
  case (Some tw)
  then show thesis
    using assms wait restart lock by (cases "se_dozing see") (auto simp: count_look_def away_times split: if_splits)
qed

lemma count_begun: "phone_inv es p \<Longrightarrow> \<not> ph_done p \<Longrightarrow> ph_away_since p = None \<Longrightarrow> ph_warned_at p = None"
  by (simp add: phone_inv_def)

text \<open>The count after one more look that counts.\<close>

lemma count_grows:
  assumes inv: "phone_inv es p" and "\<not> ph_done p" and c: "counts (Looked see now st)"
    and since: "since = (case ph_away_since p of Some t \<Rightarrow> t | None \<Rightarrow> now)"
  obtains recent where "counting_since since recent (Looked see now st # es)"
    "st = None \<Longrightarrow> \<forall>tw. ph_warned_at p = Some tw \<longrightarrow> WARN_AFTER \<le> tw - since \<and> warned_in tw recent"
    "ph_away_since p \<noteq> None \<Longrightarrow> \<exists>r. recent = Looked see now st # r"
proof (cases "ph_away_since p")
  case None
  then show thesis
    using counting_since_here [OF c, of es] since count_begun [OF assms(1,2)] by (intro that [of "[]"]) simp_all
next
  case (Some t)
  then obtain recent where r: "counting_since t recent es"
    "\<forall>tw. ph_warned_at p = Some tw \<longrightarrow> WARN_AFTER \<le> tw - t \<and> warned_in tw recent"
    using assms(1,2) unfolding phone_inv_def by blast
  show thesis
    using r Some since counting_since_Cons [OF r(1) c]
    by (intro that [of "Looked see now st # recent"]) (auto intro: warned_in_Cons)
qed

lemma count_look_inv:
  assumes inv: "phone_inv es p" and p: "ph_armed p" "\<not> ph_done p" "\<not> ph_clear_pending p"
    and see: "se_enabled see" "\<not> se_reachable see" "se_network_up see"
    and since: "since = (case ph_away_since p of Some t \<Rightarrow> t | None \<Rightarrow> now)"
    and out: "count_look see now idle since (p\<lparr>ph_away_since := Some since\<rparr>) = (st, p')"
  shows "phone_inv (Looked see now st # es) p'"
proof -
  let ?e = "Looked see now st"
  have c: "counts ?e" using see by simp
  have base: "absence (?e # es) \<noteq> ?e # es" "\<forall>x \<in> set (absence (?e # es)). \<not> disarms x"
    "\<forall>x \<in> set (absence es). \<not> settles x"
    using inv p see by (auto simp: phone_inv_def absence_Cons)
  obtain recent where r: "counting_since since recent (?e # es)"
    "st = None \<Longrightarrow> \<forall>tw. ph_warned_at p = Some tw \<longrightarrow> WARN_AFTER \<le> tw - since \<and> warned_in tw recent"
    "ph_away_since p \<noteq> None \<Longrightarrow> \<exists>r. recent = ?e # r"
    using count_grows [OF inv p(2) c since] by blast
  from out show ?thesis
  proof (cases rule: count_look_cases)
    case wait
    then show ?thesis using base r see p by (auto simp: phone_inv_def absence_Cons)
  next
    case warn
    have "ph_away_since p \<noteq> None" using warn(3) since by (cases "ph_away_since p") (auto simp: away_times)
    then obtain r' where "recent = ?e # r'" using r(3) by blast
    then have "warned_in now recent" using warn(1) unfolding warned_in_def by (metis append_Nil empty_iff empty_set)
    then show ?thesis using base r(1) see p warn by (auto simp: phone_inv_def absence_Cons)
  next
    case restart
    then show ?thesis using base see p counting_since_here [OF c] by (auto simp: phone_inv_def absence_Cons)
  next
    case (lock tw)
    then show ?thesis using base see p by (auto simp: phone_inv_def absence_Cons)
  qed
qed

lemma observe_phone_inv:
  assumes inv: "phone_inv es p" and en: "se_enabled see" and out: "observe_phone see now idle p = (st, p')"
  shows "phone_inv (Looked see now st # es) p'"
proof (cases rule: observe_phone_cases [of p see now idle])
  case clear
  then have st: "st = Some ClearWarning" "p' = p\<lparr>ph_clear_pending := False\<rparr>" using out by simp_all
  have "phone_inv (Looked see now st # es) p"
    using inv en clear(1) st by (intro phone_inv_quiet) (auto simp: phone_inv_def)
  then show ?thesis using st by (simp add: phone_inv_def)
next
  case here
  then show ?thesis using out phone_inv_sign [of "Looked see now st" es] by simp
next
  case idle
  have "ph_away_since p = None" if "\<not> ph_done p" using inv idle(1) that by (simp add: phone_inv_def)
  then show ?thesis using inv en out idle(3) by (auto intro: phone_inv_quiet)
next
  case cut_off
  have "st \<noteq> Some Lock" using cut_off(4) out by (auto simp: clears_def split: if_splits)
  moreover have "p' = p\<lparr>ph_clear_pending := ph_clear_pending p, ph_warned_at := None, ph_away_since := None\<rparr>"
    using cut_off(4) out by simp
  ultimately show ?thesis using phone_inv_stops [OF inv, of "Looked see now st" "ph_clear_pending p"] en by simp
next
  case (away since)
  then show ?thesis using count_look_inv [OF inv away(1-3) en away(4-6)] out by simp
qed

lemma cancel_entry:
  "watch_cancel i w = (up, w') \<Longrightarrow> (up \<longrightarrow> (\<exists>p. w i = Some p \<and> w' = w(i \<mapsto> p\<lparr>ph_warned_at := None, ph_done := True\<rparr>)))
     \<and> (\<not> up \<longrightarrow> w' = w)"
  by (auto simp: watch_cancel_def split: option.splits if_splits)

lemma others_untouched:
  "j \<noteq> i \<Longrightarrow> snd (observe_when_idle j see now idle w) i = w i" "j \<noteq> i \<Longrightarrow> snd (watch_cancel j w) i = w i"
  "j \<noteq> i \<Longrightarrow> watch_forget j w i = w i"
  by (simp_all add: observe_when_idle_def Let_def watch_cancel_def watch_forget_def split: prod.split option.split)

lemma away_inv_move:
  assumes inv: "away_inv i s" and "away_move i s t"
  shows "away_inv i t"
  using assms(2)
proof cases
  case (aw_look see now idle)
  let ?p = "case aw_watch s i of None \<Rightarrow> phone_default | Some p \<Rightarrow> p"
  show ?thesis
  proof (cases "se_enabled see")
    case True
    obtain st p' where out: "observe_phone see now idle ?p = (st, p')" by fastforce
    then show ?thesis
      using observe_phone_inv [OF inv [unfolded away_inv_def] True out] aw_look True
      by (simp add: away_inv_def observe_when_idle_def Let_def)
  next
    case False
    then show ?thesis using aw_look by (simp add: away_inv_def observe_when_idle_def)
  qed
next
  case aw_cancel
  obtain up w' where c: "watch_cancel i (aw_watch s) = (up, w')" by fastforce
  show ?thesis
  proof (cases up)
    case True
    then obtain p where "aw_watch s i = Some p" "w' = (aw_watch s)(i \<mapsto> p\<lparr>ph_warned_at := None, ph_done := True\<rparr>)"
      using cancel_entry [OF c] by blast
    then show ?thesis using inv c aw_cancel True by (auto simp: away_inv_def phone_inv_def absence_Cons)
  next
    case False
    then have "w' = aw_watch s" using cancel_entry [OF c] by blast
    then show ?thesis using inv c aw_cancel False by (auto simp: away_inv_def intro: phone_inv_quiet)
  qed
next
  case aw_forget
  then show ?thesis by (simp add: away_inv_def watch_forget_def)
next
  case aw_reset
  show ?thesis
  proof (cases "aw_watch s i")
    case None
    then show ?thesis using aw_reset by (simp add: away_inv_def watch_reset_def)
  next
    case (Some p)
    then show ?thesis
      using phone_inv_stops [of "aw_log s" p WasReset "ph_clear_pending p \<or> ph_warned_at p \<noteq> None"] inv aw_reset
      by (simp add: away_inv_def watch_reset_def)
  qed
qed (use inv others_untouched in \<open>simp_all add: away_inv_def\<close>)

interpretation away: invariant_system away_init "away_move i" "away_inv i" for i
  by unfold_locales (simp add: away_init_def away_inv_def, rule away_inv_move)

text \<open>
  C21. The computer locks itself only over a phone that left. When a look answers Lock, the phone had
  been there with the feature on, and since its last sign nothing settled the absence: no earlier
  lock (so one per absence), no warning the person cancelled, the feature not switched off, the
  phone not removed. The looks of at least the last minute, back to the one at which the count
  began, all found the phone gone with the computer's own network up, with no reset among them.
  Among them is the warning, given at least 50 seconds into the count and at least ten seconds ago,
  and still showing. Over a phone that dozes it takes three minutes and a desk nobody uses.
\<close>

theorem lock_follows_absence:
  assumes "reachable away_init (away_move i) s"
    and "observe_when_idle i see now idle (aw_watch s) = (Some Lock, w)"
  shows "(absence (aw_log s) \<noteq> aw_log s \<and> (\<forall>e \<in> set (absence (aw_log s)). \<not> settles e \<and> \<not> disarms e))
    \<and> (\<exists>r see1 tw r' see2 t st older.
      aw_log s = r @ Looked see1 tw (Some Warn) # r' @ Looked see2 t st # older
      \<and> (\<forall>e \<in> set (r @ Looked see1 tw (Some Warn) # r' @ [Looked see2 t st]). counts e) \<and> (\<forall>e \<in> set r. quiet e)
      \<and> LOCK_AFTER \<le> now - t \<and> WARN_AFTER \<le> tw - t \<and> WARN_FOR \<le> now - tw
      \<and> (se_dozing see \<longrightarrow> idle \<and> DOZING_LOCK_AFTER \<le> now - t))
    \<and> (se_enabled see \<and> \<not> se_reachable see \<and> se_network_up see)" (is "?open \<and> ?count \<and> ?see")
proof -
  define p where "p = (case aw_watch s i of None \<Rightarrow> phone_default | Some p \<Rightarrow> p)"
  have inv: "phone_inv (aw_log s) p" using away.reachable_inv [OF assms(1)] by (simp add: away_inv_def p_def)
  have en: "se_enabled see"
    using assms(2) by (cases "aw_watch s i") (auto simp: observe_when_idle_def clears_def split: if_splits)
  then obtain p' where out: "observe_phone see now idle p = (Some Lock, p')"
    using assms(2) by (auto simp: observe_when_idle_def Let_def p_def split: prod.splits)
  obtain since where a: "ph_armed p" "\<not> ph_done p" "\<not> se_reachable see" "se_network_up see"
      "since = (case ph_away_since p of Some t \<Rightarrow> t | None \<Rightarrow> now)"
      "count_look see now idle since (p\<lparr>ph_away_since := Some since\<rparr>) = (Some Lock, p')"
    using out by (cases rule: observe_phone_cases [of p see now idle]) (auto simp: clears_def split: if_splits)
  from a(6) obtain tw where l: "ph_warned_at p = Some tw" "LOCK_AFTER \<le> now - since" "WARN_FOR \<le> now - tw"
      "se_dozing see \<longrightarrow> idle \<and> DOZING_LOCK_AFTER \<le> now - since"
    by (cases rule: count_look_cases) auto
  have ?open
    using inv a(1,2) by (simp add: phone_inv_def)
  moreover have sees: ?see using en a(3,4) by simp
  have "ph_away_since p = Some since" using count_begun [OF inv a(2)] l(1) a(5) by (cases "ph_away_since p") auto
  then obtain recent where r: "counting_since since recent (aw_log s)" "WARN_AFTER \<le> tw - since" "warned_in tw recent"
    using inv a(2) l(1) unfolding phone_inv_def by blast
  from r(1) obtain see2 st older where es: "aw_log s = recent @ Looked see2 since st # older"
    "counts (Looked see2 since st)" "\<forall>e \<in> set recent. counts e" unfolding counting_since_def by blast
  from r(3) obtain rs see1 r' where w: "recent = rs @ Looked see1 tw (Some Warn) # r'" "\<forall>e \<in> set rs. quiet e"
    unfolding warned_in_def by blast
  moreover have ?count
    by (rule exI [of _ rs], rule exI [of _ see1], rule exI [of _ tw], rule exI [of _ r'], rule exI [of _ see2],
        rule exI [of _ since], rule exI [of _ st], rule exI [of _ older]) (use es w l r(2) in auto)
  ultimately show ?thesis using sees by blast
qed

text \<open>The phone is here, leaves, and is looked at every half minute.\<close>

definition phone_here :: seen where
  "phone_here = \<lparr>se_enabled = True, se_reachable = True, se_ready = True, se_dozing = False, se_network_up = True\<rparr>"

definition phone_gone :: seen where
  "phone_gone = phone_here\<lparr>se_reachable := False, se_ready := False\<rparr>"

fun looks :: "string \<Rightarrow> (seen \<times> nat) list \<Rightarrow> away_run" where
  "looks i [] = \<lparr>aw_watch = (\<lambda>_. None), aw_log = []\<rparr>"
| "looks i ((see, now) # rest) =
     (let s = looks i rest; out = observe_when_idle i see now True (aw_watch s)
      in \<lparr>aw_watch = snd out, aw_log = Looked see now (fst out) # aw_log s\<rparr>)"

lemma looks_reachable: "reachable away_init (away_move i) (looks i ls)"
proof (induction i ls rule: looks.induct)
  case (2 i see now rest)
  then show ?case unfolding looks.simps Let_def by (rule reach_step) (rule aw_look)
qed (simp add: reach_init away_init_def)

definition walked_away :: away_run where
  "walked_away = looks ''phone'' [(phone_gone, seconds 80), (phone_gone, seconds 50), (phone_gone, seconds 20), (phone_here, seconds 0)]"

theorem lock_follows_absence_witness:
  "fst (observe_when_idle ''phone'' phone_gone (seconds 110) True (aw_watch walked_away)) = Some Lock
   \<and> absence (aw_log walked_away) \<noteq> aw_log walked_away
   \<and> list_all (\<lambda>e. \<not> settles e \<and> \<not> disarms e) (absence (aw_log walked_away))"
proof -
  have out: "fst (observe_when_idle ''phone'' phone_gone (seconds 110) True (aw_watch walked_away)) = Some Lock"
    by (simp add: walked_away_def observe_when_idle_def observe_phone_def clears_def phone_here_def phone_gone_def
        phone_default_def Let_def away_times)
  then obtain w where w: "observe_when_idle ''phone'' phone_gone (seconds 110) True (aw_watch walked_away) = (Some Lock, w)"
    by (metis prod.collapse)
  have "reachable away_init (away_move ''phone'') walked_away" unfolding walked_away_def by (rule looks_reachable)
  then show ?thesis using out lock_follows_absence [OF _ w] by (simp add: list_all_iff)
qed

end

