(* ===== verification/Notes.thy ===== *)
theory Notes
  imports Texts
begin

section \<open>Snippets and notes\<close>

text \<open>
  \<open>src/device_links/notes.rs\<close>: the shelf of snippets and notes that the desk and its phones keep the
  same. Merging a version that arrives, local edits and their lineage, conflicted copies and the
  removal of duplicates, and the packets of the exchange.

  A \<open>BTreeMap\<close> is a list sorted by key. Times are milliseconds (\<open>i64\<close>) read from an argument \<open>now\<close>
  (one reading for each note where several are edited); \<open>txt\<close> is the JSON text of a value
  (\<open>serde_json\<close>; the order of the fields does not matter, only its length is used), and fresh ids
  are arguments.
\<close>

definition MAX_ID_CHARS :: nat where "MAX_ID_CHARS = 128"
definition MAX_SNIPPETS :: nat where "MAX_SNIPPETS = 500"
definition MAX_SNIPPET_BYTES :: nat where "MAX_SNIPPET_BYTES = 16 * 1024"
definition MAX_SNIPPET_TITLE_CHARS :: nat where "MAX_SNIPPET_TITLE_CHARS = 120"
definition MAX_NOTES :: nat where "MAX_NOTES = 2000"
definition MAX_NOTE_TITLE_CHARS :: nat where "MAX_NOTE_TITLE_CHARS = 200"
definition MAX_NOTE_BYTES :: nat where "MAX_NOTE_BYTES = 20 * 1024"
definition FETCH_IDS :: nat where "FETCH_IDS = 100"
definition MAX_FEATURE_PACKET_BYTES :: nat where "MAX_FEATURE_PACKET_BYTES = 40 * 1024"
definition NOTE_TOMBSTONE_DAYS :: int where "NOTE_TOMBSTONE_DAYS = 90"
definition MAX_SNIPPET_ENTRIES :: nat where "MAX_SNIPPET_ENTRIES = MAX_SNIPPETS * 2"
definition MAX_NOTE_ENTRIES :: nat where "MAX_NOTE_ENTRIES = MAX_NOTES * 2"
definition MAX_ITEMS_PER_PACKET :: nat where "MAX_ITEMS_PER_PACKET = 200"
definition MAX_INDEX_ENTRIES :: nat where "MAX_INDEX_ENTRIES = MAX_NOTE_ENTRIES"
definition COPY_SUFFIX :: string where "COPY_SUFFIX = ''(conflicted copy)''"
definition MAX_ANCESTORS :: nat where "MAX_ANCESTORS = 8"
definition MAX_PEERS_PER_NOTE :: nat where "MAX_PEERS_PER_NOTE = 3"
definition INDEX_BUDGET :: nat where "INDEX_BUDGET = 40 * 1024"
definition PACKET_OVERHEAD :: nat where "PACKET_OVERHEAD = 256"
definition I64_MAX :: int where "I64_MAX = 2 ^ 63 - 1"

subsection \<open>Notes and the shelf\<close>

record snippet =
  sn_id :: string
  sn_text :: string
  sn_title :: string
  sn_modified :: int
  sn_deleted :: bool

record note_entry =
  nt_id :: string
  nt_title :: string
  nt_body :: string
  nt_pinned :: bool
  nt_created :: int
  nt_modified :: int
  nt_parent :: int
  nt_ancestors :: "int list"
  nt_deleted :: bool

definition ancestors_after :: "note_entry \<Rightarrow> int list \<Rightarrow> int list" where
  "ancestors_after before keep =
     (let chain = nt_modified before # nt_ancestors before in
      if length chain \<le> MAX_ANCESTORS then chain
      else
        (let kept = take MAX_ANCESTORS (filter (\<lambda>m. m \<in> set keep) chain);
             room = MAX_ANCESTORS - length kept;
             recent = take room (filter (\<lambda>m. m \<notin> set kept) chain)
         in rev (sort (kept @ recent))))"

text \<open>Space, tab, line ends, U+00A0, U+2028, U+2029 and U+3000.\<close>

definition TRIM :: "string set" where
  "TRIM = {'' '', [CHR 0x09], [CHR 0x0A], [CHR 0x0D], [CHR 0x0B], [CHR 0x0C], [CHR 0xC2, CHR 0xA0],
           [CHR 0xE2, CHR 0x80, CHR 0xA8], [CHR 0xE2, CHR 0x80, CHR 0xA9], [CHR 0xE3, CHR 0x80, CHR 0x80]}"

definition trim_note :: "string \<Rightarrow> string" where
  "trim_note t = trim_matches TRIM t"

definition note_label :: "note_entry \<Rightarrow> string" where
  "note_label n =
     (let label =
        (if trim_note (nt_title n) = []
         then (case find (\<lambda>line. line \<noteq> [])
                 (map (\<lambda>line. trim_note (trim_start_matches {''#'', '' '', ''-'', ''*''} line)) (text_lines (nt_body n))) of
                 Some line \<Rightarrow> line | None \<Rightarrow> ''New Note'')
         else trim_note (nt_title n))
      in take_chars 80 label)"

definition same_content :: "note_entry \<Rightarrow> note_entry \<Rightarrow> bool" where
  "same_content a b \<longleftrightarrow>
     nt_title a = nt_title b \<and> nt_body a = nt_body b \<and> nt_pinned a = nt_pinned b \<and> nt_deleted a = nt_deleted b"

type_synonym marks = "(string \<times> (string \<times> int) list) list"

record shelf =
  sf_snippets :: "(string \<times> snippet) list"
  sf_notes :: "(string \<times> note_entry) list"
  sf_synced :: "(string \<times> int) list"
  sf_held :: marks
  sf_sent :: marks

definition obj_remove :: "string \<Rightarrow> (string \<times> 'v) list \<Rightarrow> (string \<times> 'v) list" where
  "obj_remove k m = filter (\<lambda>(k', _). k' \<noteq> k) m"

text \<open>\<open>min_by_key\<close>: the first of those with the least version.\<close>

fun oldest_peer :: "(string \<times> int) list \<Rightarrow> (string \<times> int) option" where
  "oldest_peer [] = None"
| "oldest_peer (p # ps) =
     (case oldest_peer ps of None \<Rightarrow> Some p | Some q \<Rightarrow> if snd p \<le> snd q then Some p else Some q)"

lemma oldest_peer_in: "oldest_peer ps = Some p \<Longrightarrow> p \<in> set ps"
  by (induction ps arbitrary: p) (auto split: option.splits if_splits)

lemma obj_remove_shorter: "(k, v) \<in> set m \<Longrightarrow> length (obj_remove k m) < length m"
  unfolding obj_remove_def by (rule length_filter_less) auto

function trim_peers :: "(string \<times> int) list \<Rightarrow> (string \<times> int) list" where
  "trim_peers ps =
     (if MAX_PEERS_PER_NOTE < length ps
      then (case oldest_peer ps of Some (peer, _) \<Rightarrow> trim_peers (obj_remove peer ps) | None \<Rightarrow> ps)
      else ps)"
  by pat_completeness auto
termination
  by (relation "measure length") (auto dest: oldest_peer_in obj_remove_shorter)

declare trim_peers.simps [simp del]

definition record_peer :: "marks \<Rightarrow> string \<Rightarrow> string \<Rightarrow> int \<Rightarrow> marks" where
  "record_peer marks i peer v =
     (if peer = [] then marks
      else obj_insert i (trim_peers (obj_insert peer v (unwrap_or [] (obj_get marks i)))) marks)"

definition record_held :: "string \<Rightarrow> string \<Rightarrow> int \<Rightarrow> shelf \<Rightarrow> shelf" where
  "record_held i peer v sh = sh\<lparr>sf_held := record_peer (sf_held sh) i peer v\<rparr>"

definition record_sent :: "string \<Rightarrow> string \<Rightarrow> int \<Rightarrow> shelf \<Rightarrow> shelf" where
  "record_sent i peer v sh = sh\<lparr>sf_sent := record_peer (sf_sent sh) i peer v\<rparr>"

fun least :: "int list \<Rightarrow> int option" where
  "least [] = None"
| "least (v # vs) = Some (foldl min v vs)"

definition base_of :: "shelf \<Rightarrow> string \<Rightarrow> int" where
  "base_of sh i =
     (case Option.bind (obj_get (sf_held sh) i) (\<lambda>peers. least (map snd peers)) of
        Some v \<Rightarrow> v
      | None \<Rightarrow> unwrap_or 0 (obj_get (sf_synced sh) i))"

definition must_keep :: "shelf \<Rightarrow> string \<Rightarrow> int list" where
  "must_keep sh i =
     map snd (unwrap_or [] (obj_get (sf_held sh) i)) @ map snd (unwrap_or [] (obj_get (sf_sent sh) i))"

definition forget_in :: "string \<Rightarrow> marks \<Rightarrow> marks" where
  "forget_in d marks = filter (\<lambda>(_, peers). peers \<noteq> []) (map (\<lambda>(i, peers). (i, obj_remove d peers)) marks)"

definition forget_phone :: "string \<Rightarrow> shelf \<Rightarrow> shelf" where
  "forget_phone d sh = sh\<lparr>sf_held := forget_in d (sf_held sh), sf_sent := forget_in d (sf_sent sh)\<rparr>"

subsection \<open>Validation\<close>

definition valid_id :: "string \<Rightarrow> bool" where
  "valid_id i \<longleftrightarrow> i \<noteq> [] \<and> count_chars i \<le> MAX_ID_CHARS \<and> \<not> list_ex is_control (utf8_chars i)"

definition valid_snippet :: "snippet \<Rightarrow> bool" where
  "valid_snippet s \<longleftrightarrow>
     valid_id (sn_id s) \<and> length (sn_text s) \<le> MAX_SNIPPET_BYTES \<and> count_chars (sn_title s) \<le> MAX_SNIPPET_TITLE_CHARS
     \<and> (sn_deleted s \<or> sn_text s \<noteq> []) \<and> 0 < sn_modified s"

definition valid_note :: "note_entry \<Rightarrow> bool" where
  "valid_note n \<longleftrightarrow>
     valid_id (nt_id n) \<and> length (nt_ancestors n) \<le> MAX_ANCESTORS \<and> length (nt_body n) \<le> MAX_NOTE_BYTES
     \<and> count_chars (nt_title n) \<le> MAX_NOTE_TITLE_CHARS \<and> 0 < nt_modified n"

subsection \<open>Merging\<close>

definition merge_snippet :: "snippet \<Rightarrow> shelf \<Rightarrow> bool \<times> shelf" where
  "merge_snippet s sh =
     (case obj_get (sf_snippets sh) (sn_id s) of
        Some local \<Rightarrow>
          if sn_modified s \<le> sn_modified local then (False, sh)
          else (True, sh\<lparr>sf_snippets := obj_insert (sn_id s) s (sf_snippets sh)\<rparr>)
      | None \<Rightarrow> (True, sh\<lparr>sf_snippets := obj_insert (sn_id s) s (sf_snippets sh)\<rparr>))"

datatype merged = KeptOurs | Taken | Same | Conflict

text \<open>The note kept beside: \<open>Note { id: "<id>~<modified>", title: "<label> (conflicted copy)", parent, ..loser }\<close>.\<close>

definition conflicted_copy :: "note_entry \<Rightarrow> note_entry" where
  "conflicted_copy loser =
     loser\<lparr>nt_id := nt_id loser @ ''~'' @ show_int (nt_modified loser),
           nt_title := note_label loser @ '' '' @ COPY_SUFFIX, nt_parent := nt_modified loser\<rparr>"

definition put_synced :: "string \<Rightarrow> int \<Rightarrow> shelf \<Rightarrow> shelf" where
  "put_synced i v sh = sh\<lparr>sf_synced := obj_insert i v (sf_synced sh)\<rparr>"

definition put_note :: "string \<Rightarrow> note_entry \<Rightarrow> shelf \<Rightarrow> shelf" where
  "put_note i n sh = sh\<lparr>sf_notes := obj_insert i n (sf_notes sh)\<rparr>"

definition incoming_wins :: "note_entry \<Rightarrow> note_entry \<Rightarrow> bool" where
  "incoming_wins local incoming =
     (if same_content local incoming \<or> nt_deleted local \<noteq> nt_deleted incoming then
        (if nt_deleted local \<noteq> nt_deleted incoming then nt_deleted local
         else nt_modified local < nt_modified incoming)
      else nt_modified local < nt_modified incoming
           \<or> (nt_modified local = nt_modified incoming \<and> nt_body local < nt_body incoming))"

definition merge_siblings :: "note_entry \<Rightarrow> note_entry \<Rightarrow> string \<Rightarrow> shelf \<Rightarrow> merged \<times> shelf" where
  "merge_siblings local incoming peer sh =
     (let wins = incoming_wins local incoming;
          (winner, loser) = (if wins then (incoming, local) else (local, incoming));
          conflict = (\<not> same_content winner loser \<and> \<not> nt_deleted winner \<and> \<not> nt_deleted loser);
          copy = (if conflict then Some (conflicted_copy loser) else None);
          copy = keep_if (\<lambda>c. obj_get (sf_notes sh) (nt_id c) = None) copy
      in if \<not> wins \<and> (\<not> conflict \<or> copy = None) then (KeptOurs, sh)
         else
           (let sh = (case copy of Some c \<Rightarrow> put_note (nt_id c) c (put_synced (nt_id c) (nt_modified c) sh) | None \<Rightarrow> sh);
                sh = put_synced (nt_id winner) (nt_modified winner) sh;
                sh = (if wins then record_held (nt_id winner) peer (nt_modified incoming) sh else sh);
                sh = put_note (nt_id winner) winner sh
            in (if copy \<noteq> None then Conflict else Taken, sh)))"

definition descends :: "note_entry \<Rightarrow> note_entry \<Rightarrow> bool" where
  "descends later earlier \<longleftrightarrow> nt_parent later = nt_modified earlier \<or> nt_modified earlier \<in> set (nt_ancestors later)"

definition merge_note_from :: "note_entry \<Rightarrow> string \<Rightarrow> shelf \<Rightarrow> merged \<times> shelf" where
  "merge_note_from incoming peer sh =
     (let i = nt_id incoming; take_it = (Taken, put_note i incoming (record_held i peer (nt_modified incoming)
                                            (put_synced i (nt_modified incoming) sh)))
      in case obj_get (sf_notes sh) i of
           None \<Rightarrow> take_it
         | Some local \<Rightarrow>
             if nt_modified local = nt_modified incoming \<and> same_content local incoming
             then (Same, record_held (nt_id local) peer (nt_modified local)
                           (put_synced (nt_id local) (nt_modified local) sh))
             else if descends incoming local then take_it
             else if descends local incoming
             then (KeptOurs, record_held (nt_id local) peer (nt_modified incoming) sh)
             else merge_siblings local incoming peer sh)"

definition merge_note :: "note_entry \<Rightarrow> shelf \<Rightarrow> merged \<times> shelf" where
  "merge_note incoming sh = merge_note_from incoming [] sh"

fun position :: "int \<Rightarrow> int list \<Rightarrow> nat option" where
  "position v [] = None"
| "position v (x # xs) = (if x = v then Some 0 else map_option Suc (position v xs))"

text \<open>\<open>at < position(version)\<close>, with \<open>usize::MAX\<close> for a version that is none of ours.\<close>

definition nearer :: "nat \<Rightarrow> int list \<Rightarrow> int option \<Rightarrow> bool" where
  "nearer k chain version = (case Option.bind version (\<lambda>v. position v chain) of None \<Rightarrow> True | Some p \<Rightarrow> k < p)"

definition acknowledge :: "string \<Rightarrow> int \<Rightarrow> string \<Rightarrow> shelf \<Rightarrow> bool \<times> shelf" where
  "acknowledge i modified peer sh =
     (case obj_get (sf_notes sh) i of
        None \<Rightarrow> (False, sh)
      | Some n \<Rightarrow>
          (let chain = nt_modified n # nt_ancestors n in
           case position modified chain of
             None \<Rightarrow> (False, sh)
           | Some k \<Rightarrow>
               (let a = nearer k chain (obj_get (sf_synced sh) i);
                    b = (peer \<noteq> [] \<and> nearer k chain (Option.bind (obj_get (sf_held sh) i) (\<lambda>peers. obj_get peers peer)));
                    sh = (if a then put_synced i modified sh else sh);
                    sh = (if b then record_held i peer modified sh else sh)
                in (a \<or> b, sh))))"

subsection \<open>Local edits\<close>

definition snippet_to_json :: "snippet \<Rightarrow> json" where
  "snippet_to_json s =
     JObj (foldr (\<lambda>(k, v). obj_insert k v)
       ([(''id'', JStr (sn_id s)), (''text'', JStr (sn_text s)), (''title'', JStr (sn_title s)),
         (''modified'', JInt (sn_modified s))] @ (if sn_deleted s then [(''deleted'', JBool True)] else [])) [])"

definition note_to_json :: "note_entry \<Rightarrow> json" where
  "note_to_json n =
     JObj (foldr (\<lambda>(k, v). obj_insert k v)
       ([(''id'', JStr (nt_id n)), (''title'', JStr (nt_title n)), (''body'', JStr (nt_body n)),
         (''pinned'', JBool (nt_pinned n)), (''created'', JInt (nt_created n)), (''modified'', JInt (nt_modified n)),
         (''parent'', JInt (nt_parent n))]
        @ (if nt_ancestors n = [] then [] else [(''ancestors'', JArr (map JInt (nt_ancestors n)))])
        @ (if nt_deleted n then [(''deleted'', JBool True)] else [])) [])"

definition fits_one_packet :: "(json \<Rightarrow> string) \<Rightarrow> json \<Rightarrow> bool" where
  "fits_one_packet txt item \<longleftrightarrow> length (txt item) < MAX_FEATURE_PACKET_BYTES - PACKET_OVERHEAD"

datatype edit_error = TooLong

definition edited :: "(note_entry \<Rightarrow> note_entry) \<Rightarrow> note_entry \<Rightarrow> note_entry" where
  "edited change before =
     (let n = change before;
          n = (if nt_deleted before \<and> nt_deleted n \<and> \<not> (nt_title n = [] \<and> nt_body n = [])
               then n\<lparr>nt_deleted := False\<rparr> else n)
      in n\<lparr>nt_title := take_chars MAX_NOTE_TITLE_CHARS (nt_title n)\<rparr>)"

definition next_version :: "int \<Rightarrow> shelf \<Rightarrow> string \<Rightarrow> note_entry \<Rightarrow> note_entry \<Rightarrow> note_entry" where
  "next_version now sh i before n =
     (if nt_deleted n then n\<lparr>nt_title := [], nt_body := []\<rparr> else n)
       \<lparr>nt_parent := base_of sh i, nt_ancestors := ancestors_after before (must_keep sh i),
        nt_modified := max now (min I64_MAX (nt_modified before + 1))\<rparr>"

definition edit_from_in_shelf ::
  "(json \<Rightarrow> string) \<Rightarrow> int \<Rightarrow> string \<Rightarrow> int option \<Rightarrow> (note_entry \<Rightarrow> note_entry) \<Rightarrow> shelf
   \<Rightarrow> (edit_error, bool \<times> string option) result \<times> shelf" where
  "edit_from_in_shelf txt now i loaded change sh =
     (case obj_get (sf_notes sh) i of
        None \<Rightarrow> (Inr (False, None), sh)
      | Some before \<Rightarrow>
          (let overtaken = map_option (\<lambda>_. conflicted_copy before)
                 (keep_if (\<lambda>v. v \<noteq> nt_modified before \<and> \<not> nt_deleted before) loaded);
               n = edited change before
           in if MAX_NOTE_BYTES < length (nt_body n) \<or> \<not> fits_one_packet txt (note_to_json n) then (Inl TooLong, sh)
              else if same_content n before then (Inr (False, None), put_note i n sh)
              else
                (let sh = put_note i (next_version now sh i before n) sh;
                     overtaken = keep_if (\<lambda>c. obj_get (sf_notes sh) (nt_id c) = None) overtaken
                 in case overtaken of
                      None \<Rightarrow> (Inr (True, None), sh)
                    | Some c \<Rightarrow>
                        (Inr (True, Some (nt_id c)), put_note (nt_id c) c (put_synced (nt_id c) (nt_modified c) sh)))))"

definition create_in_shelf :: "int \<Rightarrow> string \<Rightarrow> string \<Rightarrow> shelf \<Rightarrow> string option \<times> shelf" where
  "create_in_shelf now uuid b sh =
     (if MAX_NOTES \<le> length (filter (\<lambda>n. \<not> nt_deleted n) (map snd (sf_notes sh))) then (None, sh)
      else (Some uuid, put_note uuid
        \<lparr>nt_id = uuid, nt_title = [], nt_body = b, nt_pinned = False, nt_created = now, nt_modified = now,
         nt_parent = 0, nt_ancestors = [], nt_deleted = False\<rparr> sh))"

datatype snippet_error = TooManySnippets

definition add_in_shelf :: "int \<Rightarrow> string \<Rightarrow> string \<Rightarrow> shelf \<Rightarrow> (snippet_error, string) result \<times> shelf" where
  "add_in_shelf now uuid t sh =
     (let existing = map_option sn_id (find (\<lambda>s. \<not> sn_deleted s \<and> sn_text s = t) (map snd (sf_snippets sh))) in
      if existing = None \<and> MAX_SNIPPETS \<le> length (filter (\<lambda>s. \<not> sn_deleted s) (map snd (sf_snippets sh)))
      then (Inl TooManySnippets, sh)
      else
        (let i = unwrap_or uuid existing
         in (Inr i, sh\<lparr>sf_snippets := obj_insert i
              \<lparr>sn_id = i, sn_text = t, sn_title = [], sn_modified = now, sn_deleted = False\<rparr> (sf_snippets sh)\<rparr>)))"

definition delete_snippet :: "int \<Rightarrow> string \<Rightarrow> shelf \<Rightarrow> bool \<times> shelf" where
  "delete_snippet now i sh =
     (case keep_if (\<lambda>s. \<not> sn_deleted s) (obj_get (sf_snippets sh) i) of
        Some s \<Rightarrow> (True, sh\<lparr>sf_snippets := obj_insert i
          (s\<lparr>sn_deleted := True, sn_text := [], sn_title := [], sn_modified := now\<rparr>) (sf_snippets sh)\<rparr>)
      | None \<Rightarrow> (False, sh))"

subsection \<open>Duplicate copies\<close>

definition is_ascii_digit :: "char \<Rightarrow> bool" where
  "is_ascii_digit c \<longleftrightarrow> 48 \<le> (of_char c :: nat) \<and> (of_char c :: nat) \<le> 57"

definition copy_base :: "string \<Rightarrow> string option" where
  "copy_base i =
     (case rsplit_once (CHR ''~'') i of
        None \<Rightarrow> None
      | Some (base, modified) \<Rightarrow>
          if base \<noteq> [] \<and> modified \<noteq> [] \<and> list_all is_ascii_digit modified then Some base else None)"

definition is_copy :: "note_entry \<Rightarrow> bool" where
  "is_copy n \<longleftrightarrow> copy_base (nt_id n) \<noteq> None \<and> ends_with (nt_title n) COPY_SUFFIX"

function strip_copies :: "string \<Rightarrow> string" where
  "strip_copies title =
     (case strip_suffix COPY_SUFFIX title of Some rest \<Rightarrow> strip_copies (trim_note rest) | None \<Rightarrow> title)"
  by pat_completeness auto
termination
proof (relation "measure length")
  fix title rest
  assume "strip_suffix COPY_SUFFIX title = Some rest"
  then have "length rest < length title" by (rule strip_suffix_length) (simp add: COPY_SUFFIX_def)
  then show "(trim_note rest, title) \<in> measure length"
    using trim_matches_length [of TRIM rest] by (simp add: trim_note_def)
qed simp

declare strip_copies.simps [simp del]

definition content_key :: "note_entry \<Rightarrow> string \<times> string" where
  "content_key n =
     (if is_copy n then (strip_copies (nt_title n), nt_body n)
      else (case trim_note (nt_title n) of [] \<Rightarrow> note_label n | t \<Rightarrow> t, nt_body n))"

definition live_copies :: "shelf \<Rightarrow> note_entry list" where
  "live_copies sh = filter (\<lambda>n. \<not> nt_deleted n \<and> is_copy n) (map snd (sf_notes sh))"

text \<open>The group of \<open>copy\<close>: the live notes with its key, of those as long as some copy.\<close>

definition same_key_group :: "shelf \<Rightarrow> note_entry \<Rightarrow> note_entry list" where
  "same_key_group sh copy =
     filter (\<lambda>n. \<not> nt_deleted n \<and> length (nt_body n) \<in> (\<lambda>c. length (nt_body c)) ` set (live_copies sh)
                 \<and> content_key n = content_key copy) (map snd (sf_notes sh))"

definition survivor_of :: "shelf \<Rightarrow> bool \<Rightarrow> note_entry \<Rightarrow> note_entry option" where
  "survivor_of sh everywhere copy =
     (let base = unwrap_or [] (copy_base (nt_id copy));
          group = same_key_group sh copy;
          by_original = find (\<lambda>n. \<not> is_copy n \<and> nt_id n \<noteq> nt_id copy \<and> (everywhere \<or> nt_id n = base)) group;
          by_sibling = find (\<lambda>n. is_copy n \<and> nt_id n < nt_id copy \<and> (everywhere \<or> copy_base (nt_id n) = Some base)) group
      in (case by_original of Some n \<Rightarrow> Some n | None \<Rightarrow> by_sibling))"

definition duplicate_copies :: "shelf \<Rightarrow> bool \<Rightarrow> (string \<times> string) list" where
  "duplicate_copies sh everywhere =
     List.map_filter (\<lambda>copy. map_option (\<lambda>s. (nt_id copy, nt_id s)) (survivor_of sh everywhere copy)) (live_copies sh)"

text \<open>Following a survivor to what stays; as many steps as there are entries are enough.\<close>

fun follow :: "nat \<Rightarrow> (string \<times> string) list \<Rightarrow> string \<Rightarrow> string" where
  "follow 0 doomed stays = stays"
| "follow (Suc k) doomed stays = (case obj_get doomed stays of Some n \<Rightarrow> follow k doomed n | None \<Rightarrow> stays)"

definition collect_map :: "(string \<times> 'v) list \<Rightarrow> (string \<times> 'v) list" where
  "collect_map kvs = foldl (\<lambda>m (k, v). obj_insert k v m) [] kvs"

definition is_pinned :: "shelf \<Rightarrow> string \<Rightarrow> bool" where
  "is_pinned sh i = (case obj_get (sf_notes sh) i of Some n \<Rightarrow> nt_pinned n | None \<Rightarrow> False)"

definition pins_to_move :: "shelf \<Rightarrow> (string \<times> string) list \<Rightarrow> string list" where
  "pins_to_move sh doomed =
     map fst (collect_map (List.map_filter (\<lambda>(copy, survivor).
       (let stays = follow (length doomed) doomed survivor
        in if is_pinned sh copy \<and> \<not> is_pinned sh stays then Some (stays, ()) else None)) doomed))"

text \<open>The same change to each note: those that changed.\<close>

fun edit_each ::
  "(json \<Rightarrow> string) \<Rightarrow> (string \<Rightarrow> int) \<Rightarrow> (note_entry \<Rightarrow> note_entry) \<Rightarrow> string list \<Rightarrow> shelf \<Rightarrow> string list \<times> shelf" where
  "edit_each txt now change [] sh = ([], sh)"
| "edit_each txt now change (i # is) sh =
     (let (r, sh') = edit_from_in_shelf txt (now i) i None change sh;
          (changed, sh'') = edit_each txt now change is sh'
      in ((case r of Inr (True, _) \<Rightarrow> i # changed | _ \<Rightarrow> changed), sh''))"

definition remove_duplicates_in :: "(json \<Rightarrow> string) \<Rightarrow> (string \<Rightarrow> int) \<Rightarrow> bool \<Rightarrow> shelf \<Rightarrow> string list \<times> shelf" where
  "remove_duplicates_in txt now everywhere sh =
     (let doomed = collect_map (duplicate_copies sh everywhere);
          (pinned, sh') = edit_each txt now (nt_pinned_update (\<lambda>_. True)) (pins_to_move sh doomed) sh;
          (gone, sh'') = edit_each txt now (nt_deleted_update (\<lambda>_. True)) (map fst doomed) sh'
      in (pinned @ gone, sh''))"

subsection \<open>The exchange\<close>

datatype note_kind = Snippets | Notes

fun kind_packet_type :: "note_kind \<Rightarrow> string" where
  "kind_packet_type Snippets = PACKET_TYPE_SNIPPETS"
| "kind_packet_type Notes = PACKET_TYPE_NOTES"

definition kind_from_packet :: "string \<Rightarrow> note_kind option" where
  "kind_from_packet ty =
     (if ty = PACKET_TYPE_SNIPPETS then Some Snippets else if ty = PACKET_TYPE_NOTES then Some Notes else None)"

text \<open>An entry of an index or an acknowledgement: its \<open>id\<close> and \<open>modified\<close>.\<close>

definition index_entry :: "json \<Rightarrow> (string \<times> int) option" where
  "index_entry e =
     (case (Option.bind (json_get e ''id'') as_str, Option.bind (json_get e ''modified'') as_i64) of
        (Some i, Some m) \<Rightarrow> Some (i, m)
      | _ \<Rightarrow> None)"

definition wanted_one :: "shelf \<Rightarrow> note_kind \<Rightarrow> json \<Rightarrow> string option" where
  "wanted_one sh kind e =
     (case index_entry e of
        None \<Rightarrow> None
      | Some (i, m) \<Rightarrow>
          if \<not> valid_id i then None
          else
            (let fetch = (case kind of
                 Snippets \<Rightarrow> (case obj_get (sf_snippets sh) i of None \<Rightarrow> True | Some s \<Rightarrow> sn_modified s < m)
               | Notes \<Rightarrow> (case obj_get (sf_notes sh) i of None \<Rightarrow> True | Some n \<Rightarrow> nt_modified n \<noteq> m))
             in if fetch then Some i else None))"

definition wanted :: "shelf \<Rightarrow> note_kind \<Rightarrow> json list \<Rightarrow> string list" where
  "wanted sh kind index = List.map_filter (wanted_one sh kind) index"

definition is_blank_new :: "note_entry \<Rightarrow> bool" where
  "is_blank_new n \<longleftrightarrow>
     \<not> nt_deleted n \<and> nt_ancestors n = [] \<and> nt_parent n = 0 \<and> trim_note (nt_title n) = [] \<and> trim_note (nt_body n) = []"

definition entry_json :: "string \<Rightarrow> int \<Rightarrow> bool \<Rightarrow> json" where
  "entry_json i m deleted = JObj [(''deleted'', JBool deleted), (''id'', JStr i), (''modified'', JInt m)]"

definition index_entries :: "shelf \<Rightarrow> note_kind \<Rightarrow> json list" where
  "index_entries sh kind =
     (case kind of
        Snippets \<Rightarrow> map (\<lambda>s. entry_json (sn_id s) (sn_modified s) (sn_deleted s)) (map snd (sf_snippets sh))
      | Notes \<Rightarrow> map (\<lambda>n. entry_json (nt_id n) (nt_modified n) (nt_deleted n))
                  (filter (\<lambda>n. \<not> is_blank_new n) (map snd (sf_notes sh))))"

text \<open>A packet of the exchange: \<open>op\<close> and one list.\<close>

definition op_packet :: "int \<Rightarrow> note_kind \<Rightarrow> string \<Rightarrow> string \<Rightarrow> json list \<Rightarrow> network_packet" where
  "op_packet stamp kind op key vs =
     pk_set key (JArr vs) (pk_set ''op'' (JStr op) (packet_new stamp (kind_packet_type kind)))"

text \<open>The loop that cuts the index: the part being filled comes first.\<close>

fun index_parts :: "(json \<Rightarrow> string) \<Rightarrow> json list \<Rightarrow> nat \<Rightarrow> json list \<Rightarrow> json list list" where
  "index_parts txt [] sz part = [part]"
| "index_parts txt (e # es) sz part =
     (let l = length (txt e) + 1 in
      if INDEX_BUDGET < sz + l \<and> part \<noteq> [] then part # index_parts txt es l [e]
      else index_parts txt es (sz + l) (part @ [e]))"

definition index_packets :: "(json \<Rightarrow> string) \<Rightarrow> int \<Rightarrow> shelf \<Rightarrow> note_kind \<Rightarrow> network_packet list" where
  "index_packets txt stamp sh kind =
     map (op_packet stamp kind ''index'' ''items'') (index_parts txt (index_entries sh kind) 0 [])"

fun item_batches :: "(json \<Rightarrow> string) \<Rightarrow> json list \<Rightarrow> nat \<Rightarrow> json list \<Rightarrow> json list list" where
  "item_batches txt [] sz batch = (if batch = [] then [] else [batch])"
| "item_batches txt (v # vs) sz batch =
     (let l = length (txt v) + 1 in
      if MAX_FEATURE_PACKET_BYTES - PACKET_OVERHEAD < l then item_batches txt vs sz batch
      else if MAX_FEATURE_PACKET_BYTES - PACKET_OVERHEAD < sz + l
      then (if batch = [] then [] else [batch]) @ item_batches txt vs l [v]
      else item_batches txt vs (sz + l) (batch @ [v]))"

definition items_packets :: "(json \<Rightarrow> string) \<Rightarrow> int \<Rightarrow> note_kind \<Rightarrow> json list \<Rightarrow> network_packet list" where
  "items_packets txt stamp kind vs = map (op_packet stamp kind ''items'' ''items'') (item_batches txt vs 0 [])"

definition item_values :: "shelf \<Rightarrow> note_kind \<Rightarrow> string list \<Rightarrow> json list" where
  "item_values sh kind ids =
     List.map_filter (\<lambda>i. case kind of
         Snippets \<Rightarrow> map_option snippet_to_json (obj_get (sf_snippets sh) i)
       | Notes \<Rightarrow> map_option note_to_json (obj_get (sf_notes sh) i)) ids"

text \<open>
  The derived readers: an object by its fields, or an array of the fields in their order; a field
  with a default may be missing, but not be of another type.
\<close>

definition fields_of :: "string list \<Rightarrow> json \<Rightarrow> jobject option" where
  "fields_of names v =
     (case v of
        JObj m \<Rightarrow> Some m
      | JArr xs \<Rightarrow> if length xs \<le> length names then Some (zip names xs) else None
      | _ \<Rightarrow> None)"

definition required :: "(json \<Rightarrow> 'a option) \<Rightarrow> jobject \<Rightarrow> string \<Rightarrow> 'a option" where
  "required rd m k = Option.bind (obj_get m k) rd"

definition defaulted :: "(json \<Rightarrow> 'a option) \<Rightarrow> 'a \<Rightarrow> jobject \<Rightarrow> string \<Rightarrow> 'a option" where
  "defaulted rd d m k = (case obj_get m k of None \<Rightarrow> Some d | Some v \<Rightarrow> rd v)"

fun read_all :: "('a \<Rightarrow> 'b option) \<Rightarrow> 'a list \<Rightarrow> 'b list option" where
  "read_all rd [] = Some []"
| "read_all rd (x # xs) =
     (case (rd x, read_all rd xs) of (Some y, Some ys) \<Rightarrow> Some (y # ys) | _ \<Rightarrow> None)"

definition snippet_of_json :: "json \<Rightarrow> snippet option" where
  "snippet_of_json v =
     (case fields_of [''id'', ''text'', ''title'', ''modified'', ''deleted''] v of
        None \<Rightarrow> None
      | Some m \<Rightarrow>
          (case (required as_str m ''id'', required as_str m ''text'', defaulted as_str [] m ''title'',
                 required as_i64 m ''modified'', defaulted as_bool False m ''deleted'') of
             (Some i, Some t, Some ti, Some mo, Some d) \<Rightarrow>
               Some \<lparr>sn_id = i, sn_text = t, sn_title = ti, sn_modified = mo, sn_deleted = d\<rparr>
           | _ \<Rightarrow> None))"

definition note_of_json :: "json \<Rightarrow> note_entry option" where
  "note_of_json v =
     (case fields_of [''id'', ''title'', ''body'', ''pinned'', ''created'', ''modified'', ''parent'', ''ancestors'', ''deleted''] v of
        None \<Rightarrow> None
      | Some m \<Rightarrow>
          (case (required as_str m ''id'', defaulted as_str [] m ''title'', defaulted as_str [] m ''body'',
                 defaulted as_bool False m ''pinned'', required as_i64 m ''created'', required as_i64 m ''modified'',
                 defaulted as_i64 0 m ''parent'',
                 defaulted (\<lambda>a. Option.bind (as_array a) (read_all as_i64)) [] m ''ancestors'',
                 defaulted as_bool False m ''deleted'') of
             (Some i, Some t, Some b, Some p, Some c, Some mo, Some pa, Some a, Some d) \<Rightarrow>
               Some \<lparr>nt_id = i, nt_title = t, nt_body = b, nt_pinned = p, nt_created = c, nt_modified = mo,
                     nt_parent = pa, nt_ancestors = a, nt_deleted = d\<rparr>
           | _ \<Rightarrow> None))"

definition sent_to :: "note_kind \<Rightarrow> string list \<Rightarrow> string \<Rightarrow> shelf \<Rightarrow> shelf" where
  "sent_to kind ids peer sh =
     (if kind \<noteq> Notes \<or> peer = [] then sh
      else fold (\<lambda>i sh. case obj_get (sf_notes sh) i of Some n \<Rightarrow> record_sent i peer (nt_modified n) sh | None \<Rightarrow> sh) ids sh)"

definition packet_list :: "network_packet \<Rightarrow> string \<Rightarrow> json list" where
  "packet_list p k = unwrap_or [] (Option.bind (obj_get (body p) k) as_array)"

fun acknowledge_all :: "string \<Rightarrow> json list \<Rightarrow> shelf \<Rightarrow> bool \<times> shelf" where
  "acknowledge_all peer [] sh = (False, sh)"
| "acknowledge_all peer (e # es) sh =
     (let (a, sh) = (case index_entry e of Some (i, m) \<Rightarrow> acknowledge i m peer sh | None \<Rightarrow> (False, sh));
          (b, sh) = acknowledge_all peer es sh
      in (a \<or> b, sh))"

fun chunks :: "nat \<Rightarrow> 'a list \<Rightarrow> 'a list list" where
  "chunks k [] = []"
| "chunks k (x # xs) = (if k = 0 then [x # xs] else (x # take (k - 1) xs) # chunks k (drop (k - 1) xs))"

text \<open>One item of an \<open>items\<close> packet, with what is to be sent back and what is now held alike.\<close>

record items_state =
  is_shelf :: shelf
  is_changed :: bool
  is_send_back :: "string list"
  is_held :: "(string \<times> int) list"

definition take_snippet :: "json \<Rightarrow> items_state \<Rightarrow> items_state" where
  "take_snippet item s =
     (case snippet_of_json item of
        None \<Rightarrow> s
      | Some x \<Rightarrow>
          (let sh = is_shelf s; i = sn_id x in
           if \<not> valid_snippet x then s
           else if obj_get (sf_snippets sh) i = None \<and> MAX_SNIPPET_ENTRIES \<le> length (sf_snippets sh) then s
           else
             (let older = (case obj_get (sf_snippets sh) i of Some l \<Rightarrow> sn_modified x < sn_modified l | None \<Rightarrow> False);
                  (taken, sh') = merge_snippet x sh
              in if taken then s\<lparr>is_shelf := sh', is_changed := True\<rparr>
                 else if older then s\<lparr>is_shelf := sh', is_send_back := is_send_back s @ [i]\<rparr>
                 else s\<lparr>is_shelf := sh'\<rparr>)))"

definition take_note :: "string \<Rightarrow> json \<Rightarrow> items_state \<Rightarrow> items_state" where
  "take_note peer item s =
     (case note_of_json item of
        None \<Rightarrow> s
      | Some n \<Rightarrow>
          (let sh = is_shelf s; i = nt_id n; m = nt_modified n in
           if \<not> valid_note n then s
           else if MAX_NOTE_ENTRIES \<le> length (sf_notes sh) then s
           else
             (let (r, sh') = merge_note_from n peer sh; s = s\<lparr>is_shelf := sh'\<rparr>
              in case r of
                   KeptOurs \<Rightarrow> s\<lparr>is_send_back := is_send_back s @ [i]\<rparr>
                 | Same \<Rightarrow> s\<lparr>is_held := is_held s @ [(i, m)]\<rparr>
                 | Taken \<Rightarrow> s\<lparr>is_changed := True, is_held := is_held s @ [(i, m)]\<rparr>
                 | Conflict \<Rightarrow> s\<lparr>is_changed := True, is_send_back := is_send_back s @ [i]\<rparr>)))"

definition take_items :: "note_kind \<Rightarrow> string \<Rightarrow> json list \<Rightarrow> shelf \<Rightarrow> items_state" where
  "take_items kind peer items sh =
     fold (case kind of Snippets \<Rightarrow> take_snippet | Notes \<Rightarrow> take_note peer) items
       \<lparr>is_shelf = sh, is_changed = False, is_send_back = [], is_held = []\<rparr>"

definition handle_from ::
  "(json \<Rightarrow> string) \<Rightarrow> int \<Rightarrow> note_kind \<Rightarrow> network_packet \<Rightarrow> string \<Rightarrow> shelf \<Rightarrow> (network_packet list \<times> bool) \<times> shelf" where
  "handle_from txt stamp kind packet peer sh =
     (let op = get_str packet ''op'' in
      if op = Some ''index'' then
        (let index = take MAX_INDEX_ENTRIES (packet_list packet ''items'');
             (changed, sh) = (if kind = Notes then acknowledge_all peer index sh else (False, sh));
             ids = wanted sh kind index
         in ((map (\<lambda>chunk. op_packet stamp kind ''fetch'' ''ids'' (map JStr chunk)) (chunks FETCH_IDS ids), changed), sh))
      else if op = Some ''ack'' \<and> kind = Notes then
        (let (changed, sh) = acknowledge_all peer (take MAX_ITEMS_PER_PACKET (packet_list packet ''items'')) sh
         in (([], changed), sh))
      else if op = Some ''fetch'' then
        (let ids = take FETCH_IDS (List.map_filter as_str (packet_list packet ''ids''));
             sh = sent_to kind ids peer sh
         in ((items_packets txt stamp kind (item_values sh kind ids), False), sh))
      else if op = Some ''items'' then
        (let s = take_items kind peer (take MAX_ITEMS_PER_PACKET (packet_list packet ''items'')) sh;
             sh = sent_to kind (is_send_back s) peer (is_shelf s);
             answers = items_packets txt stamp kind (item_values sh kind (is_send_back s));
             acks = map (\<lambda>chunk. op_packet stamp kind ''ack'' ''items''
                      (map (\<lambda>(i, m). JObj [(''id'', JStr i), (''modified'', JInt m)]) chunk)) (chunks FETCH_IDS (is_held s))
         in ((answers @ acks, is_changed s), sh))
      else (([], False), sh))"

subsection \<open>The store\<close>

definition prune_shelf :: "int \<Rightarrow> shelf \<Rightarrow> shelf" where
  "prune_shelf now sh =
     (let cutoff = now - NOTE_TOMBSTONE_DAYS * 24 * 3600 * 1000;
          notes = filter (\<lambda>(_, n). \<not> nt_deleted n \<or> cutoff < nt_modified n) (sf_notes sh)
      in \<lparr>sf_snippets = filter (\<lambda>(_, s). \<not> sn_deleted s \<or> cutoff < sn_modified s) (sf_snippets sh),
          sf_notes = notes,
          sf_synced = filter (\<lambda>(i, _). obj_get notes i \<noteq> None) (sf_synced sh),
          sf_held = filter (\<lambda>(i, _). obj_get notes i \<noteq> None) (sf_held sh),
          sf_sent = filter (\<lambda>(i, _). obj_get notes i \<noteq> None) (sf_sent sh)\<rparr>)"

definition install_shelf :: "(json \<Rightarrow> string) \<Rightarrow> (string \<Rightarrow> int) \<Rightarrow> int \<Rightarrow> shelf \<Rightarrow> shelf" where
  "install_shelf txt now start disk = snd (remove_duplicates_in txt now False (prune_shelf start disk))"

text \<open>\<open>retry_blocked\<close>, once the file can be read: what was typed meanwhile is merged into it.\<close>

definition retry_merge :: "shelf \<Rightarrow> shelf \<Rightarrow> shelf" where
  "retry_merge typed disk =
     (let disk = fold (\<lambda>(_, s) d. snd (merge_snippet s d)) (sf_snippets typed) disk
      in fold (\<lambda>(_, n) d. snd (merge_note n d)) (sf_notes typed) disk)"

text \<open>A job on the shelf; after a change identical copies are cleared, and their ids sent.\<close>

definition with_shelf ::
  "(json \<Rightarrow> string) \<Rightarrow> (string \<Rightarrow> int) \<Rightarrow> (shelf \<Rightarrow> ('a \<times> bool) \<times> shelf) \<Rightarrow> shelf \<Rightarrow> ('a \<times> string list) \<times> shelf" where
  "with_shelf txt now job sh =
     (let ((r, changed), sh) = job sh in
      if changed then (let (tidied, sh) = remove_duplicates_in txt now False sh in ((r, tidied), sh))
      else ((r, []), sh))"

definition relay_targets :: "string list \<Rightarrow> string \<Rightarrow> string list" where
  "relay_targets ready source = filter (\<lambda>d. d \<noteq> source) ready"

definition mark_relayed :: "string list \<Rightarrow> network_packet \<Rightarrow> shelf \<Rightarrow> shelf" where
  "mark_relayed others packet sh =
     (if packet_type packet \<noteq> PACKET_TYPE_NOTES then sh
      else
        (let items = List.map_filter index_entry (packet_list packet ''items'')
         in fold (\<lambda>device sh. fold (\<lambda>(i, m) sh. record_sent i device m sh) items sh) others sh))"

definition edit_note_from ::
  "(json \<Rightarrow> string) \<Rightarrow> (string \<Rightarrow> int) \<Rightarrow> string \<Rightarrow> int option \<Rightarrow> (note_entry \<Rightarrow> note_entry) \<Rightarrow> shelf
   \<Rightarrow> (edit_error, int option) result \<times> string list \<times> shelf" where
  "edit_note_from txt now i loaded change sh =
     (let job = (\<lambda>sh. let (r, sh) = edit_from_in_shelf txt (now i) i loaded change sh
                      in (((r, map_option nt_modified (obj_get (sf_notes sh) i)),
                           case r of Inr (True, _) \<Rightarrow> True | _ \<Rightarrow> False), sh));
          (((r, modified), tidied), sh) = with_shelf txt now job sh
      in case r of
           Inr (True, copy) \<Rightarrow> (Inr modified, tidied @ i # (case copy of Some c \<Rightarrow> [c] | None \<Rightarrow> []), sh)
         | Inr (False, _) \<Rightarrow> (Inr None, tidied, sh)
         | Inl e \<Rightarrow> (Inl e, tidied, sh))"

subsection \<open>What a merge does to the notes\<close>

lemma shelf_simps [simp]:
  "sf_notes (record_held i p v sh) = sf_notes sh" "sf_notes (record_sent i p v sh) = sf_notes sh"
  "sf_notes (put_synced i v sh) = sf_notes sh" "sf_notes (put_note i n sh) = obj_insert i n (sf_notes sh)"
  "sf_snippets (record_held i p v sh) = sf_snippets sh" "sf_snippets (record_sent i p v sh) = sf_snippets sh"
  "sf_snippets (put_synced i v sh) = sf_snippets sh" "sf_snippets (put_note i n sh) = sf_snippets sh"
  by (simp_all add: record_held_def record_sent_def put_synced_def put_note_def)

lemma conflicted_copy_simps [simp]:
  "nt_id (conflicted_copy n) = nt_id n @ ''~'' @ show_int (nt_modified n)" "nt_modified (conflicted_copy n) = nt_modified n"
  "nt_body (conflicted_copy n) = nt_body n" "nt_deleted (conflicted_copy n) = nt_deleted n"
  "nt_pinned (conflicted_copy n) = nt_pinned n" "nt_ancestors (conflicted_copy n) = nt_ancestors n"
  by (simp_all add: conflicted_copy_def)

lemma keep_if_simps [simp]:
  "keep_if P None = None" "keep_if P (Some x) = (if P x then Some x else None)"
  by (simp_all add: keep_if_def)

text \<open>The note under the id after a merge, and the copy that is made of the one that lost.\<close>

definition siblings :: "note_entry \<Rightarrow> note_entry \<Rightarrow> bool" where
  "siblings a b \<longleftrightarrow> \<not> (nt_modified a = nt_modified b \<and> same_content a b) \<and> \<not> descends a b \<and> \<not> descends b a"

definition resolved :: "note_entry \<Rightarrow> note_entry \<Rightarrow> note_entry" where
  "resolved local incoming =
     (if nt_modified local = nt_modified incoming \<and> same_content local incoming then local
      else if descends incoming local then incoming
      else if descends local incoming then local
      else if incoming_wins local incoming then incoming else local)"

definition copy_made :: "note_entry \<Rightarrow> note_entry \<Rightarrow> note_entry option" where
  "copy_made local incoming =
     (if siblings local incoming \<and> \<not> same_content local incoming \<and> \<not> nt_deleted local \<and> \<not> nt_deleted incoming
      then Some (conflicted_copy (if incoming_wins local incoming then local else incoming)) else None)"

lemma same_content_sym: "same_content a b \<longleftrightarrow> same_content b a"
  by (auto simp: same_content_def)

lemma merge_siblings_notes:
  assumes "obj_get (sf_notes sh) i = Some l" and ids: "nt_id l = i" "nt_id inc = i"
  shows "obj_get (sf_notes (snd (merge_siblings l inc peer sh))) k =
    (if k = i then Some (if incoming_wins l inc then inc else l)
     else if \<not> same_content l inc \<and> \<not> nt_deleted l \<and> \<not> nt_deleted inc
             \<and> k = nt_id (conflicted_copy (if incoming_wins l inc then l else inc)) \<and> obj_get (sf_notes sh) k = None
     then Some (conflicted_copy (if incoming_wins l inc then l else inc)) else obj_get (sf_notes sh) k)"
proof (cases "incoming_wins l inc")
  case True
  then show ?thesis
    using assms by (auto simp: merge_siblings_def Let_def same_content_sym [of inc l])
next
  case False
  then show ?thesis
    using assms by (auto simp: merge_siblings_def Let_def)
qed

lemma merge_notes:
  assumes "obj_get (sf_notes sh) i = Some l" and "nt_id l = i" "nt_id inc = i"
  shows "obj_get (sf_notes (snd (merge_note_from inc peer sh))) k =
    (if k = i then Some (resolved l inc)
     else (case copy_made l inc of
             Some c \<Rightarrow> if k = nt_id c \<and> obj_get (sf_notes sh) k = None then Some c else obj_get (sf_notes sh) k
           | None \<Rightarrow> obj_get (sf_notes sh) k))"
proof (cases "siblings l inc")
  case True
  then have "merge_note_from inc peer sh = merge_siblings l inc peer sh"
    using assms by (auto simp: merge_note_from_def Let_def siblings_def)
  moreover have "resolved l inc = (if incoming_wins l inc then inc else l)"
    using True by (auto simp: resolved_def siblings_def)
  ultimately show ?thesis
    unfolding copy_made_def using True merge_siblings_notes [OF assms, of peer k] by (auto simp del: conflicted_copy_simps)
next
  case False
  then show ?thesis
    using assms unfolding copy_made_def siblings_def merge_note_from_def resolved_def Let_def by auto
qed

lemma merge_notes_new:
  "obj_get (sf_notes sh) (nt_id inc) = None \<Longrightarrow>
   obj_get (sf_notes (snd (merge_note_from inc peer sh))) k = (if k = nt_id inc then Some inc else obj_get (sf_notes sh) k)"
  by (simp add: merge_note_from_def Let_def)

subsection \<open>Both sides agree\<close>

text \<open>A version is later than what it was made from.\<close>

definition dated :: "note_entry \<Rightarrow> bool" where
  "dated n \<longleftrightarrow> nt_parent n < nt_modified n \<and> (\<forall>m \<in> set (nt_ancestors n). m < nt_modified n)"

text \<open>Two versions that the order on siblings does not tell apart.\<close>

definition tied :: "note_entry \<Rightarrow> note_entry \<Rightarrow> bool" where
  "tied a b \<longleftrightarrow> nt_modified a = nt_modified b \<and> nt_body a = nt_body b \<and> nt_deleted a = nt_deleted b \<and> \<not> same_content a b"

lemma dated_not_both: "dated a \<Longrightarrow> dated b \<Longrightarrow> descends a b \<Longrightarrow> \<not> descends b a"
  unfolding dated_def descends_def by fastforce

lemma incoming_wins_flip:
  assumes "\<not> tied a b" and "\<not> (nt_modified a = nt_modified b \<and> same_content a b)"
  shows "incoming_wins a b \<longleftrightarrow> \<not> incoming_wins b a"
proof (cases "nt_deleted a = nt_deleted b")
  case True
  show ?thesis
  proof (cases "same_content a b")
    case True
    then have "same_content b a" "nt_deleted a = nt_deleted b" "nt_modified a \<noteq> nt_modified b"
      using assms(2) by (auto simp: same_content_def)
    then show ?thesis using True by (auto simp: incoming_wins_def)
  next
    case False
    then have "\<not> same_content b a" by (simp add: same_content_sym)
    moreover have "nt_modified a \<noteq> nt_modified b \<or> nt_body a \<noteq> nt_body b"
      using assms(1) False \<open>nt_deleted a = nt_deleted b\<close> by (auto simp: tied_def)
    ultimately show ?thesis using False \<open>nt_deleted a = nt_deleted b\<close> by (auto simp: incoming_wins_def)
  qed
next
  case False
  then show ?thesis by (auto simp: incoming_wins_def)
qed

lemma same_content_refl [simp]: "same_content x x"
  by (simp add: same_content_def)

lemma siblings_sym: "siblings a b \<longleftrightarrow> siblings b a"
  by (auto simp: siblings_def same_content_sym)

text \<open>Both sides choose alike, exactly if the order tells the two versions apart.\<close>

lemma resolved_agree:
  assumes "\<not> (descends a b \<and> descends b a)"
  shows "nt_modified (resolved a b) = nt_modified (resolved b a) \<and> same_content (resolved a b) (resolved b a)
    \<longleftrightarrow> \<not> (siblings a b \<and> tied a b)"
proof (cases "siblings a b")
  case True
  then have differ: "\<not> (nt_modified a = nt_modified b \<and> same_content a b)" by (simp add: siblings_def)
  have res: "resolved a b = (if incoming_wins a b then b else a)" "resolved b a = (if incoming_wins b a then a else b)"
    using True by (auto simp: resolved_def siblings_def same_content_sym)
  show ?thesis
  proof (cases "tied a b")
    case True
    then have "\<not> incoming_wins a b" "\<not> incoming_wins b a" by (auto simp: tied_def incoming_wins_def same_content_def)
    then show ?thesis using True \<open>siblings a b\<close> differ res by simp
  next
    case False
    then show ?thesis using incoming_wins_flip [OF False differ] res by simp
  qed
next
  case False
  then have "resolved a b = resolved b a \<or> (nt_modified a = nt_modified b \<and> same_content a b)"
    using assms by (auto simp: resolved_def siblings_def same_content_sym)
  then show ?thesis using False by (auto simp: resolved_def same_content_sym)
qed

lemma copy_made_agree:
  assumes "\<not> (siblings a b \<and> tied a b)"
  shows "copy_made a b = copy_made b a"
proof (cases "siblings a b")
  case True
  then have "\<not> (nt_modified a = nt_modified b \<and> same_content a b)" by (simp add: siblings_def)
  from incoming_wins_flip [OF _ this] show ?thesis
    using True assms by (auto simp: copy_made_def siblings_sym same_content_sym)
next
  case False
  then show ?thesis by (auto simp: copy_made_def siblings_sym)
qed

text \<open>The notes with a conflicted copy added, where its id is free.\<close>

definition with_copy :: "note_entry option \<Rightarrow> (string \<times> note_entry) list \<Rightarrow> string \<Rightarrow> note_entry option" where
  "with_copy c notes k =
     (case c of
        Some n \<Rightarrow> if k = nt_id n \<and> obj_get notes k = None then Some n else obj_get notes k
      | None \<Rightarrow> obj_get notes k)"

text \<open>
  C7. Two sides that hold different versions of a note, and take each other's, agree exactly unless
  the order on siblings is a tie: then under its id both have a version of the same time that says the same, and
  each side has the same conflicted copy besides, if it has any and its id was free, and otherwise
  the notes it had. In a tie, two siblings of one millisecond with the same body that
  differ in title or pin, each side keeps its own. The two versions must not each claim to
  come from the other; versions later than what they were made from never do.
\<close>

theorem notes_converge:
  assumes "obj_get (sf_notes A) i = Some a" and "obj_get (sf_notes B) i = Some b" and "nt_id a = i" and "nt_id b = i"
    and "\<not> (descends a b \<and> descends b a)"
    and "A' = snd (merge_note_from b phone A)" and "B' = snd (merge_note_from a desk B)"
  shows "\<exists>x y. obj_get (sf_notes A') i = Some x \<and> obj_get (sf_notes B') i = Some y
      \<and> (nt_modified x = nt_modified y \<and> same_content x y \<longleftrightarrow> \<not> (siblings a b \<and> tied a b))
      \<and> (siblings a b \<and> tied a b \<longrightarrow> x = a \<and> y = b)
      \<and> (\<not> (siblings a b \<and> tied a b) \<longrightarrow> (\<exists>c. \<forall>k. k \<noteq> i \<longrightarrow>
            obj_get (sf_notes A') k = with_copy c (sf_notes A) k \<and> obj_get (sf_notes B') k = with_copy c (sf_notes B) k))"
proof -
  have A': "obj_get (sf_notes A') k = (if k = i then Some (resolved a b) else with_copy (copy_made a b) (sf_notes A) k)" for k
    unfolding assms(6) merge_notes [OF assms(1,3,4)] with_copy_def ..
  have B': "obj_get (sf_notes B') k = (if k = i then Some (resolved b a) else with_copy (copy_made b a) (sf_notes B) k)" for k
    unfolding assms(7) merge_notes [OF assms(2,4,3)] with_copy_def ..
  have tie: "resolved a b = a \<and> resolved b a = b" if "siblings a b \<and> tied a b"
    using that by (auto simp: resolved_def siblings_def tied_def incoming_wins_def same_content_def)
  show ?thesis using resolved_agree [OF assms(5)] copy_made_agree [of a b] tie unfolding A' B' by auto
qed

definition demo_note :: "string \<Rightarrow> string \<Rightarrow> int \<Rightarrow> note_entry" where
  "demo_note t b m = \<lparr>nt_id = ''n'', nt_title = t, nt_body = b, nt_pinned = False, nt_created = 1, nt_modified = m,
     nt_parent = 1, nt_ancestors = [1], nt_deleted = False\<rparr>"

definition demo_shelf :: "note_entry \<Rightarrow> shelf" where
  "demo_shelf n = \<lparr>sf_snippets = [], sf_notes = [(nt_id n, n)], sf_synced = [], sf_held = [], sf_sent = []\<rparr>"

theorem notes_converge_witness:
  "\<exists>x y. obj_get (sf_notes (snd (merge_note_from (demo_note [] ''I'' 5) ''p'' (demo_shelf (demo_note [] ''L'' 5))))) ''n'' = Some x
     \<and> obj_get (sf_notes (snd (merge_note_from (demo_note [] ''L'' 5) ''d'' (demo_shelf (demo_note [] ''I'' 5))))) ''n'' = Some y
     \<and> same_content x y"
  using notes_converge [of "demo_shelf (demo_note [] ''L'' 5)" "''n''" "demo_note [] ''L'' 5" "demo_shelf (demo_note [] ''I'' 5)"
      "demo_note [] ''I'' 5" "snd (merge_note_from (demo_note [] ''I'' 5) ''p'' (demo_shelf (demo_note [] ''L'' 5)))" "''p''"
      "snd (merge_note_from (demo_note [] ''L'' 5) ''d'' (demo_shelf (demo_note [] ''I'' 5)))" "''d''"]
  by (fastforce simp: demo_shelf_def demo_note_def obj_get_def descends_def tied_def same_content_def)

text \<open>
  The exception is real: two such versions make each side keep its own under the id, and from then
  on each answers the other's version by sending its own back.
\<close>

lemma notes_tie_diverges:
  fixes a b
  defines "a \<equiv> demo_note ''A'' ''x'' 5" and "b \<equiv> demo_note ''B'' ''x'' 5"
  defines "A \<equiv> snd (merge_note_from b ''p'' (demo_shelf a))" and "B \<equiv> snd (merge_note_from a ''d'' (demo_shelf b))"
  shows "obj_get (sf_notes A) ''n'' = Some a \<and> obj_get (sf_notes B) ''n'' = Some b
    \<and> merge_note_from b ''p'' A = (KeptOurs, A) \<and> merge_note_from a ''d'' B = (KeptOurs, B)"
proof -
  have sib: "siblings a b" "siblings b a" "\<not> incoming_wins a b" "\<not> incoming_wins b a" and ids: "nt_id a = ''n''" "nt_id b = ''n''"
    and neq: "\<not> same_content a b" "\<not> same_content b a" "\<not> nt_deleted a" "\<not> nt_deleted b"
    by (simp_all add: a_def b_def demo_note_def siblings_def same_content_def descends_def incoming_wins_def)
  have A: "obj_get (sf_notes A) ''n'' = Some a" "obj_get (sf_notes A) (nt_id (conflicted_copy b)) \<noteq> None"
    unfolding A_def using merge_notes [of "demo_shelf a" "''n''" a b "''p''"] ids sib neq
    by (simp_all add: demo_shelf_def obj_get_def resolved_def siblings_def copy_made_def)
  have B: "obj_get (sf_notes B) ''n'' = Some b" "obj_get (sf_notes B) (nt_id (conflicted_copy a)) \<noteq> None"
    unfolding B_def using merge_notes [of "demo_shelf b" "''n''" b a "''d''"] ids sib neq
    by (simp_all add: demo_shelf_def obj_get_def resolved_def siblings_def copy_made_def)
  show ?thesis
    using A B sib neq ids by (auto simp: merge_note_from_def merge_siblings_def siblings_def Let_def)
qed

subsection \<open>No text is lost by a merge\<close>

lemma obj_insert_set: "(k', v') \<in> set (obj_insert k v m) \<Longrightarrow> (k', v') = (k, v) \<or> (k', v') \<in> set m"
  by (induction k v m rule: obj_insert.induct) (auto simp: obj_insert.simps split: if_splits)

text \<open>Every note is kept under its own id.\<close>

definition keyed :: "shelf \<Rightarrow> bool" where
  "keyed sh \<longleftrightarrow> obj_sorted (sf_notes sh) \<and> (\<forall>(k, n) \<in> set (sf_notes sh). nt_id n = k)"

lemma keyed_get: "keyed sh \<Longrightarrow> obj_get (sf_notes sh) k = Some n \<Longrightarrow> nt_id n = k"
  by (auto simp: keyed_def obj_get_def dest: map_of_SomeD)

lemma keyed_put: "keyed sh \<Longrightarrow> nt_id n = i \<Longrightarrow> sf_notes sh' = obj_insert i n (sf_notes sh) \<Longrightarrow> keyed sh'"
  unfolding keyed_def by (auto intro: obj_sorted_insert dest!: obj_insert_set)

text \<open>
  C8. A merge loses no text, where the id of a conflicted copy is free or holds that text already: a live
  note that was on the shelf, and a live note that arrives, is afterwards under its id with the same
  content, or under it is a version made from it, or its text is kept in the conflicted copy. Every
  other note is untouched.
\<close>

theorem merge_keeps_text:
  assumes "keyed sh" and "sh' = snd (merge_note_from incoming peer sh)"
    and "n = incoming \<or> obj_get (sf_notes sh) (nt_id n) = Some n" and "\<not> nt_deleted n"
    and "\<And>z. obj_get (sf_notes sh) (nt_id (conflicted_copy n)) = Some z \<Longrightarrow> \<not> nt_deleted z \<and> nt_body z = nt_body n"
  shows "((\<exists>x. obj_get (sf_notes sh') (nt_id n) = Some x \<and> (same_content x n \<or> descends x n))
      \<or> (\<exists>y. obj_get (sf_notes sh') (nt_id (conflicted_copy n)) = Some y \<and> \<not> nt_deleted y \<and> nt_body y = nt_body n
           \<and> (y = conflicted_copy n \<or> obj_get (sf_notes sh) (nt_id (conflicted_copy n)) = Some y)))
    \<and> (\<forall>k y. k \<noteq> nt_id incoming \<longrightarrow> obj_get (sf_notes sh) k = Some y \<longrightarrow> obj_get (sf_notes sh') k = Some y)"
proof (cases "obj_get (sf_notes sh) (nt_id incoming)")
  case None
  then show ?thesis
    using assms(3) unfolding assms(2) merge_notes_new [OF None] by auto
next
  case (Some l)
  then have l: "nt_id l = nt_id incoming" using keyed_get [OF assms(1)] by blast
  note after = merge_notes [OF Some l refl, of peer, folded assms(2)]
  have other: "\<forall>k y. k \<noteq> nt_id incoming \<longrightarrow> obj_get (sf_notes sh) k = Some y \<longrightarrow> obj_get (sf_notes sh') k = Some y"
    unfolding after by (auto split: option.split)
  show ?thesis
  proof (cases "nt_id n = nt_id incoming")
    case True
    then have n: "n = incoming \<or> n = l" using assms(3) Some by auto
    have x: "obj_get (sf_notes sh') (nt_id n) = Some (resolved l incoming)" unfolding after using True by simp
    have "same_content (resolved l incoming) n \<or> descends (resolved l incoming) n \<or> copy_made l incoming = Some (conflicted_copy n)"
      using n assms(4) by (auto simp: resolved_def copy_made_def siblings_def same_content_def incoming_wins_def split: if_splits)
    note kept = this
    have free: "nt_id (conflicted_copy n) \<noteq> nt_id incoming" using True by simp
    show ?thesis
    proof (cases "obj_get (sf_notes sh) (nt_id (conflicted_copy n))")
      case None
      then show ?thesis
        using x other after [of "nt_id (conflicted_copy n)"] assms(4) free kept
        by (auto simp del: conflicted_copy_simps(1))
    next
      case (Some z)
      then have "obj_get (sf_notes sh') (nt_id (conflicted_copy n)) = Some z" using other free by blast
      then show ?thesis using Some assms(5) [OF Some] other by blast
    qed
  next
    case False
    then have "obj_get (sf_notes sh) (nt_id n) = Some n" using assms(3) by blast
    then have "obj_get (sf_notes sh') (nt_id n) = Some n" using other False by blast
    then show ?thesis using other by auto
  qed
qed

theorem merge_keeps_text_witness:
  "obj_get (sf_notes (snd (merge_note_from (demo_note [] ''I'' 9) ''p'' (demo_shelf (demo_note [] ''L'' 5))))) ''n~5''
     = Some (conflicted_copy (demo_note [] ''L'' 5))"
proof -
  let ?l = "demo_note [] ''L'' 5" and ?i = "demo_note [] ''I'' 9"
  have five: "show_int 5 = ''5''" by code_simp
  have "resolved ?l ?i = ?i" by (simp add: resolved_def demo_note_def same_content_def descends_def incoming_wins_def)
  then have at_id: "obj_get (sf_notes (snd (merge_note_from ?i ''p'' (demo_shelf ?l)))) ''n'' = Some ?i"
    using merge_notes [of "demo_shelf ?l" "''n''" ?l ?i "''p''" "''n''"] by (simp add: demo_shelf_def obj_get_def demo_note_def)
  show ?thesis
    using merge_keeps_text [of "demo_shelf ?l" "snd (merge_note_from ?i ''p'' (demo_shelf ?l))" ?i "''p''" ?l] at_id
    by (auto simp: keyed_def obj_sorted_def demo_shelf_def demo_note_def obj_get_def same_content_def descends_def five)
qed

text \<open>
  The condition on the copy's id is needed. Two texts of the same millisecond have the same copy id;
  once the copy of one is there, a third version that replaces the other leaves it nowhere.
\<close>

lemma copy_id_taken_loses_text:
  fixes x y z
  defines "x \<equiv> demo_note [] ''X'' 5" and "y \<equiv> demo_note [] ''Y'' 5" and "z \<equiv> demo_note [] ''Z'' 9"
  defines "sh \<equiv> snd (merge_note_from z ''q'' (snd (merge_note_from x ''p'' (demo_shelf y))))"
  shows "obj_get (sf_notes (snd (merge_note_from x ''p'' (demo_shelf y)))) ''n'' = Some y
    \<and> (\<forall>k n. obj_get (sf_notes sh) k = Some n \<longrightarrow> nt_body n \<noteq> ''Y'')"
proof -
  have five: "show_int 5 = ''5''" by code_simp
  have "\<not> (x = y)" and facts: "siblings y x" "\<not> incoming_wins y x" "siblings y z" "incoming_wins y z" "\<not> same_content y x"
    "\<not> same_content y z" "\<not> nt_deleted x" "\<not> nt_deleted y" "\<not> nt_deleted z" and ids: "nt_id x = ''n''" "nt_id y = ''n''" "nt_id z = ''n''"
    by (simp_all add: x_def y_def z_def demo_note_def siblings_def same_content_def descends_def incoming_wins_def less_char_def)
  define sh1 where "sh1 = snd (merge_note_from x ''p'' (demo_shelf y))"
  have get1: "obj_get (sf_notes sh1) k = (if k = ''n'' then Some y else if k = ''n~5'' then Some (conflicted_copy x) else None)" for k
    unfolding sh1_def using merge_notes [of "demo_shelf y" "''n''" y x "''p''" k] ids facts
    by (simp add: demo_shelf_def obj_get_def resolved_def siblings_def copy_made_def five x_def demo_note_def)
  have "obj_get (sf_notes sh) k = (if k = ''n'' then Some z else if k = ''n~5'' then Some (conflicted_copy x) else None)" for k
    unfolding sh_def sh1_def [symmetric] using merge_notes [of sh1 "''n''" y z "''q''" k] ids facts get1
    by (simp add: resolved_def siblings_def copy_made_def five y_def demo_note_def)
  then show ?thesis using get1 unfolding sh1_def by (auto simp: x_def z_def demo_note_def split: if_splits)
qed

subsection \<open>The lineage of an edit\<close>

definition chain_of :: "note_entry \<Rightarrow> int list" where
  "chain_of n = nt_modified n # nt_ancestors n"

text \<open>At most three phones are remembered for a note.\<close>

definition few_peers :: "marks \<Rightarrow> bool" where
  "few_peers marks \<longleftrightarrow> (\<forall>(_, peers) \<in> set marks. length peers \<le> MAX_PEERS_PER_NOTE)"

lemma trim_peers_short: "length (trim_peers ps) \<le> MAX_PEERS_PER_NOTE"
proof (induction ps rule: trim_peers.induct)
  case (1 ps)
  show ?case
  proof (cases "MAX_PEERS_PER_NOTE < length ps")
    case True
    then obtain p v where p: "oldest_peer ps = Some (p, v)" by (cases "oldest_peer ps") (auto elim: oldest_peer.elims split: option.splits if_splits)
    then show ?thesis using 1 [OF True p refl] True by (simp add: trim_peers.simps [of ps])
  next
    case False
    then show ?thesis by (simp add: trim_peers.simps [of ps])
  qed
qed

lemma record_peer_few: "few_peers marks \<Longrightarrow> few_peers (record_peer marks i peer v)"
  unfolding few_peers_def record_peer_def using trim_peers_short by (auto dest!: obj_insert_set)

lemma few_peers_get: "few_peers marks \<Longrightarrow> length (unwrap_or [] (obj_get marks i)) \<le> MAX_PEERS_PER_NOTE"
  by (cases "obj_get marks i") (auto simp: unwrap_or_def few_peers_def obj_get_def dest: map_of_SomeD)

lemma descending_distinct: "sorted_wrt (>) (xs :: int list) \<Longrightarrow> distinct xs"
  by (induction xs) auto

lemma lineage_distinct: "sorted_wrt (>) (chain_of n) \<Longrightarrow> distinct (chain_of n)"
  using descending_distinct .

lemma must_keep_few:
  assumes "few_peers (sf_held sh)" and "few_peers (sf_sent sh)"
  shows "length (must_keep sh i) \<le> 2 * MAX_PEERS_PER_NOTE"
  using few_peers_get [OF assms(1), of i] few_peers_get [OF assms(2), of i] by (simp add: must_keep_def)

lemma ancestors_after_keeps:
  assumes "distinct (chain_of before)" and "length keep \<le> MAX_ANCESTORS" and "v \<in> set keep" and "v \<in> set (chain_of before)"
  shows "v \<in> set (ancestors_after before keep)"
proof (cases "length (chain_of before) \<le> MAX_ANCESTORS")
  case True
  then show ?thesis using assms(4) by (simp add: ancestors_after_def chain_of_def)
next
  case False
  define kept where "kept = filter (\<lambda>m. m \<in> set keep) (chain_of before)"
  have "length kept = card (set kept)" using assms(1) unfolding kept_def by (metis distinct_card distinct_filter)
  also have "\<dots> \<le> card (set keep)" by (rule card_mono) (auto simp: kept_def)
  also have "\<dots> \<le> MAX_ANCESTORS" using assms(2) card_length [of keep] by simp
  finally have "take MAX_ANCESTORS kept = kept" by simp
  moreover have "v \<in> set kept" using assms(3,4) by (simp add: kept_def)
  ultimately show ?thesis
    using False by (simp add: ancestors_after_def chain_of_def [symmetric] kept_def Let_def)
qed

lemma keep_if_eq: "keep_if P v = Some x \<longleftrightarrow> v = Some x \<and> P x"
  by (cases v) auto

text \<open>What an edit that is saved does: the new version under the id, and the version typed over beside it.\<close>

lemma edit_saved:
  assumes "edit_from_in_shelf txt now i loaded change sh = (Inr (True, copy), sh')"
  obtains before where "obj_get (sf_notes sh) i = Some before"
    "obj_get (sf_notes sh') i = Some (next_version now sh i before (edited change before))"
    "\<not> same_content (edited change before) before"
    "loaded \<noteq> None \<Longrightarrow> loaded \<noteq> Some (nt_modified before) \<Longrightarrow> \<not> nt_deleted before \<Longrightarrow>
      obj_get (sf_notes sh) (nt_id (conflicted_copy before)) \<noteq> None \<or> nt_id (conflicted_copy before) = i
      \<or> obj_get (sf_notes sh') (nt_id (conflicted_copy before)) = Some (conflicted_copy before)"
proof -
  obtain before where b: "obj_get (sf_notes sh) i = Some before"
    using assms by (cases "obj_get (sf_notes sh) i") (auto simp: edit_from_in_shelf_def)
  define sh1 where "sh1 = put_note i (next_version now sh i before (edited change before)) sh"
  define over where "over = keep_if (\<lambda>c. obj_get (sf_notes sh1) (nt_id c) = None)
    (map_option (\<lambda>_. conflicted_copy before) (keep_if (\<lambda>v. v \<noteq> nt_modified before \<and> \<not> nt_deleted before) loaded))"
  have eq: "edit_from_in_shelf txt now i loaded change sh =
      (if MAX_NOTE_BYTES < length (nt_body (edited change before)) \<or> \<not> fits_one_packet txt (note_to_json (edited change before))
       then (Inl TooLong, sh)
       else if same_content (edited change before) before then (Inr (False, None), put_note i (edited change before) sh)
       else (case over of None \<Rightarrow> (Inr (True, None), sh1)
             | Some c \<Rightarrow> (Inr (True, Some (nt_id c)), put_note (nt_id c) c (put_synced (nt_id c) (nt_modified c) sh1))))"
    by (simp only: edit_from_in_shelf_def b Let_def over_def sh1_def option.case)
  have new: "\<not> same_content (edited change before) before"
    and sh': "sh' = (case over of None \<Rightarrow> sh1 | Some c \<Rightarrow> put_note (nt_id c) c (put_synced (nt_id c) (nt_modified c) sh1))"
    using assms unfolding eq by (auto split: if_splits option.splits)
  have get: "obj_get (sf_notes sh') i = Some (next_version now sh i before (edited change before))"
    unfolding sh' by (auto simp: over_def keep_if_eq sh1_def split: option.split if_splits)
  have kept: "obj_get (sf_notes sh) (nt_id (conflicted_copy before)) \<noteq> None \<or> nt_id (conflicted_copy before) = i
      \<or> obj_get (sf_notes sh') (nt_id (conflicted_copy before)) = Some (conflicted_copy before)"
    if l: "loaded \<noteq> None" "loaded \<noteq> Some (nt_modified before)" "\<not> nt_deleted before"
  proof -
    have "over = (if nt_id (conflicted_copy before) = i \<or> obj_get (sf_notes sh) (nt_id (conflicted_copy before)) \<noteq> None
        then None else Some (conflicted_copy before))"
      using l by (auto simp: over_def sh1_def simp del: conflicted_copy_simps)
    then show ?thesis unfolding sh' by (auto simp del: conflicted_copy_simps)
  qed
  show ?thesis by (rule that [OF b get new kept])
qed

lemma next_version_simps [simp]:
  "nt_ancestors (next_version now sh i before n) = ancestors_after before (must_keep sh i)"
  "nt_parent (next_version now sh i before n) = base_of sh i"
  "nt_modified (next_version now sh i before n) = max now (min I64_MAX (nt_modified before + 1))"
  "nt_id (next_version now sh i before n) = nt_id n" "nt_pinned (next_version now sh i before n) = nt_pinned n"
  "nt_deleted (next_version now sh i before n) = nt_deleted n"
  by (simp_all add: next_version_def)

subsection \<open>Removing duplicates loses no text\<close>

definition titles_ok :: "shelf \<Rightarrow> bool" where
  "titles_ok sh \<longleftrightarrow> (\<forall>(_, n) \<in> set (sf_notes sh). count_chars (nt_title n) \<le> MAX_NOTE_TITLE_CHARS)"

text \<open>Every note would go in a packet if it were pinned.\<close>

definition sendable :: "(json \<Rightarrow> string) \<Rightarrow> shelf \<Rightarrow> bool" where
  "sendable txt sh \<longleftrightarrow> (\<forall>(_, n) \<in> set (sf_notes sh).
     length (nt_body n) \<le> MAX_NOTE_BYTES \<and> fits_one_packet txt (note_to_json (n\<lparr>nt_pinned := True\<rparr>)))"

definition says_same :: "note_entry \<Rightarrow> note_entry \<Rightarrow> bool" where
  "says_same a b \<longleftrightarrow> nt_id a = nt_id b \<and> nt_title a = nt_title b \<and> nt_body a = nt_body b"

lemma content_key_cong: "says_same a b \<Longrightarrow> content_key a = content_key b"
proof -
  assume same: "says_same a b"
  then have "note_label a = note_label b" by (simp add: says_same_def note_label_def)
  then show "content_key a = content_key b" using same by (simp add: says_same_def content_key_def is_copy_def split: list.split)
qed

lemma edit_without_loaded:
  assumes "obj_get (sf_notes sh) i = Some before"
  obtains n where "\<And>k. obj_get (sf_notes (snd (edit_from_in_shelf txt now i None change sh))) k = (if k = i then Some n else obj_get (sf_notes sh) k)"
    "n = before \<and> (MAX_NOTE_BYTES < length (nt_body (edited change before)) \<or> \<not> fits_one_packet txt (note_to_json (edited change before)))
     \<or> n = edited change before \<or> n = next_version now sh i before (edited change before)"
proof -
  consider "MAX_NOTE_BYTES < length (nt_body (edited change before)) \<or> \<not> fits_one_packet txt (note_to_json (edited change before))"
    | "\<not> (MAX_NOTE_BYTES < length (nt_body (edited change before)) \<or> \<not> fits_one_packet txt (note_to_json (edited change before)))"
      "same_content (edited change before) before"
    | "\<not> (MAX_NOTE_BYTES < length (nt_body (edited change before)) \<or> \<not> fits_one_packet txt (note_to_json (edited change before)))"
      "\<not> same_content (edited change before) before" by blast
  then show thesis
  proof cases
    case 1
    then show thesis using assms by (intro that [of before]) (auto simp: edit_from_in_shelf_def Let_def)
  next
    case 2
    then show thesis using assms by (intro that [of "edited change before"]) (auto simp: edit_from_in_shelf_def Let_def)
  next
    case 3
    then show thesis
      using assms by (intro that [of "next_version now sh i before (edited change before)"]) (auto simp: edit_from_in_shelf_def Let_def)
  qed
qed

lemma edit_missing: "obj_get (sf_notes sh) i = None \<Longrightarrow> snd (edit_from_in_shelf txt now i loaded change sh) = sh"
  by (simp add: edit_from_in_shelf_def)

lemma edit_frame:
  "k \<noteq> i \<Longrightarrow> obj_get (sf_notes (snd (edit_from_in_shelf txt now i None change sh))) k = obj_get (sf_notes sh) k"
  by (cases "obj_get (sf_notes sh) i") (metis edit_missing, metis edit_without_loaded)

lemma snd_edit_each [simp]:
  "snd (edit_each txt now change (i # is) sh) = snd (edit_each txt now change is (snd (edit_from_in_shelf txt (now i) i None change sh)))"
  by (simp add: Let_def case_prod_unfold)

lemma edit_each_frame:
  "k \<notin> set is \<Longrightarrow> obj_get (sf_notes (snd (edit_each txt now change is sh))) k = obj_get (sf_notes sh) k"
proof (induction "is" arbitrary: sh)
  case (Cons i "is")
  then show ?case unfolding snd_edit_each by (simp add: edit_frame)
qed simp

lemma pin_edited:
  assumes "count_chars (nt_title n) \<le> MAX_NOTE_TITLE_CHARS" and "\<not> nt_deleted n"
  shows "edited (nt_pinned_update (\<lambda>_. True)) n = n\<lparr>nt_pinned := True\<rparr>"
  using assms by (simp add: edited_def Let_def take_chars_le)

lemma edit_pin:
  assumes "obj_get (sf_notes sh) i = Some n" and "count_chars (nt_title n) \<le> MAX_NOTE_TITLE_CHARS" and "\<not> nt_deleted n"
  shows "\<exists>n'. obj_get (sf_notes (snd (edit_from_in_shelf txt now i None (nt_pinned_update (\<lambda>_. True)) sh))) i = Some n'
    \<and> says_same n' n \<and> \<not> nt_deleted n' \<and> (nt_pinned n \<longrightarrow> nt_pinned n')
    \<and> (length (nt_body n) \<le> MAX_NOTE_BYTES \<longrightarrow> fits_one_packet txt (note_to_json (n\<lparr>nt_pinned := True\<rparr>)) \<longrightarrow> nt_pinned n')"
proof -
  obtain n' where all: "\<And>k. obj_get (sf_notes (snd (edit_from_in_shelf txt now i None (nt_pinned_update (\<lambda>_. True)) sh))) k
      = (if k = i then Some n' else obj_get (sf_notes sh) k)"
    and n': "n' = n \<and> (MAX_NOTE_BYTES < length (nt_body n) \<or> \<not> fits_one_packet txt (note_to_json (n\<lparr>nt_pinned := True\<rparr>)))
     \<or> n' = n\<lparr>nt_pinned := True\<rparr> \<or> n' = next_version now sh i n (n\<lparr>nt_pinned := True\<rparr>)"
    by (rule edit_without_loaded [OF assms(1), of "txt" now "nt_pinned_update (\<lambda>_. True)", unfolded pin_edited [OF assms(2,3)]])
      simp
  from n' have "says_same n' n \<and> \<not> nt_deleted n' \<and> (nt_pinned n \<longrightarrow> nt_pinned n')
    \<and> (length (nt_body n) \<le> MAX_NOTE_BYTES \<longrightarrow> fits_one_packet txt (note_to_json (n\<lparr>nt_pinned := True\<rparr>)) \<longrightarrow> nt_pinned n')"
  proof (elim disjE)
    assume "n' = next_version now sh i n (n\<lparr>nt_pinned := True\<rparr>)"
    then show ?thesis using assms(3) by (simp add: says_same_def next_version_def)
  qed (use assms(3) in \<open>auto simp: says_same_def\<close>)
  then show ?thesis using all [of i] by simp
qed

lemma edit_each_pin:
  assumes "obj_get (sf_notes sh) k = Some n" and "count_chars (nt_title n) \<le> MAX_NOTE_TITLE_CHARS" and "\<not> nt_deleted n"
    and "distinct is"
  shows "\<exists>n'. obj_get (sf_notes (snd (edit_each txt now (nt_pinned_update (\<lambda>_. True)) is sh))) k = Some n'
    \<and> says_same n' n \<and> \<not> nt_deleted n' \<and> (nt_pinned n \<longrightarrow> nt_pinned n')
    \<and> (k \<in> set is \<longrightarrow> length (nt_body n) \<le> MAX_NOTE_BYTES \<longrightarrow> fits_one_packet txt (note_to_json (n\<lparr>nt_pinned := True\<rparr>)) \<longrightarrow> nt_pinned n')"
  using assms
proof (induction "is" arbitrary: sh)
  case Nil
  then show ?case by (simp add: says_same_def)
next
  case (Cons i "is")
  let ?sh' = "snd (edit_from_in_shelf txt (now i) i None (nt_pinned_update (\<lambda>_. True)) sh)"
  show ?case
  proof (cases "k = i")
    case True
    then have "obj_get (sf_notes (snd (edit_each txt now (nt_pinned_update (\<lambda>_. True)) is ?sh'))) k = obj_get (sf_notes ?sh') k"
      using Cons.prems(4) by (intro edit_each_frame) simp
    then show ?thesis using edit_pin [of sh k n "txt" "now i"] Cons.prems(1-3) True unfolding snd_edit_each by auto
  next
    case False
    then have "obj_get (sf_notes ?sh') k = Some n" using Cons.prems(1) by (simp add: edit_frame)
    from Cons.IH [OF this Cons.prems(2,3)] Cons.prems(4) False show ?thesis unfolding snd_edit_each by simp
  qed
qed

subsubsection \<open>What stays\<close>

lemma collect_map_snoc: "collect_map (kvs @ [(k, v)]) = obj_insert k v (collect_map kvs)"
  by (simp add: collect_map_def)

lemma collect_map_keys: "fst ` set (collect_map kvs) = fst ` set kvs"
proof (induction kvs rule: rev_induct)
  case (snoc kv kvs)
  obtain k v where "kv = (k, v)" by fastforce
  then show ?case using snoc by (simp add: collect_map_snoc set_keys_obj_insert)
qed (simp add: collect_map_def)

lemma collect_map_sorted: "obj_sorted (collect_map kvs)"
proof (induction kvs rule: rev_induct)
  case Nil
  then show ?case by (simp add: collect_map_def obj_sorted_def)
next
  case (snoc kv kvs)
  then show ?case by (cases kv) (simp add: collect_map_snoc obj_sorted_insert)
qed

lemma collect_map_in: "(k, v) \<in> set (collect_map kvs) \<Longrightarrow> (k, v) \<in> set kvs"
proof (induction kvs rule: rev_induct)
  case (snoc kv kvs)
  then show ?case by (cases kv) (auto simp: collect_map_snoc dest!: obj_insert_set)
qed (simp add: collect_map_def)

lemma obj_get_in: "obj_get m k = Some v \<Longrightarrow> (k, v) \<in> set m"
  by (simp add: obj_get_def map_of_SomeD)

lemma obj_get_None: "obj_get m k = None \<longleftrightarrow> k \<notin> fst ` set m"
  by (simp add: obj_get_def map_of_eq_None_iff)

lemma keyed_mem: "keyed sh \<Longrightarrow> n \<in> snd ` set (sf_notes sh) \<Longrightarrow> obj_get (sf_notes sh) (nt_id n) = Some n"
  unfolding keyed_def obj_sorted_def obj_get_def by (auto simp: strict_sorted_iff)

text \<open>A copy on the list has a live note that says the same; if that goes too it is an earlier copy.\<close>

lemma doomed_entry:
  assumes "keyed sh" and "obj_get (collect_map (duplicate_copies sh e)) k = Some s"
  shows "\<exists>c sv. obj_get (sf_notes sh) k = Some c \<and> is_copy c \<and> \<not> nt_deleted c \<and> obj_get (sf_notes sh) s = Some sv \<and> \<not> nt_deleted sv
    \<and> content_key sv = content_key c \<and> (is_copy sv \<longrightarrow> s < k)"
proof -
  have "(k, s) \<in> set (duplicate_copies sh e)" using obj_get_in [OF assms(2)] by (rule collect_map_in)
  then obtain c sv where c: "c \<in> set (live_copies sh)" "k = nt_id c" "s = nt_id sv" "survivor_of sh e c = Some sv"
    by (auto simp: duplicate_copies_def map_filter_def)
  have "sv \<in> set (same_key_group sh c) \<and> (is_copy sv \<longrightarrow> nt_id sv < nt_id c)"
    using c(4) by (auto simp: survivor_of_def Let_def find_Some_iff split: option.splits)
  then show ?thesis
    using c(1-3) keyed_mem [OF assms(1)] by (auto simp: same_key_group_def live_copies_def)
qed

lemma follow_stays: "obj_get doomed s = None \<Longrightarrow> follow n doomed s = s"
  by (cases n) simp_all

lemma follow_ends:
  assumes "keyed sh" and doomed: "doomed = collect_map (duplicate_copies sh e)"
    and "obj_get (sf_notes sh) s = Some x" and "\<not> nt_deleted x"
    and "card {d \<in> fst ` set doomed. d \<le> s} \<le> n"
  shows "obj_get doomed (follow n doomed s) = None
    \<and> (\<exists>y. obj_get (sf_notes sh) (follow n doomed s) = Some y \<and> \<not> nt_deleted y \<and> content_key y = content_key x)"
  using assms(3-5)
proof (induction n arbitrary: s x)
  case 0
  then have "{d \<in> fst ` set doomed. d \<le> s} = {}" by simp
  then have "obj_get doomed s = None" by (auto simp: obj_get_None)
  then show ?case using 0 by simp
next
  case (Suc n)
  show ?case
  proof (cases "obj_get doomed s")
    case None
    then show ?thesis using Suc by simp
  next
    case (Some s')
    obtain sv where sv: "obj_get (sf_notes sh) s' = Some sv" "\<not> nt_deleted sv" "content_key sv = content_key x" "is_copy sv \<longrightarrow> s' < s"
      using doomed_entry [OF assms(1) Some [unfolded doomed]] Suc.prems(1) by auto
    show ?thesis
    proof (cases "obj_get doomed s'")
      case None
      then show ?thesis using Some sv by (simp add: follow_stays)
    next
      case (Some s'')
      then have "s' < s" using sv doomed_entry [OF assms(1), of e s' s''] doomed by auto
      have "s \<in> fst ` set doomed" using \<open>obj_get doomed s = Some s'\<close> by (force dest: obj_get_in)
      have "{d \<in> fst ` set doomed. d \<le> s'} \<subset> {d \<in> fst ` set doomed. d \<le> s}"
      proof (rule psubsetI)
        show "{d \<in> fst ` set doomed. d \<le> s'} \<subseteq> {d \<in> fst ` set doomed. d \<le> s}" using order_trans [OF _ less_imp_le [OF \<open>s' < s\<close>]] by blast
        have "s \<in> {d \<in> fst ` set doomed. d \<le> s}" "s \<notin> {d \<in> fst ` set doomed. d \<le> s'}"
          using \<open>s \<in> fst ` set doomed\<close> \<open>s' < s\<close> by simp_all
        then show "{d \<in> fst ` set doomed. d \<le> s'} \<noteq> {d \<in> fst ` set doomed. d \<le> s}" by blast
      qed
      then have "card {d \<in> fst ` set doomed. d \<le> s'} < card {d \<in> fst ` set doomed. d \<le> s}"
        by (intro psubset_card_mono) simp_all
      then have "card {d \<in> fst ` set doomed. d \<le> s'} \<le> n" using Suc.prems(3) by simp
      from Suc.IH [OF sv(1,2) this] show ?thesis using \<open>obj_get doomed s = Some s'\<close> sv(3) by simp
    qed
  qed
qed

lemma follow_enough:
  assumes "keyed sh" and "doomed = collect_map (duplicate_copies sh e)" and "obj_get doomed k = Some s"
  obtains c y where "obj_get (sf_notes sh) k = Some c" "obj_get doomed (follow (length doomed) doomed s) = None"
    "obj_get (sf_notes sh) (follow (length doomed) doomed s) = Some y" "\<not> nt_deleted y" "content_key y = content_key c"
proof -
  obtain c sv where c: "obj_get (sf_notes sh) k = Some c" "obj_get (sf_notes sh) s = Some sv" "\<not> nt_deleted sv" "content_key sv = content_key c"
    using doomed_entry [OF assms(1), of e k s] assms(2,3) by auto
  have "card {d \<in> fst ` set doomed. d \<le> s} \<le> card (fst ` set doomed)" by (rule card_mono) auto
  also have "\<dots> \<le> length doomed" using card_length [of "map fst doomed"] by simp
  finally have "card {d \<in> fst ` set doomed. d \<le> s} \<le> length doomed" .
  from follow_ends [OF assms(1,2) c(2,3) this] c(1,4) that show thesis by metis
qed

lemma pins_distinct: "distinct (pins_to_move sh doomed)"
  unfolding pins_to_move_def using collect_map_sorted by (auto simp: obj_sorted_def strict_sorted_iff)

lemma map_filter_in: "x \<in> set xs \<Longrightarrow> f x = Some y \<Longrightarrow> y \<in> set (List.map_filter f xs)"
  by (induction xs) (auto simp: map_filter_simps split: option.split)

lemma pins_moved:
  assumes "obj_get doomed k = Some s" and "is_pinned sh k" and "\<not> is_pinned sh (follow (length doomed) doomed s)"
  shows "follow (length doomed) doomed s \<in> set (pins_to_move sh doomed)"
proof -
  let ?f = "\<lambda>(copy, survivor). (let stays = follow (length doomed) doomed survivor
        in if is_pinned sh copy \<and> \<not> is_pinned sh stays then Some (stays, ()) else None)"
  have "?f (k, s) = Some (follow (length doomed) doomed s, ())" using assms(2,3) by (simp add: Let_def)
  from map_filter_in [of _ _ ?f, OF obj_get_in [OF assms(1)] this]
  have "(follow (length doomed) doomed s, ()) \<in> set (List.map_filter ?f doomed)" .
  from imageI [OF this, of fst] have "follow (length doomed) doomed s \<in> fst ` set (List.map_filter ?f doomed)"
    by (simp only: fst_conv)
  then show ?thesis unfolding pins_to_move_def set_map collect_map_keys .
qed

text \<open>
  C10. Clearing duplicate copies, on its own after a change or everywhere at the person's wish, loses
  no text and no pin: for every live note there is afterwards a live note that says the same (its
  title, without the suffix of a copy, and its body), pinned if it was.
\<close>

theorem duplicates_keep_text:
  assumes "keyed sh" and "titles_ok sh" and "sendable txt sh"
    and "obj_get (sf_notes sh) k = Some n" and "\<not> nt_deleted n"
    and "sh' = snd (remove_duplicates_in txt now everywhere sh)"
  shows "\<exists>k' n'. obj_get (sf_notes sh') k' = Some n' \<and> \<not> nt_deleted n' \<and> content_key n' = content_key n
    \<and> (nt_pinned n \<longrightarrow> nt_pinned n')"
proof -
  define doomed where "doomed = collect_map (duplicate_copies sh everywhere)"
  define pins where "pins = pins_to_move sh doomed"
  define sh1 where "sh1 = snd (edit_each txt now (nt_pinned_update (\<lambda>_. True)) pins sh)"
  have sh': "sh' = snd (edit_each txt now (nt_deleted_update (\<lambda>_. True)) (map fst doomed) sh1)"
    unfolding assms(6) remove_duplicates_in_def by (simp add: Let_def case_prod_unfold doomed_def pins_def sh1_def)
  have stays: "\<exists>y'. obj_get (sf_notes sh') j = Some y' \<and> \<not> nt_deleted y' \<and> content_key y' = content_key y
      \<and> (nt_pinned y \<or> j \<in> set pins \<longrightarrow> nt_pinned y')"
    if j: "obj_get (sf_notes sh) j = Some y" "\<not> nt_deleted y" "obj_get doomed j = None" for j y
  proof -
    have "count_chars (nt_title y) \<le> MAX_NOTE_TITLE_CHARS" "length (nt_body y) \<le> MAX_NOTE_BYTES"
      "fits_one_packet txt (note_to_json (y\<lparr>nt_pinned := True\<rparr>))"
      using obj_get_in [OF j(1)] assms(2,3) by (auto simp: titles_ok_def sendable_def)
    then obtain y' where "obj_get (sf_notes sh1) j = Some y'" "says_same y' y" "\<not> nt_deleted y'" "nt_pinned y \<or> j \<in> set pins \<longrightarrow> nt_pinned y'"
      using edit_each_pin [OF j(1) _ j(2) pins_distinct, of "txt" now sh doomed] unfolding pins_def sh1_def by blast
    moreover have "obj_get (sf_notes sh') j = obj_get (sf_notes sh1) j"
      unfolding sh' using j(3) by (intro edit_each_frame) (simp add: obj_get_None)
    ultimately show ?thesis using content_key_cong by auto
  qed
  show ?thesis
  proof (cases "obj_get doomed k")
    case None
    then show ?thesis using stays [OF assms(4,5)] by blast
  next
    case (Some s)
    define j where "j = follow (length doomed) doomed s"
    obtain y where y: "obj_get doomed j = None" "obj_get (sf_notes sh) j = Some y" "\<not> nt_deleted y" "content_key y = content_key n"
      using follow_enough [OF assms(1) doomed_def Some] assms(4) unfolding j_def by (metis option.inject)
    have "nt_pinned n \<longrightarrow> nt_pinned y \<or> j \<in> set pins"
      using pins_moved [OF Some, of sh] assms(4) y(2) by (auto simp: is_pinned_def j_def pins_def)
    then show ?thesis using stays [OF y(2,3,1)] y(4) by metis
  qed
qed

definition demo_copy :: note_entry where
  "demo_copy = (conflicted_copy (demo_note ''T'' ''same'' 5))\<lparr>nt_pinned := True\<rparr>"

definition demo_twice :: shelf where
  "demo_twice = \<lparr>sf_snippets = [], sf_notes = [(''n'', demo_note ''T'' ''same'' 9), (nt_id demo_copy, demo_copy)],
     sf_synced = [], sf_held = [], sf_sent = []\<rparr>"

lemma demo_twice_ok: "keyed demo_twice" "titles_ok demo_twice" "sendable (\<lambda>_. []) demo_twice"
  "obj_get (sf_notes demo_twice) (nt_id demo_copy) = Some demo_copy"
proof -
  have five: "show_int 5 = ''5''" by code_simp
  have id: "nt_id demo_copy = ''n~5''" by (simp add: demo_copy_def demo_note_def five)
  show "keyed demo_twice" "obj_get (sf_notes demo_twice) (nt_id demo_copy) = Some demo_copy" "sendable (\<lambda>_. []) demo_twice"
    by (simp_all add: keyed_def demo_twice_def obj_sorted_def id obj_get_def demo_note_def sendable_def fits_one_packet_def
        MAX_NOTE_BYTES_def MAX_FEATURE_PACKET_BYTES_def PACKET_OVERHEAD_def, simp add: demo_copy_def demo_note_def)
  have "count_chars (nt_title demo_copy) \<le> MAX_NOTE_TITLE_CHARS" by code_simp
  then show "titles_ok demo_twice" by (simp add: titles_ok_def demo_twice_def demo_note_def count_chars_def MAX_NOTE_TITLE_CHARS_def)
qed

theorem duplicates_keep_text_witness:
  "\<exists>k n. obj_get (sf_notes (snd (remove_duplicates_in (\<lambda>_. []) (\<lambda>_. 20) False demo_twice))) k = Some n
     \<and> \<not> nt_deleted n \<and> content_key n = content_key demo_copy \<and> nt_pinned n"
proof -
  have "\<not> nt_deleted demo_copy" "nt_pinned demo_copy" by (simp_all add: demo_copy_def demo_note_def)
  then show ?thesis using duplicates_keep_text [OF demo_twice_ok _ refl, of "\<lambda>_. 20" False] by auto
qed

subsection \<open>The shelf stays sound\<close>

definition ancestors_ok :: "shelf \<Rightarrow> bool" where
  "ancestors_ok sh \<longleftrightarrow> (\<forall>(_, n) \<in> set (sf_notes sh). length (nt_ancestors n) \<le> MAX_ANCESTORS)"

definition note_ok :: "note_entry \<Rightarrow> bool" where
  "note_ok n \<longleftrightarrow> count_chars (nt_title n) \<le> MAX_NOTE_TITLE_CHARS \<and> length (nt_ancestors n) \<le> MAX_ANCESTORS"

definition snippets_keyed :: "(string \<times> snippet) list \<Rightarrow> bool" where
  "snippets_keyed m \<longleftrightarrow> obj_sorted m \<and> (\<forall>(k, s) \<in> set m. sn_id s = k)"

definition shelf_inv :: "shelf \<Rightarrow> bool" where
  "shelf_inv sh \<longleftrightarrow> keyed sh \<and> titles_ok sh \<and> ancestors_ok sh \<and> few_peers (sf_held sh) \<and> few_peers (sf_sent sh)
     \<and> snippets_keyed (sf_snippets sh)"

lemma shelf_inv_note: "shelf_inv sh \<Longrightarrow> obj_get (sf_notes sh) k = Some n \<Longrightarrow> note_ok n \<and> nt_id n = k"
  using keyed_get [of sh k n] obj_get_in [of "sf_notes sh" k n]
  by (auto simp: shelf_inv_def titles_ok_def ancestors_ok_def note_ok_def)

lemma put_note_inv [wf_intros]: "shelf_inv sh \<Longrightarrow> note_ok n \<Longrightarrow> nt_id n = i \<Longrightarrow> shelf_inv (put_note i n sh)"
  unfolding shelf_inv_def titles_ok_def ancestors_ok_def note_ok_def
  using keyed_put [of sh n i "put_note i n sh"] by (auto simp: put_note_def dest!: obj_insert_set)

lemma marks_inv [wf_intros]:
  "shelf_inv sh \<Longrightarrow> shelf_inv (record_held i p v sh)" "shelf_inv sh \<Longrightarrow> shelf_inv (record_sent i p v sh)"
  "shelf_inv sh \<Longrightarrow> shelf_inv (put_synced i v sh)" "shelf_inv sh \<Longrightarrow> snippets_keyed (f (sf_snippets sh)) \<Longrightarrow> shelf_inv (sf_snippets_update f sh)"
  by (simp_all add: shelf_inv_def keyed_def titles_ok_def ancestors_ok_def record_held_def record_sent_def put_synced_def record_peer_few)

lemma snippets_sorted [wf_intros]:
  "shelf_inv sh \<Longrightarrow> snippets_keyed (sf_snippets sh)"
  "snippets_keyed m \<Longrightarrow> sn_id s = k \<Longrightarrow> snippets_keyed (obj_insert k s m)"
  by (auto simp: shelf_inv_def snippets_keyed_def obj_sorted_insert dest!: obj_insert_set)

lemma snippets_keyed_filter: "snippets_keyed m \<Longrightarrow> snippets_keyed (filter P m)"
  by (auto simp: snippets_keyed_def obj_sorted_def sorted_wrt_map sorted_wrt_filter)

lemma snippets_keyed_get: "snippets_keyed m \<Longrightarrow> obj_get m k = Some s \<Longrightarrow> sn_id s = k"
  by (auto simp: snippets_keyed_def dest!: obj_get_in)

lemma count_chars_append [simp]: "count_chars (a @ b) = count_chars a + count_chars b"
  by (simp add: count_chars_def)

lemma conflicted_copy_ok: "note_ok n \<Longrightarrow> note_ok (conflicted_copy n)"
proof -
  assume "note_ok n"
  have "count_chars (note_label n) \<le> 80" unfolding note_label_def Let_def by (rule count_take_chars)
  moreover have "count_chars ('' '' @ COPY_SUFFIX) \<le> 20" by code_simp
  ultimately show ?thesis using \<open>note_ok n\<close>
    by (simp add: note_ok_def conflicted_copy_def MAX_NOTE_TITLE_CHARS_def)
qed

lemma merge_siblings_inv:
  assumes "shelf_inv sh" and "note_ok l" and "note_ok inc"
  shows "shelf_inv (snd (merge_siblings l inc peer sh))"
proof (cases "incoming_wins l inc")
  case True
  then show ?thesis using assms by (auto simp: merge_siblings_def Let_def conflicted_copy_ok intro!: wf_intros)
next
  case False
  then show ?thesis using assms by (auto simp: merge_siblings_def Let_def conflicted_copy_ok intro!: wf_intros)
qed

lemma merge_note_inv:
  assumes "shelf_inv sh" and "note_ok inc"
  shows "shelf_inv (snd (merge_note_from inc peer sh))"
proof (cases "obj_get (sf_notes sh) (nt_id inc)")
  case None
  then show ?thesis using assms by (auto simp: merge_note_from_def Let_def intro!: wf_intros)
next
  case (Some l)
  then show ?thesis
    using assms shelf_inv_note [OF assms(1) Some] merge_siblings_inv [OF assms(1), of l inc peer]
    by (auto simp: merge_note_from_def Let_def intro!: wf_intros)
qed

lemma acknowledge_inv: "shelf_inv sh \<Longrightarrow> shelf_inv (snd (acknowledge i m peer sh))"
  by (auto simp: acknowledge_def Let_def intro!: wf_intros split: option.split)

lemma acknowledge_all_inv: "shelf_inv sh \<Longrightarrow> shelf_inv (snd (acknowledge_all peer es sh))"
proof (induction es arbitrary: sh)
  case (Cons e es)
  define out where "out = (case index_entry e of Some (i, m) \<Rightarrow> acknowledge i m peer sh | None \<Rightarrow> (False, sh))"
  have "shelf_inv (snd out)" using Cons.prems acknowledge_inv by (auto simp: out_def split: option.split)
  from Cons.IH [OF this] show ?case by (simp add: Let_def case_prod_unfold out_def [symmetric])
qed simp

lemma sent_to_inv: "shelf_inv sh \<Longrightarrow> shelf_inv (sent_to kind ids peer sh)"
proof -
  assume "shelf_inv sh"
  then have "shelf_inv (fold (\<lambda>i sh. case obj_get (sf_notes sh) i of Some n \<Rightarrow> record_sent i peer (nt_modified n) sh | None \<Rightarrow> sh) ids sh)"
    by (induction ids arbitrary: sh) (auto intro!: wf_intros split: option.split)
  then show ?thesis using \<open>shelf_inv sh\<close> by (simp add: sent_to_def)
qed

lemma valid_note_ok: "valid_note n \<Longrightarrow> note_ok n"
  by (simp add: valid_note_def note_ok_def)

lemma merge_snippet_inv: "shelf_inv sh \<Longrightarrow> shelf_inv (snd (merge_snippet s sh))"
  by (auto simp: merge_snippet_def intro!: wf_intros split: option.split)

lemma take_snippet_inv: "shelf_inv (is_shelf s) \<Longrightarrow> shelf_inv (is_shelf (take_snippet item s))"
  using merge_snippet_inv [of "is_shelf s"]
  by (auto simp: take_snippet_def Let_def case_prod_unfold split: option.split)

lemma take_note_inv: "shelf_inv (is_shelf s) \<Longrightarrow> shelf_inv (is_shelf (take_note peer item s))"
  using merge_note_inv [of "is_shelf s" _ peer] valid_note_ok
  by (auto simp: take_note_def Let_def case_prod_unfold split: option.split merged.split)

lemma fold_inv:
  assumes "\<And>x s. P s \<Longrightarrow> P (f x s)" and "P s"
  shows "P (fold f xs s)"
  using assms(2) by (induction xs arbitrary: s) (auto intro: assms(1))

lemma take_items_inv: "shelf_inv sh \<Longrightarrow> shelf_inv (is_shelf (take_items kind peer items sh))"
  unfolding take_items_def
  by (rule fold_inv [where P = "\<lambda>s. shelf_inv (is_shelf s)"]) (auto intro: take_snippet_inv take_note_inv split: note_kind.split)

lemma handle_from_inv: "shelf_inv sh \<Longrightarrow> shelf_inv (snd (handle_from txt stamp kind packet peer sh))"
  using acknowledge_all_inv sent_to_inv take_items_inv
  by (auto simp: handle_from_def Let_def case_prod_unfold)

text \<open>An edit of a note's title, body, pin or deletion.\<close>

definition edits_text :: "(note_entry \<Rightarrow> note_entry) \<Rightarrow> bool" where
  "edits_text change \<longleftrightarrow>
     (\<forall>n. change n = n\<lparr>nt_title := nt_title (change n), nt_body := nt_body (change n), nt_pinned := nt_pinned (change n),
                        nt_deleted := nt_deleted (change n)\<rparr>)"

lemma edits_textD:
  assumes "edits_text change"
  shows "nt_id (change n) = nt_id n" "nt_ancestors (change n) = nt_ancestors n" "nt_modified (change n) = nt_modified n"
proof -
  define c where "c = change n"
  have c: "c = n\<lparr>nt_title := nt_title c, nt_body := nt_body c, nt_pinned := nt_pinned c, nt_deleted := nt_deleted c\<rparr>"
    using assms unfolding edits_text_def c_def by blast
  show "nt_id (change n) = nt_id n" "nt_ancestors (change n) = nt_ancestors n" "nt_modified (change n) = nt_modified n"
    unfolding c_def [symmetric] by (subst c, simp)+
qed

lemma ancestors_after_short: "length (ancestors_after before keep) \<le> MAX_ANCESTORS"
  by (auto simp: ancestors_after_def Let_def)

lemma edit_inv:
  assumes "shelf_inv sh" and "edits_text change"
  shows "shelf_inv (snd (edit_from_in_shelf txt now i loaded change sh))"
proof (cases "obj_get (sf_notes sh) i")
  case (Some before)
  have ok: "note_ok before" "nt_id before = i" using shelf_inv_note [OF assms(1) Some] by simp_all
  have e: "note_ok (edited change before)" "nt_id (edited change before) = i"
    using ok edits_textD [OF assms(2)] by (auto simp: note_ok_def edited_def Let_def count_take_chars)
  moreover have "note_ok (next_version now sh i before (edited change before))"
    using e(1) ancestors_after_short by (auto simp: note_ok_def next_version_def count_chars_def)
  moreover have "note_ok (conflicted_copy before)" using ok(1) by (rule conflicted_copy_ok)
  ultimately show ?thesis
    using assms(1) by (auto simp: edit_from_in_shelf_def Some Let_def keep_if_eq intro!: wf_intros split: option.split)
qed (simp add: edit_from_in_shelf_def assms)

lemma edit_each_inv: "shelf_inv sh \<Longrightarrow> edits_text change \<Longrightarrow> shelf_inv (snd (edit_each txt now change is sh))"
proof (induction "is" arbitrary: sh)
  case (Cons i "is")
  then show ?case unfolding snd_edit_each by (blast intro: edit_inv)
qed simp

lemma remove_duplicates_inv: "shelf_inv sh \<Longrightarrow> shelf_inv (snd (remove_duplicates_in txt now everywhere sh))"
  unfolding remove_duplicates_in_def Let_def case_prod_unfold
  by (auto intro!: edit_each_inv simp: edits_text_def)

lemma filtered_inv:
  assumes "shelf_inv sh"
  shows "shelf_inv (sh\<lparr>sf_notes := filter P (sf_notes sh), sf_synced := x, sf_held := filter Q (sf_held sh), sf_sent := filter R (sf_sent sh)\<rparr>)"
  using assms sorted_wrt_filter [of "\<lambda>x y. fst x < fst y" "sf_notes sh" P]
  by (auto simp: shelf_inv_def keyed_def titles_ok_def ancestors_ok_def few_peers_def obj_sorted_def sorted_wrt_map sorted_wrt_filter)

text \<open>Everything that happens to the shelf.\<close>

definition shelf_init :: "shelf \<Rightarrow> bool" where
  "shelf_init sh \<longleftrightarrow> sf_notes sh = [] \<and> sf_snippets sh = [] \<and> sf_held sh = [] \<and> sf_sent sh = []"

inductive shelf_step :: "shelf \<Rightarrow> shelf \<Rightarrow> bool" where
  st_packet: "shelf_step sh (snd (handle_from txt stamp kind packet peer sh))"
| st_edit: "edits_text change \<Longrightarrow> shelf_step sh (snd (edit_from_in_shelf txt now i loaded change sh))"
| st_create: "shelf_step sh (snd (create_in_shelf now uuid b sh))"
| st_snippet: "shelf_step sh (snd (add_in_shelf now uuid t sh))"
| st_delete_snippet: "shelf_step sh (snd (delete_snippet now i sh))"
| st_tidy: "shelf_step sh (snd (remove_duplicates_in txt now' everywhere sh))"
| st_send: "shelf_step sh (sent_to kind ids peer sh)"
| st_relay: "shelf_step sh (mark_relayed others packet sh)"
| st_prune: "shelf_step sh (prune_shelf now sh)"
| st_forget: "shelf_step sh (forget_phone d sh)"

text \<open>
  The shelves there can be: an empty one, one that a step leads to, and, after a start at which the
  file could not be read, what was typed meanwhile merged into the shelf that the file held.
\<close>

inductive shelf_made :: "shelf \<Rightarrow> bool" where
  sm_empty: "shelf_init sh \<Longrightarrow> shelf_made sh"
| sm_step: "shelf_made sh \<Longrightarrow> shelf_step sh sh' \<Longrightarrow> shelf_made sh'"
| sm_retry: "shelf_made typed \<Longrightarrow> shelf_made disk \<Longrightarrow> shelf_made (retry_merge typed disk)"

lemma create_inv: "shelf_inv sh \<Longrightarrow> shelf_inv (snd (create_in_shelf now uuid b sh))"
  by (auto simp: create_in_shelf_def note_ok_def count_chars_def intro!: wf_intros)

lemma snippet_inv:
  "shelf_inv sh \<Longrightarrow> shelf_inv (snd (add_in_shelf now uuid t sh))" "shelf_inv sh \<Longrightarrow> shelf_inv (snd (delete_snippet now i sh))"
  by (auto simp: add_in_shelf_def delete_snippet_def Let_def keep_if_eq snippets_keyed_get [OF snippets_sorted(1)]
      intro!: wf_intros split: option.split)

lemma mark_relayed_inv: "shelf_inv sh \<Longrightarrow> shelf_inv (mark_relayed others packet sh)"
  unfolding mark_relayed_def Let_def
  by (auto intro!: fold_inv [where P = shelf_inv] wf_intros simp: case_prod_unfold)

lemma prune_inv: "shelf_inv sh \<Longrightarrow> shelf_inv (prune_shelf now sh)"
proof -
  assume inv: "shelf_inv sh"
  define kept where "kept = filter (\<lambda>(_, n). \<not> nt_deleted n \<or> now - NOTE_TOMBSTONE_DAYS * 24 * 3600 * 1000 < nt_modified n) (sf_notes sh)"
  have "shelf_inv (sh\<lparr>sf_notes := kept, sf_synced := filter (\<lambda>(i, _). obj_get kept i \<noteq> None) (sf_synced sh),
      sf_held := filter (\<lambda>(i, _). obj_get kept i \<noteq> None) (sf_held sh),
      sf_sent := filter (\<lambda>(i, _). obj_get kept i \<noteq> None) (sf_sent sh)\<rparr>)"
    unfolding kept_def by (rule filtered_inv [OF inv])
  from marks_inv(4) [OF this, of "\<lambda>_. filter (\<lambda>(_, s). \<not> sn_deleted s \<or> now - NOTE_TOMBSTONE_DAYS * 24 * 3600 * 1000 < sn_modified s) (sf_snippets sh)",
      OF snippets_keyed_filter [OF snippets_sorted(1) [OF inv]]]
  show ?thesis by (cases sh) (simp add: prune_shelf_def Let_def kept_def)
qed

lemma forget_in_few: "few_peers marks \<Longrightarrow> few_peers (forget_in d marks)"
  by (fastforce simp: few_peers_def forget_in_def obj_remove_def intro: le_trans [OF length_filter_le])

lemma forget_inv: "shelf_inv sh \<Longrightarrow> shelf_inv (forget_phone d sh)"
  by (simp add: shelf_inv_def forget_phone_def keyed_def titles_ok_def ancestors_ok_def forget_in_few)

interpretation shelf: invariant_system shelf_init shelf_step shelf_inv
proof
  show "shelf_init s \<Longrightarrow> shelf_inv s" for s
    by (simp add: shelf_init_def shelf_inv_def keyed_def obj_sorted_def titles_ok_def ancestors_ok_def few_peers_def snippets_keyed_def)
  show "shelf_inv t" if "shelf_inv s" "shelf_step s t" for s t
    using that(2,1)
    by cases (simp_all add: handle_from_inv edit_inv create_inv snippet_inv remove_duplicates_inv sent_to_inv mark_relayed_inv
        prune_inv forget_inv)
qed

lemma retry_inv:
  assumes "shelf_inv typed" and "shelf_inv disk"
  shows "shelf_inv (retry_merge typed disk)"
proof -
  have oks: "note_ok n" if "(k, n) \<in> set (sf_notes typed)" for k n
    using assms(1) that by (auto simp: shelf_inv_def titles_ok_def ancestors_ok_def note_ok_def)
  have "shelf_inv (fold (\<lambda>(_, s) d. snd (merge_snippet s d)) (sf_snippets typed) disk)"
    by (rule fold_inv) (use assms(2) merge_snippet_inv in auto)
  moreover have "shelf_inv (fold (\<lambda>(_, n) d. snd (merge_note n d)) ns d)" if "set ns \<subseteq> set (sf_notes typed)" "shelf_inv d" for ns d
    using that by (induction ns arbitrary: d) (auto simp: merge_note_def intro!: merge_note_inv oks)
  ultimately show ?thesis by (simp add: retry_merge_def)
qed

lemma shelf_made_inv: "shelf_made sh \<Longrightarrow> shelf_inv sh"
  by (induction rule: shelf_made.induct) (auto intro: shelf.inv_init shelf.inv_step retry_inv)

subsubsection \<open>What a peer can make it hold\<close>

lemma merge_grows_by_one:
  assumes "shelf_inv sh"
  shows "length (sf_notes (snd (merge_note_from inc peer sh))) \<le> Suc (length (sf_notes sh))"
proof (cases "obj_get (sf_notes sh) (nt_id inc)")
  case None
  then show ?thesis using length_obj_insert by (simp add: merge_note_from_def Let_def)
next
  case (Some l)
  have sorted: "obj_sorted (sf_notes sh)" and l: "nt_id l = nt_id inc"
    using assms shelf_inv_note [OF assms Some] by (simp_all add: shelf_inv_def keyed_def)
  have known: "length (obj_insert (nt_id inc) x (sf_notes sh)) = length (sf_notes sh)" for x
    using length_obj_insert_known [OF sorted] Some by simp
  have "length (obj_insert (nt_id inc) x (obj_insert k c (sf_notes sh))) \<le> Suc (length (sf_notes sh))" for x k c
    using length_obj_insert_known [OF obj_sorted_insert [OF sorted, of k c], of "nt_id inc" x] Some length_obj_insert [of k c "sf_notes sh"]
    by simp
  then show ?thesis
    using Some known l by (auto simp: merge_note_from_def merge_siblings_def Let_def split: option.split)
qed

text \<open>The size of the two lists stays under its bound, if it was.\<close>

definition within_bounds :: "nat \<Rightarrow> nat \<Rightarrow> shelf \<Rightarrow> bool" where
  "within_bounds a b sh \<longleftrightarrow> length (sf_notes sh) \<le> max a MAX_NOTE_ENTRIES \<and> length (sf_snippets sh) \<le> max b MAX_SNIPPET_ENTRIES"

lemma merge_snippets_same: "sf_snippets (snd (merge_note_from inc peer sh)) = sf_snippets sh"
  by (auto simp: merge_note_from_def merge_siblings_def Let_def split: option.split)

lemma take_note_bounds:
  assumes "shelf_inv (is_shelf s)" and "within_bounds a b (is_shelf s)"
  shows "within_bounds a b (is_shelf (take_note peer item s))"
proof (cases "note_of_json item")
  case (Some n)
  have "is_shelf (take_note peer item s) = is_shelf s
      \<or> (length (sf_notes (is_shelf s)) < MAX_NOTE_ENTRIES \<and> is_shelf (take_note peer item s) = snd (merge_note_from n peer (is_shelf s)))"
    by (auto simp: take_note_def Some Let_def case_prod_unfold split: merged.split)
  then show ?thesis
    using assms(2) merge_grows_by_one [OF assms(1), of n peer] by (auto simp: within_bounds_def merge_snippets_same)
qed (simp add: take_note_def assms)

lemma take_snippet_bounds:
  assumes "within_bounds a b (is_shelf s)" and "obj_sorted (sf_snippets (is_shelf s))"
  shows "within_bounds a b (is_shelf (take_snippet item s)) \<and> obj_sorted (sf_snippets (is_shelf (take_snippet item s)))"
proof (cases "snippet_of_json item")
  case (Some x)
  let ?m = "sf_snippets (is_shelf s)"
  have "is_shelf (take_snippet item s) = is_shelf s
    \<or> ((obj_get ?m (sn_id x) \<noteq> None \<or> length ?m < MAX_SNIPPET_ENTRIES)
       \<and> is_shelf (take_snippet item s) = (is_shelf s)\<lparr>sf_snippets := obj_insert (sn_id x) x ?m\<rparr>)"
    by (auto simp: take_snippet_def Some Let_def case_prod_unfold merge_snippet_def split: option.split)
  moreover have "length (obj_insert (sn_id x) x ?m) \<le> max b MAX_SNIPPET_ENTRIES"
    if "obj_get ?m (sn_id x) \<noteq> None \<or> length ?m < MAX_SNIPPET_ENTRIES"
    using that length_obj_insert_known [OF assms(2)] length_obj_insert [of "sn_id x" x ?m] assms(1) by (auto simp: within_bounds_def)
  ultimately show ?thesis using assms by (auto simp: within_bounds_def obj_sorted_insert)
qed (simp add: take_snippet_def assms)

lemma acknowledge_lists: "sf_notes (snd (acknowledge_all peer es sh)) = sf_notes sh \<and> sf_snippets (snd (acknowledge_all peer es sh)) = sf_snippets sh"
proof (induction es arbitrary: sh)
  case (Cons e es)
  have "sf_notes (snd (acknowledge i m peer sh)) = sf_notes sh \<and> sf_snippets (snd (acknowledge i m peer sh)) = sf_snippets sh" for i m
    by (auto simp: acknowledge_def Let_def split: option.split)
  then show ?case using Cons by (auto simp: Let_def case_prod_unfold split: option.split)
qed simp

lemma sent_to_lists: "sf_notes (sent_to kind ids peer sh) = sf_notes sh \<and> sf_snippets (sent_to kind ids peer sh) = sf_snippets sh"
proof -
  have "sf_notes (fold (\<lambda>i sh. case obj_get (sf_notes sh) i of Some n \<Rightarrow> record_sent i peer (nt_modified n) sh | None \<Rightarrow> sh) ids sh) = sf_notes sh
    \<and> sf_snippets (fold (\<lambda>i sh. case obj_get (sf_notes sh) i of Some n \<Rightarrow> record_sent i peer (nt_modified n) sh | None \<Rightarrow> sh) ids sh) = sf_snippets sh"
    by (induction ids arbitrary: sh) (auto split: option.split)
  then show ?thesis by (simp add: sent_to_def)
qed

lemma take_items_bounds:
  assumes "shelf_inv sh" and "within_bounds a b sh" and "obj_sorted (sf_snippets sh)"
  shows "within_bounds a b (is_shelf (take_items kind peer items sh))"
proof (cases kind)
  case Snippets
  have "within_bounds a b (is_shelf (fold take_snippet items s)) \<and> obj_sorted (sf_snippets (is_shelf (fold take_snippet items s)))"
    if "within_bounds a b (is_shelf s)" "obj_sorted (sf_snippets (is_shelf s))" for s
    by (rule fold_inv [where P = "\<lambda>s. within_bounds a b (is_shelf s) \<and> obj_sorted (sf_snippets (is_shelf s))"])
      (use that take_snippet_bounds in auto)
  then show ?thesis using assms Snippets by (simp add: take_items_def)
next
  case Notes
  have "shelf_inv (is_shelf (fold (take_note peer) items s)) \<and> within_bounds a b (is_shelf (fold (take_note peer) items s))"
    if "within_bounds a b (is_shelf s)" "shelf_inv (is_shelf s)" for s
    by (rule fold_inv [where P = "\<lambda>s. shelf_inv (is_shelf s) \<and> within_bounds a b (is_shelf s)"])
      (use that take_note_bounds take_note_inv in auto)
  then show ?thesis using assms Notes by (simp add: take_items_def)
qed

lemma handle_from_bounds:
  assumes "shelf_inv sh"
  shows "within_bounds (length (sf_notes sh)) (length (sf_snippets sh)) (snd (handle_from txt stamp kind packet peer sh))"
proof -
  have start: "within_bounds (length (sf_notes sh)) (length (sf_snippets sh)) sh" by (simp add: within_bounds_def)
  have "within_bounds a b (snd (acknowledge_all peer es sh)) = within_bounds a b sh"
    "within_bounds a b (sent_to kind ids peer sh') = within_bounds a b sh'" for a b es ids sh'
    by (simp_all add: within_bounds_def acknowledge_lists sent_to_lists)
  then show ?thesis
    using start take_items_bounds [OF assms start] assms
    by (auto simp: handle_from_def Let_def case_prod_unfold shelf_inv_def snippets_keyed_def)
qed

text \<open>
  C11. Whatever packets, edits, sends, removals and prunings happen, in any order, and also when what was
  typed before the file could be read is merged into it, every note and every snippet is under its
  own id, every note has a title of at most 200 characters and at most eight ancestors, and at most three
  phones are remembered for it, as holding it and as having been sent it. And no packet from a phone
  makes the shelf hold more than 4000 notes or 1000 snippets, or more than it held already.
\<close>

theorem shelf_stays_sound:
  assumes "shelf_made sh"
  shows "keyed sh \<and> snippets_keyed (sf_snippets sh) \<and> titles_ok sh \<and> ancestors_ok sh
    \<and> few_peers (sf_held sh) \<and> few_peers (sf_sent sh)
    \<and> length (sf_notes (snd (handle_from txt stamp kind packet peer sh))) \<le> max (length (sf_notes sh)) 4000
    \<and> length (sf_snippets (snd (handle_from txt stamp kind packet peer sh))) \<le> max (length (sf_snippets sh)) 1000"
proof -
  have inv: "shelf_inv sh" using assms by (rule shelf_made_inv)
  then show ?thesis
    using handle_from_bounds [OF inv, of "txt" stamp kind packet peer]
    by (simp add: shelf_inv_def within_bounds_def MAX_NOTE_ENTRIES_def MAX_NOTES_def MAX_SNIPPET_ENTRIES_def MAX_SNIPPETS_def)
qed

definition empty_shelf :: shelf where
  "empty_shelf = \<lparr>sf_snippets = [], sf_notes = [], sf_synced = [], sf_held = [], sf_sent = []\<rparr>"

lemma empty_shelf_made: "shelf_made empty_shelf"
  by (rule sm_empty) (simp add: shelf_init_def empty_shelf_def)

theorem shelf_stays_sound_witness:
  "keyed (retry_merge (snd (create_in_shelf 7 ''u'' ''text'' empty_shelf)) empty_shelf)"
proof -
  have "shelf_made (retry_merge (snd (create_in_shelf 7 ''u'' ''text'' empty_shelf)) empty_shelf)"
    by (intro sm_retry sm_step [OF _ st_create] empty_shelf_made)
  then show ?thesis using shelf_stays_sound by blast
qed

subsection \<open>Edits made while a phone is away\<close>

text \<open>
  What happens on the desk to the notes while a phone is away: edits of any notes, and sends to other
  phones. \<open>Q\<close> are the phones.
\<close>

datatype away_op = AwayEdit int string "int option" "note_entry \<Rightarrow> note_entry" | AwaySend "string list" string

fun away_step :: "(json \<Rightarrow> string) \<Rightarrow> away_op \<Rightarrow> shelf \<Rightarrow> shelf" where
  "away_step txt (AwayEdit now i loaded change) sh = snd (edit_from_in_shelf txt now i loaded change sh)"
| "away_step txt (AwaySend ids peer) sh = sent_to Notes ids peer sh"

fun away_ok :: "string set \<Rightarrow> string \<Rightarrow> away_op \<Rightarrow> bool" where
  "away_ok Q phone (AwayEdit now i loaded change) \<longleftrightarrow> edits_text change"
| "away_ok Q phone (AwaySend ids peer) \<longleftrightarrow> peer \<in> Q \<and> peer \<noteq> phone"

abbreviation peers_of :: "marks \<Rightarrow> string \<Rightarrow> (string \<times> int) list" where
  "peers_of marks i \<equiv> unwrap_or [] (obj_get marks i)"

definition remembers :: "string set \<Rightarrow> string \<Rightarrow> string \<Rightarrow> int \<Rightarrow> marks \<Rightarrow> bool" where
  "remembers Q phone i v marks \<longleftrightarrow>
     obj_sorted (peers_of marks i) \<and> fst ` set (peers_of marks i) \<subseteq> Q \<and> obj_get (peers_of marks i) phone = Some v"

lemma ancestors_after_order:
  assumes "sorted_wrt (>) (chain_of before)"
  shows "sorted_wrt (>) (ancestors_after before keep) \<and> set (ancestors_after before keep) \<subseteq> set (chain_of before)"
proof (cases "length (chain_of before) \<le> MAX_ANCESTORS")
  case True
  then show ?thesis using assms by (simp add: ancestors_after_def chain_of_def)
next
  case False
  define kept where "kept = take MAX_ANCESTORS (filter (\<lambda>m. m \<in> set keep) (chain_of before))"
  define recent where "recent = take (MAX_ANCESTORS - length kept) (filter (\<lambda>m. m \<notin> set kept) (chain_of before))"
  have eq: "ancestors_after before keep = rev (sort (kept @ recent))"
    using False by (simp add: ancestors_after_def chain_of_def [symmetric] kept_def recent_def Let_def)
  have sub: "set kept \<subseteq> set (chain_of before)" "set recent \<subseteq> set (chain_of before)" "set recent \<inter> set kept = {}"
    unfolding recent_def by (auto dest!: in_set_takeD) (auto simp: kept_def dest!: in_set_takeD)
  moreover have "distinct (kept @ recent)"
    using sub(3) lineage_distinct [OF assms] by (auto simp: kept_def recent_def distinct_take)
  then have "sorted_wrt (<) (sort (kept @ recent))" by (simp add: strict_sorted_iff)
  ultimately show ?thesis unfolding eq by (auto simp: sorted_wrt_rev)
qed

lemma trim_peers_few: "length ps \<le> MAX_PEERS_PER_NOTE \<Longrightarrow> trim_peers ps = ps"
  by (simp add: trim_peers.simps)

lemma record_remembers:
  assumes "remembers Q phone i v marks" and "finite Q" and "card Q \<le> 3" and "peer \<in> Q" and "peer \<noteq> phone"
  shows "remembers Q phone i v (record_peer marks j peer m)"
proof (cases "j = i \<and> peer \<noteq> []")
  case True
  let ?ps = "obj_insert peer m (peers_of marks i)"
  have ps: "obj_sorted ?ps" "fst ` set ?ps \<subseteq> Q"
    using assms(1,4) by (auto simp: remembers_def obj_sorted_insert dest!: obj_insert_set)
  have "length ?ps = card (fst ` set ?ps)"
    using ps(1) distinct_card [of "map fst ?ps"] by (simp add: obj_sorted_def strict_sorted_iff)
  also have "\<dots> \<le> 3" using card_mono [OF assms(2) ps(2)] assms(3) by simp
  finally have "trim_peers ?ps = ?ps" by (simp add: trim_peers_few MAX_PEERS_PER_NOTE_def)
  then show ?thesis using True ps assms(1,5) by (simp add: remembers_def record_peer_def unwrap_or_def)
qed (use assms(1) in \<open>auto simp: remembers_def record_peer_def\<close>)

lemma sent_to_marks:
  assumes "remembers Q phone i v (sf_sent sh)" and "finite Q" and "card Q \<le> 3" and "peer \<in> Q" and "peer \<noteq> phone"
  shows "remembers Q phone i v (sf_sent (sent_to kind ids peer sh))"
proof -
  have "remembers Q phone i v (sf_sent (fold (\<lambda>i sh. case obj_get (sf_notes sh) i of Some n \<Rightarrow> record_sent i peer (nt_modified n) sh | None \<Rightarrow> sh) ids sh))"
    using assms(1) by (induction ids arbitrary: sh) (auto simp: record_sent_def record_remembers [OF _ assms(2-5)] split: option.split)
  then show ?thesis using assms(1) by (simp add: sent_to_def)
qed

lemma sent_to_held: "sf_held (sent_to kind ids peer sh) = sf_held sh"
proof -
  have "sf_held (fold (\<lambda>i sh. case obj_get (sf_notes sh) i of Some n \<Rightarrow> record_sent i peer (nt_modified n) sh | None \<Rightarrow> sh) ids sh) = sf_held sh"
    by (induction ids arbitrary: sh) (auto simp: record_sent_def split: option.split)
  then show ?thesis by (simp add: sent_to_def)
qed

lemma edit_marks:
  "sf_held (snd (edit_from_in_shelf txt now j loaded change sh)) = sf_held sh"
  "sf_sent (snd (edit_from_in_shelf txt now j loaded change sh)) = sf_sent sh"
  by (auto simp: edit_from_in_shelf_def Let_def put_note_def put_synced_def split: option.split)

text \<open>What an edit does to a note's lineage: nothing, or it is the lineage of the next version.\<close>

lemma edit_lineage:
  assumes "edits_text change" and "obj_get (sf_notes sh) i = Some n"
  shows "\<exists>n'. obj_get (sf_notes (snd (edit_from_in_shelf txt now j loaded change sh))) i = Some n'
    \<and> (chain_of n' = chain_of n \<or> (\<exists>x. n' = next_version now sh i n x))"
proof (cases "j = i")
  case True
  have "chain_of (edited change n) = chain_of n" using edits_textD [OF assms(1)] by (auto simp: chain_of_def edited_def Let_def)
  then show ?thesis
    using assms(2) True by (auto simp: edit_from_in_shelf_def Let_def keep_if_eq split: option.split)
next
  case False
  then show ?thesis
    using assms(2) by (auto simp: edit_from_in_shelf_def Let_def keep_if_eq split: option.split)
qed

definition away_inv :: "string set \<Rightarrow> string \<Rightarrow> string \<Rightarrow> int \<Rightarrow> shelf \<Rightarrow> bool" where
  "away_inv Q phone i v sh \<longleftrightarrow> shelf_inv sh
     \<and> (obj_get (peers_of (sf_held sh) i) phone = Some v \<or> remembers Q phone i v (sf_sent sh))
     \<and> (\<exists>n. obj_get (sf_notes sh) i = Some n
          \<and> (nt_modified n < I64_MAX \<longrightarrow> sorted_wrt (>) (chain_of n) \<and> v \<in> set (chain_of n)))"

lemma away_step_inv:
  assumes inv: "away_inv Q phone i v sh" and "finite Q" and "card Q \<le> 3" and "away_ok Q phone op"
  shows "away_inv Q phone i v (away_step txt op sh)"
proof (cases op)
  case (AwaySend ids peer)
  then have "shelf_inv (sent_to Notes ids peer sh)" using inv sent_to_inv by (simp add: away_inv_def)
  then show ?thesis
    using inv AwaySend assms(4) sent_to_marks [OF _ assms(2,3)]
    by (auto simp: away_inv_def sent_to_lists sent_to_held)
next
  case (AwayEdit now j loaded change)
  let ?sh = "snd (edit_from_in_shelf txt now j loaded change sh)"
  have ed: "edits_text change" using AwayEdit assms(4) by simp
  obtain n where n: "obj_get (sf_notes sh) i = Some n"
    and line: "nt_modified n < I64_MAX \<Longrightarrow> sorted_wrt (>) (chain_of n) \<and> v \<in> set (chain_of n)"
    using inv by (auto simp: away_inv_def)
  have sinv: "shelf_inv sh" using inv by (simp add: away_inv_def)
  have keep: "v \<in> set (must_keep sh i)"
    using inv by (auto simp: away_inv_def must_keep_def remembers_def dest!: obj_get_in) (force simp: image_iff)+
  have few: "length (must_keep sh i) \<le> MAX_ANCESTORS"
    using must_keep_few [of sh i] sinv by (simp add: shelf_inv_def MAX_PEERS_PER_NOTE_def MAX_ANCESTORS_def)
  obtain n' where n': "obj_get (sf_notes ?sh) i = Some n'" and step: "chain_of n' = chain_of n \<or> (\<exists>x. n' = next_version now sh i n x)"
    using edit_lineage [OF ed n] by blast
  have "sorted_wrt (>) (chain_of n') \<and> v \<in> set (chain_of n')" if small: "nt_modified n' < I64_MAX"
    using step
  proof (elim disjE exE)
    assume "chain_of n' = chain_of n"
    then show ?thesis using line small by (simp add: chain_of_def)
  next
    fix x
    assume x: "n' = next_version now sh i n x"
    then have m: "nt_modified n < I64_MAX" "nt_modified n < nt_modified n'" using small by (auto simp: max_def min_def split: if_splits)
    have chain: "chain_of n' = nt_modified n' # ancestors_after n (must_keep sh i)" by (simp add: chain_of_def x)
    have "v \<in> set (ancestors_after n (must_keep sh i))"
      using ancestors_after_keeps [OF _ few keep] line [OF m(1)] lineage_distinct by blast
    moreover have "\<forall>y \<in> set (chain_of n). y < nt_modified n'"
      using line [OF m(1)] m(2) by (auto simp: chain_of_def)
    ultimately show ?thesis
      unfolding chain using ancestors_after_order line [OF m(1)] by (auto simp: subset_iff)
  qed
  then show ?thesis
    using inv n' edit_inv [OF sinv ed] AwayEdit by (auto simp: away_inv_def edit_marks)
qed

lemma away_steps_inv:
  "away_inv Q phone i v sh \<Longrightarrow> finite Q \<Longrightarrow> card Q \<le> 3 \<Longrightarrow> list_all (away_ok Q phone) ops \<Longrightarrow>
     away_inv Q phone i v (fold (away_step txt) ops sh)"
  by (induction ops arbitrary: sh) (auto intro: away_step_inv)

text \<open>
  C9. A phone that was away recognises the next version of a note. The desk knows that the phone holds
  a version \<open>v\<close>, or was sent it, and the note comes from it, by a lineage of falling times. However many
  edits of this and other notes follow, and sends to other phones, the phone takes the version the desk
  then has in place of \<open>v\<close>, with no conflicted copy and nothing else changed. There are at most three
  phones if all the desk knows is what it sent, and the clock is not at the end of its range.
\<close>

theorem edit_is_recognised:
  assumes "shelf_made sh" and "obj_get (sf_notes sh) i = Some n0" and "sorted_wrt (>) (chain_of n0)" and "v \<in> set (chain_of n0)"
    and "obj_get (peers_of (sf_held sh) i) phone = Some v \<or> remembers Q phone i v (sf_sent sh)"
    and "finite Q" and "card Q \<le> 3" and "list_all (away_ok Q phone) ops" and "sh' = fold (away_step render) ops sh"
    and "obj_get (sf_notes other) i = Some old" and "nt_modified old = v"
  shows "\<exists>n. obj_get (sf_notes sh') i = Some n \<and> (nt_modified n < I64_MAX \<longrightarrow> nt_modified n \<noteq> v \<longrightarrow>
      fst (merge_note_from n peer other) = Taken
      \<and> (\<forall>k. obj_get (sf_notes (snd (merge_note_from n peer other))) k = (if k = i then Some n else obj_get (sf_notes other) k)))"
proof -
  have "away_inv Q phone i v sh" using assms(2-5) shelf_made_inv [OF assms(1)] by (auto simp: away_inv_def)
  from away_steps_inv [OF this assms(6-8), of render] have inv: "away_inv Q phone i v sh'" by (simp add: assms(9))
  then obtain n where n: "obj_get (sf_notes sh') i = Some n"
    and line: "nt_modified n < I64_MAX \<Longrightarrow> sorted_wrt (>) (chain_of n) \<and> v \<in> set (chain_of n)"
    by (auto simp: away_inv_def)
  have nid: "nt_id n = i" using inv shelf_inv_note n by (auto simp: away_inv_def)
  have "merge_note_from n peer other = (Taken, put_note i n (record_held i peer (nt_modified n) (put_synced i (nt_modified n) other)))"
    if "nt_modified n < I64_MAX" "nt_modified n \<noteq> v"
  proof -
    have "descends n old" using line [OF that(1)] that(2) assms(11) by (auto simp: chain_of_def descends_def)
    then show ?thesis using nid assms(10,11) that(2) by (simp add: merge_note_from_def Let_def)
  qed
  then show ?thesis using n by auto
qed

definition demo_retype :: "string \<Rightarrow> note_entry \<Rightarrow> note_entry" where
  "demo_retype b n = n\<lparr>nt_body := b\<rparr>"

text \<open>A note made on the desk and sent to the phone, then edited twice.\<close>

definition demo_desk :: shelf where
  "demo_desk = sent_to Notes [''n''] ''p'' (snd (create_in_shelf 5 ''n'' ''a'' empty_shelf))"

definition demo_away :: "away_op list" where
  "demo_away = [AwayEdit 20 ''n'' (Some 5) (demo_retype ''b''), AwayEdit 20 ''n'' (Some 20) (demo_retype ''c'')]"

lemma demo_desk_made: "shelf_made demo_desk"
  unfolding demo_desk_def by (intro sm_step [OF _ st_send] sm_step [OF _ st_create] empty_shelf_made)

lemma demo_desk_eq:
  "demo_desk = \<lparr>sf_snippets = [], sf_notes = [(''n'', (demo_note [] ''a'' 5)\<lparr>nt_created := 5, nt_parent := 0, nt_ancestors := []\<rparr>)],
     sf_synced = [], sf_held = [], sf_sent = [(''n'', [(''p'', 5)])]\<rparr>"
  by (simp add: demo_desk_def create_in_shelf_def empty_shelf_def sent_to_def record_sent_def record_peer_def put_note_def obj_get_def
      obj_insert.simps unwrap_or_def trim_peers.simps MAX_PEERS_PER_NOTE_def MAX_NOTES_def demo_note_def)

lemma demo_away_eq:
  "\<exists>n. obj_get (sf_notes (fold (away_step (\<lambda>_. [])) demo_away demo_desk)) ''n'' = Some n \<and> nt_body n = ''c'' \<and> nt_modified n = 21"
  by (simp add: demo_away_def demo_desk_eq edit_from_in_shelf_def demo_note_def demo_retype_def obj_get_def obj_insert.simps Let_def
      fits_one_packet_def MAX_FEATURE_PACKET_BYTES_def PACKET_OVERHEAD_def same_content_def MAX_NOTE_BYTES_def edited_def
      put_note_def next_version_def I64_MAX_def)

theorem edit_is_recognised_witness:
  "\<exists>n. obj_get (sf_notes (fold (away_step (\<lambda>_. [])) demo_away demo_desk)) ''n'' = Some n \<and> nt_body n = ''c''
     \<and> fst (merge_note_from n ''d'' (demo_shelf (demo_note [] ''a'' 5))) = Taken"
proof -
  obtain n where n: "obj_get (sf_notes (fold (away_step (\<lambda>_. [])) demo_away demo_desk)) ''n'' = Some n" "nt_body n = ''c''" "nt_modified n = 21"
    using demo_away_eq by blast
  have "list_all (away_ok {''p''} ''p'') demo_away" by (simp add: demo_away_def demo_retype_def edits_text_def)
  moreover have "remembers {''p''} ''p'' ''n'' 5 (sf_sent demo_desk)"
    by (simp add: demo_desk_eq remembers_def obj_get_def unwrap_or_def obj_sorted_def)
  ultimately show ?thesis
    using edit_is_recognised [where v = 5 and peer = "''d''" and i = "''n''" and Q = "{''p''}" and phone = "''p''" and ops = demo_away
        and render = "\<lambda>_. []" and other = "demo_shelf (demo_note [] ''a'' 5)" and old = "demo_note [] ''a'' 5", OF demo_desk_made _ _ _ _ _ _ _ refl]
      n by (auto simp: demo_desk_eq chain_of_def demo_note_def demo_shelf_def obj_get_def I64_MAX_def)
qed

subsection \<open>What goes in a packet\<close>

definition text_size :: "(json \<Rightarrow> string) \<Rightarrow> json list \<Rightarrow> nat" where
  "text_size txt vs = sum_list (map (\<lambda>v. length (txt v) + 1) vs)"

lemma index_parts_exact:
  "concat (index_parts txt es sz part) = part @ es
   \<and> (sz = text_size txt part \<longrightarrow> text_size txt part \<le> INDEX_BUDGET \<or> length part \<le> 1 \<longrightarrow>
      (\<forall>p \<in> set (index_parts txt es sz part). text_size txt p \<le> INDEX_BUDGET \<or> length p \<le> 1))"
proof (induction es arbitrary: sz part)
  case (Cons e es)
  show ?case
  proof (cases "INDEX_BUDGET < sz + (length (txt e) + 1) \<and> part \<noteq> []")
    case True
    then show ?thesis using Cons [of "length (txt e) + 1" "[e]"] by (auto simp: Let_def text_size_def)
  next
    case False
    have "sz = text_size txt part \<longrightarrow> text_size txt (part @ [e]) \<le> INDEX_BUDGET \<or> length (part @ [e]) \<le> 1"
      using False by (auto simp: text_size_def)
    then show ?thesis using False Cons [of "sz + (length (txt e) + 1)" "part @ [e]"] by (auto simp: Let_def text_size_def)
  qed
qed simp

lemma item_batches_exact:
  "concat (item_batches txt vs sz batch) = batch @ filter (\<lambda>v. length (txt v) + 1 \<le> MAX_FEATURE_PACKET_BYTES - PACKET_OVERHEAD) vs
   \<and> (sz = text_size txt batch \<longrightarrow> sz \<le> MAX_FEATURE_PACKET_BYTES - PACKET_OVERHEAD \<longrightarrow>
      (\<forall>b \<in> set (item_batches txt vs sz batch). text_size txt b \<le> MAX_FEATURE_PACKET_BYTES - PACKET_OVERHEAD))"
proof (induction vs arbitrary: sz batch)
  case (Cons v vs)
  let ?l = "length (txt v) + 1" and ?max = "MAX_FEATURE_PACKET_BYTES - PACKET_OVERHEAD"
  consider "?max < ?l" | "?l \<le> ?max" "?max < sz + ?l" | "?l \<le> ?max" "sz + ?l \<le> ?max" by linarith
  then show ?case
  proof cases
    case 1
    then show ?thesis using Cons [of sz batch] by (simp add: Let_def)
  next
    case 2
    then show ?thesis using Cons [of ?l "[v]"] by (auto simp: Let_def text_size_def)
  next
    case 3
    then show ?thesis using Cons [of "sz + ?l" "batch @ [v]"] by (auto simp: Let_def text_size_def)
  qed
qed (simp add: text_size_def)

text \<open>
  An index is announced completely and its packets keep their budget: the parts run together are
  all the entries, in order, and each part's text is at most 40 KiB (or a single entry). Of the items
  to be sent exactly those that fit a packet go, in order, and each packet's items fit it.
\<close>

lemma packets_carry_all:
  "concat (map (\<lambda>p. packet_list p ''items'') (index_packets txt stamp sh kind)) = index_entries sh kind
   \<and> list_all (\<lambda>p. text_size txt (packet_list p ''items'') \<le> INDEX_BUDGET \<or> length (packet_list p ''items'') \<le> 1)
       (index_packets txt stamp sh kind)
   \<and> concat (map (\<lambda>p. packet_list p ''items'') (items_packets txt stamp kind vs))
       = filter (\<lambda>v. length (txt v) + 1 \<le> MAX_FEATURE_PACKET_BYTES - PACKET_OVERHEAD) vs
   \<and> list_all (\<lambda>p. text_size txt (packet_list p ''items'') \<le> MAX_FEATURE_PACKET_BYTES - PACKET_OVERHEAD)
       (items_packets txt stamp kind vs)"
proof -
  have items: "packet_list (op_packet stamp kind op ''items'' vs) ''items'' = vs" for op vs
    by (simp add: packet_list_def op_packet_def pk_set_def unwrap_or_def)
  show ?thesis
    using index_parts_exact [of "txt" "index_entries sh kind" 0 "[]"] item_batches_exact [of "txt" vs 0 "[]"]
    by (simp add: index_packets_def items_packets_def items o_def list_all_iff text_size_def)
qed

end

