(* ===== verification/Guards.thy ===== *)
theory Guards
  imports Packet
begin

section \<open>Shared guards\<close>

text \<open>
  What a peer can make the daemon do is bounded here: \<open>src/device_links/limits.rs\<close> (log lines written
  at most every ten seconds per kind, token buckets per device), \<open>lan_scope.rs\<close> (whether the pair of
  addresses a phone is connected over is the local network) and \<open>daemon/validation.rs\<close> (the throttle of
  discovery beacons, the limits on unpaired links, the checks of a presented certificate).

  Time is the monotonic clock in milliseconds, an argument of each operation; \<open>elapsed\<close> is the
  difference, which is zero at worst. A \<open>HashMap\<close> is the association list of the prelude, whose order is
  the one \<open>min_by_key\<close> meets; the \<open>Mutex\<close> around it is never poisoned. An address is the number
  \<open>u32::from\<close> or \<open>u128::from\<close> gives for it. Reading the interfaces from the system and an address from
  text are not modelled, nor is dialling a device.
\<close>

subsection \<open>Log lines\<close>

definition LOG_EVERY :: nat where "LOG_EVERY = 10000"
definition MAX_KEYS :: nat where "MAX_KEYS = 256"

type_synonym log_state = "(string \<times> nat \<times> u64) list"

definition log_limited :: "nat \<Rightarrow> string \<Rightarrow> string \<Rightarrow> log_state \<Rightarrow> string option \<times> log_state" where
  "log_limited now kind line seen =
     (let seen = (if MAX_KEYS \<le> length seen then [] else seen) in
      case obj_get seen kind of
        Some (since, skipped) \<Rightarrow>
          if now - since < LOG_EVERY then (None, obj_insert kind (since, skipped + 1) seen)
          else (Some (''[DeskLink] '' @ line @ '' ('' @ show_nat (unat skipped) @ '' similar skipped)''),
                obj_insert kind (now, 0) seen)
      | None \<Rightarrow> (Some (''[DeskLink] '' @ line), obj_insert kind (now, 0) seen))"

subsection \<open>Token buckets\<close>

type_synonym bucket_keys = "(string \<times> nat \<times> 32 word) list"

record buckets =
  bk_max :: "32 word"
  bk_per :: nat
  bk_keys :: bucket_keys

definition buckets_new :: "32 word \<Rightarrow> nat \<Rightarrow> buckets" where
  "buckets_new m per = \<lparr>bk_max = m, bk_per = per, bk_keys = []\<rparr>"

definition retain_young :: "nat \<Rightarrow> nat \<Rightarrow> bucket_keys \<Rightarrow> bucket_keys" where
  "retain_young now per keys = filter (\<lambda>(_, since, _). now - since < per) keys"

definition take_token :: "nat \<Rightarrow> string \<Rightarrow> buckets \<Rightarrow> bool \<times> buckets" where
  "take_token now key b =
     (let (since, left) = (case obj_get (bk_keys b) key of Some e \<Rightarrow> e | None \<Rightarrow> (now, bk_max b));
          (since, left) = (if bk_per b \<le> now - since then (now, bk_max b) else (since, left))
      in if left = 0 then (False, b\<lparr>bk_keys := obj_insert key (since, left) (bk_keys b)\<rparr>)
         else (True, b\<lparr>bk_keys := obj_insert key (since, left - 1) (bk_keys b)\<rparr>))"

definition allow :: "nat \<Rightarrow> string \<Rightarrow> buckets \<Rightarrow> bool \<times> buckets" where
  "allow now key b =
     (if MAX_KEYS \<le> length (bk_keys b) \<and> obj_get (bk_keys b) key = None then
        (let b = b\<lparr>bk_keys := retain_young now (bk_per b) (bk_keys b)\<rparr> in
         if MAX_KEYS \<le> length (bk_keys b) then (False, b) else take_token now key b)
      else take_token now key b)"

subsection \<open>Addresses of the local network\<close>

datatype host_addr = V4 "32 word" | V6 "128 word"

text \<open>The octets of an IPv4 address, and what the standard library calls private and link-local.\<close>

definition octet :: "nat \<Rightarrow> 32 word \<Rightarrow> 32 word" where
  "octet n ip = drop_bit (8 * (3 - n)) ip mod 256"

definition is_private :: "32 word \<Rightarrow> bool" where
  "is_private ip \<longleftrightarrow> octet 0 ip = 10 \<or> (octet 0 ip = 172 \<and> 16 \<le> octet 1 ip \<and> octet 1 ip \<le> 31)
     \<or> (octet 0 ip = 192 \<and> octet 1 ip = 168)"

definition is_link_local :: "32 word \<Rightarrow> bool" where
  "is_link_local ip \<longleftrightarrow> octet 0 ip = 169 \<and> octet 1 ip = 254"

definition to_ipv4_mapped :: "128 word \<Rightarrow> 32 word option" where
  "to_ipv4_mapped ip = (if drop_bit 32 ip = 0xffff then Some (ucast ip) else None)"

fun is_private_or_link_local :: "host_addr \<Rightarrow> bool" where
  "is_private_or_link_local (V4 ip) \<longleftrightarrow> is_private ip \<or> is_link_local ip"
| "is_private_or_link_local (V6 ip) \<longleftrightarrow>
     (let first = (ucast (drop_bit 112 ip) :: 16 word) in
      and first 0xffc0 = 0xfe80 \<or> and first 0xfe00 = 0xfc00
      \<or> (case to_ipv4_mapped ip of Some v4 \<Rightarrow> is_private v4 \<or> is_link_local v4 | None \<Rightarrow> False))"

definition prefix_mask :: "nat \<Rightarrow> nat \<Rightarrow> 'a::len word" where
  "prefix_mask width prefix = (if prefix = 0 then 0 else push_bit (width - prefix) (- 1))"

fun in_subnet :: "host_addr \<Rightarrow> host_addr \<Rightarrow> byte \<Rightarrow> bool" where
  "in_subnet (V4 ip) (V4 net) prefix \<longleftrightarrow>
     and ip (prefix_mask 32 (min (unat prefix) 32)) = and net (prefix_mask 32 (min (unat prefix) 32))"
| "in_subnet (V6 ip) (V6 net) prefix \<longleftrightarrow>
     and ip (prefix_mask 128 (min (unat prefix) 128)) = and net (prefix_mask 128 (min (unat prefix) 128))"
| "in_subnet _ _ prefix \<longleftrightarrow> False"

definition is_nearby :: "host_addr \<Rightarrow> host_addr \<Rightarrow> (host_addr \<times> byte) list \<Rightarrow> bool" where
  "is_nearby here remote interfaces \<longleftrightarrow>
     is_private_or_link_local here \<and> is_private_or_link_local remote
     \<and> list_ex (\<lambda>(own, prefix). own = here \<and> in_subnet remote own prefix) interfaces"

definition count_ones :: "'a::len word \<Rightarrow> nat" where
  "count_ones w = length (filter (bit w) [0..<LENGTH('a)])"

fun prefix_of :: "host_addr \<Rightarrow> byte" where
  "prefix_of (V4 netmask) = word_of_nat (count_ones netmask)"
| "prefix_of (V6 netmask) = word_of_nat (count_ones netmask)"

subsection \<open>Connections\<close>

definition MAX_UNPAIRED_CONNECTIONS :: nat where "MAX_UNPAIRED_CONNECTIONS = 42"
definition MIN_CONNECTION_INTERVAL :: nat where "MIN_CONNECTION_INTERVAL = 500"
definition MAX_RATE_LIMIT_ENTRIES :: nat where "MAX_RATE_LIMIT_ENTRIES = 255"
definition MAX_UNPAIRED_PER_ADDRESS :: nat where "MAX_UNPAIRED_PER_ADDRESS = 2"

type_synonym last_connections = "(string \<times> nat) list"

fun oldest :: "last_connections \<Rightarrow> (string \<times> nat) option" where
  "oldest [] = None"
| "oldest (e # es) = (case oldest es of None \<Rightarrow> Some e | Some o' \<Rightarrow> if snd e \<le> snd o' then Some e else Some o')"

lemma oldest_in: "oldest es = Some e \<Longrightarrow> e \<in> set es"
  by (induction es arbitrary: e) (auto split: option.splits if_splits)

function evict_oldest :: "last_connections \<Rightarrow> last_connections" where
  "evict_oldest es =
     (if MAX_RATE_LIMIT_ENTRIES \<le> length es then
        (case oldest es of
           Some (i, _) \<Rightarrow> evict_oldest (filter (\<lambda>(k, _). k \<noteq> i) es)
         | None \<Rightarrow> es)
      else es)"
  by pat_completeness auto
termination
  by (relation "measure length") (auto dest!: oldest_in intro: length_filter_less)

declare evict_oldest.simps [simp del]

definition should_throttle_connection :: "nat \<Rightarrow> string \<Rightarrow> last_connections \<Rightarrow> bool \<times> last_connections" where
  "should_throttle_connection now d es =
     (if (case obj_get es d of Some since \<Rightarrow> now - since < MIN_CONNECTION_INTERVAL | None \<Rightarrow> False) then (True, es)
      else
        (let es = (if MAX_RATE_LIMIT_ENTRIES \<le> length es
                   then filter (\<lambda>(_, since). now - since < MIN_CONNECTION_INTERVAL) es else es)
         in (False, obj_insert d now (evict_oldest es))))"

definition address_is_full :: "string list \<Rightarrow> string \<Rightarrow> bool" where
  "address_is_full held address \<longleftrightarrow> MAX_UNPAIRED_PER_ADDRESS \<le> length (filter (\<lambda>h. h = address) held)"

datatype link_limit = TooManyUnpaired | TooManyFromAddress

text \<open>
  \<open>unpaired\<close>: the ids of \<open>DeviceManager::unpaired_session_ids\<close>; \<open>address_of\<close>: the address in the view of
  a device.
\<close>

definition enforce_unpaired_link_limit ::
  "(string \<Rightarrow> bool) \<Rightarrow> string list \<Rightarrow> (string \<Rightarrow> string option) \<Rightarrow> string \<Rightarrow> string \<Rightarrow> (link_limit, unit) result" where
  "enforce_unpaired_link_limit is_trusted unpaired address_of d address =
     (if is_trusted d then Inr ()
      else if MAX_UNPAIRED_CONNECTIONS \<le> length unpaired then Inl TooManyUnpaired
      else if address_is_full (List.map_filter address_of (filter (\<lambda>i. i \<noteq> d) unpaired)) address
      then Inl TooManyFromAddress
      else Inr ())"

datatype certificate_error = CertificateChanged | CertificateNameless | CertificateOther | CertificateUnreadable

text \<open>\<open>pem\<close>: the certificate as text, if it can be written and is UTF-8.\<close>

definition validate_pinned_certificate ::
  "(string \<Rightarrow> string option) \<Rightarrow> string \<Rightarrow> string option \<Rightarrow> (certificate_error, unit) result" where
  "validate_pinned_certificate trusted_certificate_pem d pem =
     (case trusted_certificate_pem d of
        None \<Rightarrow> Inr ()
      | Some expected \<Rightarrow>
          (case pem of
             None \<Rightarrow> Inl CertificateUnreadable
           | Some actual \<Rightarrow> if expected = actual then Inr () else Inl CertificateChanged))"

text \<open>\<open>names\<close>: the common names of the subject, each as text if it is UTF-8.\<close>

definition validate_certificate_device_id :: "string option list \<Rightarrow> string \<Rightarrow> (certificate_error, unit) result" where
  "validate_certificate_device_id names d =
     (case names of
        [] \<Rightarrow> Inl CertificateNameless
      | None # _ \<Rightarrow> Inl CertificateUnreadable
      | Some name # _ \<Rightarrow> if name = d then Inr () else Inl CertificateOther)"
subsection \<open>What the buckets hold\<close>

definition buckets_wf :: "32 word \<Rightarrow> nat \<Rightarrow> buckets \<Rightarrow> bool" where
  "buckets_wf m per b \<longleftrightarrow> bk_max b = m \<and> bk_per b = per \<and> obj_sorted (bk_keys b) \<and> length (bk_keys b) \<le> MAX_KEYS"

fun allowed :: "string \<Rightarrow> (nat \<times> string) list \<Rightarrow> buckets \<Rightarrow> nat \<times> buckets" where
  "allowed key [] b = (0, b)"
| "allowed key ((now, k) # reqs) b =
     (let (ok, b) = allow now k b; (n, b) = allowed key reqs b in ((if ok \<and> k = key then 1 else 0) + n, b))"

text \<open>What is left for a key until \<open>t\<close>: its tokens, and a refill for every period since it was filled.\<close>

definition outlook :: "nat \<Rightarrow> nat \<Rightarrow> string \<Rightarrow> buckets \<Rightarrow> nat" where
  "outlook now t key b =
     (case obj_get (bk_keys b) key of
        Some (since, left) \<Rightarrow> unat left + unat (bk_max b) * ((t - since) div bk_per b)
      | None \<Rightarrow> unat (bk_max b) * Suc ((t - now) div bk_per b))"

definition filled_by :: "nat \<Rightarrow> string \<Rightarrow> buckets \<Rightarrow> bool" where
  "filled_by now key b \<longleftrightarrow> (case obj_get (bk_keys b) key of Some (since, left) \<Rightarrow> since \<le> now \<and> left \<le> bk_max b | None \<Rightarrow> True)"

lemma refill_div:
  assumes "0 < per" "per \<le> now - since" "now \<le> (t::nat)"
  shows "Suc ((t - now) div per) \<le> (t - since) div per"
proof -
  have "(t - now) + per \<le> t - since" using assms by simp
  then have "((t - now) + per) div per \<le> (t - since) div per" by (rule div_le_mono)
  then show ?thesis using assms(1) by simp
qed

lemma outlook_refill:
  assumes "0 < per" "per \<le> now - since" "now \<le> t"
  shows "m * Suc ((t - now) div per) \<le> left + m * ((t - since) div per)"
  using mult_le_mono2 [OF refill_div [OF assms], of m] by simp

lemma outlook_later:
  assumes "now \<le> now'" shows "outlook now' t key b \<le> outlook now t key b"
proof -
  have "(t - now') div bk_per b \<le> (t - now) div bk_per b" using assms by (intro div_le_mono) simp
  then show ?thesis by (simp add: outlook_def mult_le_mono2 split: option.split)
qed

lemma take_token_sets: "\<exists>v. snd (take_token now k b) = b\<lparr>bk_keys := obj_insert k v (bk_keys b)\<rparr>"
  unfolding take_token_def Let_def by (auto split: prod.split)

lemma take_token_wf:
  assumes "buckets_wf m per b" "length (bk_keys b) < MAX_KEYS \<or> obj_get (bk_keys b) key \<noteq> None"
  shows "buckets_wf m per (snd (take_token now key b))"
proof -
  have len: "length (obj_insert key v (bk_keys b)) \<le> MAX_KEYS" for v
    using assms length_obj_insert [of key v "bk_keys b"] length_obj_insert_known [of "bk_keys b" key v]
    by (auto simp: buckets_wf_def)
  then show ?thesis using assms(1) take_token_sets [of now key b]
    by (auto simp: buckets_wf_def obj_sorted_insert)
qed

lemma retain_wf: "buckets_wf m per b \<Longrightarrow> buckets_wf m per (b\<lparr>bk_keys := retain_young now per (bk_keys b)\<rparr>)"
  by (auto simp: buckets_wf_def retain_young_def obj_sorted_filter intro: order_trans [OF length_filter_le])

lemma allow_wf: "buckets_wf m per b \<Longrightarrow> buckets_wf m per (snd (allow now key b))"
proof -
  assume wf: "buckets_wf m per b"
  then have "bk_per b = per" by (simp add: buckets_wf_def)
  then show ?thesis
    using retain_wf [OF wf, of now] take_token_wf [OF wf, of key now]
      take_token_wf [OF retain_wf [OF wf, of now], of key now]
    by (auto simp: allow_def Let_def not_le)
qed

lemma take_token_spends:
  assumes "0 < bk_per b" "filled_by now key b" "now \<le> t"
  shows "(if fst (take_token now key b) then 1 else 0) + outlook now t key (snd (take_token now key b)) \<le> outlook now t key b
    \<and> filled_by now key (snd (take_token now key b))"
proof -
  have spend: "Suc (unat (left - 1)) = unat left" and less: "left - 1 \<le> left" if "left \<noteq> 0" for left :: "32 word"
  proof -
    have "unat left \<noteq> 0" using that by (simp add: unat_eq_zero)
    then have "1 \<le> left" by (simp add: word_le_nat_alt)
    then have "unat (left - 1) = unat left - 1" by (simp add: unat_sub)
    then show "Suc (unat (left - 1)) = unat left" "left - 1 \<le> left"
      using \<open>unat left \<noteq> 0\<close> by (simp_all add: word_le_nat_alt)
  qed
  have fresh: ?thesis if "take_token now key b =
      (if bk_max b = 0 then (False, b\<lparr>bk_keys := obj_insert key (now, bk_max b) (bk_keys b)\<rparr>)
       else (True, b\<lparr>bk_keys := obj_insert key (now, bk_max b - 1) (bk_keys b)\<rparr>))"
    and "unat (bk_max b) * Suc ((t - now) div bk_per b) \<le> outlook now t key b"
    using that spend [of "bk_max b"] less [of "bk_max b"] by (auto simp: outlook_def filled_by_def)
  show ?thesis
  proof (cases "obj_get (bk_keys b) key")
    case None
    then show ?thesis using assms(1) by (intro fresh) (simp_all add: take_token_def outlook_def)
  next
    case (Some e)
    obtain since left where e: "e = (since, left)" by (cases e)
    show ?thesis
    proof (cases "bk_per b \<le> now - since")
      case True
      show ?thesis
        using outlook_refill [OF assms(1) True assms(3), of "unat (bk_max b)" "unat left"] True Some e
        by (intro fresh) (simp_all add: take_token_def outlook_def)
    next
      case False
      then show ?thesis using assms(2) Some e spend [of left] less [of left]
        by (auto simp: take_token_def outlook_def filled_by_def intro: order_trans)
    qed
  qed
qed

lemma take_token_other:
  assumes "k \<noteq> key"
  shows "outlook now t key (snd (take_token now' k b)) = outlook now t key b"
    and "filled_by now key (snd (take_token now' k b)) = filled_by now key b"
proof -
  obtain v where "snd (take_token now' k b) = b\<lparr>bk_keys := obj_insert k v (bk_keys b)\<rparr>" using take_token_sets by blast
  then show "outlook now t key (snd (take_token now' k b)) = outlook now t key b"
    and "filled_by now key (snd (take_token now' k b)) = filled_by now key b"
    using assms by (auto simp: outlook_def filled_by_def split: option.split)
qed

lemma retain_outlook:
  assumes "buckets_wf m per b" "0 < per" "filled_by now key b" "now \<le> t"
  shows "outlook now t key (b\<lparr>bk_keys := retain_young now per (bk_keys b)\<rparr>) \<le> outlook now t key b
    \<and> filled_by now key (b\<lparr>bk_keys := retain_young now per (bk_keys b)\<rparr>)"
proof (cases "obj_get (bk_keys b) key")
  case (Some e)
  obtain since left where e: "e = (since, left)" by (cases e)
  show ?thesis using assms Some e outlook_refill [OF assms(2) _ assms(4), of since m' left' for m' left']
    by (auto simp: outlook_def filled_by_def retain_young_def obj_get_filter_sorted buckets_wf_def not_less
        simp del: mult_Suc_right)
next
  case None
  then show ?thesis using assms
    by (simp add: outlook_def filled_by_def retain_young_def obj_get_filter_sorted buckets_wf_def)
qed

lemma allow_spends:
  assumes "buckets_wf m per b" "0 < per" "filled_by now key b" "now \<le> t"
  shows "(if fst (allow now k b) \<and> k = key then 1 else 0) + outlook now t key (snd (allow now k b)) \<le> outlook now t key b
    \<and> filled_by now key (snd (allow now k b))"
proof -
  let ?b = "b\<lparr>bk_keys := retain_young now per (bk_keys b)\<rparr>"
  have per: "bk_per b = per" using assms(1) by (simp add: buckets_wf_def)
  have token: "(if fst (take_token now k c) \<and> k = key then 1 else 0) + outlook now t key (snd (take_token now k c)) \<le> outlook now t key c
      \<and> filled_by now key (snd (take_token now k c))" if "filled_by now key c" "bk_per c = per" for c
    using take_token_spends [of c now key t] take_token_other [where k = k and key = key and now = now and now' = now and b = c] that assms(2,4) by (cases "k = key") simp_all
  show ?thesis
    using token [OF assms(3) per] token [of ?b] retain_outlook [OF assms] per by (auto simp: allow_def Let_def)
qed

lemma allowed_spends:
  assumes "buckets_wf m per b" "0 < per" "filled_by now key b" "sorted (now # map fst reqs)" "\<forall>r\<in>set reqs. fst r \<le> t"
  shows "fst (allowed key reqs b) \<le> outlook now t key b \<and> buckets_wf m per (snd (allowed key reqs b))"
  using assms
proof (induction reqs arbitrary: b now)
  case (Cons r reqs)
  obtain now' k where r: "r = (now', k)" by (cases r)
  have filled: "filled_by now' key b" using Cons.prems(3,4) by (auto simp: filled_by_def r split: option.splits)
  have le: "now \<le> now'" "now' \<le> t" using Cons.prems(4,5) by (auto simp: r)
  note spends = allow_spends [OF Cons.prems(1,2) filled le(2), of k]
  have "fst (allowed key reqs (snd (allow now' k b))) \<le> outlook now' t key (snd (allow now' k b))
      \<and> buckets_wf m per (snd (allowed key reqs (snd (allow now' k b))))"
    using Cons.prems(2,4,5) spends by (intro Cons.IH allow_wf [OF Cons.prems(1)]) (auto simp: r)
  then show ?case using spends outlook_later [OF le(1), of t key b]
    by (auto simp: r Let_def split: prod.split)
qed simp

text \<open>
  C18. Token buckets hold: of any sequence of requests, from any number of devices, the bucket gives one
  device at most its maximum for every period begun, and it never remembers more than \<open>MAX_KEYS\<close> devices.
\<close>

theorem buckets_hold:
  assumes "0 < per" and "sorted (t0 # map fst reqs)" and "\<forall>r\<in>set reqs. fst r \<le> t1"
  shows "fst (allowed key reqs (buckets_new m per)) \<le> unat m * Suc ((t1 - t0) div per)
    \<and> length (bk_keys (snd (allowed key reqs (buckets_new m per)))) \<le> MAX_KEYS"
  using allowed_spends [of m per "buckets_new m per" t0 key reqs t1] assms
  by (simp add: buckets_new_def buckets_wf_def filled_by_def outlook_def obj_sorted_def)

theorem buckets_hold_witness:
  "fst (allowed ''a'' [(0, ''a''), (1, ''a''), (2, ''b'')] (buckets_new 1 60)) \<le> unat (1 :: 32 word) * Suc ((2 - 0) div 60)
    \<and> length (bk_keys (snd (allowed ''a'' [(0, ''a''), (1, ''a''), (2, ''b'')] (buckets_new 1 60)))) \<le> MAX_KEYS"
  by (rule buckets_hold) simp_all
subsection \<open>What nearby means\<close>

lemma masked_eq_iff:
  fixes a b :: "'a::len word"
  shows "and a (push_bit k (- 1)) = and b (push_bit k (- 1)) \<longleftrightarrow> drop_bit k a = drop_bit k b"
proof
  assume masked: "and a (push_bit k (- 1)) = and b (push_bit k (- 1))"
  have "bit a (k + n) = bit b (k + n)" for n
  proof (cases "k + n < LENGTH('a)")
    case True
    then show ?thesis using arg_cong [OF masked, of "\<lambda>w. bit w (k + n)"] by (simp add: bit_simps)
  next
    case False
    then show ?thesis using bit_imp_le_length [of a "k + n"] bit_imp_le_length [of b "k + n"] by blast
  qed
  then show "drop_bit k a = drop_bit k b" by (auto intro!: bit_word_eqI simp: bit_simps)
next
  assume "drop_bit k a = drop_bit k b"
  then have "bit (drop_bit k a) n = bit (drop_bit k b) n" for n by simp
  then have "bit a (k + n) = bit b (k + n)" for n by (simp add: bit_drop_bit_eq)
  then show "and a (push_bit k (- 1)) = and b (push_bit k (- 1))"
    by (auto intro!: bit_word_eqI simp: bit_simps not_less dest!: le_Suc_ex)
qed

lemma subnet_iff:
  fixes a b :: "'a::len word"
  assumes "p \<le> LENGTH('a)"
  shows "and a (prefix_mask LENGTH('a) p) = and b (prefix_mask LENGTH('a) p)
    \<longleftrightarrow> unat a div 2 ^ (LENGTH('a) - p) = unat b div 2 ^ (LENGTH('a) - p)"
proof (cases "p = 0")
  case True
  then show ?thesis by (simp add: prefix_mask_def unsigned_less)
next
  case False
  have "drop_bit k a = drop_bit k b \<longleftrightarrow> unat a div 2 ^ k = unat b div 2 ^ k" for k
    by (simp add: word_unat_eq_iff unat_drop_bit_eq flip: drop_bit_eq_div)
  then show ?thesis unfolding prefix_mask_def if_not_P [OF False] masked_eq_iff .
qed

text \<open>A netmask and its prefix length determine each other.\<close>

lemma count_ones_mask: "p \<le> LENGTH('a) \<Longrightarrow> count_ones (prefix_mask LENGTH('a) p :: 'a::len word) = p"
proof (cases "p = 0")
  case False
  assume p: "p \<le> LENGTH('a)"
  have "filter (bit (prefix_mask LENGTH('a) p :: 'a word)) [0..<LENGTH('a)] = filter (\<lambda>n. LENGTH('a) - p \<le> n) [0..<LENGTH('a)]"
    using False by (intro filter_cong) (auto simp: prefix_mask_def bit_simps)
  moreover have "[0..<LENGTH('a)] = [0..<LENGTH('a) - p] @ [LENGTH('a) - p..<LENGTH('a)]"
    using upt_add_eq_append [of 0 "LENGTH('a) - p" p] p by simp
  then have "filter (\<lambda>n. LENGTH('a) - p \<le> n) [0..<LENGTH('a)] = [LENGTH('a) - p..<LENGTH('a)]"
    by (simp add: filter_empty_conv)
  ultimately show ?thesis using p by (simp add: count_ones_def)
qed (simp add: count_ones_def prefix_mask_def)

lemma prefix_of_mask:
  "p \<le> 32 \<Longrightarrow> prefix_of (V4 (prefix_mask 32 p)) = word_of_nat p"
  "p \<le> 128 \<Longrightarrow> prefix_of (V6 (prefix_mask 128 p)) = word_of_nat p"
  using count_ones_mask [of p, where 'a = 32] count_ones_mask [of p, where 'a = 128] by simp_all

definition v4_range :: "nat \<Rightarrow> bool" where
  "v4_range a \<longleftrightarrow> a div 2 ^ 24 = 10 \<or> a div 2 ^ 20 = 172 * 16 + 1 \<or> a div 2 ^ 16 = 192 * 256 + 168 \<or> a div 2 ^ 16 = 169 * 256 + 254"

lemma unat_octet: "unat (octet n ip) = unat ip div 2 ^ (8 * (3 - n)) mod 256"
  by (simp add: octet_def unat_mod unat_drop_bit_eq flip: drop_bit_eq_div)

lemma octet_0: "unat (octet 0 ip) = unat ip div 2 ^ 24"
proof -
  have "unat ip div 2 ^ 24 < 256" 
    by (rule less_mult_imp_div_less) (use unsigned_less [of ip] in simp)
  then show ?thesis by (simp add: unat_octet)
qed

lemma digits_iff:
  assumes "r < n" "b < (n::nat)" shows "n * q + r = n * a + b \<longleftrightarrow> q = a \<and> r = b"
proof
  assume eq: "n * q + r = n * a + b"
  show "q = a \<and> r = b"
    using arg_cong [OF eq, of "\<lambda>x. x div n"] arg_cong [OF eq, of "\<lambda>x. x mod n"] assms by simp
qed simp

lemma v4_range_iff: "is_private ip \<or> is_link_local ip \<longleftrightarrow> v4_range (unat ip)"
proof -
  have eq: "w = numeral k \<longleftrightarrow> unat w = unat (numeral k :: 32 word)" for w :: "32 word" and k by (simp add: word_unat_eq_iff)
  have o1: "unat (octet 1 ip) = unat ip div 2 ^ 16 mod 256" by (simp add: unat_octet)
  have split: "unat ip div 2 ^ 24 = unat ip div 2 ^ 16 div 256" "unat ip div 2 ^ 20 = unat ip div 2 ^ 16 div 16"
    by (simp_all add: div_mult2_eq [symmetric])
  define x where "x = unat ip div 2 ^ 16"
  obtain q r where x: "x = 256 * q + r" "r < 256" by (metis mod_less_divisor mult_div_mod_eq zero_less_numeral)
  have parts: "x div 16 = 16 * q + r div 16" "x div 256 = q" "x mod 256 = r" using x by simp_all
  have "r div 16 < 16" using x(2) by (simp add: less_mult_imp_div_less)
  then have "x div 16 = 172 * 16 + 1 \<longleftrightarrow> q = 172 \<and> r div 16 = 1" unfolding parts using digits_iff [of "r div 16" 16 1 q 172] by simp
  also have "r div 16 = 1 \<longleftrightarrow> 16 \<le> r \<and> r \<le> 31" by (auto simp: div_nat_eqI)
  finally have range: "x div 16 = 172 * 16 + 1 \<longleftrightarrow> x div 256 = 172 \<and> 16 \<le> x mod 256 \<and> x mod 256 \<le> 31"
    unfolding parts .
  have pair: "x = 192 * 256 + 168 \<longleftrightarrow> x div 256 = 192 \<and> x mod 256 = 168"
    "x = 169 * 256 + 254 \<longleftrightarrow> x div 256 = 169 \<and> x mod 256 = 254" unfolding parts x(1) using x(2) digits_iff [of r 256 168 q 192] digits_iff [of r 256 254 q 169] by simp_all
  show ?thesis
    unfolding is_private_def is_link_local_def v4_range_def eq word_le_nat_alt octet_0 o1 split x_def [symmetric] range pair
    by simp
qed

text \<open>Addresses by their numbers: the private and link-local blocks, and the first bits two addresses share.\<close>

fun local_block :: "host_addr \<Rightarrow> bool" where
  "local_block (V4 a) \<longleftrightarrow> v4_range (unat a)"
| "local_block (V6 a) \<longleftrightarrow> unat a div 2 ^ 118 = 0x3fa \<or> unat a div 2 ^ 121 = 0x7e
     \<or> (unat a div 2 ^ 32 = 0xffff \<and> v4_range (unat a mod 2 ^ 32))"

fun share_prefix :: "nat \<Rightarrow> host_addr \<Rightarrow> host_addr \<Rightarrow> bool" where
  "share_prefix p (V4 a) (V4 b) \<longleftrightarrow> unat a div 2 ^ (32 - p) = unat b div 2 ^ (32 - p)"
| "share_prefix p (V6 a) (V6 b) \<longleftrightarrow> unat a div 2 ^ (128 - p) = unat b div 2 ^ (128 - p)"
| "share_prefix p _ _ \<longleftrightarrow> False"

lemma in_subnet_iff: "in_subnet a b p \<longleftrightarrow> share_prefix (unat p) a b"
proof (cases "(a, b, p)" rule: in_subnet.cases)
  case (1 ip net prefix)
  then show ?thesis using subnet_iff [of "min (unat prefix) 32" ip net] by (simp add: min_def)
next
  case (2 ip net prefix)
  then show ?thesis using subnet_iff [of "min (unat prefix) 128" ip net] by (simp add: min_def)
qed simp_all

lemma first_block:
  fixes ip :: "128 word"
  shows "and (ucast (drop_bit 112 ip) :: 16 word) 0xffc0 = 0xfe80 \<longleftrightarrow> unat ip div 2 ^ 118 = 0x3fa"
    and "and (ucast (drop_bit 112 ip) :: 16 word) 0xfe00 = 0xfc00 \<longleftrightarrow> unat ip div 2 ^ 121 = 0x7e"
proof -
  let ?first = "ucast (drop_bit 112 ip) :: 16 word"
  have "unat ip div 2 ^ 112 < 2 ^ 16" by (rule less_mult_imp_div_less) (use unsigned_less [of ip] in simp)
  then have first: "unat ?first = unat ip div 2 ^ 112"
    by (simp add: unsigned_ucast_eq unat_drop_bit_eq take_bit_nat_eq_self_iff drop_bit_nat_def)
  have drop: "unat (drop_bit k ?first) = unat ip div 2 ^ (112 + k)" for k
    by (simp only: unat_drop_bit_eq first drop_bit_nat_def div_mult2_eq power_add)
  have mask6: "push_bit 6 (- 1) = (0xffc0 :: 16 word)" and mask9: "push_bit 9 (- 1) = (0xfe00 :: 16 word)"
    by (simp_all only: push_bit_eq_mult, simp_all)
  have "and ?first 0xffc0 = 0xfe80 \<longleftrightarrow> and ?first (push_bit 6 (- 1)) = and 0xfe80 (push_bit 6 (- 1))"
    unfolding mask6 by simp
  also have "\<dots> \<longleftrightarrow> drop_bit 6 ?first = drop_bit 6 0xfe80" by (rule masked_eq_iff)
  also have "\<dots> \<longleftrightarrow> unat ip div 2 ^ 118 = 0x3fa" unfolding word_unat_eq_iff drop by simp
  finally show "and ?first 0xffc0 = 0xfe80 \<longleftrightarrow> unat ip div 2 ^ 118 = 0x3fa" .
  have "and ?first 0xfe00 = 0xfc00 \<longleftrightarrow> and ?first (push_bit 9 (- 1)) = and 0xfc00 (push_bit 9 (- 1))"
    unfolding mask9 by simp
  also have "\<dots> \<longleftrightarrow> drop_bit 9 ?first = drop_bit 9 0xfc00" by (rule masked_eq_iff)
  also have "\<dots> \<longleftrightarrow> unat ip div 2 ^ 121 = 0x7e" unfolding word_unat_eq_iff drop by simp
  finally show "and ?first 0xfe00 = 0xfc00 \<longleftrightarrow> unat ip div 2 ^ 121 = 0x7e" .
qed

lemma local_block_iff: "is_private_or_link_local a \<longleftrightarrow> local_block a"
proof (cases a)
  case (V4 ip)
  then show ?thesis by (simp add: v4_range_iff)
next
  case (V6 ip)
  have "drop_bit 32 ip = 0xffff \<longleftrightarrow> unat ip div 2 ^ 32 = 0xffff"
    by (simp add: word_unat_eq_iff unat_drop_bit_eq drop_bit_nat_def)
  moreover have "unat (ucast ip :: 32 word) = unat ip mod 2 ^ 32" by (simp add: unsigned_ucast_eq take_bit_eq_mod)
  ultimately show ?thesis
    using v4_range_iff [of "ucast ip"] by (simp add: V6 Let_def first_block to_ipv4_mapped_def)
qed

text \<open>
  C19. A phone is nearby exactly when both addresses of the pair are in a private or link-local block, this
  end is an address of one of the computer's interfaces, and the phone's address agrees with it in the
  first bits that the interface's prefix counts. An IPv4 and an IPv6 address are never on one network.
\<close>

theorem nearby_iff_attached:
  "is_nearby here remote interfaces \<longleftrightarrow>
     local_block here \<and> local_block remote \<and> (\<exists>p. (here, p) \<in> set interfaces \<and> share_prefix (unat p) remote here)"
  by (auto simp: is_nearby_def local_block_iff in_subnet_iff list_ex_iff)

subsection \<open>What the limits on connections give\<close>

lemma evict_oldest_short: "length (evict_oldest es) < MAX_RATE_LIMIT_ENTRIES"
proof (induction es rule: evict_oldest.induct)
  case (1 es)
  show ?case
  proof (cases "MAX_RATE_LIMIT_ENTRIES \<le> length es")
    case True
    then have "oldest es \<noteq> None" by (cases es) (auto simp: MAX_RATE_LIMIT_ENTRIES_def split: option.split)
    then obtain i since where "oldest es = Some (i, since)" by auto
    then show ?thesis using 1 True by (simp add: evict_oldest.simps [of es])
  qed (simp add: evict_oldest.simps [of es])
qed

text \<open>
  A beacon is throttled only when the same device was let through less than the interval ago, whatever
  else fills the table, and the table stays within its bound.
\<close>

lemma throttle_iff:
  "fst (should_throttle_connection now d es) \<longleftrightarrow> (\<exists>since. obj_get es d = Some since \<and> now - since < MIN_CONNECTION_INTERVAL)"
  by (auto simp: should_throttle_connection_def Let_def split: option.splits)

lemma throttle_bounded:
  assumes "length es \<le> MAX_RATE_LIMIT_ENTRIES"
  shows "length (snd (should_throttle_connection now d es)) \<le> MAX_RATE_LIMIT_ENTRIES"
proof -
  have "length (obj_insert d now (evict_oldest es')) \<le> MAX_RATE_LIMIT_ENTRIES" for es'
    using length_obj_insert [of d now "evict_oldest es'"] evict_oldest_short [of es'] by simp
  then show ?thesis using assms by (simp add: should_throttle_connection_def Let_def)
qed

lemma throttle_remembers: "\<not> fst (should_throttle_connection now d es) \<Longrightarrow>
    obj_get (snd (should_throttle_connection now d es)) d = Some now"
  by (simp add: should_throttle_connection_def Let_def split: if_splits)

text \<open>
  Unpaired links as they are let in one after another: each under its own id, from its address, a link of
  the same id replacing the earlier one.
\<close>

definition admit :: "(string \<Rightarrow> bool) \<Rightarrow> string \<Rightarrow> string \<Rightarrow> (string \<times> string) list \<Rightarrow> (string \<times> string) list" where
  "admit is_trusted d address links =
     (if is_trusted d \<or> enforce_unpaired_link_limit is_trusted (map fst links) (map_of links) d address \<noteq> Inr () then links
      else (d, address) # filter (\<lambda>(i, _). i \<noteq> d) links)"

definition links_limited :: "(string \<times> string) list \<Rightarrow> bool" where
  "links_limited links \<longleftrightarrow> distinct (map fst links) \<and> length links \<le> MAX_UNPAIRED_CONNECTIONS
     \<and> (\<forall>a. length (filter (\<lambda>(_, b). b = a) links) \<le> MAX_UNPAIRED_PER_ADDRESS)"

lemma held_addresses:
  assumes "distinct (map fst links)"
  shows "List.map_filter (map_of links) (filter (\<lambda>i. i \<noteq> d) (map fst links)) = map snd (filter (\<lambda>(i, _). i \<noteq> d) links)"
proof -
  have "List.map_filter (map_of links) (filter (\<lambda>i. i \<noteq> d) (map fst ls)) = map snd (filter (\<lambda>(i, _). i \<noteq> d) ls)"
    if "set ls \<subseteq> set links" for ls
    using that
  proof (induction ls)
    case (Cons l ls)
    obtain i a where l: "l = (i, a)" by (cases l)
    have "map_of links i = Some a" using Cons.prems assms by (simp add: l)
    then show ?case using Cons by (simp add: l List.map_filter_def)
  qed (simp add: List.map_filter_def)
  then show ?thesis by blast
qed

lemma admit_keeps_limits: "links_limited links \<Longrightarrow> links_limited (admit is_trusted d address links)"
proof -
  assume ok: "links_limited links"
  let ?rest = "filter (\<lambda>(i, _). i \<noteq> d) links"
  show ?thesis
  proof (cases "is_trusted d \<or> enforce_unpaired_link_limit is_trusted (map fst links) (map_of links) d address \<noteq> Inr ()")
    case False
    have dist: "distinct (map fst links)" using ok by (simp add: links_limited_def)
    have room: "length links < MAX_UNPAIRED_CONNECTIONS"
      and "\<not> address_is_full (map snd ?rest) address"
      using False by (auto simp: enforce_unpaired_link_limit_def held_addresses [OF dist] split: if_splits)
    then have free: "length (filter (\<lambda>(_, b). b = address) ?rest) < MAX_UNPAIRED_PER_ADDRESS"
      by (simp add: address_is_full_def filter_map o_def case_prod_unfold not_le)
    have others: "length (filter (\<lambda>(_, b). b = a) ?rest) \<le> MAX_UNPAIRED_PER_ADDRESS" for a
    proof -
      have "length (filter (\<lambda>(_, b). b = a) ?rest) \<le> length (filter (\<lambda>(_, b). b = a) links)"
        by (induction links) auto
      then show ?thesis using ok by (auto simp: links_limited_def intro: order_trans)
    qed
    have "length (filter (\<lambda>(_, b). b = a) ((d, address) # ?rest)) \<le> MAX_UNPAIRED_PER_ADDRESS" for a
      using free others [of a] by (auto simp del: filter_filter)
    moreover have "distinct (map fst ?rest)" using dist by (induction links) auto
    moreover have "Suc (length ?rest) \<le> MAX_UNPAIRED_CONNECTIONS"
      using room length_filter_le [of "\<lambda>(i, _). i \<noteq> d" links] by linarith
    ultimately show ?thesis using False by (auto simp: admit_def links_limited_def simp del: filter_filter)
  qed (use ok in \<open>simp add: admit_def\<close>)
qed

text \<open>A device that was paired is accepted only with the very certificate it was paired with.\<close>

lemma pinned_certificate_iff:
  "validate_pinned_certificate pinned d pem = Inr () \<longleftrightarrow> pinned d = None \<or> (pinned d = pem \<and> pem \<noteq> None)"
  by (auto simp: validate_pinned_certificate_def split: option.splits)

lemma certificate_names_device:
  "validate_certificate_device_id names d = Inr () \<longleftrightarrow> (\<exists>rest. names = Some d # rest)"
  by (auto simp: validate_certificate_device_id_def split: list.splits option.splits)

end

