(* ===== verification/Resync.thy ===== *)
theory Resync
  imports Notes Guards
begin

section \<open>Delta resync\<close>

text \<open>
  \<open>src/device_links/sync.rs\<close>: what is sent again when a connection comes back. Every snapshot carries a
  \<open>rev\<close>; a receiver remembers the \<open>rev\<close> of what it has fully applied and tells it first on a new
  connection, and the sender leaves out the snapshots the other side still holds. With it the places of
  \<open>daemon/packet_handler.rs\<close> that decide what is remembered, the rate limit in front of the notes
  (\<open>notes::on_packet\<close>), and the waiting and sending of \<open>desk_features.rs\<close>.

  A \<open>BTreeMap\<close> is the sorted association list of the prelude and so is a JSON object; the pending
  snapshots and the states of the devices are maps. \<open>with\<close> makes an empty state for a device it does not
  know, which reads like none. The hash of \<open>rev_of\<close>, the text of a value and the clock are arguments.
\<close>

subsection \<open>State\<close>

definition FEATURES :: "string list" where
  "FEATURES = [''notifications'', ''activity'', ''contacts'', ''media'', ''notes'', ''snippets'', ''settings'']"
definition SYNC_WAIT :: nat where "SYNC_WAIT = 1000"
definition MAX_REV_CHARS :: nat where "MAX_REV_CHARS = 64"
definition MAX_FEATURE_CHARS :: nat where "MAX_FEATURE_CHARS = 32"
definition MAX_HAVE_ENTRIES :: nat where "MAX_HAVE_ENTRIES = 8"

type_synonym revs = "(string \<times> string) list"

record theirs =
  th_peer_instance :: string
  th_have :: revs

record pending_snapshot =
  pd_instance :: string
  pd_rev :: string
  pd_missing :: "string set"

record peer_sync =
  ps_received_from :: "string option"
  ps_have :: revs
  ps_theirs :: "theirs option"
  ps_waiting :: "u64 option"
  ps_pending :: "string \<Rightarrow> pending_snapshot option"

definition peer_default :: peer_sync where
  "peer_default = \<lparr>ps_received_from = None, ps_have = [], ps_theirs = None, ps_waiting = None, ps_pending = Map.empty\<rparr>"

type_synonym sync_state = "string \<Rightarrow> peer_sync option"

definition peer_of :: "string \<Rightarrow> sync_state \<Rightarrow> peer_sync" where
  "peer_of d st = unwrap_or peer_default (st d)"

definition with_peer :: "string \<Rightarrow> (peer_sync \<Rightarrow> peer_sync) \<Rightarrow> sync_state \<Rightarrow> sync_state" where
  "with_peer d job st = st(d \<mapsto> job (peer_of d st))"

subsection \<open>Revisions\<close>

definition rev_bytes :: "(jobject \<Rightarrow> string) \<Rightarrow> string list \<Rightarrow> network_packet list \<Rightarrow> string" where
  "rev_bytes json_text skip packets =
     concat (map (\<lambda>p. packet_type p @ [CHR 0x00]
       @ json_text (fold obj_remove skip (obj_remove ''rev'' (body p))) @ [CHR 0x01]) packets)"

definition rev_of :: "(string \<Rightarrow> byte list) \<Rightarrow> (jobject \<Rightarrow> string) \<Rightarrow> network_packet list \<Rightarrow> string list \<Rightarrow> string" where
  "rev_of sha256 json_text packets skip = hex (take 16 (sha256 (rev_bytes json_text skip packets)))"

definition stamp_revs :: "string \<Rightarrow> network_packet list \<Rightarrow> network_packet list" where
  "stamp_revs r packets = map (pk_set ''rev'' (JStr r)) packets"

definition sane_rev :: "network_packet \<Rightarrow> string option" where
  "sane_rev p =
     (case get_str p ''rev'' of
        Some r \<Rightarrow> if r \<noteq> [] \<and> count_chars r \<le> MAX_REV_CHARS then Some r else None
      | None \<Rightarrow> None)"

subsection \<open>What is remembered\<close>

definition record_rev :: "string \<Rightarrow> string \<Rightarrow> string \<Rightarrow> peer_sync \<Rightarrow> peer_sync" where
  "record_rev instance feature r peer =
     (let peer = (if ps_received_from peer \<noteq> Some instance
                  then peer\<lparr>ps_have := [], ps_received_from := Some instance\<rparr> else peer)
      in peer\<lparr>ps_have := obj_insert feature r (ps_have peer)\<rparr>)"

definition drop_pending :: "string \<Rightarrow> peer_sync \<Rightarrow> peer_sync" where
  "drop_pending feature peer = peer\<lparr>ps_pending := (ps_pending peer)(feature := None)\<rparr>"

definition note_received :: "string \<Rightarrow> string option \<Rightarrow> string \<Rightarrow> network_packet \<Rightarrow> sync_state \<Rightarrow> sync_state" where
  "note_received d instance feature packet st =
     (case sane_rev packet of
        None \<Rightarrow> st
      | Some r \<Rightarrow>
          (case instance of
             None \<Rightarrow> st
           | Some i \<Rightarrow> if feature \<in> set FEATURES
                        then with_peer d (\<lambda>peer. record_rev i feature r (drop_pending feature peer)) st
                        else st))"

definition forget_in_peer :: "string \<Rightarrow> peer_sync \<Rightarrow> peer_sync" where
  "forget_in_peer feature peer = drop_pending feature (peer\<lparr>ps_have := obj_remove feature (ps_have peer)\<rparr>)"

definition forget_feature :: "string \<Rightarrow> string \<Rightarrow> sync_state \<Rightarrow> sync_state" where
  "forget_feature d feature st = with_peer d (forget_in_peer feature) st"






subsection \<open>What is told\<close>

definition revs_json :: "revs \<Rightarrow> json" where
  "revs_json m = JObj (map (\<lambda>(k, r). (k, JStr r)) m)"

definition have_packet :: "int \<Rightarrow> string \<Rightarrow> string option \<Rightarrow> sync_state \<Rightarrow> network_packet" where
  "have_packet now d peer_instance st =
     (let peer = peer_of d st;
          (instance, have) =
            (case peer_instance of
               Some i \<Rightarrow> if ps_received_from peer = Some i then (i, ps_have peer) else (i, [])
             | None \<Rightarrow> ([], []))
      in pk_set ''have'' (revs_json have) (pk_set ''peerInstance'' (JStr instance) (packet_new now PACKET_TYPE_SYNC_HAVE)))"

definition have_entry :: "string \<times> json \<Rightarrow> (string \<times> string) option" where
  "have_entry = (\<lambda>(feature, v).
     (case as_str v of
        Some r \<Rightarrow> if feature \<in> set FEATURES \<and> count_chars r \<le> MAX_REV_CHARS then Some (feature, r) else None
      | None \<Rightarrow> None))"

definition parse_have :: "network_packet \<Rightarrow> theirs option" where
  "parse_have packet =
     (case (get_str packet ''peerInstance'', Option.bind (obj_get (body packet) ''have'') as_object) of
        (Some i, Some object) \<Rightarrow>
          Some \<lparr>th_peer_instance = i,
                th_have = collect_map (List.map_filter have_entry
                  (filter (\<lambda>(feature, _). count_chars feature \<le> MAX_FEATURE_CHARS) (take MAX_HAVE_ENTRIES object)))\<rparr>
      | _ \<Rightarrow> None)"

definition on_have :: "string \<Rightarrow> network_packet \<Rightarrow> sync_state \<Rightarrow> bool \<times> sync_state" where
  "on_have d packet st =
     (case parse_have packet of
        None \<Rightarrow> (False, st)
      | Some th \<Rightarrow> (ps_waiting (peer_of d st) \<noteq> None,
                    with_peer d (\<lambda>peer. peer\<lparr>ps_theirs := Some th, ps_waiting := None\<rparr>) st))"

text \<open>\<open>next_token\<close>: the counter \<open>NEXT\<close>.\<close>

definition begin_wait :: "string \<Rightarrow> u64 \<times> sync_state \<Rightarrow> u64 option \<times> u64 \<times> sync_state" where
  "begin_wait d = (\<lambda>(next_token, st).
     (if ps_theirs (peer_of d st) \<noteq> None then (None, next_token, st)
      else (Some next_token, next_token + 1, with_peer d (\<lambda>peer. peer\<lparr>ps_waiting := Some next_token\<rparr>) st)))"

definition release_wait :: "string \<Rightarrow> u64 \<Rightarrow> sync_state \<Rightarrow> bool \<times> sync_state" where
  "release_wait d token st =
     (if ps_waiting (peer_of d st) = Some token
      then (True, with_peer d (\<lambda>peer. peer\<lparr>ps_waiting := None\<rparr>) st)
      else (False, st))"

definition theirs_of :: "string \<Rightarrow> sync_state \<Rightarrow> theirs option" where
  "theirs_of d st = ps_theirs (peer_of d st)"

definition should_send :: "theirs option \<Rightarrow> string \<Rightarrow> string \<Rightarrow> string \<Rightarrow> bool" where
  "should_send th own feature r =
     (case th of
        None \<Rightarrow> True
      | Some th \<Rightarrow> if th_peer_instance th \<noteq> own then True else obj_get (th_have th) feature \<noteq> Some r)"
subsection \<open>Where packets are remembered\<close>

text \<open>\<open>kept\<close>: what \<open>update_activity\<close> answered.\<close>

definition activity_arm :: "string \<Rightarrow> string option \<Rightarrow> network_packet \<Rightarrow> bool \<Rightarrow> sync_state \<Rightarrow> sync_state" where
  "activity_arm d instance packet kept st =
     (if kept then note_received d instance ''activity'' packet st else forget_feature d ''activity'' st)"





text \<open>Notes and snippets: \<open>answers\<close> is what \<open>notes::on_packet\<close> gave for the packet.\<close>

definition shelf_arm :: "string \<Rightarrow> string option \<Rightarrow> network_packet \<Rightarrow> network_packet list \<Rightarrow> sync_state \<Rightarrow> sync_state" where
  "shelf_arm d instance packet answers st =
     (let feature = (if packet_type packet = PACKET_TYPE_SNIPPETS then ''snippets'' else ''notes'') in
      if get_str packet ''op'' = Some ''index'' then
        (if list_all (\<lambda>a. get_str a ''op'' \<noteq> Some ''fetch'') answers
         then note_received d instance feature packet st
         else forget_feature d feature st)
      else forget_feature d feature st)"

text \<open>
  \<open>notes::on_packet\<close> up to the answers it returns: a packet over the limit is dropped with no answer.
\<close>

definition PACKETS_PER_MINUTE :: "32 word" where "PACKETS_PER_MINUTE = 240"

definition note_packets :: buckets where "note_packets = buckets_new PACKETS_PER_MINUTE 60000"

definition notes_on_packet ::
  "(json \<Rightarrow> string) \<Rightarrow> (string \<Rightarrow> int) \<Rightarrow> int \<Rightarrow> nat \<Rightarrow> string \<Rightarrow> network_packet \<Rightarrow> buckets \<times> shelf
   \<Rightarrow> network_packet list \<times> buckets \<times> shelf" where
  "notes_on_packet txt clock stamp tick d packet = (\<lambda>(b, sh).
     (case kind_from_packet (packet_type packet) of
        None \<Rightarrow> ([], b, sh)
      | Some kind \<Rightarrow>
          (let (ok, b) = allow tick d b in
           if \<not> ok then ([], b, sh)
           else (let ((answers, _), sh) = with_shelf txt clock (handle_from txt stamp kind packet d) sh
                 in (answers, b, sh)))))"

subsection \<open>Coming back\<close>

text \<open>
  The snapshots of a phone that just connected: its settings, the media, the notifications, the indexes of
  snippets and notes, each left out when the phone holds it. The packets come from the features.
\<close>

definition rev_str :: "network_packet \<Rightarrow> string" where
  "rev_str p = unwrap_or [] (get_str p ''rev'')"

definition initial_snapshots ::
  "(network_packet list \<Rightarrow> string) \<Rightarrow> theirs option \<Rightarrow> string \<Rightarrow> bool \<Rightarrow> network_packet \<Rightarrow> network_packet option
   \<Rightarrow> network_packet list \<Rightarrow> network_packet list list \<Rightarrow> network_packet list \<times> network_packet option" where
  "initial_snapshots revision th own accepts settings media notifications indexes =
     (let wanted = should_send th own;
          ps = (if wanted ''settings'' (rev_str settings) then [settings] else []);
          media = (case media of
                     Some m \<Rightarrow> if wanted ''media'' (rev_str m) then Some m else None
                   | None \<Rightarrow> None);
          r = (case notifications of [] \<Rightarrow> [] | p # _ \<Rightarrow> rev_str p);
          ps = ps @ (if accepts \<and> wanted ''notifications'' r then notifications else []);
          groups = map (\<lambda>group.
            (case group of
               [] \<Rightarrow> []
             | first # _ \<Rightarrow>
                 (let feature = (if packet_type first = PACKET_TYPE_SNIPPETS then ''snippets'' else ''notes'');
                      r = revision group
                  in if wanted feature r then map (pk_set ''rev'' (JStr r)) group else []))) indexes
      in (ps @ concat groups, media))"

text \<open>
  The jobs of a connection: the first one, on feature-ready, with \<open>spawned\<close> whether the timer's thread
  could be started; the phone's \<open>have\<close> and the timer, which end the wait and then queue a send for their
  connection; and that send, which runs later, if it is not dropped, by what the phone told until then.
  Each speaks only for the connection it was made for. \<open>snapshots\<close> stands for \<open>initial_snapshots\<close> of the moment.
\<close>

type_synonym attempt = "string option"

definition feature_ready_job ::
  "int \<Rightarrow> string \<Rightarrow> string option \<Rightarrow> (theirs option \<Rightarrow> network_packet list) \<Rightarrow> bool \<Rightarrow> attempt \<Rightarrow> attempt \<Rightarrow> u64 \<times> sync_state
   \<Rightarrow> network_packet list \<times> u64 option \<times> u64 \<times> sync_state" where
  "feature_ready_job now d peer_instance snapshots spawned conn current = (\<lambda>(next_token, st).
     (if conn \<noteq> current then ([], None, next_token, st)
      else
        (let have = have_packet now d peer_instance st;
             (token, next_token, st) = begin_wait d (next_token, st)
         in case token of
              None \<Rightarrow> (have # snapshots (theirs_of d st), None, next_token, st)
            | Some t \<Rightarrow>
                if spawned then ([have], Some t, next_token, st)
                else
                  (let (released, st) = release_wait d t st
                   in (have # (if released then snapshots (theirs_of d st) else []), None, next_token, st)))))"

definition apply_have :: "string \<Rightarrow> network_packet \<Rightarrow> attempt \<Rightarrow> attempt \<Rightarrow> sync_state \<Rightarrow> bool \<times> sync_state" where
  "apply_have d packet arrived_on current st = (if arrived_on = current then on_have d packet st else (False, st))"

definition sync_have_job :: "string \<Rightarrow> network_packet \<Rightarrow> attempt \<Rightarrow> attempt \<Rightarrow> sync_state \<Rightarrow> attempt list \<times> sync_state" where
  "sync_have_job d packet arrived_on current st =
     (let (released, st) = apply_have d packet arrived_on current st
      in (if released then [arrived_on] else [], st))"

definition timer_job :: "string \<Rightarrow> u64 \<Rightarrow> attempt \<Rightarrow> sync_state \<Rightarrow> attempt list \<times> sync_state" where
  "timer_job d token conn st =
     (let (released, st) = release_wait d token st
      in (if released then [conn] else [], st))"

definition send_job :: "string \<Rightarrow> (theirs option \<Rightarrow> network_packet list) \<Rightarrow> attempt \<Rightarrow> attempt \<Rightarrow> sync_state \<Rightarrow> network_packet list" where
  "send_job d snapshots conn current st = (if conn = current then snapshots (theirs_of d st) else [])"

subsection \<open>What is remembered is held\<close>












lemma peer_of_with [simp]: "peer_of d' (with_peer d job st) = (if d' = d then job (peer_of d st) else peer_of d' st)"
  by (simp add: peer_of_def with_peer_def unwrap_or_def)


lemma obj_get_remove [simp]: "obj_get (obj_remove f m) k = (if k = f then None else obj_get m k)"
  by (induction m) (auto simp: obj_get_def obj_remove_def)

lemma record_simps [simp]:
  "ps_received_from (record_rev i f r peer) = Some i"
  "ps_pending (record_rev i f r peer) = ps_pending peer"
  "obj_get (ps_have (record_rev i f r peer)) f' =
     (if f' = f then Some r else if ps_received_from peer = Some i then obj_get (ps_have peer) f' else None)"
  by (simp_all add: record_rev_def Let_def)

lemma drop_simps [simp]:
  "ps_received_from (drop_pending f peer) = ps_received_from peer"
  "ps_have (drop_pending f peer) = ps_have peer"
  "ps_pending (drop_pending f peer) = (ps_pending peer)(f := None)"
  by (simp_all add: drop_pending_def)

lemma forget_simps [simp]:
  "ps_received_from (forget_in_peer f peer) = ps_received_from peer"
  "obj_get (ps_have (forget_in_peer f peer)) f' = (if f' = f then None else obj_get (ps_have peer) f')"
  "ps_pending (forget_in_peer f peer) = (ps_pending peer)(f := None)"
  by (simp_all add: forget_in_peer_def)


















subsection \<open>The exchange\<close>






subsection \<open>The packets\<close>






















definition demo_snapshot :: network_packet where
  "demo_snapshot = pk_set ''snapshot'' (JBool True) (pk_set ''rev'' (JStr ''r1'') (packet_new 0 PACKET_TYPE_NOTIFICATION))"




subsection \<open>Revisions and snapshots\<close>

text \<open>A \<open>rev\<close> is not part of what it is computed from, so a stamped snapshot has the same one.\<close>

lemma obj_remove_insert: "obj_remove k (obj_insert k v m) = obj_remove k m"
  by (induction k v m rule: obj_insert.induct) (auto simp: obj_insert.simps obj_remove_def)

lemma rev_of_stamped: "rev_of sha256 json_text (stamp_revs r ps) skip = rev_of sha256 json_text ps skip"
  by (simp add: rev_of_def rev_bytes_def stamp_revs_def pk_set_def obj_remove_insert o_def)

lemma length_hex: "length (hex bs) = 2 * length bs"
  by (induction bs) (simp_all add: hex_def hex_byte_def)

lemma rev_of_sane:
  assumes "length (sha256 (rev_bytes json_text skip ps)) = 32"
  shows "sane_rev (pk_set ''rev'' (JStr (rev_of sha256 json_text ps skip)) p) = Some (rev_of sha256 json_text ps skip)"
proof -
  let ?r = "rev_of sha256 json_text ps skip"
  have "length ?r = 32" using assms by (simp add: rev_of_def length_hex)
  then have "?r \<noteq> []" "count_chars ?r \<le> MAX_REV_CHARS"
    using length_filter_le [of "\<lambda>c. \<not> is_continuation c" ?r] by (auto simp: count_chars_def MAX_REV_CHARS_def)
  then show ?thesis by (simp add: sane_rev_def get_str_def pk_set_def)
qed

lemma initial_snapshots_unknown:
  "initial_snapshots revision None own True settings media notifications indexes =
     (settings # notifications @ concat (map (\<lambda>g. stamp_revs (revision g) g) indexes), media)"
proof -
  have "(\<lambda>group. case group of [] \<Rightarrow> [] | first # _ \<Rightarrow>
         let feature = (if packet_type first = PACKET_TYPE_SNIPPETS then ''snippets'' else ''notes''); r = revision group
         in if should_send None own feature r then map (pk_set ''rev'' (JStr r)) group else [])
      = (\<lambda>g. stamp_revs (revision g) g)" by (auto simp: stamp_revs_def should_send_def Let_def split: list.split)
  then show ?thesis by (simp add: initial_snapshots_def should_send_def Let_def split: option.split)
qed

subsection \<open>The snapshots go once\<close>

text \<open>
  What happens on a connection that waits: a \<open>have\<close> comes, a timer fires, the next queued send runs. The
  queue holds the connections that sends were queued for; \<open>c\<close> is the connection all the while.
\<close>

datatype sync_job = HaveCame network_packet attempt | TimerFired u64 attempt | SendRuns

fun run_jobs ::
  "string \<Rightarrow> (theirs option \<Rightarrow> network_packet list) \<Rightarrow> attempt \<Rightarrow> sync_job list \<Rightarrow> attempt list \<times> sync_state \<Rightarrow> network_packet list list" where
  "run_jobs d snapshots c [] s = []"
| "run_jobs d snapshots c (HaveCame p arrived_on # jobs) (queued, st) =
     (let (new, st) = sync_have_job d p arrived_on c st in run_jobs d snapshots c jobs (queued @ new, st))"
| "run_jobs d snapshots c (TimerFired t conn # jobs) (queued, st) =
     (let (new, st) = timer_job d t conn st in run_jobs d snapshots c jobs (queued @ new, st))"
| "run_jobs d snapshots c (SendRuns # jobs) ([], st) = run_jobs d snapshots c jobs ([], st)"
| "run_jobs d snapshots c (SendRuns # jobs) (conn # queued, st) =
     send_job d snapshots conn c st # run_jobs d snapshots c jobs (queued, st)"

fun ends_wait :: "attempt \<Rightarrow> u64 \<Rightarrow> sync_job \<Rightarrow> bool" where
  "ends_wait c t (HaveCame p arrived_on) \<longleftrightarrow> arrived_on = c \<and> parse_have p \<noteq> None"
| "ends_wait c t (TimerFired t' conn) \<longleftrightarrow> t' = t"
| "ends_wait c t SendRuns \<longleftrightarrow> False"

text \<open>What the phone told on this connection, by the last \<open>have\<close> of some jobs.\<close>

fun told :: "attempt \<Rightarrow> sync_job list \<Rightarrow> theirs option \<Rightarrow> theirs option" where
  "told c [] th = th"
| "told c (HaveCame p arrived_on # jobs) th =
     told c jobs (if arrived_on = c \<and> parse_have p \<noteq> None then parse_have p else th)"
| "told c (_ # jobs) th = told c jobs th"

lemma run_jobs_idle: "ps_waiting (peer_of d st) = None \<Longrightarrow> run_jobs d snapshots c jobs ([], st) = []"
proof (induction jobs arbitrary: st)
  case (Cons job jobs)
  then show ?case
    by (cases job) (auto simp: sync_have_job_def apply_have_def on_have_def timer_job_def release_wait_def Let_def split: option.split)
qed simp

lemma run_jobs_queued:
  assumes "ps_waiting (peer_of d st) = None"
  shows "run_jobs d snapshots c jobs ([c], st) =
    (if SendRuns \<in> set jobs then [snapshots (told c (takeWhile (\<lambda>j. j \<noteq> SendRuns) jobs) (ps_theirs (peer_of d st)))] else [])"
  using assms
proof (induction jobs arbitrary: st)
  case (Cons job jobs)
  show ?case
  proof (cases job)
    case (HaveCame p arrived_on)
    show ?thesis
    proof (cases "arrived_on = c \<and> parse_have p \<noteq> None")
      case True
      let ?st = "with_peer d (\<lambda>peer. peer\<lparr>ps_theirs := parse_have p, ps_waiting := None\<rparr>) st"
      have "sync_have_job d p arrived_on c st = ([], ?st)"
        using True Cons.prems by (auto simp: sync_have_job_def apply_have_def on_have_def)
      then show ?thesis using Cons.IH [of ?st] HaveCame True by simp
    next
      case False
      then have "sync_have_job d p arrived_on c st = ([], st)" by (auto simp: sync_have_job_def apply_have_def on_have_def)
      then show ?thesis using Cons.IH [OF Cons.prems] HaveCame False by auto
    qed
  next
    case (TimerFired t conn)
    then show ?thesis using Cons by (simp add: timer_job_def release_wait_def)
  next
    case SendRuns
    then show ?thesis using run_jobs_idle [OF Cons.prems] by (simp add: send_job_def theirs_of_def)
  qed
qed simp

lemma run_jobs_waiting:
  assumes "ps_waiting (peer_of d st) = Some t" "ps_theirs (peer_of d st) = None" "\<forall>conn. TimerFired t conn \<in> set jobs \<longrightarrow> conn = c"
  shows "run_jobs d snapshots c jobs ([], st) =
    (let after = dropWhile (\<lambda>j. \<not> ends_wait c t j) jobs in
     if SendRuns \<in> set after then [snapshots (told c (takeWhile (\<lambda>j. j \<noteq> SendRuns) after) None)] else [])"
  using assms
proof (induction jobs arbitrary: st)
  case (Cons job jobs)
  have rest: "\<forall>conn. TimerFired t conn \<in> set jobs \<longrightarrow> conn = c" using Cons.prems(3) by simp
  show ?case
  proof (cases job)
    case (HaveCame p arrived_on)
    show ?thesis
    proof (cases "arrived_on = c \<and> parse_have p \<noteq> None")
      case True
      let ?st = "with_peer d (\<lambda>peer. peer\<lparr>ps_theirs := parse_have p, ps_waiting := None\<rparr>) st"
      have "sync_have_job d p arrived_on c st = ([c], ?st)"
        using True Cons.prems(1) by (auto simp: sync_have_job_def apply_have_def on_have_def)
      then show ?thesis using run_jobs_queued [of d ?st snapshots c jobs] HaveCame True by simp
    next
      case False
      then have "sync_have_job d p arrived_on c st = ([], st)" by (auto simp: sync_have_job_def apply_have_def on_have_def)
      then show ?thesis using Cons.IH [OF Cons.prems(1,2) rest] HaveCame False by auto
    qed
  next
    case (TimerFired t' conn)
    show ?thesis
    proof (cases "t' = t")
      case True
      let ?st = "with_peer d (\<lambda>peer. peer\<lparr>ps_waiting := None\<rparr>) st"
      have "timer_job d t' conn st = ([c], ?st)"
        using True Cons.prems(1,3) TimerFired by (simp add: timer_job_def release_wait_def)
      then show ?thesis using run_jobs_queued [of d ?st snapshots c jobs] TimerFired True Cons.prems(2) by simp
    next
      case False
      then have "timer_job d t' conn st = ([], st)" using Cons.prems(1) by (simp add: timer_job_def release_wait_def)
      then show ?thesis using Cons.IH [OF Cons.prems(1,2) rest] TimerFired False by simp
    qed
  next
    case SendRuns
    then show ?thesis using Cons.IH [OF Cons.prems(1,2) rest] by simp
  qed
qed simp

text \<open>
  C17. The initial snapshots go once. When a connection became ready before the phone told what it has,
  whatever then arrives and fires, in any order, from this connection or earlier ones, one send is queued,
  by the phone's \<open>have\<close> or by the timer of this wait, whichever is first. When the queue gets to it the
  snapshots are sent, by what the phone told on this connection until then, all of them if it told nothing,
  and they are never sent again.
\<close>

theorem snapshots_go_once:
  assumes "feature_ready_job now d i snapshots spawned c c (n, st) = (sent, Some t, n', st')"
    and "\<forall>conn. TimerFired t conn \<in> set jobs \<longrightarrow> conn = c"
  shows "sent = [have_packet now d i st]
    \<and> run_jobs d snapshots c jobs ([], st') =
        (let after = dropWhile (\<lambda>j. \<not> ends_wait c t j) jobs in
         if SendRuns \<in> set after then [snapshots (told c (takeWhile (\<lambda>j. j \<noteq> SendRuns) after) None)] else [])"
proof -
  have none: "ps_theirs (peer_of d st) = None" and t: "t = n" and sent: "sent = [have_packet now d i st]"
    and st': "st' = with_peer d (\<lambda>peer. peer\<lparr>ps_waiting := Some n\<rparr>) st"
    using assms(1) by (auto simp: feature_ready_job_def begin_wait_def Let_def split: if_splits prod.splits)
  show ?thesis using run_jobs_waiting [OF _ _ assms(2), of d st' snapshots] none sent by (simp add: t st')
qed

theorem snapshots_go_once_witness:
  "run_jobs ''p'' (\<lambda>_. [demo_snapshot]) (Some ''a'') [TimerFired 7 None, SendRuns, TimerFired 1 (Some ''a''), TimerFired 1 (Some ''a''), SendRuns, SendRuns]
     ([], snd (snd (snd (feature_ready_job 0 ''p'' None (\<lambda>_. [demo_snapshot]) True (Some ''a'') (Some ''a'') (1, Map.empty))))) = [[demo_snapshot]]"
proof -
  have ready: "feature_ready_job 0 ''p'' None (\<lambda>_. [demo_snapshot]) True (Some ''a'') (Some ''a'') (1, Map.empty) =
      ([have_packet 0 ''p'' None Map.empty], Some 1, 2, with_peer ''p'' (\<lambda>peer. peer\<lparr>ps_waiting := Some 1\<rparr>) Map.empty)"
    by (simp add: feature_ready_job_def begin_wait_def peer_of_def unwrap_or_def peer_default_def)
  then show ?thesis
    using snapshots_go_once [OF ready, of "[TimerFired 7 None, SendRuns, TimerFired 1 (Some ''a''), TimerFired 1 (Some ''a''), SendRuns, SendRuns]"] by simp
qed

subsection \<open>What an index claims\<close>

text \<open>
  The parts of an index share one \<open>rev\<close> and each is judged alone: a part with nothing to fetch is
  remembered for the whole index, though an earlier part asked for items that have not come. And a part
  that the rate limit dropped has no answers either, so it counts as applied.
\<close>

lemma index_claimed:
  assumes "get_str p ''op'' = Some ''index''" "packet_type p = PACKET_TYPE_NOTES" "sane_rev p = Some r"
    and "list_all (\<lambda>a. get_str a ''op'' \<noteq> Some ''fetch'') answers"
  shows "obj_get (ps_have (peer_of d (shelf_arm d (Some i) p answers st))) ''notes'' = Some r"
  using assms by (simp add: shelf_arm_def note_received_def FEATURES_def PACKET_TYPE_NOTES_def PACKET_TYPE_SNIPPETS_def Let_def)

lemma dropped_part_claims_index:
  assumes "get_str p ''op'' = Some ''index''" "packet_type p = PACKET_TYPE_NOTES" "sane_rev p = Some r"
    and "\<not> fst (allow tick d b)" "notes_on_packet txt clock stamp tick d p (b, sh) = (answers, b', sh')"
  shows "sh' = sh \<and> obj_get (ps_have (peer_of d (shelf_arm d (Some i) p answers st))) ''notes'' = Some r"
proof -
  have "sh' = sh" "answers = []"
    using assms(2,4,5) by (auto simp: notes_on_packet_def kind_from_packet_def case_prod_unfold Let_def split: if_splits)
  then show ?thesis using index_claimed [OF assms(1-3), of "[]"] by simp
qed

lemma last_part_claims_index:
  assumes "get_str p ''op'' = Some ''index''" "packet_type p = PACKET_TYPE_NOTES" "sane_rev p = Some r"
    and "list_all (\<lambda>a. get_str a ''op'' \<noteq> Some ''fetch'') answers" "\<not> list_all (\<lambda>a. get_str a ''op'' \<noteq> Some ''fetch'') answers'"
  shows "obj_get (ps_have (peer_of d (shelf_arm d (Some i) p answers (shelf_arm d (Some i) p' answers' st)))) ''notes'' = Some r"
  by (rule index_claimed [OF assms(1-4)])

lemma unstamped_activity_keeps_claim: "sane_rev p = None \<Longrightarrow> activity_arm d i p True st = st"
  by (simp add: activity_arm_def note_received_def)

end

