(* ===== verification/Terminal_Wire.thy ===== *)
theory Terminal_Wire
  imports File_Frames
begin

section \<open>The terminal protocol\<close>

text \<open>
  \<open>src/device_links/webrtc/terminal_protocol.rs\<close>: what a phone and the desk say to each other about
  shared terminals. Control messages with every check of them, and the binary chunks that carry the bytes
  of a terminal. Reading and writing the JSON of a control message is serde's. A text is its UTF-8 bytes
  as characters; a terminal id is ASCII once it is checked, so reading it out of a chunk byte by byte
  agrees with \<open>from_utf8\<close>, which refuses with the same error what the check would refuse.
\<close>

definition TERMINAL_PROTOCOL_VERSION :: "32 word" where "TERMINAL_PROTOCOL_VERSION = 1"
definition TERMINAL_CONTROL_MESSAGE_TYPE :: string where "TERMINAL_CONTROL_MESSAGE_TYPE = ''desklink.terminal.control.v1''"
definition TERMINAL_CHUNK_MESSAGE_TYPE :: string where "TERMINAL_CHUNK_MESSAGE_TYPE = ''desklink.terminal.chunk.v1''"
definition TERMINAL_NOT_ALLOWED :: string where "TERMINAL_NOT_ALLOWED = ''terminal-not-allowed''"
definition TERMINAL_ENDED :: string where "TERMINAL_ENDED = ''terminal-ended''"
definition MAX_TERMINAL_CHUNK_BYTES :: nat where "MAX_TERMINAL_CHUNK_BYTES = 16 * 1024"
definition MAX_COMMAND_ARGS :: nat where "MAX_COMMAND_ARGS = 64"
definition MAX_COMMAND_ARG_BYTES :: nat where "MAX_COMMAND_ARG_BYTES = 4 * 1024"
definition MAX_DIMENSION :: "16 word" where "MAX_DIMENSION = 1000"
definition CHUNK_HEADER_BYTES :: nat where "CHUNK_HEADER_BYTES = 19"
definition MAX_PASSWORD_BYTES :: nat where "MAX_PASSWORD_BYTES = 256"

subsection \<open>Control messages\<close>

datatype terminal_action =
    TaList | TaSessions | TaCreate | TaCreated | TaAttach | TaAttached | TaDetach | TaClose | TaClosed | TaResize | TaError | TaFinished

record terminal_session_info =
  ti_terminal_id :: string
  ti_title :: string
  ti_rows :: "16 word"
  ti_cols :: "16 word"
  ti_exit_status :: "32 word option"
  ti_desk_window :: bool
  ti_phone_size :: bool
  ti_attached :: bool
  ti_cwd :: "string option"
  ti_started_at :: "u64 option"
  ti_shell :: "string option"

record terminal_control =
  tc_protocol_version :: "32 word"
  tc_action :: terminal_action
  tc_device_id :: string
  tc_session_id :: u64
  tc_connection_generation :: u64
  tc_terminal_id :: "string option"
  tc_rows :: "16 word option"
  tc_cols :: "16 word option"
  tc_claim_size :: "bool option"
  tc_offset :: "u64 option"
  tc_command :: "string list option"
  tc_sessions :: "terminal_session_info list option"
  tc_launchers :: "string list option"
  tc_password :: "string option"
  tc_exit_status :: "32 word option"
  tc_error :: "string option"
  tc_cwd :: "string option"
  tc_folders :: "string list option"
  tc_job :: "string option"
  tc_secs :: "u64 option"

definition terminal_control_new :: "terminal_action \<Rightarrow> wire_binding \<Rightarrow> terminal_control" where
  "terminal_control_new action wire =
     \<lparr>tc_protocol_version = TERMINAL_PROTOCOL_VERSION, tc_action = action, tc_device_id = sender_device_id wire,
      tc_session_id = wb_session_id wire, tc_connection_generation = wb_generation wire, tc_terminal_id = None,
      tc_rows = None, tc_cols = None, tc_claim_size = None, tc_offset = None, tc_command = None, tc_sessions = None,
      tc_launchers = None, tc_password = None, tc_exit_status = None, tc_error = None, tc_cwd = None, tc_folders = None,
      tc_job = None, tc_secs = None\<rparr>"

datatype terminal_error =
    TeVersion | TeBinding | TeNeedsId | TeNeedsSize | TeId | TeSize | TeCommandEmpty | TeCommandArgs | TeCommandLong
  | TePassword | TeErrorLong | TeFolder | TeMalformed | TeKind | TeTooLarge

definition validate_terminal_id :: "string \<Rightarrow> (terminal_error, unit) result" where
  "validate_terminal_id v =
     (if v = [] \<or> 128 < length v \<or> \<not> list_all (\<lambda>c. is_ascii_alphanumeric c \<or> c = CHR ''-'' \<or> c = CHR ''_'') v
      then Inl TeId else Inr ())"

definition validate_chunk_data :: "byte list \<Rightarrow> (terminal_error, unit) result" where
  "validate_chunk_data bytes = (if MAX_TERMINAL_CHUNK_BYTES < length bytes then Inl TeTooLarge else Inr ())"

definition validate_dimensions :: "16 word option \<Rightarrow> 16 word option \<Rightarrow> (terminal_error, unit) result" where
  "validate_dimensions rows cols =
     (if list_ex (\<lambda>v. v = 0 \<or> MAX_DIMENSION < v) (options [rows, cols]) then Inl TeSize else Inr ())"

definition validate_command :: "string list \<Rightarrow> (terminal_error, unit) result" where
  "validate_command command =
     (if command = [] then Inl TeCommandEmpty
      else if MAX_COMMAND_ARGS < length command then Inl TeCommandArgs
      else if list_ex (\<lambda>a. MAX_COMMAND_ARG_BYTES < length a) command then Inl TeCommandLong
      else Inr ())"

definition exceeds :: "nat \<Rightarrow> string option \<Rightarrow> bool" where
  "exceeds n t \<longleftrightarrow> (case t of Some s \<Rightarrow> n < length s | None \<Rightarrow> False)"

definition terminal_validate :: "wire_binding \<Rightarrow> terminal_control \<Rightarrow> (terminal_error, unit) result" where
  "terminal_validate wire c =
     (if tc_protocol_version c \<noteq> TERMINAL_PROTOCOL_VERSION then Inl TeVersion
      else if tc_device_id c \<noteq> peer_device_id wire \<or> tc_session_id c \<noteq> wb_session_id wire
              \<or> tc_connection_generation c \<noteq> wb_generation wire then Inl TeBinding
      else res_bind (case tc_terminal_id c of Some i \<Rightarrow> validate_terminal_id i | None \<Rightarrow> Inr ()) (\<lambda>_.
        if tc_action c \<in> {TaAttach, TaDetach, TaClose} \<and> tc_terminal_id c = None then Inl TeNeedsId
        else if tc_action c = TaResize \<and> tc_terminal_id c = None then Inl TeNeedsId
        else if tc_action c = TaResize \<and> (tc_rows c = None \<or> tc_cols c = None) then Inl TeNeedsSize
        else res_bind (validate_dimensions (tc_rows c) (tc_cols c)) (\<lambda>_.
          res_bind (case tc_command c of Some command \<Rightarrow> validate_command command | None \<Rightarrow> Inr ()) (\<lambda>_.
            if exceeds MAX_PASSWORD_BYTES (tc_password c) then Inl TePassword
            else if exceeds 1024 (tc_error c) then Inl TeErrorLong
            else if (case tc_cwd c of Some cwd \<Rightarrow> cwd = [] \<or> 4096 < length cwd \<or> CHR 0x00 \<in> set cwd | None \<Rightarrow> False)
            then Inl TeFolder
            else Inr ()))))"

subsection \<open>Chunks\<close>

datatype chunk_kind = OutputChunk | InputChunk | SnapshotChunk

fun chunk_wire_value :: "chunk_kind \<Rightarrow> byte" where
  "chunk_wire_value OutputChunk = 0"
| "chunk_wire_value InputChunk = 1"
| "chunk_wire_value SnapshotChunk = 2"

definition parse_chunk_kind :: "byte \<Rightarrow> (terminal_error, chunk_kind) result" where
  "parse_chunk_kind v =
     (if v = 0 then Inr OutputChunk else if v = 1 then Inr InputChunk else if v = 2 then Inr SnapshotChunk else Inl TeKind)"

record terminal_chunk =
  ch_kind :: chunk_kind
  ch_terminal_id :: string
  ch_offset :: u64
  ch_data :: "byte list"

definition CHUNK_MAGIC :: "byte list" where "CHUNK_MAGIC = [0x44, 0x4C, 0x54, 0x31]"

definition char_byte :: "char \<Rightarrow> byte" where "char_byte c = word_of_nat (of_char c)"
definition byte_char :: "byte \<Rightarrow> char" where "byte_char b = char_of (unat b)"

definition chunk_bytes :: "terminal_chunk \<Rightarrow> byte list" where
  "chunk_bytes c =
     CHUNK_MAGIC @ [chunk_wire_value (ch_kind c)] @ be_bytes 2 (length (ch_terminal_id c)) @ be_bytes 8 (unat (ch_offset c))
     @ be_bytes 4 (length (ch_data c)) @ map char_byte (ch_terminal_id c) @ ch_data c"

definition chunk_encode :: "terminal_chunk \<Rightarrow> (terminal_error, byte list) result" where
  "chunk_encode c =
     res_bind (validate_terminal_id (ch_terminal_id c)) (\<lambda>_.
     res_bind (validate_chunk_data (ch_data c)) (\<lambda>_.
       if 2 ^ 16 \<le> length (ch_terminal_id c) then Inl TeId
       else if 2 ^ 32 \<le> length (ch_data c) then Inl TeTooLarge
       else Inr (chunk_bytes c)))"

definition chunk_decode :: "byte list \<Rightarrow> (terminal_error, terminal_chunk) result" where
  "chunk_decode m =
     (if length m < CHUNK_HEADER_BYTES \<or> take 4 m \<noteq> CHUNK_MAGIC then Inl TeMalformed
      else res_bind (parse_chunk_kind (m ! 4)) (\<lambda>kind.
        (let id_length = of_be_bytes (slice 5 7 m);
             offset = word_of_nat (of_be_bytes (slice 7 15 m));
             data_length = of_be_bytes (slice 15 19 m);
             expected_length = CHUNK_HEADER_BYTES + id_length + data_length
         in if expected_length \<noteq> length m then Inl TeMalformed
            else
              (let id_end = CHUNK_HEADER_BYTES + id_length;
                   terminal_id = map byte_char (slice CHUNK_HEADER_BYTES id_end m);
                   bytes = drop id_end m
               in res_bind (validate_terminal_id terminal_id) (\<lambda>_.
                  res_bind (validate_chunk_data bytes) (\<lambda>_.
                    Inr \<lparr>ch_kind = kind, ch_terminal_id = terminal_id, ch_offset = offset, ch_data = bytes\<rparr>))))))"
subsection \<open>Chunks are read exactly as they are written\<close>

lemma byte_char_byte [simp]: "byte_char (char_byte c) = c" "char_byte (byte_char b) = b"
proof -
  have "char_of (of_char c mod 256 :: nat) = c" by simp
  then show "byte_char (char_byte c) = c" by (simp add: byte_char_def char_byte_def unsigned_of_nat take_bit_eq_mod)
  have "word_of_nat (unat b mod 256) = b" using unsigned_less [of b, where 'a = nat] by simp
  then show "char_byte (byte_char b) = b" by (simp add: byte_char_def char_byte_def)
qed

lemma map_byte_char [simp]: "map byte_char (map char_byte s) = s" "map char_byte (map byte_char bs) = bs"
  by (simp_all add: o_def)

lemma parse_chunk_kind_iff: "parse_chunk_kind v = Inr k \<longleftrightarrow> v = chunk_wire_value k"
  by (cases k) (auto simp: parse_chunk_kind_def)

definition chunk_ok :: "terminal_chunk \<Rightarrow> bool" where
  "chunk_ok c \<longleftrightarrow> validate_terminal_id (ch_terminal_id c) = Inr () \<and> validate_chunk_data (ch_data c) = Inr ()"

lemma chunk_ok_lengths: "chunk_ok c \<Longrightarrow> length (ch_terminal_id c) \<le> 128 \<and> length (ch_data c) \<le> 16384"
  by (simp add: chunk_ok_def validate_terminal_id_def validate_chunk_data_def MAX_TERMINAL_CHUNK_BYTES_def split: if_splits)

lemma chunk_encode_iff: "chunk_encode c = Inr m \<longleftrightarrow> chunk_ok c \<and> m = chunk_bytes c"
  using chunk_ok_lengths [of c] by (auto simp: chunk_encode_def res_Inr_iff chunk_ok_def split: if_splits)

lemma chunk_written_is_read:
  assumes "chunk_ok c" shows "chunk_decode (chunk_bytes c) = Inr c"
proof -
  let ?m = "chunk_bytes c" and ?k = "[chunk_wire_value (ch_kind c)]"
  let ?i = "be_bytes 2 (length (ch_terminal_id c))" and ?o = "be_bytes 8 (unat (ch_offset c))" and ?d = "be_bytes 4 (length (ch_data c))"
  let ?t = "map char_byte (ch_terminal_id c)"
  note lens = chunk_ok_lengths [OF assms]
  have m: "?m = CHUNK_MAGIC @ ?k @ ?i @ ?o @ ?d @ ?t @ ch_data c" by (simp add: chunk_bytes_def)
  have magic: "length CHUNK_MAGIC = 4" by (simp add: CHUNK_MAGIC_def)
  have len: "length ?m = 19 + length (ch_terminal_id c) + length (ch_data c)" unfolding m using magic by simp
  have "slice 5 7 ?m = ?i" unfolding m using slice_append [of "CHUNK_MAGIC @ ?k" 5 ?i 7] magic by simp
  moreover have "slice 7 15 ?m = ?o" unfolding m using slice_append [of "CHUNK_MAGIC @ ?k @ ?i" 7 ?o 15] magic by simp
  moreover have "slice 15 19 ?m = ?d" unfolding m using slice_append [of "CHUNK_MAGIC @ ?k @ ?i @ ?o" 15 ?d 19] magic by simp
  moreover have "slice 19 (19 + length (ch_terminal_id c)) ?m = ?t"
    unfolding m using slice_append [of "CHUNK_MAGIC @ ?k @ ?i @ ?o @ ?d" 19 ?t "19 + length (ch_terminal_id c)"] magic by simp
  moreover have "drop (19 + length (ch_terminal_id c)) ?m = ch_data c"
  proof -
    have "length (CHUNK_MAGIC @ ?k @ ?i @ ?o @ ?d @ ?t) = 19 + length (ch_terminal_id c)" using magic by simp
    moreover have "?m = (CHUNK_MAGIC @ ?k @ ?i @ ?o @ ?d @ ?t) @ ch_data c" unfolding m by simp
    ultimately show ?thesis by (metis append_eq_conv_conj)
  qed
  moreover have "take 4 ?m = CHUNK_MAGIC" unfolding m using magic by simp
  moreover have "?m ! 4 = chunk_wire_value (ch_kind c)" unfolding m by (simp add: CHUNK_MAGIC_def)
  moreover have "(word_of_nat (unat (ch_offset c) mod 256 ^ 8) :: u64) = ch_offset c"
    using unsigned_less [of "ch_offset c", where 'a = nat] by simp
  moreover have "parse_chunk_kind (chunk_wire_value (ch_kind c)) = Inr (ch_kind c)" by (simp add: parse_chunk_kind_iff)
  ultimately show ?thesis
    using len lens assms by (simp add: chunk_decode_def Let_def of_be_be CHUNK_HEADER_BYTES_def chunk_ok_def o_def)
qed

lemma chunk_read_was_written:
  assumes "chunk_decode m = Inr c" shows "chunk_ok c \<and> m = chunk_bytes c"
proof -
  define n d where "n = of_be_bytes (slice 5 7 m)" and "d = of_be_bytes (slice 15 19 m)"
  have long: "19 \<le> length m" and magic: "take 4 m = CHUNK_MAGIC" and kind: "m ! 4 = chunk_wire_value (ch_kind c)"
    and len: "length m = 19 + n + d"
    and tid: "ch_terminal_id c = map byte_char (slice 19 (19 + n) m)" and bytes: "ch_data c = drop (19 + n) m"
    and off: "ch_offset c = word_of_nat (of_be_bytes (slice 7 15 m))" and ok: "chunk_ok c"
    using assms unfolding n_def d_def
    by (auto simp: chunk_decode_def res_Inr_iff Let_def CHUNK_HEADER_BYTES_def parse_chunk_kind_iff chunk_ok_def split: if_splits)
  have le: "length (slice 5 7 m) = 2" "length (slice 7 15 m) = 8" "length (slice 15 19 m) = 4"
    using long by (simp_all add: length_slice)
  have "length (ch_terminal_id c) = n" "length (ch_data c) = d" using len by (simp_all add: tid bytes length_slice)
  moreover have "be_bytes 2 n = slice 5 7 m" "be_bytes 4 d = slice 15 19 m"
    using be_of_be [of "slice 5 7 m"] be_of_be [of "slice 15 19 m"] le by (simp_all add: n_def d_def)
  moreover have "be_bytes 8 (unat (ch_offset c)) = slice 7 15 m"
    using be_of_be [of "slice 7 15 m"] of_be_bound [of "slice 7 15 m"] le by (simp add: off unat_of_nat)
  moreover have "m = CHUNK_MAGIC @ [m ! 4] @ slice 5 7 m @ slice 7 15 m @ slice 15 19 m @ slice 19 (19 + n) m @ drop (19 + n) m"
  proof -
    have "m = take 4 m @ drop 4 m" by simp
    also have "drop 4 m = [m ! 4] @ drop 5 m" using Cons_nth_drop_Suc [of 4 m] long by simp
    also have "drop 5 m = slice 5 7 m @ drop 7 m" by (rule slice_split) simp
    also have "drop 7 m = slice 7 15 m @ drop 15 m" by (rule slice_split) simp
    also have "drop 15 m = slice 15 19 m @ drop 19 m" by (rule slice_split) simp
    also have "drop 19 m = slice 19 (19 + n) m @ drop (19 + n) m" by (rule slice_split) simp
    finally show ?thesis by (simp add: magic)
  qed
  ultimately show ?thesis using ok by (simp add: chunk_bytes_def kind tid bytes o_def)
qed

text \<open>
  Terminal chunks are read exactly as they are written. Bytes decode to a chunk if and only if that
  chunk is one that may be sent and the bytes are its encoding: no other bytes are accepted, and nothing
  that was sent is read differently.
\<close>

lemma chunk_codec_exact: "chunk_decode m = Inr c \<longleftrightarrow> chunk_encode c = Inr m"
  using chunk_written_is_read [of c] chunk_read_was_written [of m c] by (auto simp: chunk_encode_iff)

interpretation terminal_wire: codec chunk_bytes "\<lambda>m. case chunk_decode m of Inr c \<Rightarrow> Some c | Inl _ \<Rightarrow> None" chunk_ok
  by unfold_locales (simp add: chunk_written_is_read)

text \<open>A frame fits one message of the data channel: the header, an id of 128 bytes and the data.\<close>

lemma chunk_bytes_bounded: "chunk_ok c \<Longrightarrow> length (chunk_bytes c) \<le> CHUNK_HEADER_BYTES + 128 + MAX_TERMINAL_CHUNK_BYTES"
  using chunk_ok_lengths [of c] by (simp add: chunk_bytes_def CHUNK_MAGIC_def CHUNK_HEADER_BYTES_def MAX_TERMINAL_CHUNK_BYTES_def)

text \<open>What a handler may rely on once a control message was checked.\<close>

lemma terminal_validate_ok:
  assumes "terminal_validate wire c = Inr ()"
  shows "tc_device_id c = peer_device_id wire" "tc_session_id c = wb_session_id wire" "tc_connection_generation c = wb_generation wire"
    and "tc_action c \<in> {TaAttach, TaDetach, TaClose, TaResize} \<Longrightarrow> \<exists>i. tc_terminal_id c = Some i \<and> validate_terminal_id i = Inr ()"
    and "tc_action c = TaResize \<Longrightarrow> \<exists>r l. tc_rows c = Some r \<and> tc_cols c = Some l \<and> 0 < r \<and> r \<le> 1000 \<and> 0 < l \<and> l \<le> 1000"
    and "tc_command c = Some argv \<Longrightarrow> argv \<noteq> [] \<and> length argv \<le> 64 \<and> list_all (\<lambda>a. length a \<le> 4096) argv"
  using assms
  by (auto simp: terminal_validate_def res_Inr_iff validate_dimensions_def validate_command_def options_def List.map_filter_def
      MAX_DIMENSION_def MAX_COMMAND_ARGS_def MAX_COMMAND_ARG_BYTES_def list_all_iff list_ex_iff not_less word_neq_0_conv
      split: if_splits option.splits)

lemma terminal_reply_accepted:
  assumes "sender_device_id wire = peer_device_id wire'" "wb_session_id wire = wb_session_id wire'" "wb_generation wire = wb_generation wire'"
    and "action \<notin> {TaAttach, TaDetach, TaClose, TaResize}"
  shows "terminal_validate wire' (terminal_control_new action wire) = Inr ()"
  using assms by (auto simp: terminal_validate_def terminal_control_new_def validate_dimensions_def options_def List.map_filter_def exceeds_def)

end

