(* ===== verification/Spec2Isabelle.thy ===== *)
theory Spec2Isabelle
  imports Prelude Output_Ring Relay_Protocol Relay_Limits Relay_Hub Relay_Server Packet Pairing_QR Handover Device_Manager
    Relay_Link File_Frames File_Receive File_Send Folders Locking Notes Guards Resync Terminal_Wire
begin

text \<open>
  \<^bold>\<open>DeskLink: a desktop that shares with the phones paired with it, directly or through a relay.\<close>

  \<^bold>\<open>The program.\<close> Two crates. The relay (\<open>src/relay/src\<close>) is a small server on the internet to which
  devices connect; it authenticates each by its certificate and carries messages between devices
  that have allowed each other, without being trusted by them. The desktop (\<open>src/src\<close>) finds
  phones, pairs with them, keeps one session for each, and moves a session from its first socket
  to a WebRTC peer connection over which the features run.

  \<^bold>\<open>The theories\<close>, in the order they build on each other:

  \<^item> \<open>Prelude\<close>: names for Rust's types, results, JSON, printing of numbers, transition systems
    (locale \<open>invariant_system\<close>), encoders with decoders (locale \<open>codec\<close>), encodings that end
    themselves (locale \<open>self_delimiting\<close>).
  \<^item> \<open>Output_Ring\<close>: \<open>pty/ring.rs\<close>, the retained output of a terminal. Reads are exact slices of
    everything ever written.
  \<^item> \<open>Relay_Protocol\<close>: \<open>protocol.rs\<close>. Messages and the text a device signs; round trips.
  \<^item> \<open>Relay_Limits\<close>: \<open>limits.rs\<close> and the parts of \<open>config.rs\<close> it uses. Slots, buckets, quotas; bounds on
    what gets through in any interval, pruning included. The daily quota holds while the days of
    the clock do not go back.
  \<^item> \<open>Relay_Hub\<close>: \<open>hub.rs\<close>. The directory of devices as a transition system: presence is faithful, only
    mutual devices are told anything, queues are bounded.
  \<^item> \<open>Relay_Server\<close>: \<open>server.rs\<close>, \<open>auth.rs\<close>, \<open>turn.rs\<close>, \<open>config.rs\<close>. Connections from accept to close
    around the shared state. A reachable server refines a reachable hub and a reachable limiter,
    so their theorems hold inside it. A connection that never proves a key leaves no trace.
  \<^item> \<open>Packet\<close>: \<open>packet.rs\<close>, \<open>device_info.rs\<close>. Packets and identities and their JSON.
  \<^item> \<open>Pairing\<close>: \<open>pairing.rs\<close>, \<open>pairing_transport.rs\<close>, the pair packets of \<open>daemon/packet_handler.rs\<close>. Two devices
    and a network that loses and repeats packets: nobody is paired without a user accepting or a
    code being scanned, since neither was last paired.
  \<^item> \<open>Pairing_QR\<close>: \<open>pairing_qr.rs\<close>. The life of the codes shown: each pairs at most one phone.
  \<^item> \<open>Signaling\<close>, \<open>Envelope\<close>, \<open>Handover\<close>: \<open>webrtc/signaling.rs\<close>, \<open>webrtc/mod.rs\<close>, \<open>webrtc/handover.rs\<close>. Signed
    messages, packets in their envelopes, and the stages after which features may run.
  \<^item> \<open>Session_Core\<close>, \<open>Device_Manager\<close>: \<open>core/*.rs\<close>. Sessions, bindings and their links, with link races and
    the replay cache: a stale connection can do nothing.
  \<^item> \<open>Relay_Link\<close>: \<open>relay_link/crypto.rs\<close>, \<open>relay_link/handshake.rs\<close>. The end-to-end session between two
    devices through a relay that chooses every message.
  \<^item> \<open>Texts\<close>: what the code uses of Rust's strings (characters, splitting, trimming).
  \<^item> \<open>File_Frames\<close>: \<open>webrtc/file_protocol.rs\<close>. The control messages of a file transfer with their checks,
    names and paths, and the binary frames, read exactly as they are written.
  \<^item> \<open>File_Receive\<close>: \<open>webrtc/transfer_manager/recv.rs\<close>, \<open>store.rs\<close>. Incoming transfers with any messages and any
    answers of the disk: what is handed on is whole if the checkpoints resumed from told the truth, as
    a checkpoint does while the blocks it was taken of are intact. A stale one does not, and is
    resumed from all the same (\<open>stale_checkpoint\<close>, \<open>stale_resume_hands_on_other_bytes\<close>).
  \<^item> \<open>File_Send\<close>: \<open>webrtc/transfer_manager/send.rs\<close>. The outgoing side, and both ends together: an
    undisturbed transfer completes from any state of the receiver that truthful checkpoints lead to.
  \<^item> \<open>Folders\<close>: \<open>folders.rs\<close>. Synced folders: the plan each
    side makes from the two manifests replaces no version that is not below the other, and both
    sides converge, conflict copies included; the engine that carries a plan out settles each path
    or keeps it and says so, whatever the file system answers; scans, case clashes and the shape of
    paths. An edit made between two exchanges can still be lost (\<open>conflict_beats_later_edit\<close>).
  \<^item> \<open>Locking\<close>: \<open>unlock.rs\<close>, \<open>walk_away.rs\<close>. One-time approvals, and the lock over a phone that left.
  \<^item> \<open>Notes\<close>: \<open>notes.rs\<close>. Snippets and notes edited on several devices: merging keeps every text unless
    its copy's id is taken, both sides agree unless two siblings tie, any number of edits is
    recognised by a phone that was away, duplicates go only where a twin stays, and what the shelf
    holds keeps its shape. The two exceptions are lemmas (\<open>copy_id_taken_loses_text\<close>, \<open>notes_tie_diverges\<close>).
  \<^item> \<open>Guards\<close>: \<open>limits.rs\<close>, \<open>lan_scope.rs\<close>, \<open>daemon/validation.rs\<close>. What a peer can make the daemon do is
    bounded, and which phones count as nearby.
  \<^item> \<open>Resync\<close>: \<open>sync.rs\<close>, with the handlers of \<open>daemon/packet_handler.rs\<close> and the jobs of
    \<open>desk_features.rs\<close> that use it. Of notifications, activity and media only what the other side still
    has by the packets it got is left out after a reconnection; of notes and snippets that is not
    so (\<open>last_part_claims_index\<close>, \<open>dropped_part_claims_index\<close>). The snapshots go once.
  \<^item> \<open>Terminal_Wire\<close>: \<open>webrtc/terminal_protocol.rs\<close>. The messages of shared terminals: every check of a
    control message, and the binary chunks, read exactly as they are written.

  \<^bold>\<open>How the code corresponds.\<close> A Rust struct is a record, an enum a datatype, a method a function
  from the state to its result and the next state. A component that is used from several tasks
  behind one mutex (the hub, the limiter, the device manager) is a transition system with one step
  for each critical section, so that its theorems hold for every interleaving. The relay server is
  coarser: a step is a whole turn of one connection's loop, in which the code takes the locks of
  the hub, the limits and the quota one after the other, so interleavings inside a turn are not
  covered by the theorems about it. A \<open>HashMap\<close> is a map; where the code iterates over one the
  order is an argument (\<open>iter\<close>). A clock is an argument of the operation that reads it, \<open>Instant\<close>
  and \<open>Duration\<close> are counted in their smallest unit, and what OpenSSL, \<open>serde_json\<close>, base64 and the
  operating system's random source do is an argument too, with their documented behaviour as a
  hypothesis only where a theorem needs it.

  \<^bold>\<open>Bounds.\<close> Integers keep their width where the code relies on it (the hub's and the limiter's
  saturating and wrapping counters, the ring's offsets, \<open>i64\<close> timestamps). Counters that would
  need centuries to reach their end (connection, session and frame numbers) are natural numbers;
  where a theorem depends on it the bound is a hypothesis. Loops end by structure or by a measure
  (the key expansion by its \<open>u8\<close> block counter); the one counted loop is \<open>Notes.follow\<close>, which gets as
  many steps as there are copies to delete, and \<open>Notes.follow_enough\<close> proves them enough. The schedule
  of \<open>File_Send.exchange\<close> counts frames; as many as the file has bytes are enough.

  \<^bold>\<open>Not modelled.\<close> Sockets, TLS, WebSocket framing, mDNS, GStreamer, GTK and D-Bus: their code is in
  libraries or only calls them. The feature modules that translate a packet into one call of a
  desktop service have no state of their own. Left out for now: the relay client's loop and the
  feature registry. Of the file transfers, the queue of
  sends, placing a finished file and the TCP lane itself. Of
  the folders, the storage of pairs and the packets that announce them; of the notes, their sealed
  file and the lists the window shows.
\<close>

end
